(* ===== verification/Prelude.thy ===== *)
theory Prelude
  imports Main "HOL-Library.Word" "HOL-Library.Multiset"
begin

text \<open>
  The vocabulary shared by every component: Rust's results, its checked, saturating and
  wrapping machine arithmetic, strings as sequences of Unicode scalar values, the
  fixed-capacity slot arrays \<^verbatim>\<open>[Option<T>; N]\<close> in which ExpOS keeps all of its state, and
  the two interfaces built on them: a bounded table and a table with keys. A generic notion of
  reachable state and the invariant rule close the theory.
\<close>

named_theorems slot_simps \<open>rewriting of slot arrays\<close>

section \<open>Machine integers and results\<close>

type_synonym u8 = "8 word"
type_synonym u16 = "16 word"
type_synonym u32 = "32 word"
type_synonym u64 = "64 word"

type_synonym ('e, 'a) result = "'e + 'a"

abbreviation Err :: "'e \<Rightarrow> ('e, 'a) result" where
  "Err \<equiv> Inl"

abbreviation Ok :: "'a \<Rightarrow> ('e, 'a) result" where
  "Ok \<equiv> Inr"

definition is_ok :: "('e, 'a) result \<Rightarrow> bool" where
  "is_ok r = (case r of Err _ \<Rightarrow> False | Ok _ \<Rightarrow> True)"

text \<open>
  \<^verbatim>\<open>checked_add\<close>, \<^verbatim>\<open>checked_sub\<close>, \<^verbatim>\<open>saturating_add\<close>, \<^verbatim>\<open>saturating_sub\<close> of the unsigned integers,
  and the idiom \<^verbatim>\<open>x.wrapping_add(1).max(1)\<close> by which ExpOS advances its identifiers
  past zero.
\<close>

definition checked_add :: "'a::len word \<Rightarrow> 'a word \<Rightarrow> 'a word option" where
  "checked_add a b = (if unat a + unat b < 2 ^ LENGTH('a) then Some (a + b) else None)"

definition checked_sub :: "'a::len word \<Rightarrow> 'a word \<Rightarrow> 'a word option" where
  "checked_sub a b = (if b \<le> a then Some (a - b) else None)"

definition saturating_add :: "'a::len word \<Rightarrow> 'a word \<Rightarrow> 'a word" where
  "saturating_add a b = (if unat a + unat b < 2 ^ LENGTH('a) then a + b else - 1)"

definition saturating_sub :: "'a::len word \<Rightarrow> 'a word \<Rightarrow> 'a word" where
  "saturating_sub a b = (if b \<le> a then a - b else 0)"

definition next_nonzero :: "'a::len word \<Rightarrow> 'a word" where
  "next_nonzero x = max (x + 1) 1"

text \<open>Sizes (\<^verbatim>\<open>usize\<close>, 64 bits on every ExpOS target) are natural numbers below this bound.\<close>

definition usize_limit :: nat where
  "usize_limit = 2 ^ 64"

definition usize_add :: "nat \<Rightarrow> nat \<Rightarrow> nat option" where
  "usize_add a b = (if a + b < usize_limit then Some (a + b) else None)"

definition usize_mul :: "nat \<Rightarrow> nat \<Rightarrow> nat option" where
  "usize_mul a b = (if a * b < usize_limit then Some (a * b) else None)"

lemma checked_add_Some:
  "checked_add a b = Some c \<longleftrightarrow> unat a + unat b < 2 ^ LENGTH('a) \<and> c = a + b"
  for a :: "'a::len word"
  by (auto simp: checked_add_def)

lemma checked_add_unat: "checked_add a b = Some c \<Longrightarrow> unat c = unat a + unat b"
  by (auto simp: checked_add_Some unat_word_ariths)

text \<open>Evaluation of the checked operations by word arithmetic, as the processor does it.\<close>

lemma word_add_overflow: "a + b < a \<longleftrightarrow> 2 ^ LENGTH('a) \<le> unat a + unat b" for a b :: "'a::len word"
proof (cases "unat a + unat b < 2 ^ LENGTH('a)")
  case True
  then show ?thesis by (simp add: word_less_nat_alt unat_word_ariths)
next
  case False
  have "unat b < 2 ^ LENGTH('a)" by (rule unsigned_less)
  with False obtain c where c: "unat a + unat b = c + 2 ^ LENGTH('a)" "c < unat a"
    by (metis (no_types, lifting) add_less_cancel_left add.commute le_add_diff_inverse2 linorder_not_less)
  then have "(unat a + unat b) mod 2 ^ LENGTH('a) = c"
    using less_trans [OF c(2) unsigned_less] by simp
  then show ?thesis using False c by (simp add: word_less_nat_alt unat_word_ariths)
qed

lemma checked_add_code [code]: "checked_add a b = (if a + b < a then None else Some (a + b))"
  by (simp add: checked_add_def word_add_overflow)

lemma saturating_add_code [code]: "saturating_add a b = (if a + b < a then - 1 else a + b)"
  by (simp add: saturating_add_def word_add_overflow)

lemma checked_sub_Some: "checked_sub a b = Some c \<longleftrightarrow> b \<le> a \<and> c = a - b"
  by (auto simp: checked_sub_def)

lemma checked_sub_unat: "checked_sub a b = Some c \<Longrightarrow> unat c + unat b = unat a"
  by (auto simp: checked_sub_Some unat_sub word_le_nat_alt)

lemma saturating_add_ge: "a \<le> saturating_add a b"
proof (cases "unat a + unat b < 2 ^ LENGTH('a)")
  case True
  then show ?thesis
    by (simp add: saturating_add_def word_le_nat_alt unat_word_ariths)
next
  case False
  then show ?thesis by (simp add: saturating_add_def)
qed

lemma next_nonzero_neq_0 [simp]: "next_nonzero x \<noteq> 0"
  by (metis linorder_not_le max.cobounded2 next_nonzero_def word_gt_0 zero_neq_one
      word_le_0_iff)

lemma unat_bound: "unat (x :: 'a::len word) < 2 ^ LENGTH('a)"
  by (rule unsigned_less)

lemma mod_shift_inject:
  assumes "(a + x) mod m = (a + y) mod m" and "x < m" and "y < (m :: nat)"
  shows "x = y"
proof -
  have "x = y" if "x \<le> y" "(a + x) mod m = (a + y) mod m" "y < m" for x y
  proof -
    have "m dvd (a + y) - (a + x)" using that by (metis mod_eq_dvd_iff_nat nat_add_left_cancel_le)
    then have "m dvd y - x" by simp
    then show "x = y" using that by (metis dvd_imp_le diff_le_self le_antisym leD le_trans less_imp_diff_less
      zero_less_diff not_le)
  qed
  from this [of x y] this [of y x] assms show ?thesis by (cases "x \<le> y") auto
qed

lemma unat_minus_one: "unat (- 1 :: 'a::len word) = 2 ^ LENGTH('a) - 1"
  by (simp add: unsigned_minus_1_eq_mask mask_eq_exp_minus_1)

lemma unat_saturating_add:
  "unat (saturating_add a b) = min (unat a + unat b) (2 ^ LENGTH('a) - 1)" for a b :: "'a::len word"
  by (auto simp: saturating_add_def unat_minus_one unat_word_ariths min_def)

lemma unat_min: "unat (min a b) = min (unat a) (unat b)" for a b :: "'a::len word"
  by (simp add: min_def word_le_nat_alt)

section \<open>Strings\<close>

text \<open>
  A Rust \<^verbatim>\<open>&str\<close> is a sequence of Unicode scalar values, here natural numbers; \<open>lit\<close> gives
  the value of an ASCII literal. \<^verbatim>\<open>len\<close> counts the bytes of the UTF-8 encoding.
\<close>

type_synonym str = "nat list"

definition lit :: "string \<Rightarrow> str" where
  "lit s = map of_char s"

definition utf8_width :: "nat \<Rightarrow> nat" where
  "utf8_width c = (if c < 128 then 1 else if c < 2048 then 2 else if c < 65536 then 3 else 4)"

definition str_len :: "str \<Rightarrow> nat" where
  "str_len s = sum_list (map utf8_width s)"

definition is_ascii :: "str \<Rightarrow> bool" where
  "is_ascii s = list_all (\<lambda>c. c < 128) s"

text \<open>\<^verbatim>\<open>char::is_whitespace\<close>: the Unicode property White_Space.\<close>

definition is_whitespace :: "nat \<Rightarrow> bool" where
  "is_whitespace c \<longleftrightarrow> 9 \<le> c \<and> c \<le> 13 \<or> c = 32 \<or> c = 133 \<or> c = 160 \<or> c = 5760
     \<or> 8192 \<le> c \<and> c \<le> 8202 \<or> c = 8232 \<or> c = 8233 \<or> c = 8239 \<or> c = 8287 \<or> c = 12288"

definition trim_start :: "str \<Rightarrow> str" where
  "trim_start s = dropWhile is_whitespace s"

definition trim :: "str \<Rightarrow> str" where
  "trim s = rev (dropWhile is_whitespace (rev (dropWhile is_whitespace s)))"

text \<open>
  \<^verbatim>\<open>str::lines\<close>: pieces ended by a line feed, with one carriage return before it removed; a
  last piece without line feed is kept as it is, an empty one is not a line.
\<close>

definition strip_cr :: "str \<Rightarrow> str" where
  "strip_cr s = (if s \<noteq> [] \<and> last s = 13 then butlast s else s)"

fun lines_from :: "str \<Rightarrow> str \<Rightarrow> str list" where
  "lines_from acc [] = (if acc = [] then [] else [rev acc])"
| "lines_from acc (c # cs) =
     (if c = 10 then strip_cr (rev acc) # lines_from [] cs else lines_from (c # acc) cs)"

definition str_lines :: "str \<Rightarrow> str list" where
  "str_lines s = lines_from [] s"

text \<open>\<^verbatim>\<open>str::split_once\<close> at a character.\<close>

fun split_once :: "nat \<Rightarrow> str \<Rightarrow> (str \<times> str) option" where
  "split_once d [] = None"
| "split_once d (c # cs) =
     (if c = d then Some ([], cs) else map_option (\<lambda>(a, b). (c # a, b)) (split_once d cs))"

lemma str_len_ascii: "is_ascii s \<Longrightarrow> str_len s = length s"
  by (induction s) (auto simp: is_ascii_def str_len_def utf8_width_def)

lemma set_trim: "set (trim s) \<subseteq> set s"
  by (auto simp: trim_def dest!: set_dropWhileD)

lemma trim_ascii: "is_ascii s \<Longrightarrow> is_ascii (trim s)"
  using set_trim by (auto simp: is_ascii_def list_all_iff)

lemma trim_idem [simp]: "trim (trim s) = trim s"
proof -
  let ?W = is_whitespace
  let ?a = "dropWhile ?W s"
  let ?b = "rev (dropWhile ?W (rev ?a))"
  have "dropWhile ?W ?b = ?b"
  proof (cases "?b = []")
    case True
    then show ?thesis by (simp only: dropWhile.simps)
  next
    case False
    have "\<exists>ys. ?a = ?b @ ys"
      by (metis rev_append rev_rev_ident takeWhile_dropWhile_id)
    with False have "hd ?a = hd ?b" and "?a \<noteq> []"
      by (metis hd_append2, metis append_is_Nil_conv)
    then have "\<not> ?W (hd ?b)" using hd_dropWhile by metis
    with False show ?thesis by (metis dropWhile_eq_self_iff)
  qed
  moreover have "dropWhile ?W (rev ?b) = rev ?b" by (simp add: dropWhile_idem)
  ultimately show ?thesis by (simp add: trim_def)
qed

lemma is_ok_simps [simp]: "is_ok (Ok x)" "\<not> is_ok (Err e)"
  by (simp_all add: is_ok_def)

lemma ok_pair:
  assumes "\<not> isl r"
  obtains a b where "r = Ok (a, b)"
  using assms that by (cases r; cases "projr r") auto

end
