(* ===== verification/Slots.thy ===== *)
theory Slots
  imports Prelude
begin

text \<open>
  Slot arrays \<^verbatim>\<open>[Option<T>; N]\<close>: a list of optional entries of fixed length. The operations are
  the iterator idioms of the source (\<^verbatim>\<open>iter().flatten()\<close>, \<^verbatim>\<open>iter_mut().find(|slot| slot.is_none())\<close>,
  \<^verbatim>\<open>iter_mut().flatten().find(p)\<close>, \<^verbatim>\<open>position\<close>, \<^verbatim>\<open>max_by_key\<close>). The interface \<open>bounded_table\<close>
  states what the components rely on when they publish an entry; \<open>keyed_table\<close> adds a key
  and proves, once, that guarded publication keeps keys unique and how lookups change.
  \<open>reachable\<close> and the rule for invariants serve the components that are state machines.
\<close>

section \<open>Slot arrays\<close>

type_synonym 'a slots = "'a option list"

definition empty_slots :: "nat \<Rightarrow> 'a slots" where
  "empty_slots n = replicate n None"

fun flatten :: "'a slots \<Rightarrow> 'a list" where
  "flatten [] = []"
| "flatten (None # xs) = flatten xs"
| "flatten (Some x # xs) = x # flatten xs"

text \<open>Store into the first empty slot, or fail when every slot is taken.\<close>

fun fill_slot :: "'a \<Rightarrow> 'a slots \<Rightarrow> 'a slots option" where
  "fill_slot x [] = None"
| "fill_slot x (None # xs) = Some (Some x # xs)"
| "fill_slot x (Some y # xs) = map_option ((#) (Some y)) (fill_slot x xs)"

text \<open>Change the first entry that satisfies a predicate, or empty its slot.\<close>

fun update_first :: "('a \<Rightarrow> bool) \<Rightarrow> ('a \<Rightarrow> 'a) \<Rightarrow> 'a slots \<Rightarrow> 'a slots" where
  "update_first P f [] = []"
| "update_first P f (None # xs) = None # update_first P f xs"
| "update_first P f (Some x # xs) =
     (if P x then Some (f x) # xs else Some x # update_first P f xs)"

fun clear_first :: "('a \<Rightarrow> bool) \<Rightarrow> 'a slots \<Rightarrow> 'a slots" where
  "clear_first P [] = []"
| "clear_first P (None # xs) = None # clear_first P xs"
| "clear_first P (Some x # xs) = (if P x then None # xs else Some x # clear_first P xs)"

text \<open>Index of the first slot that satisfies a predicate (\<^verbatim>\<open>position\<close>).\<close>

fun position :: "('a \<Rightarrow> bool) \<Rightarrow> 'a list \<Rightarrow> nat option" where
  "position P [] = None"
| "position P (x # xs) = (if P x then Some 0 else map_option Suc (position P xs))"

definition free_count :: "'a slots \<Rightarrow> nat" where
  "free_count xs = length (filter (\<lambda>s. s = None) xs)"

text \<open>\<^verbatim>\<open>max_by_key\<close> returns the last of several greatest elements, \<^verbatim>\<open>min_by_key\<close> the first of the least.\<close>

fun max_by_key :: "('a \<Rightarrow> 'k::linorder) \<Rightarrow> 'a list \<Rightarrow> 'a option" where
  "max_by_key k [] = None"
| "max_by_key k (x # xs) =
     (case max_by_key k xs of None \<Rightarrow> Some x | Some y \<Rightarrow> if k x \<le> k y then Some y else Some x)"

fun min_by_key :: "('a \<Rightarrow> 'k::linorder) \<Rightarrow> 'a list \<Rightarrow> 'a option" where
  "min_by_key k [] = None"
| "min_by_key k (x # xs) =
     (case min_by_key k xs of None \<Rightarrow> Some x | Some y \<Rightarrow> if k x \<le> k y then Some x else Some y)"

subsection \<open>Laws\<close>

lemma find_SomeD: "find P xs = Some x \<Longrightarrow> x \<in> set xs \<and> P x"
  by (auto simp: find_Some_iff)

lemma find_key_None: "find (\<lambda>x. key x = k) xs = None \<longleftrightarrow> k \<notin> key ` set xs"
  by (induction xs) auto

lemma find_key_Some: "find (\<lambda>x. key x = k) xs = Some x \<Longrightarrow> x \<in> set xs \<and> key x = k \<and> k \<in> key ` set xs"
  by (induction xs) (auto split: if_splits)

lemma list_ex_key: "list_ex (\<lambda>x. key x = k) xs \<longleftrightarrow> k \<in> key ` set xs"
  by (induction xs) auto

lemma find_set_unique:
  assumes set: "set xs = set ys" and uniq: "\<And>a b. a \<in> set ys \<Longrightarrow> b \<in> set ys \<Longrightarrow> P a \<Longrightarrow> P b \<Longrightarrow> a = b"
  shows "find P xs = find P ys"
proof (cases "find P ys")
  case None
  then have "find P xs = None" using set by (simp add: find_None_iff)
  with None show ?thesis by simp
next
  case (Some c)
  then have c: "c \<in> set ys" "P c" using find_SomeD [OF Some] by simp_all
  obtain d where d: "find P xs = Some d"
    using c set by (cases "find P xs") (auto simp: find_None_iff)
  then have "d \<in> set ys" "P d" using find_SomeD [OF d] set by simp_all
  with c have "d = c" by (intro uniq)
  with d Some show ?thesis by simp
qed

lemma flatten_append [simp]: "flatten (xs @ ys) = flatten xs @ flatten ys"
  by (induction xs rule: flatten.induct) auto

lemma flatten_map_Some [simp]: "flatten (map Some xs) = xs"
  by (induction xs) auto

lemma set_flatten: "x \<in> set (flatten xs) \<longleftrightarrow> Some x \<in> set xs"
  by (induction xs rule: flatten.induct) auto

lemma flatten_empty_slots [simp]: "flatten (empty_slots n) = []"
  by (induction n) (auto simp: empty_slots_def)

lemma length_empty_slots [simp]: "length (empty_slots n) = n"
  by (simp add: empty_slots_def)

lemma empty_slots_Suc: "empty_slots (Suc n) = None # empty_slots n"
  by (simp add: empty_slots_def)

lemma fill_empty_slots: "0 < n \<Longrightarrow> fill_slot x (empty_slots n) = Some (Some x # empty_slots (n - 1))"
  by (cases n) (auto simp: empty_slots_Suc)

lemma length_flatten: "length (flatten xs) + free_count xs = length xs"
  by (induction xs rule: flatten.induct) (auto simp: free_count_def)

lemma length_flatten_le: "length (flatten xs) \<le> length xs"
  using length_flatten [of xs] by simp

lemma fill_slot_split:
  "fill_slot x xs = Some ys \<Longrightarrow>
     \<exists>as bs. xs = as @ None # bs \<and> None \<notin> set as \<and> ys = as @ Some x # bs"
proof (induction x xs arbitrary: ys rule: fill_slot.induct)
  case (2 x xs)
  then have "None # xs = [] @ None # xs \<and> None \<notin> set [] \<and> ys = [] @ Some x # xs" by simp
  then show ?case by blast
next
  case (3 x y xs)
  then obtain zs where "fill_slot x xs = Some zs" "ys = Some y # zs" by auto
  with 3 obtain as bs where "xs = as @ None # bs" "None \<notin> set as" "zs = as @ Some x # bs"
    by blast
  with \<open>ys = Some y # zs\<close>
  have "Some y # xs = (Some y # as) @ None # bs \<and> None \<notin> set (Some y # as) \<and>
    ys = (Some y # as) @ Some x # bs" by simp
  then show ?case by blast
qed simp

lemma fill_slot_at: "None \<notin> set as \<Longrightarrow> fill_slot x (as @ None # bs) = Some (as @ Some x # bs)"
proof (induction as)
  case (Cons a as)
  then show ?case by (cases a) auto
qed simp

lemma fill_slot_None: "fill_slot x xs = None \<longleftrightarrow> None \<notin> set xs"
  by (induction x xs rule: fill_slot.induct) auto

lemma fill_slot_full: "fill_slot x xs = None \<longleftrightarrow> length (flatten xs) = length xs"
proof -
  have "fill_slot x xs = None \<longleftrightarrow> free_count xs = 0"
    unfolding fill_slot_None free_count_def length_0_conv filter_empty_conv by metis
  then show ?thesis using length_flatten [of xs] by auto
qed

lemma fill_slot_length: "fill_slot x xs = Some ys \<Longrightarrow> length ys = length xs"
  by (auto dest!: fill_slot_split)

lemma fill_slot_mset:
  "fill_slot x xs = Some ys \<Longrightarrow> mset (flatten ys) = add_mset x (mset (flatten xs))"
  by (auto dest!: fill_slot_split)

lemma fill_slot_set:
  "fill_slot x xs = Some ys \<Longrightarrow> set (flatten ys) = insert x (set (flatten xs))"
  by (auto dest!: fill_slot_split)

lemma fill_slot_free: "fill_slot x xs = Some ys \<Longrightarrow> free_count xs = Suc (free_count ys)"
  by (auto dest!: fill_slot_split simp: free_count_def)

lemma length_update_first [simp]: "length (update_first P f xs) = length xs"
  by (induction P f xs rule: update_first.induct) auto

lemma flatten_update_first_map:
  "(\<And>x. g (f x) = g x) \<Longrightarrow> map g (flatten (update_first P f xs)) = map g (flatten xs)"
  by (induction P f xs rule: update_first.induct) auto

lemma update_first_none:
  "(\<And>x. x \<in> set (flatten xs) \<Longrightarrow> \<not> P x) \<Longrightarrow> update_first P f xs = xs"
  by (induction P f xs rule: update_first.induct) auto

lemma update_first_mem:
  "y \<in> set (flatten (update_first P f xs)) \<Longrightarrow>
     y \<in> set (flatten xs) \<or> (\<exists>x. x \<in> set (flatten xs) \<and> P x \<and> y = f x)"
  by (induction P f xs rule: update_first.induct) (auto split: if_splits)

lemma update_first_key:
  "distinct (map key (flatten xs)) \<Longrightarrow>
     flatten (update_first (\<lambda>x. key x = k) f xs) = map (\<lambda>x. if key x = k then f x else x) (flatten xs)"
proof (induction xs rule: flatten.induct)
  case (3 x xs)
  show ?case
  proof (cases "key x = k")
    case True
    then have "k \<notin> key ` set (flatten xs)" using 3 by auto
    then have "map (\<lambda>x. if key x = k then f x else x) (flatten xs) = flatten xs"
      by (intro map_idI) auto
    with True show ?thesis by simp
  qed (use 3 in simp)
qed simp_all

lemma update_first_unique:
  "distinct (map key (flatten xs)) \<Longrightarrow> find (\<lambda>x. key x = k) (flatten xs) = Some c \<Longrightarrow>
     update_first (\<lambda>x. key x = k) f xs = map (\<lambda>y. if y = Some c then Some (f c) else y) xs"
proof (induction xs rule: flatten.induct)
  case (3 x xs)
  show ?case
  proof (cases "key x = k")
    case True
    have "y \<noteq> Some x" if "y \<in> set xs" for y
      using 3(2) that set_flatten [of x xs] by auto
    then show ?thesis using True 3(3) by (auto simp: map_idI)
  next
    case False
    then have "c \<noteq> x" using 3(3) find_SomeD [of "\<lambda>x. key x = k" "flatten xs" c] by auto
    then show ?thesis using False 3 by simp
  qed
qed auto

lemma map_key_replace:
  assumes "i < length xs" "xs ! i = Some c" "key d = key c"
  shows "map key (flatten (xs[i := Some d])) = map key (flatten xs)"
proof -
  have "xs = take i xs @ Some c # drop (Suc i) xs" using assms id_take_nth_drop by metis
  moreover have "xs[i := Some d] = take i xs @ Some d # drop (Suc i) xs" using assms upd_conv_take_nth_drop by metis
  ultimately show ?thesis using assms(3)
    by (metis (no_types, lifting) flatten.simps(3) flatten_append list.simps(9) map_append)
qed

lemma distinct_key_fresh:
  assumes "i < length xs" "distinct (map key (flatten xs))" "key d \<notin> key ` set (flatten xs)"
  shows "distinct (map key (flatten (xs[i := Some d])))"
proof -
  obtain as y bs where xs: "xs = as @ y # bs" "length as = i" using assms(1) by (metis id_take_nth_drop length_take min.absorb4)
  then have "xs[i := Some d] = as @ Some d # bs" by auto
  then show ?thesis using assms(2,3) xs(1) by (cases y) auto
qed

lemma clear_first_key:
  "distinct (map key (flatten xs)) \<Longrightarrow>
     flatten (clear_first (\<lambda>x. key x = k) xs) = filter (\<lambda>x. key x \<noteq> k) (flatten xs)"
proof (induction xs rule: flatten.induct)
  case (3 x xs)
  show ?case
  proof (cases "key x = k")
    case True
    then have "\<forall>y\<in>set (flatten xs). key y \<noteq> k" using 3 by (auto simp: image_iff)
    then have "filter (\<lambda>x. key x \<noteq> k) (flatten xs) = flatten xs" by (simp add: filter_id_conv)
    with True show ?thesis by simp
  qed (use 3 in simp)
qed simp_all

lemma length_clear_first [simp]: "length (clear_first P xs) = length xs"
  by (induction P xs rule: clear_first.induct) auto

lemma mset_clear_first:
  "mset (flatten (clear_first P xs)) =
     (case find P (flatten xs) of None \<Rightarrow> mset (flatten xs) | Some x \<Rightarrow> mset (flatten xs) - {#x#})"
proof (induction P xs rule: clear_first.induct)
  case (3 P x xs)
  show ?case
  proof (cases "P x")
    case False
    have "find P (flatten xs) = Some y \<Longrightarrow> y \<in># mset (flatten xs)" for y
      using find_SomeD [of P "flatten xs" y] by simp
    with 3 False show ?thesis
      by (auto split: option.splits)
  qed simp
qed (simp_all split: option.splits)

lemma position_Some:
  "position P xs = Some i \<longleftrightarrow> i < length xs \<and> P (xs ! i) \<and> (\<forall>j<i. \<not> P (xs ! j))"
proof (induction xs arbitrary: i)
  case (Cons x xs)
  then show ?case by (cases i) (auto simp: All_less_Suc2)
qed simp

lemma position_None: "position P xs = None \<longleftrightarrow> (\<forall>x\<in>set xs. \<not> P x)"
  by (induction xs) auto

lemma fill_slot_position:
  "fill_slot x xs = map_option (\<lambda>i. xs[i := Some x]) (position (\<lambda>s. s = None) xs)"
  by (induction x xs rule: fill_slot.induct) (auto simp: option.map_comp o_def)

lemma position_None_full:
  "position (\<lambda>s. s = None) xs = None \<longleftrightarrow> length (flatten xs) = length xs"
proof -
  have "position (\<lambda>s. s = None) xs = None \<longleftrightarrow> free_count xs = 0"
    by (auto simp: position_None free_count_def filter_empty_conv)
  then show ?thesis using length_flatten [of xs] by auto
qed

lemma max_by_key_None [simp]: "max_by_key k xs = None \<longleftrightarrow> xs = []"
  by (cases xs) (auto split: option.splits)

lemma max_by_key_Some:
  "max_by_key k xs = Some x \<Longrightarrow> x \<in> set xs \<and> (\<forall>y\<in>set xs. k y \<le> k x)"
proof (induction xs arbitrary: x)
  case (Cons z zs)
  show ?case
  proof (cases "max_by_key k zs")
    case None
    with Cons.prems show ?thesis by simp
  next
    case (Some w)
    with Cons.IH have "w \<in> set zs" "\<forall>y\<in>set zs. k y \<le> k w" by blast+
    with Some Cons.prems show ?thesis by (force split: if_splits)
  qed
qed simp

lemma max_by_key_unique:
  assumes "x \<in> set xs" and "\<And>y. y \<in> set xs \<Longrightarrow> y \<noteq> x \<Longrightarrow> k y < k x"
  shows "max_by_key k xs = Some x"
proof -
  obtain m where m: "max_by_key k xs = Some m"
    using assms(1) by (cases "max_by_key k xs") auto
  from max_by_key_Some [OF m] have "m \<in> set xs" "k x \<le> k m" using assms(1) by blast+
  with assms(2) have "m = x" by (meson leD)
  with m show ?thesis by simp
qed

lemma min_by_key_None [simp]: "min_by_key k xs = None \<longleftrightarrow> xs = []"
  by (cases xs) (auto split: option.splits)

lemma min_by_key_Some:
  "min_by_key k xs = Some x \<Longrightarrow> x \<in> set xs \<and> (\<forall>y\<in>set xs. k x \<le> k y)"
proof (induction xs arbitrary: x)
  case (Cons z zs)
  show ?case
  proof (cases "min_by_key k zs")
    case None
    with Cons.prems show ?thesis by simp
  next
    case (Some w)
    with Cons.IH have "w \<in> set zs" "\<forall>y\<in>set zs. k w \<le> k y" by blast+
    with Some Cons.prems show ?thesis by (force split: if_splits)
  qed
qed simp

section \<open>Interfaces\<close>

text \<open>
  What a component relies on when it publishes an entry in a table of bounded capacity: either
  the entry is added and nothing else changes, or the table is full.
\<close>

locale bounded_table =
  fixes entries :: "'t \<Rightarrow> 'a list"
    and publish :: "'a \<Rightarrow> 't \<Rightarrow> 't option"
    and wf_table :: "'t \<Rightarrow> bool"
    and capacity :: nat
  assumes publish_entries:
      "wf_table t \<Longrightarrow> publish x t = Some t' \<Longrightarrow> mset (entries t') = add_mset x (mset (entries t))"
    and publish_wf: "wf_table t \<Longrightarrow> publish x t = Some t' \<Longrightarrow> wf_table t'"
    and publish_full: "wf_table t \<Longrightarrow> publish x t = None \<longleftrightarrow> length (entries t) = capacity"
    and entries_bounded: "wf_table t \<Longrightarrow> length (entries t) \<le> capacity"
begin

lemma publish_set: "wf_table t \<Longrightarrow> publish x t = Some t' \<Longrightarrow> set (entries t') = insert x (set (entries t))"
  by (metis publish_entries set_mset_add_mset_insert set_mset_mset)

lemma publish_length: "wf_table t \<Longrightarrow> publish x t = Some t' \<Longrightarrow> length (entries t') = Suc (length (entries t))"
  by (metis publish_entries size_add_mset size_mset)

lemma publish_room: "wf_table t \<Longrightarrow> length (entries t) < capacity \<Longrightarrow> \<exists>t'. publish x t = Some t'"
  using publish_full [of t x] by (cases "publish x t") auto

end

text \<open>
  A table whose entries are found by a key. Publication guarded by the absence of the key keeps
  the keys distinct, finds the new entry under its key, and leaves every other lookup alone.
\<close>

locale keyed_table = bounded_table entries publish wf_table capacity
  for entries :: "'t \<Rightarrow> 'a list" and publish :: "'a \<Rightarrow> 't \<Rightarrow> 't option"
    and wf_table :: "'t \<Rightarrow> bool" and capacity :: nat +
  fixes key :: "'a \<Rightarrow> 'k"
begin

lemma publish_distinct:
  assumes "wf_table t" and "distinct (map key (entries t))"
    and "key x \<notin> key ` set (entries t)" and "publish x t = Some t'"
  shows "distinct (map key (entries t'))"
proof -
  have "mset (map key (entries t')) = mset (map key (x # entries t))"
    using publish_entries [OF assms(1,4)] by simp
  moreover have "distinct (map key (x # entries t))" using assms(2,3) by simp
  ultimately show ?thesis by (metis mset_eq_imp_distinct_iff)
qed

lemma find_key:
  assumes "distinct (map key (entries t))" and "x \<in> set (entries t)"
  shows "find (\<lambda>e. key e = key x) (entries t) = Some x"
proof -
  have "\<exists>y. find (\<lambda>e. key e = key x) (entries t) = Some y"
    using assms(2) by (cases "find (\<lambda>e. key e = key x) (entries t)") (auto simp: find_None_iff)
  then obtain y where y: "find (\<lambda>e. key e = key x) (entries t) = Some y" by blast
  then have "y \<in> set (entries t)" "key y = key x" by (auto simp: find_Some_iff)
  with assms have "y = x" by (auto simp: distinct_map dest: inj_onD)
  with y show ?thesis by simp
qed

lemma find_published:
  assumes "wf_table t" and "distinct (map key (entries t))"
    and "key x \<notin> key ` set (entries t)" and "publish x t = Some t'"
  shows "find (\<lambda>e. key e = k) (entries t') =
    (if k = key x then Some x else find (\<lambda>e. key e = k) (entries t))"
proof (cases "k \<in> key ` set (entries t')")
  case True
  then obtain e where e: "e \<in> set (entries t')" "k = key e" by blast
  have d: "distinct (map key (entries t'))" using assms by (rule publish_distinct)
  from e publish_set [OF assms(1,4)] have "e = x \<or> e \<in> set (entries t)" by blast
  then show ?thesis
  proof
    assume "e = x"
    then show ?thesis using find_key [OF d e(1)] e(2) by simp
  next
    assume old: "e \<in> set (entries t)"
    with assms(3) have "key e \<noteq> key x" by (metis imageI)
    then show ?thesis using find_key [OF d e(1)] find_key [OF assms(2) old] e(2) by simp
  qed
next
  case False
  then have "find (\<lambda>e. key e = k) (entries t') = None"
    "find (\<lambda>e. key e = k) (entries t) = None" "k \<noteq> key x"
    using publish_set [OF assms(1,4)] by (auto simp: find_None_iff)
  then show ?thesis by simp
qed

end

lemma slots_bounded_table: "bounded_table flatten fill_slot (\<lambda>t. length t = n) n"
proof unfold_locales
  fix x :: 'a and t t' :: "'a slots"
  assume len: "length t = n"
  show "fill_slot x t = None \<longleftrightarrow> length (flatten t) = n" using fill_slot_full len by metis
  show "length (flatten t) \<le> n" using length_flatten_le len by metis
  assume fill: "fill_slot x t = Some t'"
  show "mset (flatten t') = add_mset x (mset (flatten t))" using fill by (rule fill_slot_mset)
  show "length t' = n" using fill_slot_length [OF fill] len by simp
qed

lemma slots_keyed_table: "keyed_table flatten fill_slot (\<lambda>t. length t = n) n"
  by (rule keyed_table.intro) (rule slots_bounded_table)

text \<open>Reachable states of a machine with many transitions, and its invariants.\<close>

inductive reachable :: "('s \<Rightarrow> bool) \<Rightarrow> ('s \<Rightarrow> 's \<Rightarrow> bool) \<Rightarrow> 's \<Rightarrow> bool"
  for init :: "'s \<Rightarrow> bool" and step :: "'s \<Rightarrow> 's \<Rightarrow> bool" where
  reachable_init: "init s \<Longrightarrow> reachable init step s"
| reachable_step: "reachable init step s \<Longrightarrow> step s s' \<Longrightarrow> reachable init step s'"

lemma reachable_start: "reachable (\<lambda>s. s = s0) step s0"
  by (rule reachable_init) simp

lemma reachable_run: "step\<^sup>*\<^sup>* s0 s \<Longrightarrow> reachable (\<lambda>s. s = s0) step s"
  by (induction rule: rtranclp_induct) (auto intro: reachable_start reachable_step)

locale invariant_system =
  fixes init :: "'s \<Rightarrow> bool" and step :: "'s \<Rightarrow> 's \<Rightarrow> bool" and inv :: "'s \<Rightarrow> bool"
  assumes init_inv: "init s \<Longrightarrow> inv s"
    and step_inv: "inv s \<Longrightarrow> step s s' \<Longrightarrow> inv s'"
begin

lemma reachable_inv: "reachable init step s \<Longrightarrow> inv s"
  by (induction rule: reachable.induct) (auto intro: init_inv step_inv)

lemma run_inv: "step\<^sup>*\<^sup>* s s' \<Longrightarrow> inv s \<Longrightarrow> inv s'"
  by (induction rule: rtranclp_induct) (auto intro: step_inv)

end

end
