(* ===== verification/Identity.thy ===== *)
theory Identity
  imports Slots
begin

text \<open>
  Identity and names: \<^verbatim>\<open>fin.rs\<close> (the 128-bit Form Identification Number), the CFC identity of
  \<^verbatim>\<open>cfc.rs\<close>, which is a type of its own, and \<^verbatim>\<open>text.rs\<close> (bounded ASCII names). Identities are
  compared as byte arrays; the lemmas show that they are exactly the 128-bit numbers they are
  made from, that zero is the only zero identity, and that the printed form determines the
  identity.
\<close>

unbundle bit_operations_syntax

section \<open>Definitions\<close>

datatype fin = Fin (fin_bytes: "u8 list")

datatype cfc_fin = CfcFin (cfc_fin_bytes: "u8 list")

text \<open>\<^verbatim>\<open>u128::to_be_bytes\<close>: the most significant byte first.\<close>

definition to_be_bytes :: "128 word \<Rightarrow> u8 list" where
  "to_be_bytes v = map (\<lambda>i. ucast (drop_bit (8 * (15 - i)) v)) [0..<16]"

definition from_u128 :: "128 word \<Rightarrow> fin" where
  "from_u128 v = Fin (to_be_bytes v)"

definition cfc_from_u128 :: "128 word \<Rightarrow> cfc_fin" where
  "cfc_from_u128 v = CfcFin (to_be_bytes v)"

definition fin_ZERO :: fin where
  "fin_ZERO = Fin (replicate 16 0)"

definition cfc_fin_ZERO :: cfc_fin where
  "cfc_fin_ZERO = CfcFin (replicate 16 0)"

text \<open>The byte loop of \<^verbatim>\<open>is_zero\<close>, shared by both identity types.\<close>

fun bytes_zero :: "u8 list \<Rightarrow> bool" where
  "bytes_zero [] = True"
| "bytes_zero (b # bs) = (if b \<noteq> 0 then False else bytes_zero bs)"

definition is_zero :: "fin \<Rightarrow> bool" where
  "is_zero f = bytes_zero (fin_bytes f)"

definition cfc_is_zero :: "cfc_fin \<Rightarrow> bool" where
  "cfc_is_zero f = bytes_zero (cfc_fin_bytes f)"

text \<open>\<^verbatim>\<open>Display\<close>: upper-case hexadecimal with a dash after bytes 3, 5, 7 and 9.\<close>

definition hex_digit :: "nat \<Rightarrow> nat" where
  "hex_digit n = (if n < 10 then 48 + n else 55 + n)"

definition hex_byte :: "u8 \<Rightarrow> str" where
  "hex_byte b = [hex_digit (unat b div 16), hex_digit (unat b mod 16)]"

fun fmt_bytes :: "nat \<Rightarrow> u8 list \<Rightarrow> str" where
  "fmt_bytes index [] = []"
| "fmt_bytes index (byte # rest) =
     hex_byte byte @ (if index \<in> {3, 5, 7, 9} then [45] else []) @ fmt_bytes (Suc index) rest"

definition fin_fmt :: "fin \<Rightarrow> str" where
  "fin_fmt f = fmt_bytes 0 (fin_bytes f)"

definition cfc_fin_fmt :: "cfc_fin \<Rightarrow> str" where
  "cfc_fin_fmt f = fmt_bytes 0 (cfc_fin_bytes f)"

definition TEXT_CAPACITY :: nat where
  "TEXT_CAPACITY = 32"

record text_t =
  text_bytes :: "u8 list"
  text_len :: nat

datatype text_error = Empty | Invalid

definition text_empty :: text_t where
  "text_empty = \<lparr>text_bytes = replicate TEXT_CAPACITY 0, text_len = 0\<rparr>"

definition text_new :: "str \<Rightarrow> (text_error, text_t) result" where
  "text_new value =
     (if value = [] then Err Empty
      else if str_len value > TEXT_CAPACITY \<or> \<not> is_ascii value then Err Invalid
      else Ok (text_empty\<lparr>
        text_bytes := map of_nat value @ drop (length value) (text_bytes text_empty),
        text_len := length value\<rparr>))"

definition as_str :: "text_t \<Rightarrow> str" where
  "as_str t = map unat (take (text_len t) (text_bytes t))"

section \<open>Properties\<close>

lemma length_to_be_bytes [simp]: "length (to_be_bytes v) = 16"
  by (simp add: to_be_bytes_def)

lemma to_be_bytes_bit:
  assumes "n < 128"
  shows "bit v n = bit (to_be_bytes v ! (15 - n div 8)) (n mod 8)"
proof -
  have "15 - (15 - n div 8) = n div 8" using assms by auto
  then have "to_be_bytes v ! (15 - n div 8) = ucast (drop_bit (8 * (n div 8)) v)"
    using assms by (simp add: to_be_bytes_def)
  moreover have "8 * (n div 8) + n mod 8 = n" by simp
  ultimately show ?thesis
    by (simp add: bit_ucast_iff bit_drop_bit_eq)
qed

lemma to_be_bytes_inject [simp]: "to_be_bytes v = to_be_bytes w \<longleftrightarrow> v = w"
proof
  assume "to_be_bytes v = to_be_bytes w"
  then have "bit v n = bit w n" if "n < 128" for n
    using that by (simp add: to_be_bytes_bit)
  then show "v = w" by (intro bit_word_eqI) simp
qed simp

lemma bytes_zero_iff: "bytes_zero bs \<longleftrightarrow> bs = replicate (length bs) 0"
  by (induction bs) auto

lemma to_be_bytes_0: "to_be_bytes 0 = replicate 16 0"
  by (simp add: to_be_bytes_def map_replicate_const)

lemma bytes_zero_to_be_bytes: "bytes_zero (to_be_bytes v) \<longleftrightarrow> v = 0"
  by (simp add: bytes_zero_iff flip: to_be_bytes_0)

lemma from_u128_inject [simp]: "from_u128 v = from_u128 w \<longleftrightarrow> v = w"
  by (simp add: from_u128_def)

lemma cfc_from_u128_inject [simp]: "cfc_from_u128 v = cfc_from_u128 w \<longleftrightarrow> v = w"
  by (simp add: cfc_from_u128_def)

lemma is_zero_from_u128 [simp]: "is_zero (from_u128 v) \<longleftrightarrow> v = 0"
  by (simp add: is_zero_def from_u128_def bytes_zero_to_be_bytes)

lemma cfc_is_zero_from_u128 [simp]: "cfc_is_zero (cfc_from_u128 v) \<longleftrightarrow> v = 0"
  by (simp add: cfc_is_zero_def cfc_from_u128_def bytes_zero_to_be_bytes)

lemma hex_digit_inject: "m < 16 \<Longrightarrow> n < 16 \<Longrightarrow> hex_digit m = hex_digit n \<longleftrightarrow> m = n"
  by (auto simp: hex_digit_def split: if_splits)

lemma unat_u8_less [simp]: "unat (b :: u8) < 256"
  using unsigned_less [of b] by simp

lemma hex_byte_inject: "hex_byte a = hex_byte b \<longleftrightarrow> a = b"
proof
  assume "hex_byte a = hex_byte b"
  moreover have "unat a div 16 < 16" "unat b div 16 < 16"
    using unat_u8_less [of a] unat_u8_less [of b] by linarith+
  ultimately have "unat a div 16 = unat b div 16" "unat a mod 16 = unat b mod 16"
    by (simp_all add: hex_byte_def hex_digit_inject)
  then have "unat a = unat b" by (metis div_mult_mod_eq)
  then show "a = b" by (simp add: word_unat_eq_iff)
qed simp

lemma fmt_bytes_inject:
  "length as = length bs \<Longrightarrow> fmt_bytes i as = fmt_bytes i bs \<longleftrightarrow> as = bs"
proof (induction as bs arbitrary: i rule: list_induct2)
  case (Cons a as b bs)
  have "length (hex_byte a) = length (hex_byte b)" by (simp add: hex_byte_def)
  with Cons show ?case by (auto simp: hex_byte_inject)
qed simp

lemma text_new_Ok:
  "text_new s = Ok t \<longleftrightarrow> s \<noteq> [] \<and> is_ascii s \<and> length s \<le> TEXT_CAPACITY \<and>
     t = \<lparr>text_bytes = map of_nat s @ replicate (TEXT_CAPACITY - length s) 0, text_len = length s\<rparr>"
  by (auto simp: text_new_def text_empty_def str_len_ascii)

lemma as_str_text_new: "text_new s = Ok t \<Longrightarrow> as_str t = s"
proof -
  assume *: "text_new s = Ok t"
  then have "\<forall>c\<in>set s. c < 128" by (simp add: text_new_Ok is_ascii_def list_all_iff)
  then have "\<forall>c\<in>set s. unat (of_nat c :: u8) = c" by (auto simp: unat_of_nat)
  with * show ?thesis by (auto simp: text_new_Ok as_str_def map_idI)
qed

text \<open>an identity's printed form determines it: two 16-byte FINs that print alike are equal.\<close>

theorem fin_fmt_determines:
  assumes "length (fin_bytes f) = 16" and "length (fin_bytes g) = 16" and "fin_fmt f = fin_fmt g"
  shows "f = g"
  using assms fmt_bytes_inject [of "fin_bytes f" "fin_bytes g" 0]
  by (simp add: fin_fmt_def fin.expand)

theorem fin_fmt_determines_witness: "fin_fmt (from_u128 0) = fin_fmt fin_ZERO \<and> from_u128 0 = fin_ZERO"
proof -
  have "fin_fmt (from_u128 0) = fin_fmt fin_ZERO"
    by (simp add: from_u128_def fin_ZERO_def to_be_bytes_0)
  then show ?thesis
    using fin_fmt_determines [of "from_u128 0" fin_ZERO] by (simp add: from_u128_def fin_ZERO_def)
qed

end
