(* ===== verification/Capability.thy ===== *)
theory Capability
  imports Identity
begin

text \<open>
  \<^verbatim>\<open>capability.rs\<close>: operation sets, Form Handles, seals and the capability broker. \<^verbatim>\<open>issue_for\<close> and
  \<^verbatim>\<open>delegate\<close> advance the identifier counter even when they fail, so they return the result
  together with the broker; the other operations change the broker only when they succeed.
  \<^verbatim>\<open>new\<close> panics on a zero CFC, which is the value \<open>None\<close>. The lemmas establish the capability
  discipline: identifiers are unique and allocation never runs dry, delegation only narrows,
  revocation reaches exactly the descendants, an authorised Handle is backed by a live chain up
  to its root, and a seal is a monotonic ceiling.
\<close>

unbundle bit_operations_syntax

section \<open>Definitions\<close>

definition MAX_HANDLES :: nat where
  "MAX_HANDLES = 32"

definition MAX_SEALS :: nat where
  "MAX_SEALS = 16"

datatype authority = Operator | Power | Guest

type_synonym operations = u16

definition NONE :: operations where "NONE = 0"

definition READ :: operations where "READ = push_bit 0 1"

definition EXECUTE :: operations where "EXECUTE = push_bit 1 1"

definition CONFIGURE :: operations where "CONFIGURE = push_bit 2 1"

definition RELATE :: operations where "RELATE = push_bit 3 1"

definition RETIRE :: operations where "RETIRE = push_bit 4 1"

definition PACKAGE :: operations where "PACKAGE = push_bit 5 1"

definition DISPLAY :: operations where "DISPLAY = push_bit 6 1"

definition INPUT :: operations where "INPUT = push_bit 7 1"

definition NETWORK :: operations where "NETWORK = push_bit 8 1"

definition ops_union :: "operations \<Rightarrow> operations \<Rightarrow> operations" where
  "ops_union a b = (a OR b)"

definition ops_contains :: "operations \<Rightarrow> operations \<Rightarrow> bool" where
  "ops_contains a b \<longleftrightarrow> a AND b = b"

definition ops_from_bits :: "u16 \<Rightarrow> operations option" where
  "ops_from_bits bits = (if bits AND NOT 0x01FF = 0 then Some bits else None)"

record form_handle =
  h_id :: u32
  h_parent_id :: u32
  h_cfc :: cfc_fin
  h_requester :: fin
  h_target :: fin
  h_dimension :: fin
  h_operations :: operations
  h_valid_until_tick :: u64
  h_revoked :: bool

datatype capability_error =
    Denied
  | Full
  | NotFound
  | Revoked
  | Expired
  | WrongDimension
  | WrongCfc
  | OperationDenied
  | Amplification
  | Sealed
  | AlreadySealed
  | SealTableFull
  | Duplicate

record exp_seal =
  s_cfc :: cfc_fin
  s_requester :: fin
  s_dimension :: fin
  s_root_handle_limit :: u32

record capability_broker =
  b_cfc :: cfc_fin
  b_handles :: "form_handle slots"
  b_seals :: "exp_seal slots"
  b_next_id :: u32

definition broker_new :: "cfc_fin \<Rightarrow> capability_broker option" where
  "broker_new cfc =
     (if cfc_is_zero cfc then None
      else Some \<lparr>b_cfc = cfc, b_handles = empty_slots MAX_HANDLES,
        b_seals = empty_slots MAX_SEALS, b_next_id = 1\<rparr>)"

definition find_handle :: "capability_broker \<Rightarrow> u32 \<Rightarrow> form_handle option" where
  "find_handle b hid = find (\<lambda>h. h_id h = hid) (flatten (b_handles b))"

definition authorize ::
  "capability_broker \<Rightarrow> u32 \<Rightarrow> fin \<Rightarrow> fin \<Rightarrow> operations \<Rightarrow> u64 \<Rightarrow> (capability_error, unit) result" where
  "authorize b hid target dimension operation tick =
     (case find_handle b hid of
       None \<Rightarrow> Err NotFound
     | Some h \<Rightarrow>
        if h_revoked h then Err Revoked
        else if tick > h_valid_until_tick h then Err Expired
        else if h_target h \<noteq> target \<or> h_dimension h \<noteq> dimension then Err WrongDimension
        else if \<not> ops_contains (h_operations h) operation then Err OperationDenied
        else Ok ())"

definition authorize_in ::
  "capability_broker \<Rightarrow> cfc_fin \<Rightarrow> u32 \<Rightarrow> fin \<Rightarrow> fin \<Rightarrow> operations \<Rightarrow> u64 \<Rightarrow> (capability_error, unit) result" where
  "authorize_in b cfc hid target dimension operation tick =
     (if cfc \<noteq> b_cfc b then Err WrongCfc
      else (case find_handle b hid of
        None \<Rightarrow> Err NotFound
      | Some h \<Rightarrow>
         if h_cfc h \<noteq> cfc then Err WrongCfc
         else authorize b hid target dimension operation tick))"

definition authorize_requester ::
  "capability_broker \<Rightarrow> u32 \<Rightarrow> fin \<Rightarrow> fin \<Rightarrow> fin \<Rightarrow> operations \<Rightarrow> u64 \<Rightarrow> (capability_error, unit) result" where
  "authorize_requester b hid requester target dimension operation tick =
     (case authorize b hid target dimension operation tick of
       Err e \<Rightarrow> Err e
     | Ok _ \<Rightarrow> (case find_handle b hid of
         None \<Rightarrow> Err NotFound
       | Some h \<Rightarrow> if h_requester h \<noteq> requester then Err Denied else Ok ()))"

definition find_authorized ::
  "capability_broker \<Rightarrow> fin \<Rightarrow> fin \<Rightarrow> fin \<Rightarrow> operations \<Rightarrow> u64 \<Rightarrow> form_handle option" where
  "find_authorized b requester target dimension operations tick =
     find (\<lambda>h. h_requester h = requester \<and>
         is_ok (authorize_requester b (h_id h) requester target dimension operations tick))
       (flatten (b_handles b))"

text \<open>
  The parent check of \<^verbatim>\<open>restore\<close>: a persisted child must satisfy the complete attenuation rule.
\<close>

definition restore_parent :: "capability_broker \<Rightarrow> form_handle \<Rightarrow> (capability_error, unit) result" where
  "restore_parent b handle =
     (if h_parent_id handle \<noteq> 0 then
       (case find_handle b (h_parent_id handle) of
         None \<Rightarrow> Err NotFound
       | Some parent \<Rightarrow>
          if h_cfc parent \<noteq> h_cfc handle \<or> h_target parent \<noteq> h_target handle
            \<or> h_dimension parent \<noteq> h_dimension handle \<or> h_revoked parent
            \<or> \<not> ops_contains (h_operations parent) (h_operations handle)
            \<or> h_valid_until_tick handle > h_valid_until_tick parent
          then Err Amplification
          else if h_operations handle = h_operations parent
            \<and> h_valid_until_tick handle = h_valid_until_tick parent
          then Err Amplification
          else Ok ())
      else Ok ())"

definition restore :: "form_handle \<Rightarrow> capability_broker \<Rightarrow> (capability_error, capability_broker) result" where
  "restore handle b =
     (if h_cfc handle \<noteq> b_cfc b then Err WrongCfc
      else if h_id handle = 0 \<or> is_zero (h_requester handle) \<or> is_zero (h_target handle)
        \<or> is_zero (h_dimension handle) \<or> h_operations handle = NONE then Err Denied
      else if list_ex (\<lambda>entry. h_id entry = h_id handle) (flatten (b_handles b)) then Err Duplicate
      else (case restore_parent b handle of
        Err e \<Rightarrow> Err e
      | Ok _ \<Rightarrow> (case fill_slot handle (b_handles b) of
          None \<Rightarrow> Err Full
        | Some slots \<Rightarrow> Ok (b\<lparr>
            b_handles := slots,
            b_next_id := (if h_id handle = - 1 then max (b_next_id b) 1
              else max (b_next_id b) (h_id handle + 1))\<rparr>))))"

definition seal :: "capability_broker \<Rightarrow> fin \<Rightarrow> fin \<Rightarrow> exp_seal option" where
  "seal b requester dimension =
     find (\<lambda>s. s_requester s = requester \<and> s_dimension s = dimension) (flatten (b_seals b))"

definition is_sealed :: "capability_broker \<Rightarrow> fin \<Rightarrow> fin \<Rightarrow> bool" where
  "is_sealed b requester dimension \<longleftrightarrow> seal b requester dimension \<noteq> None"

text \<open>
  The \<^verbatim>\<open>for _ in 0..=MAX_HANDLES\<close> loop of \<^verbatim>\<open>allocate_id\<close>: at most 33 candidates are tried.
\<close>

fun allocate_loop :: "nat \<Rightarrow> capability_broker \<Rightarrow> (capability_error, u32) result \<times> capability_broker" where
  "allocate_loop 0 b = (Err Full, b)"
| "allocate_loop (Suc n) b =
     (let candidate = max (b_next_id b) 1;
          b' = b\<lparr>b_next_id := next_nonzero candidate\<rparr>
      in if list_ex (\<lambda>h. h_id h = candidate) (flatten (b_handles b')) then allocate_loop n b'
         else (Ok candidate, b'))"

definition allocate_id :: "capability_broker \<Rightarrow> (capability_error, u32) result \<times> capability_broker" where
  "allocate_id b = allocate_loop (MAX_HANDLES + 1) b"

definition permitted :: "authority \<Rightarrow> operations \<Rightarrow> bool" where
  "permitted auth operations =
     (case auth of
       Operator \<Rightarrow> True
     | Power \<Rightarrow> \<not> ops_contains operations RETIRE \<and> \<not> ops_contains operations CONFIGURE
     | Guest \<Rightarrow> operations \<noteq> 0 \<and> ops_contains READ operations)"

definition issue_for ::
  "fin \<Rightarrow> authority \<Rightarrow> fin \<Rightarrow> fin \<Rightarrow> operations \<Rightarrow> u64 \<Rightarrow> capability_broker
     \<Rightarrow> (capability_error, form_handle) result \<times> capability_broker" where
  "issue_for requester auth target dimension operations valid_until_tick b =
     (if is_sealed b requester dimension then (Err Sealed, b)
      else if \<not> permitted auth operations \<or> is_zero requester \<or> operations = NONE
        \<or> is_zero target \<or> is_zero dimension then (Err Denied, b)
      else (case position (\<lambda>s. s = None) (b_handles b) of
        None \<Rightarrow> (Err Full, b)
      | Some slot_index \<Rightarrow> (case allocate_id b of
          (Err e, b') \<Rightarrow> (Err e, b')
        | (Ok hid, b') \<Rightarrow>
           let handle = \<lparr>h_id = hid, h_parent_id = 0, h_cfc = b_cfc b', h_requester = requester,
             h_target = target, h_dimension = dimension, h_operations = operations,
             h_valid_until_tick = valid_until_tick, h_revoked = False\<rparr>
           in (Ok handle, b'\<lparr>b_handles := (b_handles b')[slot_index := Some handle]\<rparr>))))"

definition seal_context ::
  "fin \<Rightarrow> fin \<Rightarrow> capability_broker \<Rightarrow> (capability_error, exp_seal \<times> capability_broker) result" where
  "seal_context requester dimension b =
     (if is_zero requester \<or> is_zero dimension then Err Denied
      else if is_sealed b requester dimension then Err AlreadySealed
      else let new = \<lparr>s_cfc = b_cfc b, s_requester = requester, s_dimension = dimension,
             s_root_handle_limit = saturating_sub (b_next_id b) 1\<rparr>
           in (case fill_slot new (b_seals b) of
             None \<Rightarrow> Err SealTableFull
           | Some slots \<Rightarrow> Ok (new, b\<lparr>b_seals := slots\<rparr>)))"

definition delegate ::
  "u32 \<Rightarrow> fin \<Rightarrow> operations \<Rightarrow> u64 \<Rightarrow> u64 \<Rightarrow> capability_broker
     \<Rightarrow> (capability_error, form_handle) result \<times> capability_broker" where
  "delegate parent_id requester operations valid_until_tick tick b =
     (case find_handle b parent_id of
       None \<Rightarrow> (Err NotFound, b)
     | Some parent \<Rightarrow>
        if is_sealed b requester (h_dimension parent) \<and> requester \<noteq> h_requester parent
        then (Err Sealed, b)
        else (case authorize b (h_id parent) (h_target parent) (h_dimension parent) operations tick of
          Err e \<Rightarrow> (Err e, b)
        | Ok _ \<Rightarrow>
           if is_zero requester \<or> operations = NONE
             \<or> \<not> ops_contains (h_operations parent) operations
             \<or> valid_until_tick > h_valid_until_tick parent
             \<or> operations = h_operations parent \<and> valid_until_tick = h_valid_until_tick parent
           then (Err Amplification, b)
           else (case position (\<lambda>s. s = None) (b_handles b) of
             None \<Rightarrow> (Err Full, b)
           | Some slot_index \<Rightarrow> (case allocate_id b of
               (Err e, b') \<Rightarrow> (Err e, b')
             | (Ok hid, b') \<Rightarrow>
                let handle = \<lparr>h_id = hid, h_parent_id = h_id parent, h_cfc = b_cfc b',
                  h_requester = requester, h_target = h_target parent,
                  h_dimension = h_dimension parent, h_operations = operations,
                  h_valid_until_tick = valid_until_tick, h_revoked = False\<rparr>
                in (Ok handle, b'\<lparr>b_handles := (b_handles b')[slot_index := Some handle]\<rparr>)))))"

text \<open>
  \<^verbatim>\<open>revoke\<close> repeats passes over a snapshot of the table until a pass changes nothing. A pass
  revokes the named Handle and every Handle whose parent is revoked in the snapshot.
\<close>

definition due :: "u32 \<Rightarrow> form_handle list \<Rightarrow> form_handle \<Rightarrow> bool" where
  "due hid snapshot h \<longleftrightarrow>
     (h_id h = hid \<or>
      h_parent_id h \<noteq> 0 \<and> list_ex (\<lambda>p. h_id p = h_parent_id h \<and> h_revoked p) snapshot) \<and>
     \<not> h_revoked h"

definition revoke_pass :: "u32 \<Rightarrow> form_handle slots \<Rightarrow> form_handle slots" where
  "revoke_pass hid handles =
     map (map_option (\<lambda>h. if due hid (flatten handles) h then h\<lparr>h_revoked := True\<rparr> else h)) handles"

definition live_count :: "form_handle slots \<Rightarrow> nat" where
  "live_count handles = length (filter (\<lambda>h. \<not> h_revoked h) (flatten handles))"

lemma flatten_map_option: "flatten (map (map_option f) xs) = map f (flatten xs)"
  by (induction xs rule: flatten.induct) auto

lemma revoke_pass_progress:
  assumes "list_ex (due hid (flatten handles)) (flatten handles)"
  shows "live_count (revoke_pass hid handles) < live_count handles"
proof -
  let ?D = "due hid (flatten handles)" and ?hs = "flatten handles"
  let ?f = "\<lambda>h. if ?D h then h\<lparr>h_revoked := True\<rparr> else h"
  have "live_count (revoke_pass hid handles) = length (filter (\<lambda>h. \<not> h_revoked h \<and> \<not> ?D h) ?hs)"
    by (simp add: live_count_def revoke_pass_def flatten_map_option filter_map o_def)
      (metis (mono_tags, lifting) form_handle.select_convs(9) form_handle.surjective
         form_handle.update_convs(9))
  also have "\<dots> < length (filter (\<lambda>h. \<not> h_revoked h) ?hs)"
  proof -
    have "filter (\<lambda>h. \<not> h_revoked h \<and> \<not> ?D h) ?hs = filter (\<lambda>h. \<not> ?D h) (filter (\<lambda>h. \<not> h_revoked h) ?hs)"
      by (simp add: conj_commute)
    moreover obtain h where "h \<in> set (filter (\<lambda>h. \<not> h_revoked h) ?hs)" "?D h"
      using assms by (auto simp: list_ex_iff due_def)
    ultimately show ?thesis using length_filter_less by metis
  qed
  finally show ?thesis by (simp add: live_count_def)
qed

function revoke_loop :: "u32 \<Rightarrow> form_handle slots \<Rightarrow> form_handle slots" where
  "revoke_loop hid handles =
     (if list_ex (due hid (flatten handles)) (flatten handles)
      then revoke_loop hid (revoke_pass hid handles) else handles)"
  by pat_completeness auto
termination
  by (relation "measure (\<lambda>(hid, handles). live_count handles)") (auto intro: revoke_pass_progress)

declare revoke_loop.simps [simp del]

definition revoke :: "u32 \<Rightarrow> capability_broker \<Rightarrow> (capability_error, capability_broker) result" where
  "revoke hid b =
     (if \<not> list_ex (\<lambda>h. h_id h = hid) (flatten (b_handles b)) then Err NotFound
      else Ok (b\<lparr>b_handles := revoke_loop hid (b_handles b)\<rparr>))"

section \<open>Specification\<close>

text \<open>A child is a proper attenuation of its parent: same scope, no more rights, no longer life.\<close>

definition attenuates :: "form_handle \<Rightarrow> form_handle \<Rightarrow> bool" where
  "attenuates p h \<longleftrightarrow> h_cfc p = h_cfc h \<and> h_target p = h_target h \<and> h_dimension p = h_dimension h \<and>
     ops_contains (h_operations p) (h_operations h) \<and> h_valid_until_tick h \<le> h_valid_until_tick p \<and>
     \<not> (h_operations h = h_operations p \<and> h_valid_until_tick h = h_valid_until_tick p)"

definition handle_wf :: "capability_broker \<Rightarrow> form_handle \<Rightarrow> bool" where
  "handle_wf b h \<longleftrightarrow> h_id h \<noteq> 0 \<and> h_cfc h = b_cfc b \<and> \<not> is_zero (h_requester h) \<and>
     \<not> is_zero (h_target h) \<and> \<not> is_zero (h_dimension h) \<and> h_operations h \<noteq> NONE"

abbreviation handles_of :: "capability_broker \<Rightarrow> form_handle set" where
  "handles_of b \<equiv> set (flatten (b_handles b))"

definition parent_linked :: "form_handle set \<Rightarrow> form_handle \<Rightarrow> bool" where
  "parent_linked H h \<longleftrightarrow> (h_parent_id h \<noteq> 0 \<longrightarrow>
     (\<exists>p\<in>H. h_id p = h_parent_id h \<and> attenuates p h \<and> (h_revoked p \<longrightarrow> h_revoked h)))"

definition broker_inv :: "capability_broker \<Rightarrow> bool" where
  "broker_inv b \<longleftrightarrow> length (b_handles b) = MAX_HANDLES \<and> length (b_seals b) = MAX_SEALS \<and>
     distinct (map h_id (flatten (b_handles b))) \<and>
     (\<forall>h\<in>handles_of b. handle_wf b h) \<and> (\<forall>h\<in>handles_of b. parent_linked (handles_of b) h)"

text \<open>\<open>derives H a h\<close>: Handle \<open>h\<close> of the table \<open>H\<close> is \<open>a\<close> or was delegated from it, directly or not.\<close>

inductive derives :: "form_handle set \<Rightarrow> form_handle \<Rightarrow> form_handle \<Rightarrow> bool" for H :: "form_handle set" where
  derives_refl: "a \<in> H \<Longrightarrow> derives H a a"
| derives_child: "derives H a p \<Longrightarrow> h \<in> H \<Longrightarrow> h_parent_id h = h_id p \<Longrightarrow> h_parent_id h \<noteq> 0 \<Longrightarrow> derives H a h"

text \<open>
  The operations of the broker: \<open>live_step\<close> are those that check authority or a parent Handle, \<open>broker_step\<close> adds \<^verbatim>\<open>restore\<close>, which
  replays persisted Handles and looks at neither authority nor seals. \<open>broker_run b R b'\<close>: any sequence of operations from \<open>b\<close>
  to \<open>b'\<close>, in which exactly the Handles \<open>R\<close> were restored.
\<close>

inductive live_step :: "capability_broker \<Rightarrow> capability_broker \<Rightarrow> bool" where
  step_issue: "issue_for r auth t d ops until b = (res, b') \<Longrightarrow> live_step b b'"
| step_delegate: "delegate i r ops until tick b = (res, b') \<Longrightarrow> live_step b b'"
| step_seal: "seal_context r d b = Ok (s, b') \<Longrightarrow> live_step b b'"
| step_revoke: "revoke i b = Ok b' \<Longrightarrow> live_step b b'"

inductive broker_step :: "capability_broker \<Rightarrow> capability_broker \<Rightarrow> bool" where
  step_live: "live_step b b' \<Longrightarrow> broker_step b b'"
| step_restore: "restore h b = Ok b' \<Longrightarrow> broker_step b b'"

inductive broker_run :: "capability_broker \<Rightarrow> form_handle set \<Rightarrow> capability_broker \<Rightarrow> bool" where
  run_start: "broker_run b {} b"
| run_live: "broker_run b R b1 \<Longrightarrow> live_step b1 b2 \<Longrightarrow> broker_run b R b2"
| run_restore: "broker_run b R b1 \<Longrightarrow> restore h b1 = Ok b2 \<Longrightarrow> broker_run b (insert h R) b2"

definition broker_init :: "capability_broker \<Rightarrow> bool" where
  "broker_init b \<longleftrightarrow> (\<exists>cfc. broker_new cfc = Some b)"

definition covers :: "form_handle \<Rightarrow> fin \<Rightarrow> fin \<Rightarrow> operations \<Rightarrow> u64 \<Rightarrow> bool" where
  "covers h target dimension operation tick \<longleftrightarrow> \<not> h_revoked h \<and> tick \<le> h_valid_until_tick h \<and>
     h_target h = target \<and> h_dimension h = dimension \<and> ops_contains (h_operations h) operation"

section \<open>Lemmas\<close>

interpretation broker_handles: keyed_table flatten fill_slot "\<lambda>t. length t = MAX_HANDLES" MAX_HANDLES h_id
  by (rule slots_keyed_table)

lemma ops_contains_refl [simp]: "ops_contains a a"
  by (simp add: ops_contains_def)

lemma ops_contains_trans [trans]: "ops_contains a b \<Longrightarrow> ops_contains b c \<Longrightarrow> ops_contains a c"
  unfolding ops_contains_def by (metis and.assoc)

lemma find_handle_mem: "find_handle b i = Some h \<Longrightarrow> h \<in> handles_of b \<and> h_id h = i"
  unfolding find_handle_def by (rule find_SomeD)

lemma find_handle_Some:
  assumes "broker_inv b"
  shows "find_handle b i = Some h \<longleftrightarrow> h \<in> handles_of b \<and> h_id h = i"
  using broker_handles.find_key [of "b_handles b" h] find_handle_mem [of b i h] assms
  by (auto simp: find_handle_def broker_inv_def)

lemma handle_unique:
  "broker_inv b \<Longrightarrow> h \<in> handles_of b \<Longrightarrow> k \<in> handles_of b \<Longrightarrow> h_id h = h_id k \<Longrightarrow> h = k"
  by (metis find_handle_Some option.inject)

lemma authorize_Ok:
  "authorize b i target dimension operation tick = Ok () \<longleftrightarrow>
     (\<exists>h. find_handle b i = Some h \<and> covers h target dimension operation tick)"
  by (auto simp: authorize_def covers_def split: option.splits)

lemma authorize_requester_Ok:
  "authorize_requester b i requester target dimension operation tick = Ok () \<longleftrightarrow>
     (\<exists>h. find_handle b i = Some h \<and> h_requester h = requester \<and> covers h target dimension operation tick)"
  by (auto simp: authorize_requester_def authorize_def covers_def split: option.splits sum.splits)

lemma authorize_in_Ok:
  "authorize_in b cfc i target dimension operation tick = Ok () \<longleftrightarrow>
     (\<exists>h. find_handle b i = Some h \<and> h_cfc h = cfc \<and> b_cfc b = cfc \<and> covers h target dimension operation tick)"
  by (auto simp: authorize_in_def authorize_def covers_def split: option.splits)

subsection \<open>Identifier allocation\<close>

lemma allocate_loop_frame:
  "allocate_loop n b = (r, b') \<Longrightarrow>
     b_handles b' = b_handles b \<and> b_seals b' = b_seals b \<and> b_cfc b' = b_cfc b"
proof (induction n arbitrary: b)
  case (Suc n)
  from Suc.prems Suc.IH [of "b\<lparr>b_next_id := next_nonzero (max (b_next_id b) 1)\<rparr>"]
  show ?case by (auto simp: Let_def split: if_splits)
qed simp

lemma allocate_loop_fresh:
  "allocate_loop n b = (Ok i, b') \<Longrightarrow> i \<noteq> 0 \<and> i \<notin> h_id ` handles_of b"
proof (induction n arbitrary: b)
  case (Suc n)
  show ?case
  proof (cases "list_ex (\<lambda>h. h_id h = max (b_next_id b) 1) (flatten (b_handles b))")
    case True
    with Suc.prems Suc.IH show ?thesis by (fastforce simp: Let_def)
  next
    case False
    moreover have "max (b_next_id b) 1 \<noteq> 0" by (metis max.cobounded2 word_le_0_iff zero_neq_one)
    ultimately show ?thesis using Suc.prems by (auto simp: Let_def list_ex_iff)
  qed
qed simp

lemma unat_next_nonzero:
  fixes c :: "'a::len word"
  assumes "c \<noteq> 0"
  shows "unat (next_nonzero c) = unat c mod (2 ^ LENGTH('a) - 1) + 1"
proof (cases "c = - 1")
  case True
  then have "unat c = 2 ^ LENGTH('a) - 1" by (simp add: unat_minus_one)
  then show ?thesis using True by (simp add: next_nonzero_def)
next
  case False
  have "unat c < 2 ^ LENGTH('a)" by (rule unsigned_less)
  moreover have "unat c \<noteq> 2 ^ LENGTH('a) - 1"
    using False by (metis unat_minus_one word_unat_eq_iff)
  ultimately have c: "unat c + 1 < 2 ^ LENGTH('a)" by linarith
  then have "unat (c + 1) = unat c + 1" by (simp add: unat_word_ariths)
  moreover from this have "1 \<le> c + 1" by (simp add: word_le_nat_alt)
  ultimately show ?thesis using c by (simp add: next_nonzero_def max_def)
qed

lemma allocate_loop_fails:
  assumes "allocate_loop n b = (Err e, b')" and "k < n"
  shows "(unat (max (b_next_id b) 1) - 1 + k) mod (2 ^ 32 - 1) + 1 \<in> (unat \<circ> h_id) ` handles_of b"
  using assms
proof (induction n arbitrary: b k)
  case (Suc n)
  let ?c = "max (b_next_id b) 1" and ?M = "2 ^ 32 - 1 :: nat"
  have c0: "?c \<noteq> 0" by (metis max.cobounded2 word_le_0_iff zero_neq_one)
  then have pos: "0 < unat ?c" by (metis unat_0_iff neq0_conv)
  have "list_ex (\<lambda>h. h_id h = ?c) (flatten (b_handles b))"
    using Suc.prems(1) by (simp add: Let_def split: if_splits)
  then have used: "?c \<in> h_id ` handles_of b"
    unfolding list_ex_iff by (metis imageI)
  show ?case
  proof (cases k)
    case 0
    have "unat ?c - 1 < ?M" using pos unat_bound [of ?c] by simp
    then show ?thesis using used pos 0 by (auto simp: image_iff)
  next
    case (Suc j)
    let ?b = "b\<lparr>b_next_id := next_nonzero ?c\<rparr>"
    have "list_ex (\<lambda>h. h_id h = ?c) (flatten (b_handles b))"
      using used by (auto simp: list_ex_iff)
    then have "allocate_loop n ?b = (Err e, b')"
      using Suc.prems(1) by (simp add: Let_def)
    then have "(unat (max (b_next_id ?b) 1) - 1 + j) mod ?M + 1 \<in> (unat \<circ> h_id) ` handles_of ?b"
      using Suc.IH [of ?b j] Suc.prems(2) Suc by simp
    moreover have "max (next_nonzero ?c) 1 = next_nonzero ?c"
      by (simp add: next_nonzero_def)
    moreover have "unat (next_nonzero ?c) = unat ?c mod ?M + 1"
      using unat_next_nonzero [OF c0] by simp
    moreover have "(unat ?c mod ?M + j) mod ?M = (unat ?c - 1 + k) mod ?M"
      using pos Suc by (simp add: mod_add_left_eq)
    ultimately show ?thesis by simp
  qed
qed simp

lemma allocate_id_total:
  assumes "length (b_handles b) = MAX_HANDLES"
  shows "\<exists>i b'. allocate_id b = (Ok i, b')"
proof (rule ccontr)
  assume "\<nexists>i b'. allocate_id b = (Ok i, b')"
  then obtain e b' where fail: "allocate_loop 33 b = (Err e, b')"
    by (cases "allocate_id b"; cases "fst (allocate_id b)")
      (auto simp: allocate_id_def MAX_HANDLES_def)
  let ?a = "unat (max (b_next_id b) 1) - 1" and ?M = "2 ^ 32 - 1 :: nat"
  let ?f = "\<lambda>k. (?a + k) mod ?M + 1"
  have "inj_on ?f {..<33}"
  proof (rule inj_onI)
    fix x y :: nat
    assume "x \<in> {..<33}" "y \<in> {..<33}" "?f x = ?f y"
    then have "(?a + x) mod ?M = (?a + y) mod ?M" "x < ?M" "y < ?M" by auto
    then show "x = y" by (rule mod_shift_inject)
  qed
  then have "33 = card (?f ` {..<33})" by (simp add: card_image)
  also have "?f ` {..<33} \<subseteq> (unat \<circ> h_id) ` handles_of b"
    using allocate_loop_fails [OF fail] by auto
  then have "card (?f ` {..<33}) \<le> card ((unat \<circ> h_id) ` handles_of b)"
    by (simp add: card_mono)
  also have "\<dots> \<le> length (flatten (b_handles b))"
    by (meson card_image_le card_length finite_set le_trans)
  also have "\<dots> \<le> 32" using length_flatten_le [of "b_handles b"] assms by (simp add: MAX_HANDLES_def)
  finally show False by simp
qed

subsection \<open>Publication\<close>

text \<open>What \<^verbatim>\<open>issue_for\<close> and \<^verbatim>\<open>delegate\<close> share: a fresh Handle goes into the first empty slot.\<close>

definition same_tables :: "capability_broker \<Rightarrow> capability_broker \<Rightarrow> bool" where
  "same_tables b b' \<longleftrightarrow> b_handles b' = b_handles b \<and> b_seals b' = b_seals b \<and> b_cfc b' = b_cfc b"

definition publishes :: "capability_broker \<Rightarrow> form_handle \<Rightarrow> capability_broker \<Rightarrow> bool" where
  "publishes b h b' \<longleftrightarrow> fill_slot h (b_handles b) = Some (b_handles b') \<and> b_seals b' = b_seals b \<and>
     b_cfc b' = b_cfc b \<and> h_id h \<noteq> 0 \<and> h_id h \<notin> h_id ` handles_of b \<and> h_cfc h = b_cfc b"

lemma same_tables_refl [simp]: "same_tables b b"
  by (simp add: same_tables_def)

lemma same_tables_inv: "same_tables b b' \<Longrightarrow> broker_inv b' \<longleftrightarrow> broker_inv b"
  by (auto simp: same_tables_def broker_inv_def handle_wf_def)

lemma publishes_frame:
  assumes "publishes b h b'"
  shows "handles_of b' = insert h (handles_of b)" "b_seals b' = b_seals b" "b_cfc b' = b_cfc b"
  using assms by (auto simp: publishes_def dest!: fill_slot_set)

lemma parent_linked_mono: "parent_linked H h \<Longrightarrow> H \<subseteq> K \<Longrightarrow> parent_linked K h"
  by (auto simp: parent_linked_def)

lemma publishes_inv:
  assumes inv: "broker_inv b" and pub: "publishes b h b'"
    and nz: "\<not> is_zero (h_requester h)" "\<not> is_zero (h_target h)" "\<not> is_zero (h_dimension h)"
      "h_operations h \<noteq> NONE"
    and link: "parent_linked (handles_of b) h"
  shows "broker_inv b'"
proof -
  have fill: "fill_slot h (b_handles b) = Some (b_handles b')"
    and id: "h_id h \<noteq> 0" "h_id h \<notin> h_id ` handles_of b" "h_cfc h = b_cfc b"
    using pub by (auto simp: publishes_def)
  have len: "length (b_handles b) = MAX_HANDLES" and d: "distinct (map h_id (flatten (b_handles b)))"
    using inv by (simp_all add: broker_inv_def)
  have "distinct (map h_id (flatten (b_handles b')))"
    by (rule broker_handles.publish_distinct [OF len d id(2) fill])
  moreover have "length (b_handles b') = MAX_HANDLES" using fill_slot_length [OF fill] len by simp
  moreover have "\<forall>k\<in>handles_of b'. handle_wf b' k"
    using inv id nz publishes_frame [OF pub] by (auto simp: broker_inv_def handle_wf_def)
  moreover have "\<forall>k\<in>handles_of b'. parent_linked (handles_of b') k"
    using inv link publishes_frame(1) [OF pub] parent_linked_mono [of "handles_of b" _ "handles_of b'"]
    by (auto simp: broker_inv_def)
  ultimately show ?thesis using inv publishes_frame [OF pub] by (simp add: broker_inv_def)
qed

lemma allocate_frame: "allocate_id b = (r, b') \<Longrightarrow> same_tables b b'"
  unfolding allocate_id_def same_tables_def by (rule allocate_loop_frame)

lemma allocate_publish:
  assumes "position (\<lambda>s. s = None) (b_handles b) = Some j" and "allocate_id b = (Ok i, b')"
    and "h_id h = i" and "h_cfc h = b_cfc b'"
  shows "publishes b h (b'\<lparr>b_handles := (b_handles b')[j := Some h]\<rparr>)"
proof -
  have "same_tables b b'" by (rule allocate_frame [OF assms(2)])
  moreover have "i \<noteq> 0 \<and> i \<notin> h_id ` handles_of b"
    using assms(2) allocate_loop_fresh by (metis allocate_id_def)
  ultimately show ?thesis
    using assms(1,3,4) by (simp add: publishes_def same_tables_def fill_slot_position)
qed

lemma issue_for_Ok:
  assumes "issue_for r auth t d ops until b = (Ok h, b')"
  shows "publishes b h b'" "\<not> is_sealed b r d" "permitted auth ops" "h_parent_id h = 0"
    "h_requester h = r" "h_target h = t" "h_dimension h = d" "h_operations h = ops"
    "h_valid_until_tick h = until" "\<not> h_revoked h"
    "\<not> is_zero r" "\<not> is_zero t" "\<not> is_zero d" "ops \<noteq> NONE"
proof -
  obtain j i b1 where *: "\<not> is_sealed b r d" "permitted auth ops" "\<not> is_zero r" "\<not> is_zero t"
      "\<not> is_zero d" "ops \<noteq> NONE"
      "position (\<lambda>s. s = None) (b_handles b) = Some j" "allocate_id b = (Ok i, b1)"
    and h: "h = \<lparr>h_id = i, h_parent_id = 0, h_cfc = b_cfc b1, h_requester = r, h_target = t,
        h_dimension = d, h_operations = ops, h_valid_until_tick = until, h_revoked = False\<rparr>"
    and b': "b' = b1\<lparr>b_handles := (b_handles b1)[j := Some h]\<rparr>"
    using assms by (auto simp: issue_for_def Let_def split: if_splits option.splits prod.splits sum.splits)
  show "publishes b h b'"
    unfolding b' using * h by (intro allocate_publish) auto
  show "\<not> is_sealed b r d" "permitted auth ops" "h_parent_id h = 0"
    "h_requester h = r" "h_target h = t" "h_dimension h = d" "h_operations h = ops"
    "h_valid_until_tick h = until" "\<not> h_revoked h"
    "\<not> is_zero r" "\<not> is_zero t" "\<not> is_zero d" "ops \<noteq> NONE"
    using * h by auto
qed

lemma issue_for_Err: "issue_for r auth t d ops until b = (Err e, b') \<Longrightarrow> same_tables b b'"
  by (auto simp: issue_for_def Let_def dest: allocate_frame
      split: if_splits option.splits prod.splits sum.splits)

lemma delegate_Ok:
  assumes "delegate i r ops until tick b = (Ok h, b')"
  obtains p where "find_handle b i = Some p" "publishes b h b'"
    "is_sealed b r (h_dimension p) \<Longrightarrow> r = h_requester p"
    "covers p (h_target p) (h_dimension p) ops tick" "h_parent_id h = h_id p"
    "h_target h = h_target p" "h_dimension h = h_dimension p" "ops_contains (h_operations p) ops"
    "until \<le> h_valid_until_tick p" "\<not> (ops = h_operations p \<and> until = h_valid_until_tick p)"
    "h_requester h = r" "h_operations h = ops" "h_valid_until_tick h = until" "\<not> h_revoked h"
    "\<not> is_zero r" "ops \<noteq> NONE" "find_handle b (h_id p) = Some p"
proof -
  obtain p where p: "find_handle b i = Some p"
    using assms by (auto simp: delegate_def split: option.splits)
  then have self: "find_handle b (h_id p) = Some p" using find_handle_mem [OF p] by simp
  have auth: "authorize b (h_id p) (h_target p) (h_dimension p) ops tick = Ok ()"
    using assms p by (auto simp: delegate_def split: if_splits sum.splits)
  then have cov: "covers p (h_target p) (h_dimension p) ops tick" using self by (auto simp: authorize_Ok)
  obtain j i1 b1 where *: "is_sealed b r (h_dimension p) \<longrightarrow> r = h_requester p" "\<not> is_zero r"
      "ops \<noteq> NONE" "ops_contains (h_operations p) ops" "\<not> until > h_valid_until_tick p"
      "\<not> (ops = h_operations p \<and> until = h_valid_until_tick p)"
      "position (\<lambda>s. s = None) (b_handles b) = Some j" "allocate_id b = (Ok i1, b1)"
    and h: "h = \<lparr>h_id = i1, h_parent_id = h_id p, h_cfc = b_cfc b1, h_requester = r,
        h_target = h_target p, h_dimension = h_dimension p, h_operations = ops,
        h_valid_until_tick = until, h_revoked = False\<rparr>"
    and b': "b' = b1\<lparr>b_handles := (b_handles b1)[j := Some h]\<rparr>"
    using assms p auth
    by (auto simp: delegate_def Let_def split: if_splits option.splits prod.splits sum.splits)
  have "publishes b h b'" unfolding b' using * h by (intro allocate_publish) auto
  with p self cov * h show thesis by (intro that [of p]) auto
qed

lemma delegate_Err: "delegate i r ops until tick b = (Err e, b') \<Longrightarrow> same_tables b b'"
  by (auto simp: delegate_def Let_def dest: allocate_frame
      split: if_splits option.splits prod.splits sum.splits)

lemma restore_Ok:
  assumes "restore h b = Ok b'"
  shows "publishes b h b'" "\<not> is_zero (h_requester h)" "\<not> is_zero (h_target h)"
    "\<not> is_zero (h_dimension h)" "h_operations h \<noteq> NONE" "parent_linked (handles_of b) h"
proof -
  obtain hs where *: "h_cfc h = b_cfc b" "h_id h \<noteq> 0" "\<not> is_zero (h_requester h)"
      "\<not> is_zero (h_target h)" "\<not> is_zero (h_dimension h)" "h_operations h \<noteq> NONE"
      "\<not> list_ex (\<lambda>entry. h_id entry = h_id h) (flatten (b_handles b))"
      "restore_parent b h = Ok ()" "fill_slot h (b_handles b) = Some hs"
    and b': "b_handles b' = hs" "b_seals b' = b_seals b" "b_cfc b' = b_cfc b"
    using assms by (auto simp: restore_def split: if_splits option.splits sum.splits)
  have "h_id h \<notin> h_id ` handles_of b" using *(7) by (auto simp: list_ex_iff)
  then show "publishes b h b'" using * b' by (simp add: publishes_def)
  show "parent_linked (handles_of b) h"
    using *(8) find_handle_mem [of b "h_parent_id h"]
    by (auto simp: restore_parent_def parent_linked_def attenuates_def split: option.splits if_splits)
qed (use assms in \<open>auto simp: restore_def split: if_splits\<close>)

lemma restore_inv: "broker_inv b \<Longrightarrow> restore h b = Ok b' \<Longrightarrow> broker_inv b'"
  using publishes_inv restore_Ok by metis

lemma issue_for_inv:
  assumes "broker_inv b" and "issue_for r auth t d ops until b = (res, b')"
  shows "broker_inv b'"
proof (cases res)
  case (Inl e)
  with assms issue_for_Err show ?thesis by (metis same_tables_inv)
next
  case (Inr h)
  with assms(2) have "issue_for r auth t d ops until b = (Ok h, b')" by simp
  note ok = issue_for_Ok [OF this]
  from assms(1) ok(1) show ?thesis
    by (rule publishes_inv) (use ok in \<open>auto simp: parent_linked_def\<close>)
qed

lemma delegate_inv:
  assumes inv: "broker_inv b" and "delegate i r ops until tick b = (res, b')"
  shows "broker_inv b'"
proof (cases res)
  case (Inl e)
  with assms delegate_Err show ?thesis by (metis same_tables_inv)
next
  case (Inr h)
  with assms(2) have "delegate i r ops until tick b = (Ok h, b')" by simp
  then show ?thesis
  proof (rule delegate_Ok)
    fix p
    assume p: "find_handle b i = Some p" and pub: "publishes b h b'"
      and cov: "covers p (h_target p) (h_dimension p) ops tick" and par: "h_parent_id h = h_id p"
      and att: "h_target h = h_target p" "h_dimension h = h_dimension p"
        "ops_contains (h_operations p) ops" "until \<le> h_valid_until_tick p"
        "\<not> (ops = h_operations p \<and> until = h_valid_until_tick p)"
        "h_operations h = ops" "h_valid_until_tick h = until"
      and new: "h_requester h = r" "\<not> is_zero r" "ops \<noteq> NONE"
    have pH: "p \<in> handles_of b" using find_handle_mem [OF p] by simp
    then have wf: "handle_wf b p" using inv by (simp add: broker_inv_def)
    have "attenuates p h" using att wf pub by (simp add: attenuates_def handle_wf_def publishes_def)
    then have link: "parent_linked (handles_of b) h"
      using pH par cov by (auto simp: parent_linked_def covers_def)
    show ?thesis
      by (rule publishes_inv [OF inv pub _ _ _ _ link]) (use att new wf in \<open>auto simp: handle_wf_def\<close>)
  qed
qed

lemma seal_context_Ok:
  assumes "seal_context r d b = Ok (s, b')"
  shows "b_handles b' = b_handles b" "b_cfc b' = b_cfc b" "fill_slot s (b_seals b) = Some (b_seals b')"
    "s_requester s = r" "s_dimension s = d"
  using assms by (auto simp: seal_context_def Let_def split: if_splits option.splits)

lemma seal_context_inv: "broker_inv b \<Longrightarrow> seal_context r d b = Ok (s, b') \<Longrightarrow> broker_inv b'"
  using seal_context_Ok [of r d b s b'] fill_slot_length [of s "b_seals b" "b_seals b'"]
  by (simp add: broker_inv_def handle_wf_def)

subsection \<open>Revocation\<close>

text \<open>A table in which the Handles selected by \<open>S\<close> are revoked in addition.\<close>

definition mark :: "(form_handle \<Rightarrow> bool) \<Rightarrow> form_handle \<Rightarrow> form_handle" where
  "mark S h = h\<lparr>h_revoked := h_revoked h \<or> S h\<rparr>"

lemma mark_fields [simp]:
  "h_id (mark S h) = h_id h" "h_parent_id (mark S h) = h_parent_id h" "h_cfc (mark S h) = h_cfc h"
  "h_requester (mark S h) = h_requester h" "h_target (mark S h) = h_target h"
  "h_dimension (mark S h) = h_dimension h" "h_operations (mark S h) = h_operations h"
  "h_valid_until_tick (mark S h) = h_valid_until_tick h"
  "h_revoked (mark S h) \<longleftrightarrow> h_revoked h \<or> S h"
  by (simp_all add: mark_def)

lemma mark_same: "\<not> S h \<Longrightarrow> mark S h = h"
  by (simp add: mark_def)

lemma mark_False: "map (map_option (mark (\<lambda>_. False))) hs = hs"
proof -
  have "mark (\<lambda>_. False) h = h" for h by (simp add: mark_def)
  then have "map_option (mark (\<lambda>_. False)) = id" by (auto simp: fun_eq_iff map_option_case split: option.splits)
  then show ?thesis by simp
qed

abbreviation marked :: "(form_handle \<Rightarrow> bool) \<Rightarrow> form_handle slots \<Rightarrow> form_handle slots" where
  "marked S hs \<equiv> map (map_option (mark S)) hs"

lemma due_marked:
  "due i (flatten (marked S hs)) (mark S h) \<longleftrightarrow>
     (h_id h = i \<or> h_parent_id h \<noteq> 0 \<and>
       (\<exists>p\<in>set (flatten hs). h_id p = h_parent_id h \<and> (h_revoked p \<or> S p))) \<and> \<not> (h_revoked h \<or> S h)"
  by (auto simp: due_def flatten_map_option list_ex_iff)

lemma revoke_pass_marked:
  "revoke_pass i (marked S hs) = marked (\<lambda>h. S h \<or> due i (flatten (marked S hs)) (mark S h)) hs"
  unfolding revoke_pass_def
  by (auto simp: option.map_comp o_def mark_def map_option_case split: option.splits)

lemma revoke_loop_marked:
  assumes closed: "\<And>h p. h \<in> set (flatten hs) \<Longrightarrow> p \<in> set (flatten hs) \<Longrightarrow> h_id p = h_parent_id h \<Longrightarrow>
      h_parent_id h \<noteq> 0 \<Longrightarrow> h_revoked p \<Longrightarrow> h_revoked h"
    and "\<And>h. h \<in> set (flatten hs) \<Longrightarrow> S h \<Longrightarrow> \<exists>a. h_id a = i \<and> derives (set (flatten hs)) a h"
  shows "\<exists>T. revoke_loop i (marked S hs) = marked T hs \<and>
    (\<forall>h\<in>set (flatten hs). T h \<longrightarrow> (\<exists>a. h_id a = i \<and> derives (set (flatten hs)) a h)) \<and>
    (\<forall>h\<in>set (flatten hs). \<not> due i (flatten (marked T hs)) (mark T h))"
  using assms(2)
proof (induction "live_count (marked S hs)" arbitrary: S rule: less_induct)
  case less
  let ?H = "set (flatten hs)" and ?D = "due i (flatten (marked S hs))"
  show ?case
  proof (cases "list_ex ?D (flatten (marked S hs))")
    case False
    then have "revoke_loop i (marked S hs) = marked S hs" by (subst revoke_loop.simps) simp
    moreover have "\<forall>h\<in>?H. \<not> ?D (mark S h)"
      using False by (auto simp: list_ex_iff flatten_map_option)
    ultimately show ?thesis using less.prems by blast
  next
    case True
    let ?S = "\<lambda>h. S h \<or> ?D (mark S h)"
    have step: "revoke_loop i (marked S hs) = revoke_loop i (marked ?S hs)"
      using True by (subst revoke_loop.simps) (simp add: revoke_pass_marked)
    have "live_count (marked ?S hs) < live_count (marked S hs)"
      using revoke_pass_progress [OF True] by (simp add: revoke_pass_marked)
    moreover have "\<exists>a. h_id a = i \<and> derives ?H a h" if h: "h \<in> ?H" "?S h" for h
    proof (cases "S h \<or> h_id h = i")
      case True
      then show ?thesis using less.prems h derives_refl [OF h(1)] by blast
    next
      case False
      with h obtain p where p: "p \<in> ?H" "h_id p = h_parent_id h" "h_parent_id h \<noteq> 0"
        "h_revoked p \<or> S p" "\<not> h_revoked h"
        by (auto simp: due_marked)
      with closed h(1) have "S p" by blast
      with less.prems p obtain a where "h_id a = i" "derives ?H a p" by blast
      with p h(1) show ?thesis by (metis derives_child)
    qed
    ultimately obtain T where "revoke_loop i (marked ?S hs) = marked T hs \<and>
      (\<forall>h\<in>?H. T h \<longrightarrow> (\<exists>a. h_id a = i \<and> derives ?H a h)) \<and>
      (\<forall>h\<in>?H. \<not> due i (flatten (marked T hs)) (mark T h))"
      using less.hyps [of ?S] by blast
    then show ?thesis unfolding step by blast
  qed
qed

lemma broker_closed:
  assumes "broker_inv b" "h \<in> handles_of b" "p \<in> handles_of b" "h_id p = h_parent_id h" "h_parent_id h \<noteq> 0"
  shows "attenuates p h \<and> (h_revoked p \<longrightarrow> h_revoked h)"
proof -
  have "parent_linked (handles_of b) h" using assms(1,2) by (simp add: broker_inv_def)
  then obtain q where "q \<in> handles_of b" "h_id q = h_parent_id h" "attenuates q h"
    "h_revoked q \<longrightarrow> h_revoked h"
    using assms(5) by (auto simp: parent_linked_def)
  moreover from this have "q = p" using handle_unique [OF assms(1)] assms(3,4) by simp
  ultimately show ?thesis by simp
qed

lemma revoke_marks:
  assumes inv: "broker_inv b" and rev: "revoke i b = Ok b'"
  shows "b' = b\<lparr>b_handles := marked (\<lambda>h. \<exists>a. h_id a = i \<and> derives (handles_of b) a h) (b_handles b)\<rparr>"
proof -
  let ?hs = "b_handles b" and ?H = "handles_of b"
  let ?D = "\<lambda>h. \<exists>a. h_id a = i \<and> derives ?H a h"
  have "\<exists>T. revoke_loop i (marked (\<lambda>_. False) ?hs) = marked T ?hs \<and>
    (\<forall>h\<in>?H. T h \<longrightarrow> ?D h) \<and> (\<forall>h\<in>?H. \<not> due i (flatten (marked T ?hs)) (mark T h))"
    by (rule revoke_loop_marked) (use broker_closed [OF inv] in auto)
  then obtain T where T: "revoke_loop i ?hs = marked T ?hs" "\<forall>h\<in>?H. T h \<longrightarrow> ?D h"
    "\<forall>h\<in>?H. \<not> due i (flatten (marked T ?hs)) (mark T h)"
    by (auto simp: mark_False)
  have reach: "h_revoked h \<or> T h" if "derives ?H a h" "h_id a = i" for a h
    using that
  proof (induction rule: derives.induct)
    case (derives_refl a)
    with T(3) show ?case by (auto simp: due_marked)
  next
    case (derives_child a p h)
    from derives_child.hyps(1) have "p \<in> ?H" by (rule derives.cases) auto
    with derives_child T(3) show ?case by (fastforce simp: due_marked)
  qed
  have "mark T h = mark ?D h" if "h \<in> ?H" for h
  proof -
    have "(h_revoked h \<or> T h) = (h_revoked h \<or> ?D h)" using T(2) reach that by metis
    then show ?thesis by (simp add: mark_def)
  qed
  then have "map (map_option (mark T)) ?hs = map (map_option (mark ?D)) ?hs"
    by (intro map_cong) (auto simp: set_flatten map_option_case split: option.splits)
  then show ?thesis using rev T(1) by (auto simp: revoke_def split: if_splits)
qed

lemma handles_marked: "set (flatten (marked S hs)) = mark S ` set (flatten hs)"
  by (simp add: flatten_map_option)

lemma marked_inv:
  assumes inv: "broker_inv b"
    and down: "\<And>p h. p \<in> handles_of b \<Longrightarrow> h \<in> handles_of b \<Longrightarrow> h_id p = h_parent_id h \<Longrightarrow>
      h_parent_id h \<noteq> 0 \<Longrightarrow> S p \<Longrightarrow> S h"
  shows "broker_inv (b\<lparr>b_handles := marked S (b_handles b)\<rparr>)"
proof -
  have "parent_linked (mark S ` handles_of b) (mark S h)" if h: "h \<in> handles_of b" for h
  proof (cases "h_parent_id h = 0")
    case False
    have "parent_linked (handles_of b) h" using inv h by (simp add: broker_inv_def)
    then obtain p where p: "p \<in> handles_of b" "h_id p = h_parent_id h" "attenuates p h"
      "h_revoked p \<longrightarrow> h_revoked h"
      using False by (auto simp: parent_linked_def)
    have "S p \<longrightarrow> S h" using down [OF p(1) h p(2) False] by simp
    moreover have "attenuates (mark S p) (mark S h)" using p(3) by (simp add: attenuates_def)
    ultimately show ?thesis
      unfolding parent_linked_def using p by (intro impI bexI [of _ "mark S p"]) auto
  qed (simp add: parent_linked_def)
  moreover have "map h_id (flatten (marked S (b_handles b))) = map h_id (flatten (b_handles b))"
    by (simp add: flatten_map_option)
  moreover have "handle_wf (b\<lparr>b_handles := marked S (b_handles b)\<rparr>) (mark S h)" if "h \<in> handles_of b" for h
    using inv that by (simp add: broker_inv_def handle_wf_def)
  ultimately show ?thesis using inv by (simp add: broker_inv_def handles_marked)
qed

lemma revoke_inv:
  assumes inv: "broker_inv b" and rev: "revoke i b = Ok b'"
  shows "broker_inv b'"
  unfolding revoke_marks [OF inv rev]
  by (rule marked_inv [OF inv]) (metis derives_child)

lemma live_step_inv:
  assumes "live_step b b'" and "broker_inv b"
  shows "broker_inv b'"
  using assms
proof (induction rule: live_step.induct)
  case (step_issue r auth t d ops until b res b')
  then show ?case using issue_for_inv by metis
next
  case (step_delegate i r ops until tick b res b')
  then show ?case using delegate_inv by metis
next
  case (step_seal r d b s b')
  then show ?case using seal_context_inv by metis
next
  case (step_revoke i b b')
  then show ?case using revoke_inv by metis
qed

lemma broker_new_inv: "broker_new cfc = Some b \<Longrightarrow> broker_inv b"
  by (auto simp: broker_new_def broker_inv_def split: if_splits)

interpretation broker_system: invariant_system broker_init broker_step broker_inv
proof unfold_locales
  fix b b'
  show "broker_init b \<Longrightarrow> broker_inv b" by (auto simp: broker_init_def broker_new_inv)
  show "broker_inv b'" if "broker_inv b" "broker_step b b'"
    using that(2)
  proof cases
    case step_live
    with that(1) show ?thesis by (metis live_step_inv)
  next
    case (step_restore h)
    with that(1) show ?thesis by (metis restore_inv)
  qed
qed

interpretation live_system: invariant_system broker_init live_step broker_inv
  by unfold_locales (auto simp: broker_init_def broker_new_inv intro: live_step_inv)

subsection \<open>Seals\<close>

text \<open>\<open>ceiling r d H h\<close>: \<open>h\<close> conveys nothing that one of the Handles \<open>H\<close> does not convey to requester \<open>r\<close> in Dimension \<open>d\<close>.\<close>

definition ceiling :: "fin \<Rightarrow> fin \<Rightarrow> form_handle set \<Rightarrow> form_handle \<Rightarrow> bool" where
  "ceiling r d H h \<longleftrightarrow> (\<exists>k\<in>H. h_requester k = r \<and> h_dimension k = d \<and> h_target k = h_target h \<and>
     ops_contains (h_operations k) (h_operations h) \<and> h_valid_until_tick h \<le> h_valid_until_tick k \<and>
     (h_revoked k \<longrightarrow> h_revoked h))"

definition sealed_under :: "fin \<Rightarrow> fin \<Rightarrow> form_handle set \<Rightarrow> capability_broker \<Rightarrow> bool" where
  "sealed_under r d H b' \<longleftrightarrow> broker_inv b' \<and> is_sealed b' r d \<and>
     (\<forall>h\<in>handles_of b'. h_requester h = r \<and> h_dimension h = d \<longrightarrow> ceiling r d H h)"

lemma is_sealed_iff:
  "is_sealed b r d \<longleftrightarrow> (\<exists>s\<in>set (flatten (b_seals b)). s_requester s = r \<and> s_dimension s = d)"
  by (auto simp: is_sealed_def seal_def find_None_iff)

lemma same_tables_sealed: "same_tables b b' \<Longrightarrow> is_sealed b' r d \<longleftrightarrow> is_sealed b r d"
  by (simp add: same_tables_def is_sealed_iff)

lemma ceiling_self: "h \<in> H \<Longrightarrow> ceiling (h_requester h) (h_dimension h) H h"
  by (auto simp: ceiling_def)

lemma ceiling_weaken:
  assumes "ceiling r d H p" "h_target h = h_target p" "ops_contains (h_operations p) (h_operations h)"
    "h_valid_until_tick h \<le> h_valid_until_tick p" "h_revoked p \<longrightarrow> h_revoked h"
  shows "ceiling r d H h"
proof -
  obtain k where "k \<in> H" "h_requester k = r" "h_dimension k = d" "h_target k = h_target p"
    "ops_contains (h_operations k) (h_operations p)" "h_valid_until_tick p \<le> h_valid_until_tick k"
    "h_revoked k \<longrightarrow> h_revoked p"
    using assms(1) by (auto simp: ceiling_def)
  then show ?thesis unfolding ceiling_def
    using assms(2-) by (intro bexI [of _ k]) (auto intro: ops_contains_trans order_trans)
qed

lemma sealed_under_same: "sealed_under r d H b1 \<Longrightarrow> same_tables b1 b2 \<Longrightarrow> sealed_under r d H b2"
  by (simp add: sealed_under_def same_tables_inv same_tables_sealed)
    (simp add: same_tables_def)

lemma sealed_under_publish:
  assumes "sealed_under r d H b1" and "publishes b1 h b2" and "broker_inv b2"
    and "h_requester h = r \<Longrightarrow> h_dimension h = d \<Longrightarrow> ceiling r d H h"
  shows "sealed_under r d H b2"
  using assms by (auto simp: sealed_under_def publishes_frame is_sealed_iff)

lemma sealed_under_step:
  assumes "live_step b1 b2" and su: "sealed_under r d H b1"
  shows "sealed_under r d H b2"
proof -
  have inv: "broker_inv b1" and sealed: "is_sealed b1 r d"
    and ceil: "\<And>h. h \<in> handles_of b1 \<Longrightarrow> h_requester h = r \<Longrightarrow> h_dimension h = d \<Longrightarrow> ceiling r d H h"
    using su by (auto simp: sealed_under_def)
  have inv2: "broker_inv b2" using assms(1) inv by (rule live_step_inv)
  from assms(1) show ?thesis
  proof cases
    case (step_issue q auth t e ops until res)
    show ?thesis
    proof (cases res)
      case (Inl err)
      with step_issue su show ?thesis by (metis issue_for_Err sealed_under_same)
    next
      case (Inr h)
      with step_issue have "issue_for q auth t e ops until b1 = (Ok h, b2)" by simp
      note ok = issue_for_Ok [OF this]
      show ?thesis by (rule sealed_under_publish [OF su ok(1) inv2]) (use ok sealed in auto)
    qed
  next
    case (step_delegate i q ops until tick res)
    show ?thesis
    proof (cases res)
      case (Inl err)
      with step_delegate su show ?thesis by (metis delegate_Err sealed_under_same)
    next
      case (Inr h)
      with step_delegate have "delegate i q ops until tick b1 = (Ok h, b2)" by simp
      then show ?thesis
      proof (rule delegate_Ok)
        fix p
        assume p: "find_handle b1 i = Some p" and pub: "publishes b1 h b2"
          and own: "is_sealed b1 q (h_dimension p) \<Longrightarrow> q = h_requester p"
          and att: "covers p (h_target p) (h_dimension p) ops tick" "h_target h = h_target p"
            "h_dimension h = h_dimension p" "ops_contains (h_operations p) ops"
            "until \<le> h_valid_until_tick p" "h_requester h = q" "h_operations h = ops"
            "h_valid_until_tick h = until"
        have "ceiling r d H h" if "h_requester h = r" "h_dimension h = d"
        proof (rule ceiling_weaken)
          have "q = r" "h_dimension p = d" using that att(3,6) by simp_all
          then show "ceiling r d H p"
            using ceil [of p] find_handle_mem [OF p] own sealed by simp
        qed (use att in \<open>auto simp: covers_def\<close>)
        then show ?thesis by (rule sealed_under_publish [OF su pub inv2])
      qed
    qed
  next
    case (step_seal q e s)
    note ok = seal_context_Ok [OF step_seal]
    have "is_sealed b2 r d"
      using sealed fill_slot_set [OF ok(3)] by (auto simp: is_sealed_iff)
    then show ?thesis using su ok(1) inv2 by (simp add: sealed_under_def)
  next
    case (step_revoke i)
    let ?D = "\<lambda>h. \<exists>a. h_id a = i \<and> derives (handles_of b1) a h"
    have b2: "b2 = b1\<lparr>b_handles := marked ?D (b_handles b1)\<rparr>" by (rule revoke_marks [OF inv step_revoke])
    have "ceiling r d H (mark ?D h)" if "h \<in> handles_of b1" "h_requester h = r" "h_dimension h = d" for h
      by (rule ceiling_weaken [OF ceil [OF that]]) auto
    moreover have "is_sealed b2 r d" using sealed by (simp add: b2 is_sealed_iff)
    ultimately show ?thesis using inv2 by (auto simp: sealed_under_def b2 handles_marked)
  qed
qed

lemma sealed_under_start:
  assumes "broker_inv b" and "is_sealed b r d"
  shows "sealed_under r d (handles_of b) b"
  using assms ceiling_self by (auto simp: sealed_under_def)

lemma sealed_under_mono: "sealed_under r d H b \<Longrightarrow> H \<subseteq> K \<Longrightarrow> sealed_under r d K b"
  unfolding sealed_under_def ceiling_def by blast

lemma sealed_under_run:
  assumes "broker_run b R b'" and "sealed_under r d (handles_of b) b"
  shows "sealed_under r d (handles_of b \<union> R) b'"
  using assms
proof induction
  case run_start
  then show ?case by simp
next
  case (run_live b R b1 b2)
  then show ?case by (blast intro: sealed_under_step)
next
  case (run_restore b R b1 h b2)
  have su: "sealed_under r d (handles_of b \<union> insert h R) b1" by (rule sealed_under_mono [OF run_restore.IH [OF run_restore.prems]]) blast
  have "broker_inv b1" using su unfolding sealed_under_def by (rule conjunct1)
  then have inv: "broker_inv b2" using run_restore.hyps(2) by (rule restore_inv)
  have "h \<in> handles_of b \<union> insert h R" by simp
  then have "ceiling (h_requester h) (h_dimension h) (handles_of b \<union> insert h R) h" by (rule ceiling_self)
  then have "h_requester h = r \<Longrightarrow> h_dimension h = d \<Longrightarrow> ceiling r d (handles_of b \<union> insert h R) h" by simp
  then show ?case by (rule sealed_under_publish [OF su restore_Ok(1) [OF run_restore.hyps(2)] inv])
qed

lemma covers_parent:
  assumes "attenuates p h" and "h_revoked p \<longrightarrow> h_revoked h" and "covers h t d ops tick"
  shows "covers p t d ops tick"
  using assms ops_contains_trans by (auto simp: covers_def attenuates_def)

lemma derives_mem: "derives H a h \<Longrightarrow> a \<in> H \<and> h \<in> H"
  by (induction rule: derives.induct) auto

lemma derives_covers:
  assumes inv: "broker_inv b" and "derives (handles_of b) a h" and "covers h t d ops tick"
  shows "covers a t d ops tick"
  using assms(2,3)
proof (induction rule: derives.induct)
  case (derives_child a p h)
  have "p \<in> handles_of b" using derives_mem [OF derives_child.hyps(1)] by simp
  then have "attenuates p h \<and> (h_revoked p \<longrightarrow> h_revoked h)"
    using broker_closed [OF inv derives_child.hyps(2)] derives_child.hyps(3,4) by simp
  then show ?case using covers_parent derives_child.IH derives_child.prems by blast
qed

section \<open>Properties\<close>

lemma revoke_find:
  assumes inv: "broker_inv b" and "revoke i b = Ok b'"
  shows "find_handle b' j = map_option (mark (\<lambda>h. \<exists>a. h_id a = i \<and> derives (handles_of b) a h)) (find_handle b j)"
proof -
  define D where "D = (\<lambda>h. \<exists>a. h_id a = i \<and> derives (handles_of b) a h)"
  have b': "b' = b\<lparr>b_handles := marked D (b_handles b)\<rparr>" unfolding D_def by (rule revoke_marks [OF assms])
  have inv': "broker_inv b'" by (rule revoke_inv [OF assms])
  have mem: "handles_of b' = mark D ` handles_of b" by (simp add: b' handles_marked)
  have "find_handle b' j = map_option (mark D) (find_handle b j)"
  proof (cases "find_handle b j")
    case (Some h)
    then have "h \<in> handles_of b" "h_id h = j" using find_handle_Some [OF inv] by simp_all
    then show ?thesis using Some mem find_handle_Some [OF inv', of j "mark D h"] by simp
  next
    case None
    have fresh: "h_id h \<noteq> j" if "h \<in> handles_of b" for h
      using None that find_handle_Some [OF inv, of j h] by auto
    have "find_handle b' j \<noteq> Some h'" for h'
    proof
      assume "find_handle b' j = Some h'"
      then have "h' \<in> mark D ` handles_of b" "h_id h' = j" using find_handle_Some [OF inv', of j h'] mem by simp_all
      then obtain h where "h' = mark D h" "h \<in> handles_of b" by blast
      then show False using fresh [of h] \<open>h_id h' = j\<close> by simp
    qed
    then have "find_handle b' j = None" by blast
    then show ?thesis using None by simp
  qed
  then show ?thesis by (simp add: D_def)
qed

lemma revoke_authorizes:
  assumes inv: "broker_inv b" and "revoke i b = Ok b'" and "h \<in> handles_of b"
  shows "authorize b' (h_id h) target dimension operation tick =
    (if \<exists>a. h_id a = i \<and> derives (handles_of b) a h then Err Revoked
     else authorize b (h_id h) target dimension operation tick)"
proof -
  have "find_handle b (h_id h) = Some h" using find_handle_Some [OF inv] assms(3) by simp
  then show ?thesis using revoke_find [OF inv assms(2), of "h_id h"] by (simp add: authorize_def)
qed

lemma revoke_loop_passes:
  "\<exists>k\<le>live_count handles. revoke_loop i handles = (revoke_pass i ^^ k) handles \<and>
     \<not> list_ex (due i (flatten (revoke_loop i handles))) (flatten (revoke_loop i handles))"
proof (induction i handles rule: revoke_loop.induct)
  case (1 i handles)
  show ?case
  proof (cases "list_ex (due i (flatten handles)) (flatten handles)")
    case True
    then obtain k where "k \<le> live_count (revoke_pass i handles)"
      "revoke_loop i handles = (revoke_pass i ^^ Suc k) handles"
      "\<not> list_ex (due i (flatten (revoke_loop i handles))) (flatten (revoke_loop i handles))"
      using 1 revoke_loop.simps [of i handles] by (auto simp: funpow_swap1)
    moreover have "live_count (revoke_pass i handles) < live_count handles" by (rule revoke_pass_progress [OF True])
    ultimately show ?thesis by (metis Suc_leI le_less_trans)
  next
    case False
    then show ?thesis using revoke_loop.simps [of i handles] by (intro exI [of _ 0]) simp
  qed
qed

text \<open>A concrete history: a root Handle, a delegation from it and a further one.\<close>

definition demo_b0 :: capability_broker where
  "demo_b0 = the (broker_new (cfc_from_u128 1))"

definition demo_b1 :: capability_broker where
  "demo_b1 = snd (issue_for (from_u128 5) Power (from_u128 6) (from_u128 7) (READ OR EXECUTE) 100 demo_b0)"

definition demo_b2 :: capability_broker where
  "demo_b2 = snd (delegate 1 (from_u128 8) READ 50 10 demo_b1)"

definition demo_b3 :: capability_broker where
  "demo_b3 = snd (delegate 2 (from_u128 9) READ 40 10 demo_b2)"

lemma demo_init: "broker_init demo_b0"
  by (auto simp: broker_init_def demo_b0_def broker_new_def intro!: exI [of _ "cfc_from_u128 1"])

lemma demo_live: "live_step demo_b0 demo_b1" "live_step demo_b1 demo_b2" "live_step demo_b2 demo_b3"
  unfolding demo_b1_def demo_b2_def demo_b3_def
  by (rule step_issue step_delegate, rule prod.collapse [symmetric])+

lemma demo_reachable: "reachable broker_init broker_step demo_b3"
  using demo_init demo_live by (meson reachable.intros step_live)

lemma demo_handles:
  "authorize demo_b3 3 (from_u128 6) (from_u128 7) READ 40 = Ok ()"
  "h_id (the (find_handle demo_b3 1)) = 1" "h_id (the (find_handle demo_b3 3)) = 3"
  "h_parent_id (the (find_handle demo_b3 2)) = 1" "h_parent_id (the (find_handle demo_b3 3)) = 2"
  "h_id (the (find_handle demo_b3 2)) = 2"
  "find_handle demo_b3 1 \<noteq> None" "find_handle demo_b3 2 \<noteq> None" "find_handle demo_b3 3 \<noteq> None"
  by code_simp+

lemma demo_derives:
  "derives (handles_of demo_b3) (the (find_handle demo_b3 1)) (the (find_handle demo_b3 3))"
proof -
  let ?h = "\<lambda>i. the (find_handle demo_b3 i)"
  have "?h 1 \<in> handles_of demo_b3" "?h 2 \<in> handles_of demo_b3" "?h 3 \<in> handles_of demo_b3"
    using demo_handles(7-9) find_handle_mem [of demo_b3] by fastforce+
  then show ?thesis
    using demo_handles by (intro derives_child [OF derives_child [OF derives_refl]]) auto
qed

text \<open>
  C2: no delegation conveys more than its origin holds. In every reachable broker, whatever a
  Handle authorises, every Handle it was delegated from (directly or through others) authorises too.
\<close>

theorem delegation_never_amplifies:
  assumes "reachable broker_init broker_step b" and "derives (handles_of b) a h"
    and "authorize b (h_id h) target dimension operation tick = Ok ()"
  shows "authorize b (h_id a) target dimension operation tick = Ok ()"
proof -
  have inv: "broker_inv b" using assms(1) by (rule broker_system.reachable_inv)
  have mem: "a \<in> handles_of b" "h \<in> handles_of b" using derives_mem [OF assms(2)] by auto
  then have "find_handle b (h_id h) = Some h" "find_handle b (h_id a) = Some a"
    by (simp_all add: find_handle_Some [OF inv])
  moreover from this have "covers h target dimension operation tick"
    using assms(3) by (simp add: authorize_Ok)
  then have "covers a target dimension operation tick" by (rule derives_covers [OF inv assms(2)])
  ultimately show ?thesis by (simp add: authorize_Ok)
qed

theorem delegation_never_amplifies_witness:
  "authorize demo_b3 1 (from_u128 6) (from_u128 7) READ 40 = Ok ()"
  using delegation_never_amplifies [OF demo_reachable demo_derives, of "from_u128 6" "from_u128 7" READ 40]
    demo_handles by simp

text \<open>
  C3: revocation is immediate, transitive and exact. After \<^verbatim>\<open>revoke\<close> of a Handle, every other
  Handle of the table authorises exactly what it authorised before when it does not derive from the
  revoked one, and nothing at all when it does.
\<close>

theorem revoke_exact:
  assumes "reachable broker_init broker_step b" and "revoke i b = Ok b'" and "h \<in> handles_of b"
  shows "authorize b' (h_id h) target dimension operation tick =
    (if \<exists>a. h_id a = i \<and> derives (handles_of b) a h then Err Revoked
     else authorize b (h_id h) target dimension operation tick)"
  using broker_system.reachable_inv [OF assms(1)] assms(2,3) by (rule revoke_authorizes)

theorem revoke_exact_witness:
  "\<exists>b'. revoke 1 demo_b3 = Ok b' \<and> authorize b' 3 (from_u128 6) (from_u128 7) READ 40 = Err Revoked"
proof -
  have "list_ex (\<lambda>h. h_id h = 1) (flatten (b_handles demo_b3))" by code_simp
  then obtain b' where rev: "revoke 1 demo_b3 = Ok b'" by (simp add: revoke_def)
  let ?a = "the (find_handle demo_b3 1)" and ?h = "the (find_handle demo_b3 3)"
  have "?h \<in> handles_of demo_b3" using derives_mem [OF demo_derives] by simp
  moreover have "\<exists>a. h_id a = 1 \<and> derives (handles_of demo_b3) a ?h"
    using demo_derives demo_handles(2) by metis
  ultimately have "authorize b' (h_id ?h) (from_u128 6) (from_u128 7) READ 40 = Err Revoked"
    using revoke_exact [OF demo_reachable rev, of ?h "from_u128 6" "from_u128 7" READ 40] by simp
  then show ?thesis using rev demo_handles(3) by metis
qed

text \<open>
  C4: a seal is a lasting ceiling for everything but \<^verbatim>\<open>restore\<close>. Once a requester is sealed in a Dimension, no sequence of
  broker operations lets one of its Handles authorise there what none of its Handles authorised when the seal
  was set, unless a Handle of that requester conveying just this was put back by \<^verbatim>\<open>restore\<close>, which does not look at seals.
\<close>

theorem seal_is_ceiling:
  assumes "reachable broker_init broker_step b" and "seal_context r d b = Ok (s, b1)"
    and "broker_run b1 R b2" and "authorize_requester b2 i r target d operation tick = Ok ()"
  shows "(\<exists>j. authorize_requester b j r target d operation tick = Ok ()) \<or>
    (\<exists>k\<in>R. h_requester k = r \<and> covers k target d operation tick)"
proof -
  have inv: "broker_inv b" using assms(1) by (rule broker_system.reachable_inv)
  note ok = seal_context_Ok [OF assms(2)]
  have "is_sealed b1 r d" using fill_slot_set [OF ok(3)] ok(4,5) by (auto simp: is_sealed_iff)
  with seal_context_inv [OF inv assms(2)] have "sealed_under r d (handles_of b1) b1" by (rule sealed_under_start)
  with assms(3) have su: "sealed_under r d (handles_of b1 \<union> R) b2" by (rule sealed_under_run)
  obtain h where h: "find_handle b2 i = Some h" "h_requester h = r" "covers h target d operation tick"
    using assms(4) unfolding authorize_requester_Ok by metis
  then have "ceiling r d (handles_of b1 \<union> R) h"
    using su find_handle_mem [OF h(1)] unfolding sealed_under_def covers_def by metis
  then obtain k where k: "k \<in> handles_of b \<union> R" "h_requester k = r" "h_dimension k = d"
    "h_target k = h_target h" "ops_contains (h_operations k) (h_operations h)"
    "h_valid_until_tick h \<le> h_valid_until_tick k" "h_revoked k \<longrightarrow> h_revoked h"
    using ok(1) by (auto simp: ceiling_def)
  then have c: "covers k target d operation tick"
    using h(3) ops_contains_trans [of "h_operations k" "h_operations h" operation]
    by (auto simp: covers_def)
  show ?thesis
  proof (cases "k \<in> R")
    case False
    then have "find_handle b (h_id k) = Some k" using k(1) find_handle_Some [OF inv] by blast
    then show ?thesis using c k(2) unfolding authorize_requester_Ok by blast
  qed (use c k(2) in blast)
qed

theorem seal_is_ceiling_witness:
  "\<exists>s b1. seal_context (from_u128 8) (from_u128 7) demo_b3 = Ok (s, b1) \<and>
    authorize_requester b1 2 (from_u128 8) (from_u128 6) (from_u128 7) READ 40 = Ok () \<and>
    (\<exists>j. authorize_requester demo_b3 j (from_u128 8) (from_u128 6) (from_u128 7) READ 40 = Ok ())"
proof -
  let ?res = "seal_context (from_u128 8) (from_u128 7) demo_b3"
  have "\<not> isl ?res" by code_simp
  then obtain s b1 where seal: "?res = Ok (s, b1)" by (rule ok_pair)
  have "authorize_requester (snd (projr ?res)) 2 (from_u128 8) (from_u128 6) (from_u128 7) READ 40 = Ok ()"
    by code_simp
  then have auth: "authorize_requester b1 2 (from_u128 8) (from_u128 6) (from_u128 7) READ 40 = Ok ()" unfolding seal by simp
  show ?thesis using seal_is_ceiling [OF demo_reachable seal run_start auth] seal auth by blast
qed

text \<open>
  issuing a root Handle succeeds exactly when the requester is not sealed there, the authority
  permits the operations, no identity is zero and a slot is free; identifier allocation never
  fails, not even after the 32-bit counter has wrapped, and the new Handle is found under an
  identifier no other Handle has.
\<close>

theorem issue_for_succeeds_iff:
  assumes "reachable broker_init broker_step b"
  shows "(is_ok (fst (issue_for r auth t d ops until b)) \<longleftrightarrow>
      \<not> is_sealed b r d \<and> permitted auth ops \<and> \<not> is_zero r \<and> ops \<noteq> NONE \<and> \<not> is_zero t \<and> \<not> is_zero d \<and>
      length (flatten (b_handles b)) < MAX_HANDLES) \<and>
    (\<forall>h b'. issue_for r auth t d ops until b = (Ok h, b') \<longrightarrow>
      find_handle b (h_id h) = None \<and> find_handle b' (h_id h) = Some h)"
proof (intro conjI allI impI)
  have inv: "broker_inv b" using assms by (rule broker_system.reachable_inv)
  then have len: "length (b_handles b) = MAX_HANDLES" by (simp add: broker_inv_def)
  obtain i b1 where alloc: "allocate_id b = (Ok i, b1)" using allocate_id_total [OF len] by blast
  show "is_ok (fst (issue_for r auth t d ops until b)) \<longleftrightarrow>
    \<not> is_sealed b r d \<and> permitted auth ops \<and> \<not> is_zero r \<and> ops \<noteq> NONE \<and> \<not> is_zero t \<and> \<not> is_zero d \<and>
    length (flatten (b_handles b)) < MAX_HANDLES"
  proof (cases "position (\<lambda>s. s = None) (b_handles b)")
    case None
    then have "length (flatten (b_handles b)) = MAX_HANDLES" using len by (simp add: position_None_full)
    with None show ?thesis by (simp add: issue_for_def)
  next
    case (Some j)
    then have "length (flatten (b_handles b)) < MAX_HANDLES"
      using len position_None_full [of "b_handles b"] length_flatten_le [of "b_handles b"] by simp
    with Some alloc show ?thesis by (simp add: issue_for_def Let_def)
  qed
  fix h b'
  assume iss: "issue_for r auth t d ops until b = (Ok h, b')"
  have inv': "broker_inv b'" by (rule issue_for_inv [OF inv iss])
  have pub: "publishes b h b'" by (rule issue_for_Ok(1) [OF iss])
  show "find_handle b (h_id h) = None"
    using pub find_handle_Some [OF inv, of "h_id h"] unfolding publishes_def
    by (metis image_eqI not_Some_eq)
  show "find_handle b' (h_id h) = Some h"
    by (simp add: find_handle_Some [OF inv'] publishes_frame(1) [OF pub])
qed

theorem issue_for_succeeds_iff_witness:
  "is_ok (fst (issue_for (from_u128 5) Guest (from_u128 6) (from_u128 7) READ 100 demo_b3)) \<and>
   \<not> is_ok (fst (issue_for (from_u128 5) Guest (from_u128 6) (from_u128 7) NETWORK 100 demo_b3))"
proof -
  have "\<not> is_sealed demo_b3 (from_u128 5) (from_u128 7)" "permitted Guest READ" "READ \<noteq> NONE"
    "\<not> permitted Guest NETWORK" "length (flatten (b_handles demo_b3)) < MAX_HANDLES"
    by code_simp+
  then show ?thesis
    using issue_for_succeeds_iff [OF demo_reachable, of "from_u128 5" Guest "from_u128 6" "from_u128 7"]
    by simp
qed

text \<open>
  C34: revocation terminates. From any table, the loop of \<^verbatim>\<open>revoke\<close> stops after at most as many changing
  passes as the table has live Handles, and where it stops a further pass would change nothing.
\<close>

theorem revoke_terminates:
  "\<exists>k\<le>live_count handles. revoke_loop i handles = (revoke_pass i ^^ k) handles \<and>
     revoke_pass i (revoke_loop i handles) = revoke_loop i handles"
proof -
  let ?r = "revoke_loop i handles"
  obtain k where k: "k \<le> live_count handles" "?r = (revoke_pass i ^^ k) handles"
    and stop: "\<not> list_ex (due i (flatten ?r)) (flatten ?r)" using revoke_loop_passes [of handles i] by blast
  have "(if due i (flatten ?r) h then h\<lparr>h_revoked := True\<rparr> else h) = h" if "Some h \<in> set ?r" for h
    using stop that by (auto simp: list_ex_iff set_flatten)
  then have "map_option (\<lambda>h. if due i (flatten ?r) h then h\<lparr>h_revoked := True\<rparr> else h) y = y" if "y \<in> set ?r" for y
    using that by (cases y) auto
  then have "revoke_pass i ?r = ?r" unfolding revoke_pass_def by (simp add: map_idI)
  then show ?thesis using k by blast
qed

end
