(* ===== verification/Budget.thy ===== *)
theory Budget
  imports Slots
begin

text \<open>
  Resource budgets of one execution context (\<^verbatim>\<open>budget.rs\<close>). An account is kept per resource kind;
  \<^verbatim>\<open>charge\<close> reserves before work begins, \<^verbatim>\<open>release\<close> gives back, \<^verbatim>\<open>configure\<close> moves the limits below
  the permanent ceiling. Amounts are 64-bit words. The lemmas show that the accounts balance over
  every sequence of requests and never leave \<open>used \<le> soft \<le> hard \<le> ceiling\<close>.
\<close>

section \<open>Model\<close>

datatype resource_kind =
    CpuTicks
  | HeapPages
  | IpcMessages
  | IpcBytes
  | OutputBytes
  | NetworkBytes
  | FormOperations
  | FormBytes

definition RESOURCE_KIND_COUNT :: nat where
  "RESOURCE_KIND_COUNT = 8"

definition ALL_KINDS :: "resource_kind list" where
  "ALL_KINDS = [CpuTicks, HeapPages, IpcMessages, IpcBytes, OutputBytes, NetworkBytes, FormOperations, FormBytes]"

fun kind_index :: "resource_kind \<Rightarrow> nat" where
  "kind_index CpuTicks = 0"
| "kind_index HeapPages = 1"
| "kind_index IpcMessages = 2"
| "kind_index IpcBytes = 3"
| "kind_index OutputBytes = 4"
| "kind_index NetworkBytes = 5"
| "kind_index FormOperations = 6"
| "kind_index FormBytes = 7"

record resource_account =
  a_ceiling :: u64
  a_soft :: u64
  a_hard :: u64
  a_used :: u64
  a_denied_charges :: u64
  a_overflow_charges :: u64

definition with_ceiling :: "u64 \<Rightarrow> resource_account" where
  "with_ceiling ceiling =
     \<lparr>a_ceiling = ceiling, a_soft = ceiling, a_hard = ceiling, a_used = 0,
      a_denied_charges = 0, a_overflow_charges = 0\<rparr>"

text \<open>The subtraction panics when it underflows: \<open>None\<close>.\<close>

definition remaining_before_soft :: "resource_account \<Rightarrow> u64 option" where
  "remaining_before_soft a = checked_sub (a_soft a) (a_used a)"

datatype budget_error =
    InvalidLimits resource_kind u64 u64 u64 u64
  | SoftLimitExceeded resource_kind u64 u64 u64
  | ChargeOverflow resource_kind u64 u64
  | ReleaseUnderflow resource_kind u64 u64

record 'c exp_budget =
  eb_context :: 'c
  eb_accounts :: "resource_account list"

definition budget_new :: "'c \<Rightarrow> u64 list \<Rightarrow> 'c exp_budget" where
  "budget_new context ceilings =
     \<lparr>eb_context = context,
      eb_accounts = map (\<lambda>index. with_ceiling (ceilings ! index)) [0..<RESOURCE_KIND_COUNT]\<rparr>"

definition uniform :: "'c \<Rightarrow> u64 \<Rightarrow> 'c exp_budget" where
  "uniform context ceiling = budget_new context (replicate RESOURCE_KIND_COUNT ceiling)"

definition account :: "'c exp_budget \<Rightarrow> resource_kind \<Rightarrow> resource_account" where
  "account b kind = eb_accounts b ! kind_index kind"

definition set_account :: "resource_kind \<Rightarrow> resource_account \<Rightarrow> 'c exp_budget \<Rightarrow> 'c exp_budget" where
  "set_account kind a b = b\<lparr>eb_accounts := (eb_accounts b)[kind_index kind := a]\<rparr>"

definition configure ::
  "resource_kind \<Rightarrow> u64 \<Rightarrow> u64 \<Rightarrow> 'c exp_budget \<Rightarrow> (budget_error, 'c exp_budget) result" where
  "configure kind soft hard b =
     (let a = account b kind in
      if a_used a > soft \<or> soft > hard \<or> hard > a_ceiling a
      then Err (InvalidLimits kind (a_used a) soft hard (a_ceiling a))
      else Ok (set_account kind (a\<lparr>a_soft := soft, a_hard := hard\<rparr>) b))"

definition charge ::
  "resource_kind \<Rightarrow> u64 \<Rightarrow> 'c exp_budget \<Rightarrow> (budget_error, u64) result \<times> 'c exp_budget" where
  "charge kind amount b =
     (let a = account b kind in
      case checked_add (a_used a) amount of
        None \<Rightarrow>
          (Err (ChargeOverflow kind (a_used a) amount),
           set_account kind (a\<lparr>a_denied_charges := saturating_add (a_denied_charges a) 1,
             a_overflow_charges := saturating_add (a_overflow_charges a) 1\<rparr>) b)
      | Some charged \<Rightarrow>
          if charged > a_soft a then
            (Err (SoftLimitExceeded kind (a_used a) amount (a_soft a)),
             set_account kind (a\<lparr>a_denied_charges := saturating_add (a_denied_charges a) 1\<rparr>) b)
          else (Ok charged, set_account kind (a\<lparr>a_used := charged\<rparr>) b))"

definition release ::
  "resource_kind \<Rightarrow> u64 \<Rightarrow> 'c exp_budget \<Rightarrow> (budget_error, 'c exp_budget) result" where
  "release kind amount b =
     (let a = account b kind in
      case checked_sub (a_used a) amount of
        None \<Rightarrow> Err (ReleaseUnderflow kind (a_used a) amount)
      | Some remaining \<Rightarrow> Ok (set_account kind (a\<lparr>a_used := remaining\<rparr>) b))"

section \<open>Specification\<close>

text \<open>
  A context's requests in the order it makes them. \<open>serve\<close> answers one; \<open>granted\<close> is what a
  history was granted of a kind (accepted charges less accepted releases), in unbounded integers.
\<close>

datatype request =
    Charge resource_kind u64
  | Release resource_kind u64
  | Configure resource_kind u64 u64

definition serve :: "request \<Rightarrow> 'c exp_budget \<Rightarrow> bool \<times> 'c exp_budget" where
  "serve r b =
     (case r of
       Charge kind n \<Rightarrow> (is_ok (fst (charge kind n b)), snd (charge kind n b))
     | Release kind n \<Rightarrow> (case release kind n b of Err _ \<Rightarrow> (False, b) | Ok b' \<Rightarrow> (True, b'))
     | Configure kind s h \<Rightarrow> (case configure kind s h b of Err _ \<Rightarrow> (False, b) | Ok b' \<Rightarrow> (True, b')))"

fun serve_all :: "request list \<Rightarrow> 'c exp_budget \<Rightarrow> 'c exp_budget" where
  "serve_all [] b = b"
| "serve_all (r # rs) b = serve_all rs (snd (serve r b))"

fun amount_of :: "resource_kind \<Rightarrow> request \<Rightarrow> int" where
  "amount_of k (Charge kind n) = (if kind = k then uint n else 0)"
| "amount_of k (Release kind n) = (if kind = k then - uint n else 0)"
| "amount_of k (Configure kind s h) = 0"

fun granted :: "resource_kind \<Rightarrow> request list \<Rightarrow> 'c exp_budget \<Rightarrow> int" where
  "granted k [] b = 0"
| "granted k (r # rs) b = (if fst (serve r b) then amount_of k r else 0) + granted k rs (snd (serve r b))"

definition account_ok :: "resource_account \<Rightarrow> bool" where
  "account_ok a \<longleftrightarrow> a_used a \<le> a_soft a \<and> a_soft a \<le> a_hard a \<and> a_hard a \<le> a_ceiling a \<and>
     a_overflow_charges a \<le> a_denied_charges a"

definition budget_inv :: "'c exp_budget \<Rightarrow> bool" where
  "budget_inv b \<longleftrightarrow> length (eb_accounts b) = RESOURCE_KIND_COUNT \<and> (\<forall>k. account_ok (account b k))"

section \<open>Lemmas\<close>

lemma checked_add_uint: "checked_add a b = Some c \<Longrightarrow> uint c = uint a + uint b"
  using checked_add_unat [of a b c] by (metis of_nat_add uint_nat)

lemma checked_sub_uint: "checked_sub a b = Some c \<Longrightarrow> uint c = uint a - uint b"
  using checked_sub_unat [of a b c] by (metis add_diff_cancel_right' of_nat_add uint_nat)

lemma kind_index_bound [simp]: "kind_index k < RESOURCE_KIND_COUNT"
  by (cases k) (simp_all add: RESOURCE_KIND_COUNT_def)

lemma kind_index_inject [simp]: "kind_index k = kind_index l \<longleftrightarrow> k = l"
  by (cases k; cases l) simp_all

lemma account_set_account [simp]:
  "length (eb_accounts b) = RESOURCE_KIND_COUNT \<Longrightarrow>
     account (set_account k a b) l = (if l = k then a else account b l)"
  by (simp add: account_def set_account_def nth_list_update)

lemma set_account_frame [simp]:
  "length (eb_accounts (set_account k a b)) = length (eb_accounts b)"
  "eb_context (set_account k a b) = eb_context b"
  by (simp_all add: set_account_def)

lemma account_new [simp]: "account (budget_new c ceilings) k = with_ceiling (ceilings ! kind_index k)"
  by (simp add: account_def budget_new_def)

lemma budget_new_inv: "budget_inv (budget_new c ceilings)"
proof -
  have "account_ok (with_ceiling n)" for n by (simp add: account_ok_def with_ceiling_def)
  then show ?thesis by (simp add: budget_inv_def) (simp add: budget_new_def)
qed

lemma saturating_add_mono1: "a \<le> b \<Longrightarrow> saturating_add a 1 \<le> saturating_add b (1 :: u64)"
proof -
  assume "a \<le> b"
  then have "unat a \<le> unat b" by (simp add: word_le_nat_alt)
  then show ?thesis
    by (auto simp: saturating_add_def word_le_nat_alt unat_word_ariths unat_minus_one)
qed

text \<open>What one request does to every account, on every branch.\<close>

lemma charge_account:
  assumes "budget_inv b"
  shows "account (snd (charge k n b)) l =
    (if l \<noteq> k then account b l
     else case fst (charge k n b) of
       Ok c \<Rightarrow> (account b k)\<lparr>a_used := c\<rparr>
     | Err (ChargeOverflow _ _ _) \<Rightarrow> (account b k)\<lparr>
         a_denied_charges := saturating_add (a_denied_charges (account b k)) 1,
         a_overflow_charges := saturating_add (a_overflow_charges (account b k)) 1\<rparr>
     | Err _ \<Rightarrow> (account b k)\<lparr>a_denied_charges := saturating_add (a_denied_charges (account b k)) 1\<rparr>)"
  using assms by (auto simp: charge_def Let_def budget_inv_def split: option.splits)

lemma charge_result:
  "fst (charge k n b) =
    (if unat (a_used (account b k)) + unat n \<ge> 2 ^ 64 then Err (ChargeOverflow k (a_used (account b k)) n)
     else if unat (a_used (account b k)) + unat n > unat (a_soft (account b k))
       then Err (SoftLimitExceeded k (a_used (account b k)) n (a_soft (account b k)))
     else Ok (a_used (account b k) + n))"
  by (auto simp: charge_def Let_def checked_add_def word_less_nat_alt unat_word_ariths)

lemma serve_frame [simp]:
  "length (eb_accounts (snd (serve r b))) = length (eb_accounts b)"
  "eb_context (snd (serve r b)) = eb_context b"
  by (auto simp: serve_def charge_def release_def configure_def Let_def
      split: request.splits option.splits)

lemma account_ok_serve:
  assumes "budget_inv b"
  shows "account_ok (account (snd (serve r b)) l)"
proof -
  have len: "length (eb_accounts b) = RESOURCE_KIND_COUNT" and ok: "account_ok (account b l)"
    using assms by (simp_all add: budget_inv_def)
  show ?thesis
  proof (cases r)
    case (Charge k n)
    then show ?thesis using len ok
      by (auto simp: serve_def charge_def Let_def account_ok_def saturating_add_mono1
          intro: order_trans [OF _ saturating_add_ge] split: option.splits)
  next
    case (Release k n)
    have "a_used (account b l) - n \<le> a_used (account b l)" if "n \<le> a_used (account b l)"
      using that by (simp add: word_le_nat_alt unat_sub)
    then show ?thesis using len ok Release
      by (auto simp: serve_def release_def Let_def account_ok_def checked_sub_def)
  next
    case (Configure k s h)
    then show ?thesis using len ok
      by (auto simp: serve_def configure_def Let_def account_ok_def)
  qed
qed

lemma serve_inv: "budget_inv b \<Longrightarrow> budget_inv (snd (serve r b))"
  using account_ok_serve [of b r] by (simp add: budget_inv_def)

lemma serve_ceiling: "budget_inv b \<Longrightarrow> a_ceiling (account (snd (serve r b)) k) = a_ceiling (account b k)"
  by (auto simp: serve_def charge_def release_def configure_def Let_def budget_inv_def
      split: request.splits option.splits)

lemma serve_used:
  assumes "budget_inv b"
  shows "uint (a_used (account (snd (serve r b)) k)) =
    uint (a_used (account b k)) + (if fst (serve r b) then amount_of k r else 0)"
proof -
  have len: "length (eb_accounts b) = RESOURCE_KIND_COUNT" using assms by (simp add: budget_inv_def)
  show ?thesis
  proof (cases r)
    case (Charge l n)
    then show ?thesis using len
      by (auto simp: serve_def charge_def Let_def dest: checked_add_uint split: option.splits)
  next
    case (Release l n)
    then show ?thesis using len
      by (auto simp: serve_def release_def Let_def dest: checked_sub_uint split: option.splits)
  next
    case (Configure l s h)
    then show ?thesis using len by (auto simp: serve_def configure_def Let_def)
  qed
qed

interpretation budget_system: invariant_system
  "\<lambda>b. \<exists>c ceilings. b = budget_new c ceilings" "\<lambda>b b'. \<exists>r. b' = snd (serve r b)" budget_inv
  by unfold_locales (auto intro: budget_new_inv serve_inv)

lemma serve_all_run: "(\<lambda>b b'. \<exists>r. b' = snd (serve r b))\<^sup>*\<^sup>* b (serve_all rs b)"
proof (induction rs arbitrary: b)
  case (Cons r rs)
  then show ?case by (auto intro: converse_rtranclp_into_rtranclp)
qed simp

lemma serve_all_balance:
  "budget_inv b \<Longrightarrow>
    uint (a_used (account (serve_all rs b) k)) = uint (a_used (account b k)) + granted k rs b \<and>
    a_ceiling (account (serve_all rs b) k) = a_ceiling (account b k)"
proof (induction rs arbitrary: b)
  case (Cons r rs)
  from Cons.IH [OF serve_inv [OF Cons.prems, of r]] show ?case
    using serve_used [OF Cons.prems, of r k] serve_ceiling [OF Cons.prems, of r k] by simp
qed simp

section \<open>Properties\<close>

text \<open>
  C27: budgets balance. After any sequence of charges, releases and reconfigurations, accepted or
  refused, what a context holds of a resource is exactly what it was granted, computed without
  wrap-around, and it lies under soft, hard and the unchanged ceiling, so that
  \<^verbatim>\<open>remaining_before_soft\<close> never underflows.
\<close>

theorem budget_balances:
  fixes c :: 'c and ceilings :: "u64 list"
  defines "b \<equiv> budget_new c ceilings"
  shows "let a = account (serve_all rs b) k in
    uint (a_used a) = granted k rs b \<and> a_ceiling a = ceilings ! kind_index k \<and>
    a_used a \<le> a_soft a \<and> a_soft a \<le> a_hard a \<and> a_hard a \<le> a_ceiling a \<and>
    (\<exists>n. remaining_before_soft a = Some n \<and> unat n = unat (a_soft a) - unat (a_used a))"
proof -
  let ?a = "account (serve_all rs b) k"
  have inv: "budget_inv b" unfolding b_def by (rule budget_new_inv)
  then have "budget_inv (serve_all rs b)" by (rule budget_system.run_inv [OF serve_all_run])
  then have ok: "account_ok ?a" by (simp add: budget_inv_def)
  then have "remaining_before_soft ?a = Some (a_soft ?a - a_used ?a)"
    "unat (a_soft ?a - a_used ?a) = unat (a_soft ?a) - unat (a_used ?a)"
    by (simp_all add: remaining_before_soft_def checked_sub_def account_ok_def unat_sub)
  moreover have "uint (a_used ?a) = granted k rs b" "a_ceiling ?a = ceilings ! kind_index k"
    using serve_all_balance [OF inv, of rs k] by (simp_all add: b_def with_ceiling_def)
  ultimately show ?thesis using ok by (simp add: Let_def account_ok_def)
qed

text \<open>
  a charge is atomic. It is granted exactly when the sum fits in 64 bits and under the soft limit;
  a refused charge changes no account except the diagnostic counters of its own kind.
\<close>

theorem charge_atomic:
  fixes b :: "'c exp_budget"
  defines "a \<equiv> account b"
  assumes "budget_inv b"
  shows "(is_ok (fst (charge k n b)) \<longleftrightarrow> unat (a_used (a k)) + unat n \<le> unat (a_soft (a k))) \<and>
    (\<not> is_ok (fst (charge k n b)) \<longrightarrow>
      a_used (account (snd (charge k n b)) l) = a_used (a l) \<and>
      a_soft (account (snd (charge k n b)) l) = a_soft (a l) \<and>
      a_hard (account (snd (charge k n b)) l) = a_hard (a l) \<and>
      (l \<noteq> k \<longrightarrow> account (snd (charge k n b)) l = a l))"
proof (intro conjI impI)
  have "unat (a_soft (a k)) < 2 ^ 64" using unat_bound [of "a_soft (a k)"] by simp
  then show "is_ok (fst (charge k n b)) \<longleftrightarrow> unat (a_used (a k)) + unat n \<le> unat (a_soft (a k))"
    by (auto simp: charge_result a_def)
  assume "\<not> is_ok (fst (charge k n b))"
  then obtain e where e: "fst (charge k n b) = Err e" by (cases "fst (charge k n b)") auto
  show "a_used (account (snd (charge k n b)) l) = a_used (a l)"
    "a_soft (account (snd (charge k n b)) l) = a_soft (a l)"
    "a_hard (account (snd (charge k n b)) l) = a_hard (a l)"
    unfolding charge_account [OF assms(2)] e a_def by (auto split: budget_error.splits)
  show "account (snd (charge k n b)) l = a l" if "l \<noteq> k"
    using charge_account [OF assms(2), of k n l] that by (simp add: a_def)
qed

theorem charge_atomic_witness:
  "\<not> is_ok (fst (charge IpcBytes 101 (uniform () 100)))"
  using charge_atomic [of "uniform () 100" IpcBytes 101] budget_new_inv [of "()"]
  by (simp add: uniform_def with_ceiling_def RESOURCE_KIND_COUNT_def)

end
