(* ===== verification/Cfc.thy ===== *)
theory Cfc
  imports Identity
begin

text \<open>
  \<^verbatim>\<open>cfc.rs\<close>: one CFC (an ExpOS environment with its own Dimensions, Forms and bindings) and the
  catalog of the CFCs of a machine. Operations return the changed CFC, or the error of the
  first check that fails; a failing operation changes nothing. The lemmas show that the public
  operations build exactly the CFCs that \<^verbatim>\<open>validate\<close> accepts, and that in every reachable
  catalog no identity is owned by two CFCs.
\<close>

section \<open>Definitions\<close>

definition MAX_CFC_SECONDARY_DIMENSIONS :: nat where
  "MAX_CFC_SECONDARY_DIMENSIONS = 7"

definition MAX_CFC_FORMS :: nat where
  "MAX_CFC_FORMS = 16"

definition MAX_CFC_BINDINGS :: nat where
  "MAX_CFC_BINDINGS = 32"

definition MAX_CFCS :: nat where
  "MAX_CFCS = 4"

record cfc_binding =
  cb_form :: fin
  cb_dimension :: fin

datatype cfc_error =
    InvalidCfcFin
  | InvalidName
  | InvalidIdentity
  | DuplicateDimension
  | DuplicateForm
  | IdentityKindConflict
  | SecondaryDimensionCapacity
  | FormCapacity
  | BindingCapacity
  | MissingDimension
  | MissingForm
  | AlreadyBound

record cfc =
  c_fin :: cfc_fin
  c_name :: text_t
  c_primary_dimension :: fin
  c_secondary_dimensions :: "fin slots"
  c_forms :: "fin slots"
  c_bindings :: "cfc_binding slots"

definition cfc_new :: "cfc_fin \<Rightarrow> str \<Rightarrow> fin \<Rightarrow> (cfc_error, cfc) result" where
  "cfc_new fin name primary_dimension =
     (if cfc_is_zero fin then Err InvalidCfcFin
      else if is_zero primary_dimension then Err InvalidIdentity
      else (case text_new (trim name) of
        Err _ \<Rightarrow> Err InvalidName
      | Ok text \<Rightarrow> Ok \<lparr>
          c_fin = fin,
          c_name = text,
          c_primary_dimension = primary_dimension,
          c_secondary_dimensions = empty_slots MAX_CFC_SECONDARY_DIMENSIONS,
          c_forms = empty_slots MAX_CFC_FORMS,
          c_bindings = empty_slots MAX_CFC_BINDINGS\<rparr>))"

definition dimension_count :: "cfc \<Rightarrow> nat" where
  "dimension_count c = 1 + length (flatten (c_secondary_dimensions c))"

definition form_count :: "cfc \<Rightarrow> nat" where
  "form_count c = length (flatten (c_forms c))"

definition binding_count :: "cfc \<Rightarrow> nat" where
  "binding_count c = length (flatten (c_bindings c))"

text \<open>\<^verbatim>\<open>iter().flatten().nth(index)\<close>.\<close>

definition nth_entry :: "'a slots \<Rightarrow> nat \<Rightarrow> 'a option" where
  "nth_entry xs index = (if index < length (flatten xs) then Some (flatten xs ! index) else None)"

definition secondary_dimension :: "cfc \<Rightarrow> nat \<Rightarrow> fin option" where
  "secondary_dimension c index = nth_entry (c_secondary_dimensions c) index"

definition cfc_form :: "cfc \<Rightarrow> nat \<Rightarrow> fin option" where
  "cfc_form c index = nth_entry (c_forms c) index"

definition cfc_binding_at :: "cfc \<Rightarrow> nat \<Rightarrow> cfc_binding option" where
  "cfc_binding_at c index = nth_entry (c_bindings c) index"

definition owns_dimension :: "cfc \<Rightarrow> fin \<Rightarrow> bool" where
  "owns_dimension c dimension \<longleftrightarrow>
     dimension = c_primary_dimension c \<or>
     list_ex (\<lambda>candidate. candidate = dimension) (flatten (c_secondary_dimensions c))"

definition owns_form :: "cfc \<Rightarrow> fin \<Rightarrow> bool" where
  "owns_form c form \<longleftrightarrow> list_ex (\<lambda>candidate. candidate = form) (flatten (c_forms c))"

definition is_bound :: "cfc \<Rightarrow> fin \<Rightarrow> fin \<Rightarrow> bool" where
  "is_bound c form dimension \<longleftrightarrow>
     list_ex (\<lambda>b. cb_form b = form \<and> cb_dimension b = dimension) (flatten (c_bindings c))"

definition add_secondary_dimension :: "fin \<Rightarrow> cfc \<Rightarrow> (cfc_error, cfc) result" where
  "add_secondary_dimension dimension c =
     (if is_zero dimension then Err InvalidIdentity
      else if owns_dimension c dimension then Err DuplicateDimension
      else if owns_form c dimension then Err IdentityKindConflict
      else (case fill_slot dimension (c_secondary_dimensions c) of
        None \<Rightarrow> Err SecondaryDimensionCapacity
      | Some slots \<Rightarrow> Ok (c\<lparr>c_secondary_dimensions := slots\<rparr>)))"

definition own_form :: "fin \<Rightarrow> cfc \<Rightarrow> (cfc_error, cfc) result" where
  "own_form form c =
     (if is_zero form then Err InvalidIdentity
      else if owns_form c form then Err DuplicateForm
      else if owns_dimension c form then Err IdentityKindConflict
      else (case fill_slot form (c_forms c) of
        None \<Rightarrow> Err FormCapacity
      | Some slots \<Rightarrow> Ok (c\<lparr>c_forms := slots\<rparr>)))"

definition cfc_bind :: "fin \<Rightarrow> fin \<Rightarrow> cfc \<Rightarrow> (cfc_error, cfc) result" where
  "cfc_bind form dimension c =
     (if \<not> owns_form c form then Err MissingForm
      else if \<not> owns_dimension c dimension then Err MissingDimension
      else if is_bound c form dimension then Err AlreadyBound
      else (case fill_slot \<lparr>cb_form = form, cb_dimension = dimension\<rparr> (c_bindings c) of
        None \<Rightarrow> Err BindingCapacity
      | Some slots \<Rightarrow> Ok (c\<lparr>c_bindings := slots\<rparr>)))"

text \<open>
  \<^verbatim>\<open>validate\<close> runs three loops over the flattened arrays; \<^verbatim>\<open>skip(index + 1)\<close> is the rest of the
  list after the current element.
\<close>

fun validate_dimensions :: "cfc \<Rightarrow> fin list \<Rightarrow> (cfc_error, unit) result" where
  "validate_dimensions c [] = Ok ()"
| "validate_dimensions c (dimension # rest) =
     (if is_zero dimension \<or> dimension = c_primary_dimension c then Err DuplicateDimension
      else if list_ex (\<lambda>candidate. candidate = dimension) rest then Err DuplicateDimension
      else if owns_form c dimension then Err IdentityKindConflict
      else validate_dimensions c rest)"

fun validate_forms :: "cfc \<Rightarrow> fin list \<Rightarrow> (cfc_error, unit) result" where
  "validate_forms c [] = Ok ()"
| "validate_forms c (form # rest) =
     (if is_zero form then Err InvalidIdentity
      else if list_ex (\<lambda>candidate. candidate = form) rest then Err DuplicateForm
      else if owns_dimension c form then Err IdentityKindConflict
      else validate_forms c rest)"

fun validate_bindings :: "cfc \<Rightarrow> cfc_binding list \<Rightarrow> (cfc_error, unit) result" where
  "validate_bindings c [] = Ok ()"
| "validate_bindings c (binding # rest) =
     (if \<not> owns_form c (cb_form binding) then Err MissingForm
      else if \<not> owns_dimension c (cb_dimension binding) then Err MissingDimension
      else if list_ex (\<lambda>candidate. candidate = binding) rest then Err AlreadyBound
      else validate_bindings c rest)"

definition validate :: "cfc \<Rightarrow> (cfc_error, unit) result" where
  "validate c =
     (if cfc_is_zero (c_fin c) then Err InvalidCfcFin
      else if trim (as_str (c_name c)) = [] then Err InvalidName
      else if is_zero (c_primary_dimension c) then Err InvalidIdentity
      else (case validate_dimensions c (flatten (c_secondary_dimensions c)) of
        Err e \<Rightarrow> Err e
      | Ok _ \<Rightarrow> (case validate_forms c (flatten (c_forms c)) of
          Err e \<Rightarrow> Err e
        | Ok _ \<Rightarrow> validate_bindings c (flatten (c_bindings c)))))"

definition owns_any_identity :: "cfc \<Rightarrow> fin \<Rightarrow> bool" where
  "owns_any_identity c identity \<longleftrightarrow> owns_dimension c identity \<or> owns_form c identity"

datatype cfc_catalog_error =
    InvalidCfc cfc_error
  | DuplicateCfcFin
  | CrossCfcSharing fin cfc_fin
  | Full

type_synonym cfc_catalog = "cfc slots"

definition catalog_new :: cfc_catalog where
  "catalog_new = empty_slots MAX_CFCS"

text \<open>The identities a CFC owns, in the order the catalog examines them.\<close>

definition identities :: "cfc \<Rightarrow> fin list" where
  "identities c = c_primary_dimension c # flatten (c_secondary_dimensions c) @ flatten (c_forms c)"

text \<open>
  The nested loops of \<^verbatim>\<open>insert\<close>: for every published CFC, the Primary Dimension, the secondary
  Dimensions and the Forms of the candidate, in this order.
\<close>

fun shared_identity :: "cfc \<Rightarrow> cfc list \<Rightarrow> (fin \<times> cfc_fin) option" where
  "shared_identity c [] = None"
| "shared_identity c (existing # rest) =
     (case find (owns_any_identity existing) (identities c) of
       Some identity \<Rightarrow> Some (identity, c_fin existing)
     | None \<Rightarrow> shared_identity c rest)"

definition catalog_insert :: "cfc \<Rightarrow> cfc_catalog \<Rightarrow> (cfc_catalog_error, cfc_catalog) result" where
  "catalog_insert c cat =
     (case validate c of
       Err e \<Rightarrow> Err (InvalidCfc e)
     | Ok _ \<Rightarrow>
        if list_ex (\<lambda>entry. c_fin entry = c_fin c) (flatten cat) then Err DuplicateCfcFin
        else (case shared_identity c (flatten cat) of
          Some (identity, owner) \<Rightarrow> Err (CrossCfcSharing identity owner)
        | None \<Rightarrow> (case fill_slot c cat of
            None \<Rightarrow> Err cfc_catalog_error.Full
          | Some slots \<Rightarrow> Ok slots)))"

definition catalog_cfc :: "cfc_catalog \<Rightarrow> cfc_fin \<Rightarrow> cfc option" where
  "catalog_cfc cat fin = find (\<lambda>c. c_fin c = fin) (flatten cat)"

definition catalog_len :: "cfc_catalog \<Rightarrow> nat" where
  "catalog_len cat = length (flatten cat)"

definition catalog_is_empty :: "cfc_catalog \<Rightarrow> bool" where
  "catalog_is_empty cat \<longleftrightarrow> catalog_len cat = 0"

section \<open>Specification\<close>

text \<open>The ownership invariant \<^verbatim>\<open>validate\<close> is meant to decide.\<close>

definition cfc_shape :: "cfc \<Rightarrow> bool" where
  "cfc_shape c \<longleftrightarrow> length (c_secondary_dimensions c) = MAX_CFC_SECONDARY_DIMENSIONS \<and>
     length (c_forms c) = MAX_CFC_FORMS \<and> length (c_bindings c) = MAX_CFC_BINDINGS"

definition cfc_valid :: "cfc \<Rightarrow> bool" where
  "cfc_valid c \<longleftrightarrow> \<not> cfc_is_zero (c_fin c) \<and> trim (as_str (c_name c)) \<noteq> [] \<and>
     distinct (identities c) \<and> (\<forall>i\<in>set (identities c). \<not> is_zero i) \<and>
     distinct (flatten (c_bindings c)) \<and>
     (\<forall>b\<in>set (flatten (c_bindings c)). owns_form c (cb_form b) \<and> owns_dimension c (cb_dimension b))"

inductive cfc_step :: "cfc \<Rightarrow> cfc \<Rightarrow> bool" where
  step_dimension: "add_secondary_dimension d c = Ok c' \<Longrightarrow> cfc_step c c'"
| step_form: "own_form f c = Ok c' \<Longrightarrow> cfc_step c c'"
| step_bind: "cfc_bind f d c = Ok c' \<Longrightarrow> cfc_step c c'"

definition cfc_init :: "cfc \<Rightarrow> bool" where
  "cfc_init c \<longleftrightarrow> (\<exists>fin name primary. cfc_new fin name primary = Ok c)"

definition catalog_inv :: "cfc_catalog \<Rightarrow> bool" where
  "catalog_inv cat \<longleftrightarrow> length cat = MAX_CFCS \<and> (\<forall>c\<in>set (flatten cat). cfc_valid c) \<and>
     distinct (map c_fin (flatten cat)) \<and>
     (\<forall>c\<in>set (flatten cat). \<forall>d\<in>set (flatten cat). c \<noteq> d \<longrightarrow> set (identities c) \<inter> set (identities d) = {})"

definition catalog_step :: "cfc_catalog \<Rightarrow> cfc_catalog \<Rightarrow> bool" where
  "catalog_step cat cat' \<longleftrightarrow> (\<exists>c. catalog_insert c cat = Ok cat')"

section \<open>Lemmas\<close>

interpretation cfc_forms: keyed_table flatten fill_slot "\<lambda>t. length t = MAX_CFC_FORMS" MAX_CFC_FORMS id
  by (rule slots_keyed_table)

interpretation cfc_dimensions:
  keyed_table flatten fill_slot "\<lambda>t. length t = MAX_CFC_SECONDARY_DIMENSIONS" MAX_CFC_SECONDARY_DIMENSIONS id
  by (rule slots_keyed_table)

interpretation cfc_bindings:
  keyed_table flatten fill_slot "\<lambda>t. length t = MAX_CFC_BINDINGS" MAX_CFC_BINDINGS id
  by (rule slots_keyed_table)

interpretation cfc_catalogs: keyed_table flatten fill_slot "\<lambda>t. length t = MAX_CFCS" MAX_CFCS c_fin
  by (rule slots_keyed_table)

lemma owns_dimension_iff:
  "owns_dimension c d \<longleftrightarrow> d = c_primary_dimension c \<or> d \<in> set (flatten (c_secondary_dimensions c))"
  by (auto simp: owns_dimension_def list_ex_iff)

lemma owns_form_iff: "owns_form c f \<longleftrightarrow> f \<in> set (flatten (c_forms c))"
  by (auto simp: owns_form_def list_ex_iff)

lemma is_bound_iff:
  "is_bound c f d \<longleftrightarrow> \<lparr>cb_form = f, cb_dimension = d\<rparr> \<in> set (flatten (c_bindings c))"
proof -
  have "cb_form b = f \<and> cb_dimension b = d \<longleftrightarrow> b = \<lparr>cb_form = f, cb_dimension = d\<rparr>" for b :: cfc_binding
    by (cases b) auto
  then show ?thesis by (simp add: is_bound_def list_ex_iff)
qed

lemma owns_any_identity_iff: "owns_any_identity c i \<longleftrightarrow> i \<in> set (identities c)"
  by (auto simp: owns_any_identity_def owns_dimension_iff owns_form_iff identities_def)

lemmas ownership = owns_dimension_iff owns_form_iff is_bound_iff

lemma validate_dimensions_Ok:
  "validate_dimensions c ds = Ok () \<longleftrightarrow> distinct ds \<and>
     (\<forall>d\<in>set ds. \<not> is_zero d \<and> d \<noteq> c_primary_dimension c \<and> \<not> owns_form c d)"
  by (induction ds) (auto simp: list_ex_iff)

lemma validate_forms_Ok:
  "validate_forms c fs = Ok () \<longleftrightarrow> distinct fs \<and> (\<forall>f\<in>set fs. \<not> is_zero f \<and> \<not> owns_dimension c f)"
  by (induction fs) (auto simp: list_ex_iff)

lemma validate_bindings_Ok:
  "validate_bindings c bs = Ok () \<longleftrightarrow> distinct bs \<and>
     (\<forall>b\<in>set bs. owns_form c (cb_form b) \<and> owns_dimension c (cb_dimension b))"
  by (induction bs) (auto simp: list_ex_iff)

lemma validate_iff: "validate c = Ok () \<longleftrightarrow> cfc_valid c"
proof -
  have "validate c = Ok () \<longleftrightarrow> \<not> cfc_is_zero (c_fin c) \<and> trim (as_str (c_name c)) \<noteq> [] \<and>
      \<not> is_zero (c_primary_dimension c) \<and>
      validate_dimensions c (flatten (c_secondary_dimensions c)) = Ok () \<and>
      validate_forms c (flatten (c_forms c)) = Ok () \<and>
      validate_bindings c (flatten (c_bindings c)) = Ok ()"
    by (auto simp: validate_def split: sum.splits)
  also have "\<dots> \<longleftrightarrow> cfc_valid c"
    by (auto simp: validate_dimensions_Ok validate_forms_Ok validate_bindings_Ok cfc_valid_def
        identities_def ownership)
  finally show ?thesis .
qed

lemma cfc_new_valid:
  assumes "cfc_new fin name p = Ok c"
  shows "cfc_shape c \<and> cfc_valid c"
proof -
  obtain t where t: "text_new (trim name) = Ok t" and c: "\<not> cfc_is_zero fin" "\<not> is_zero p"
    "c = \<lparr>c_fin = fin, c_name = t, c_primary_dimension = p,
       c_secondary_dimensions = empty_slots MAX_CFC_SECONDARY_DIMENSIONS,
       c_forms = empty_slots MAX_CFC_FORMS, c_bindings = empty_slots MAX_CFC_BINDINGS\<rparr>"
    using assms by (auto simp: cfc_new_def split: if_splits sum.splits)
  have "as_str t = trim name" "trim name \<noteq> []"
    using t as_str_text_new by (auto simp: text_new_Ok)
  with c show ?thesis by (simp add: cfc_shape_def cfc_valid_def identities_def)
qed

lemma add_secondary_dimension_valid:
  assumes "cfc_shape c" "cfc_valid c" "add_secondary_dimension d c = Ok c'"
  shows "cfc_shape c' \<and> cfc_valid c'"
proof -
  obtain slots where *: "\<not> is_zero d" "\<not> owns_dimension c d" "\<not> owns_form c d"
    "fill_slot d (c_secondary_dimensions c) = Some slots" "c' = c\<lparr>c_secondary_dimensions := slots\<rparr>"
    using assms(3) by (auto simp: add_secondary_dimension_def split: if_splits option.splits)
  have "distinct (map id (flatten slots))"
    by (rule cfc_dimensions.publish_distinct [OF _ _ _ *(4)])
      (use assms *(2) in \<open>auto simp: cfc_shape_def cfc_valid_def identities_def ownership\<close>)
  with assms(1,2) * show ?thesis
    by (auto simp: cfc_shape_def cfc_valid_def identities_def ownership fill_slot_set
        fill_slot_length dest: fill_slot_length)
qed

lemma own_form_valid:
  assumes "cfc_shape c" "cfc_valid c" "own_form f c = Ok c'"
  shows "cfc_shape c' \<and> cfc_valid c'"
proof -
  obtain slots where *: "\<not> is_zero f" "\<not> owns_dimension c f" "\<not> owns_form c f"
    "fill_slot f (c_forms c) = Some slots" "c' = c\<lparr>c_forms := slots\<rparr>"
    using assms(3) by (auto simp: own_form_def split: if_splits option.splits)
  have "distinct (map id (flatten slots))"
    by (rule cfc_forms.publish_distinct [OF _ _ _ *(4)])
      (use assms *(3) in \<open>auto simp: cfc_shape_def cfc_valid_def identities_def ownership\<close>)
  with assms(1,2) * show ?thesis
    by (auto simp: cfc_shape_def cfc_valid_def identities_def ownership fill_slot_set
        fill_slot_length dest: fill_slot_length)
qed

lemma cfc_bind_valid:
  assumes "cfc_shape c" "cfc_valid c" "cfc_bind f d c = Ok c'"
  shows "cfc_shape c' \<and> cfc_valid c'"
proof -
  let ?b = "\<lparr>cb_form = f, cb_dimension = d\<rparr>"
  obtain slots where *: "owns_form c f" "owns_dimension c d" "\<not> is_bound c f d"
    "fill_slot ?b (c_bindings c) = Some slots" "c' = c\<lparr>c_bindings := slots\<rparr>"
    using assms(3) by (auto simp: cfc_bind_def split: if_splits option.splits)
  have "distinct (map id (flatten slots))"
    by (rule cfc_bindings.publish_distinct [OF _ _ _ *(4)])
      (use assms *(3) in \<open>auto simp: cfc_shape_def cfc_valid_def ownership\<close>)
  with assms(1,2) * show ?thesis
    by (auto simp: cfc_shape_def cfc_valid_def identities_def ownership fill_slot_set
        dest: fill_slot_length)
qed

lemma cfc_step_valid:
  assumes "cfc_step c c'" "cfc_shape c" "cfc_valid c"
  shows "cfc_shape c' \<and> cfc_valid c'"
  using assms(1)
proof cases
  case (step_dimension d)
  then show ?thesis by (rule add_secondary_dimension_valid [OF assms(2,3)])
next
  case (step_form f)
  then show ?thesis by (rule own_form_valid [OF assms(2,3)])
next
  case (step_bind f d)
  then show ?thesis by (rule cfc_bind_valid [OF assms(2,3)])
qed

interpretation cfc_system: invariant_system cfc_init cfc_step "\<lambda>c. cfc_shape c \<and> cfc_valid c"
proof unfold_locales
  fix c c'
  show "cfc_init c \<Longrightarrow> cfc_shape c \<and> cfc_valid c"
    using cfc_new_valid by (auto simp: cfc_init_def)
  show "cfc_shape c \<and> cfc_valid c \<Longrightarrow> cfc_step c c' \<Longrightarrow> cfc_shape c' \<and> cfc_valid c'"
    by (rule cfc_step_valid) auto
qed

lemma shared_identity_None:
  "shared_identity c cs = None \<longleftrightarrow> (\<forall>d\<in>set cs. set (identities c) \<inter> set (identities d) = {})"
proof (induction cs)
  case (Cons d cs)
  have "find (owns_any_identity d) (identities c) = None \<longleftrightarrow> set (identities c) \<inter> set (identities d) = {}"
    by (auto simp: find_None_iff owns_any_identity_iff)
  with Cons show ?case by (auto split: option.splits)
qed simp

lemma catalog_insert_Ok:
  assumes "catalog_insert c cat = Ok cat'"
  shows "cfc_valid c" "c_fin c \<notin> c_fin ` set (flatten cat)"
    "\<forall>d\<in>set (flatten cat). set (identities c) \<inter> set (identities d) = {}" "fill_slot c cat = Some cat'"
proof -
  have "validate c = Ok ()"
    using assms by (auto simp: catalog_insert_def split: sum.splits)
  then show "cfc_valid c" by (simp add: validate_iff)
  have "\<not> list_ex (\<lambda>entry. c_fin entry = c_fin c) (flatten cat)" "shared_identity c (flatten cat) = None"
    "fill_slot c cat = Some cat'"
    using assms \<open>validate c = Ok ()\<close>
    by (auto simp: catalog_insert_def split: if_splits option.splits)
  then show "c_fin c \<notin> c_fin ` set (flatten cat)"
    "\<forall>d\<in>set (flatten cat). set (identities c) \<inter> set (identities d) = {}" "fill_slot c cat = Some cat'"
    unfolding shared_identity_None by (auto simp: list_ex_iff)
qed

lemma catalog_insert_inv:
  assumes "catalog_inv cat" "catalog_insert c cat = Ok cat'"
  shows "catalog_inv cat'"
proof -
  note ok = catalog_insert_Ok [OF assms(2)]
  have len: "length cat = MAX_CFCS" and d: "distinct (map c_fin (flatten cat))"
    using assms(1) by (simp_all add: catalog_inv_def)
  have "distinct (map c_fin (flatten cat'))"
    by (rule cfc_catalogs.publish_distinct [OF len d ok(2,4)])
  moreover have "length cat' = MAX_CFCS" using len fill_slot_length [OF ok(4)] by simp
  moreover have set: "set (flatten cat') = insert c (set (flatten cat))"
    by (rule fill_slot_set [OF ok(4)])
  moreover have "\<forall>a\<in>set (flatten cat'). cfc_valid a"
    using assms(1) ok(1) unfolding set catalog_inv_def by blast
  moreover have "\<forall>a\<in>set (flatten cat'). \<forall>b\<in>set (flatten cat').
      a \<noteq> b \<longrightarrow> set (identities a) \<inter> set (identities b) = {}"
    using assms(1) ok(3) unfolding set catalog_inv_def by blast
  ultimately show ?thesis unfolding catalog_inv_def by blast
qed

interpretation catalog_system: invariant_system "\<lambda>cat. cat = catalog_new" catalog_step catalog_inv
proof unfold_locales
  fix cat cat' :: cfc_catalog
  show "cat = catalog_new \<Longrightarrow> catalog_inv cat"
    by (simp add: catalog_new_def catalog_inv_def)
  show "catalog_inv cat \<Longrightarrow> catalog_step cat cat' \<Longrightarrow> catalog_inv cat'"
    using catalog_insert_inv by (auto simp: catalog_step_def)
qed

section \<open>Properties\<close>

text \<open>A concrete CFC for the witnesses.\<close>

definition demo_cfc :: "128 word \<Rightarrow> 128 word \<Rightarrow> cfc" where
  "demo_cfc n p = \<lparr>c_fin = cfc_from_u128 n,
     c_name = \<lparr>text_bytes = map of_nat (lit ''Demo'') @ replicate 28 0, text_len = 4\<rparr>,
     c_primary_dimension = from_u128 p,
     c_secondary_dimensions = empty_slots MAX_CFC_SECONDARY_DIMENSIONS,
     c_forms = empty_slots MAX_CFC_FORMS, c_bindings = empty_slots MAX_CFC_BINDINGS\<rparr>"

lemma demo_cfc_new:
  "n \<noteq> 0 \<Longrightarrow> p \<noteq> 0 \<Longrightarrow> cfc_new (cfc_from_u128 n) (lit ''Demo'') (from_u128 p) = Ok (demo_cfc n p)"
  by (simp add: cfc_new_def demo_cfc_def text_new_def text_empty_def trim_def lit_def
      is_whitespace_def str_len_def utf8_width_def is_ascii_def TEXT_CAPACITY_def)

lemma demo_cfc_valid: "n \<noteq> 0 \<Longrightarrow> p \<noteq> 0 \<Longrightarrow> cfc_valid (demo_cfc n p)"
  using cfc_new_valid [OF demo_cfc_new] by blast

definition demo_owner :: "128 word \<Rightarrow> cfc" where
  "demo_owner n = (demo_cfc n 10)\<lparr>c_forms := Some (from_u128 20) # empty_slots 15\<rparr>"

lemma demo_owner_own: "own_form (from_u128 20) (demo_cfc n 10) = Ok (demo_owner n)"
  by (simp add: own_form_def owns_form_iff owns_dimension_iff demo_cfc_def demo_owner_def MAX_CFC_FORMS_def
      fill_empty_slots)

lemma demo_owner_valid: "n \<noteq> 0 \<Longrightarrow> validate (demo_owner n) = Ok ()"
  using own_form_valid [OF _ _ demo_owner_own] cfc_new_valid [OF demo_cfc_new, of n 10] by (auto simp: validate_iff)

text \<open>
  C7: exclusive ownership. In every catalog that insertions can build from the empty one, two
  CFCs published under different identities own no Dimension or Form in common.
\<close>

theorem catalog_exclusive_ownership:
  assumes "reachable (\<lambda>cat. cat = catalog_new) catalog_step cat"
    and "catalog_cfc cat f = Some c" and "catalog_cfc cat g = Some d" and "f \<noteq> g"
  shows "\<not> (owns_any_identity c i \<and> owns_any_identity d i)"
proof -
  have c: "c \<in> set (flatten cat) \<and> c_fin c = f" and d: "d \<in> set (flatten cat) \<and> c_fin d = g"
    using assms(2,3) unfolding catalog_cfc_def by (auto dest!: find_SomeD)
  then have "c \<noteq> d" using assms(4) by metis
  have "catalog_inv cat" using assms(1) by (rule catalog_system.reachable_inv)
  then have "set (identities c) \<inter> set (identities d) = {}"
    using c d \<open>c \<noteq> d\<close> unfolding catalog_inv_def by metis
  then show ?thesis unfolding owns_any_identity_iff by blast
qed

theorem catalog_exclusive_ownership_witness:
  "\<not> (owns_any_identity (demo_cfc 1 10) (from_u128 10) \<and> owns_any_identity (demo_cfc 2 20) (from_u128 10))"
proof -
  let ?a = "demo_cfc 1 10" and ?b = "demo_cfc 2 20"
  have v: "validate ?a = Ok ()" "validate ?b = Ok ()"
    by (simp_all add: validate_iff demo_cfc_valid)
  have sep: "shared_identity ?b [?a] = None"
    unfolding shared_identity_None by (simp add: identities_def demo_cfc_def)
  have fins: "c_fin ?a = cfc_from_u128 1" "c_fin ?b = cfc_from_u128 2"
    by (simp_all add: demo_cfc_def)
  have 1: "catalog_insert ?a catalog_new = Ok (Some ?a # empty_slots 3)"
    using v by (simp add: catalog_insert_def catalog_new_def fill_empty_slots MAX_CFCS_def)
  have 2: "catalog_insert ?b (Some ?a # empty_slots 3) = Ok (Some ?a # Some ?b # empty_slots 2)"
    using v fins sep by (simp add: catalog_insert_def fill_empty_slots)
  let ?cat = "Some ?a # Some ?b # empty_slots 2"
  have "reachable (\<lambda>cat. cat = catalog_new) catalog_step ?cat"
    using 1 2 by (auto simp: catalog_step_def intro!: reachable_step [OF reachable_step [OF reachable_init]])
  moreover have "catalog_cfc ?cat (cfc_from_u128 1) = Some ?a" "catalog_cfc ?cat (cfc_from_u128 2) = Some ?b"
    using fins by (simp_all add: catalog_cfc_def)
  ultimately show ?thesis
    using catalog_exclusive_ownership [of ?cat "cfc_from_u128 1" ?a "cfc_from_u128 2" ?b "from_u128 10"]
    by simp
qed

text \<open>
  \<^verbatim>\<open>validate\<close> accepts every CFC the public operations build, and what it accepts
  owns pairwise distinct, non-zero identities with every binding inside the CFC.
\<close>

theorem cfc_operations_validate:
  assumes "reachable cfc_init cfc_step c"
  shows "validate c = Ok () \<and> distinct (identities c) \<and> (\<forall>i\<in>set (identities c). \<not> is_zero i) \<and>
    (\<forall>b\<in>set (flatten (c_bindings c)). owns_form c (cb_form b) \<and> owns_dimension c (cb_dimension b)) \<and>
    dimension_count c \<le> 8 \<and> form_count c \<le> 16 \<and> binding_count c \<le> 32"
proof -
  have "cfc_shape c" "cfc_valid c" using cfc_system.reachable_inv [OF assms] by auto
  moreover have "dimension_count c \<le> 8" "form_count c \<le> 16" "binding_count c \<le> 32"
    using \<open>cfc_shape c\<close> length_flatten_le [of "c_secondary_dimensions c"]
      length_flatten_le [of "c_forms c"] length_flatten_le [of "c_bindings c"]
    by (simp_all add: cfc_shape_def dimension_count_def form_count_def binding_count_def
        MAX_CFC_SECONDARY_DIMENSIONS_def MAX_CFC_FORMS_def MAX_CFC_BINDINGS_def)
  ultimately show ?thesis by (auto simp: validate_iff cfc_valid_def)
qed

theorem cfc_operations_validate_witness:
  "\<exists>c. own_form (from_u128 20) (demo_cfc 1 10) = Ok c \<and> validate c = Ok ()"
proof -
  have "reachable cfc_init cfc_step (demo_cfc 1 10)"
    using demo_cfc_new [of 1 10] by (intro reachable_init) (auto simp: cfc_init_def)
  then have "reachable cfc_init cfc_step (demo_owner 1)"
    using cfc_step.step_form [OF demo_owner_own] by (rule reachable_step)
  from cfc_operations_validate [OF this] demo_owner_own show ?thesis by blast
qed

end
