(* ===== verification/Scope.thy ===== *)
theory Scope
  imports Cfc
begin

text \<open>
  Reachability confinement (\<^verbatim>\<open>scope.rs\<close>): the Forms one subject may reach in a CFC and Dimension.
  The scope copies the CFC's Forms when it is created; later requests are checked against that
  copy and an explicit allowlist.
\<close>

section \<open>Model\<close>

definition MAX_SCOPE_TARGETS :: nat where
  "MAX_SCOPE_TARGETS = 8"

datatype scope_error = UnownedDimension | UnownedForm | Duplicate | Full | Denied

record exp_scope =
  sc_cfc :: cfc_fin
  sc_dimension :: fin
  sc_subject :: fin
  sc_owned_forms :: "fin slots"
  sc_targets :: "fin slots"

definition scope_new :: "cfc \<Rightarrow> fin \<Rightarrow> fin \<Rightarrow> (scope_error, exp_scope) result" where
  "scope_new cfc dimension subject =
     (if \<not> owns_dimension cfc dimension then Err UnownedDimension
      else if \<not> owns_form cfc subject then Err UnownedForm
      else Ok \<lparr>sc_cfc = c_fin cfc, sc_dimension = dimension, sc_subject = subject,
        sc_owned_forms = map (cfc_form cfc) [0..<MAX_CFC_FORMS],
        sc_targets = empty_slots MAX_SCOPE_TARGETS\<rparr>)"

definition scope_len :: "exp_scope \<Rightarrow> nat" where
  "scope_len s = length (flatten (sc_targets s))"

definition scope_is_empty :: "exp_scope \<Rightarrow> bool" where
  "scope_is_empty s = list_all (\<lambda>t. t = None) (sc_targets s)"

definition scope_targets :: "exp_scope \<Rightarrow> fin list" where
  "scope_targets s = flatten (sc_targets s)"

definition scope_contains :: "exp_scope \<Rightarrow> fin \<Rightarrow> bool" where
  "scope_contains s target = list_ex (\<lambda>allowed. allowed = target) (scope_targets s)"

definition validate_target :: "exp_scope \<Rightarrow> fin \<Rightarrow> (scope_error, unit) result" where
  "validate_target s target =
     (if \<not> list_ex (\<lambda>owned. owned = target) (flatten (sc_owned_forms s)) then Err UnownedForm else Ok ())"

definition allow :: "fin \<Rightarrow> exp_scope \<Rightarrow> (scope_error, exp_scope) result" where
  "allow target s =
     (case validate_target s target of
       Err e \<Rightarrow> Err e
     | Ok _ \<Rightarrow>
        if scope_contains s target then Err Duplicate
        else (case fill_slot target (sc_targets s) of
          None \<Rightarrow> Err Full
        | Some slots \<Rightarrow> Ok (s\<lparr>sc_targets := slots\<rparr>)))"

definition scope_authorize :: "exp_scope \<Rightarrow> fin \<Rightarrow> (scope_error, unit) result" where
  "scope_authorize s target =
     (case validate_target s target of
       Err e \<Rightarrow> Err e
     | Ok _ \<Rightarrow> if scope_contains s target then Ok () else Err Denied)"

section \<open>Specification\<close>

text \<open>The scope of a history of requests: a refused request leaves the scope alone.\<close>

fun allow_all :: "fin list \<Rightarrow> exp_scope \<Rightarrow> exp_scope" where
  "allow_all [] s = s"
| "allow_all (t # ts) s = allow_all ts (case allow t s of Err _ \<Rightarrow> s | Ok s' \<Rightarrow> s')"

definition scope_shape :: "exp_scope \<Rightarrow> bool" where
  "scope_shape s \<longleftrightarrow> length (sc_targets s) = MAX_SCOPE_TARGETS \<and> distinct (scope_targets s)"

section \<open>Lemmas\<close>

interpretation scope_table: keyed_table flatten fill_slot
  "\<lambda>t. length t = MAX_SCOPE_TARGETS" MAX_SCOPE_TARGETS "\<lambda>t. t"
  by (rule slots_keyed_table)

lemma scope_contains_iff: "scope_contains s t \<longleftrightarrow> t \<in> set (scope_targets s)"
  by (auto simp: scope_contains_def list_ex_iff)

lemma allow_Ok:
  assumes "allow t s = Ok s'"
  shows "s' = s\<lparr>sc_targets := sc_targets s'\<rparr>" "fill_slot t (sc_targets s) = Some (sc_targets s')"
    "t \<in> set (flatten (sc_owned_forms s))" "t \<notin> set (scope_targets s)"
  using assms by (auto simp: allow_def validate_target_def scope_contains_iff list_ex_iff
      split: sum.splits option.splits if_splits)

lemma allow_shape: "scope_shape s \<Longrightarrow> allow t s = Ok s' \<Longrightarrow> scope_shape s'"
  using allow_Ok(2,4) [of t s s'] fill_slot_length [of t "sc_targets s" "sc_targets s'"]
    scope_table.publish_distinct [of "sc_targets s" t "sc_targets s'"]
  by (simp add: scope_shape_def scope_targets_def)

text \<open>The snapshot packs the Forms to the front of the array and keeps them all.\<close>

lemma flatten_map_nth:
  "flatten (map (\<lambda>i. if i < length xs then Some (xs ! i) else None) [0..<n]) = take n xs"
  by (induction n) (auto simp: take_Suc_conv_app_nth)

lemma cfc_form_snapshot:
  assumes "length (c_forms c) = n"
  shows "flatten (map (cfc_form c) [0..<n]) = flatten (c_forms c)"
proof -
  have "cfc_form c = (\<lambda>i. if i < length (flatten (c_forms c)) then Some (flatten (c_forms c) ! i) else None)"
    by (auto simp: cfc_form_def nth_entry_def)
  then show ?thesis
    using flatten_map_nth [of "flatten (c_forms c)" n] length_flatten_le [of "c_forms c"] assms by simp
qed

lemma allow_all_owned:
  "set (scope_targets s) \<subseteq> set (flatten (sc_owned_forms s)) \<Longrightarrow>
    sc_owned_forms (allow_all ts s) = sc_owned_forms s \<and>
    set (scope_targets s) \<subseteq> set (scope_targets (allow_all ts s)) \<and>
    set (scope_targets (allow_all ts s)) \<subseteq>
      set (flatten (sc_owned_forms s)) \<inter> (set (scope_targets s) \<union> set ts)"
proof (induction ts arbitrary: s)
  case (Cons t ts)
  show ?case
  proof (cases "allow t s")
    case (Inl e)
    then show ?thesis using Cons.IH [OF Cons.prems] by auto
  next
    case (Inr s')
    have own: "sc_owned_forms s' = sc_owned_forms s" by (subst allow_Ok(1) [OF Inr]) simp
    have tg: "set (scope_targets s') = insert t (set (scope_targets s))"
      using fill_slot_set [OF allow_Ok(2) [OF Inr]] by (simp add: scope_targets_def)
    have "set (scope_targets s') \<subseteq> set (flatten (sc_owned_forms s'))"
      using tg own allow_Ok(3) [OF Inr] Cons.prems by simp
    from Cons.IH [OF this] show ?thesis using own tg Inr by auto
  qed
qed auto

lemma allow_all_shape: "scope_shape s \<Longrightarrow> scope_shape (allow_all ts s)"
  by (induction ts arbitrary: s) (auto split: sum.splits intro: allow_shape)

section \<open>Properties\<close>

text \<open>
  C28: confinement is deny-by-default and closed. Whatever Forms are asked for after a scope was
  created, it authorises only Forms the CFC owned when the scope was created and that were
  explicitly allowed; a fresh scope authorises nothing, and at most eight Forms are ever reachable.
\<close>

theorem scope_confines:
  assumes "scope_new cfc dimension subject = Ok s" and "length (c_forms cfc) = MAX_CFC_FORMS"
  shows "(scope_authorize (allow_all ts s) t = Ok () \<longrightarrow> owns_form cfc t \<and> t \<in> set ts) \<and>
    scope_authorize s t \<noteq> Ok () \<and> scope_len (allow_all ts s) \<le> 8 \<and>
    owns_dimension cfc dimension \<and> owns_form cfc subject"
proof -
  have s: "owns_dimension cfc dimension" "owns_form cfc subject" "flatten (sc_owned_forms s) = flatten (c_forms cfc)"
    "scope_targets s = []" "scope_shape s"
    using assms by (auto simp: scope_new_def cfc_form_snapshot scope_targets_def scope_shape_def
        split: if_splits)
  let ?s = "allow_all ts s"
  have "set (scope_targets ?s) \<subseteq> set (flatten (c_forms cfc)) \<inter> set ts"
    using allow_all_owned [of s ts] s(3,4) by auto
  then have "scope_authorize ?s t = Ok () \<longrightarrow> owns_form cfc t \<and> t \<in> set ts"
    by (auto simp: scope_authorize_def scope_contains_iff owns_form_iff split: sum.splits if_splits)
  moreover have "scope_authorize s t \<noteq> Ok ()"
    using s(4) by (auto simp: scope_authorize_def scope_contains_iff split: sum.splits)
  moreover have "scope_len ?s \<le> 8"
    using allow_all_shape [OF s(5), of ts] length_flatten_le [of "sc_targets ?s"]
    by (simp add: scope_len_def scope_shape_def MAX_SCOPE_TARGETS_def)
  ultimately show ?thesis using s by simp
qed

theorem scope_confines_witness:
  "\<exists>c s. own_form (from_u128 20) (demo_cfc 1 10) = Ok c \<and>
    scope_new c (from_u128 10) (from_u128 20) = Ok s \<and>
    scope_authorize (allow_all [from_u128 20] s) (from_u128 20) = Ok () \<and>
    scope_authorize (allow_all [from_u128 20] s) (from_u128 21) \<noteq> Ok ()"
proof -
  let ?c = "(demo_cfc 1 10)\<lparr>c_forms := Some (from_u128 20) # empty_slots 15\<rparr>"
  have own: "own_form (from_u128 20) (demo_cfc 1 10) = Ok ?c"
    by (simp add: own_form_def owns_form_iff owns_dimension_iff demo_cfc_def MAX_CFC_FORMS_def
        fill_empty_slots)
  have len: "length (c_forms ?c) = MAX_CFC_FORMS" by (simp add: MAX_CFC_FORMS_def)
  obtain s where s: "scope_new ?c (from_u128 10) (from_u128 20) = Ok s"
    "flatten (sc_owned_forms s) = flatten (c_forms ?c)" "sc_targets s = empty_slots 8"
    using cfc_form_snapshot [OF len]
    by (auto simp: scope_new_def owns_dimension_iff owns_form_iff demo_cfc_def MAX_SCOPE_TARGETS_def)
  have "scope_authorize (allow_all [from_u128 20] s) (from_u128 20) = Ok ()"
    using s(2,3) by (simp add: allow_def validate_target_def scope_contains_iff scope_targets_def
        scope_authorize_def fill_empty_slots)
  moreover have "scope_authorize (allow_all [from_u128 20] s) (from_u128 21) \<noteq> Ok ()"
    using scope_confines [OF s(1) len, of "[from_u128 20]" "from_u128 21"] by auto
  ultimately show ?thesis using own s(1) by blast
qed

end
