(* ===== verification/Policy.thy ===== *)
theory Policy
  imports Identity Slots
begin

text \<open>
  Declarative policy: the PIMP specification language (\<^verbatim>\<open>pimp.rs\<close>) and its resolver DIESE
  (\<^verbatim>\<open>diese.rs\<close>). A specification is a few \<^verbatim>\<open>key = value\<close> lines at one of five scopes; the resolver
  combines all specifications of a target and Dimension. The lemmas show that parsing yields
  distinct, well-typed entries and that a resolution takes every value from the most specific scope.
\<close>

section \<open>PIMP\<close>

definition MAX_ENTRIES :: nat where
  "MAX_ENTRIES = 8"

datatype pimp_scope = BuiltIn | System | Subsystem | Dimension | Form

fun scope_rank :: "pimp_scope \<Rightarrow> nat" where
  "scope_rank BuiltIn = 0"
| "scope_rank System = 1"
| "scope_rank Subsystem = 2"
| "scope_rank Dimension = 3"
| "scope_rank Form = 4"

lemma scope_rank_inject [simp]: "scope_rank a = scope_rank b \<longleftrightarrow> a = b"
  by (cases a; cases b) simp_all

text \<open>The derived order of the Rust enumeration.\<close>

instantiation pimp_scope :: linorder
begin

definition less_eq_pimp_scope :: "pimp_scope \<Rightarrow> pimp_scope \<Rightarrow> bool" where
  "less_eq_pimp_scope a b \<longleftrightarrow> scope_rank a \<le> scope_rank b"

definition less_pimp_scope :: "pimp_scope \<Rightarrow> pimp_scope \<Rightarrow> bool" where
  "less_pimp_scope a b \<longleftrightarrow> scope_rank a < scope_rank b"

instance
  by standard (auto simp: less_eq_pimp_scope_def less_pimp_scope_def)

end

datatype spec_key = Use | Backend | Network | Debug | Isolation

datatype network_policy = Open | Restricted | Disabled

datatype pimp_value =
    Enabled bool
  | NetworkValue network_policy
  | Name text_t

record pimp_entry =
  e_key :: spec_key
  e_value :: pimp_value

record pimp_spec =
  p_scope :: pimp_scope
  p_target :: fin
  p_dimension :: "fin option"
  p_entries :: "pimp_entry slots"

datatype parse_error =
    Empty
  | MalformedLine
  | UnknownKey
  | InvalidValue
  | DuplicateKey
  | TooManyEntries

definition parse_key :: "str \<Rightarrow> (parse_error, spec_key) result" where
  "parse_key s =
     (if s = lit ''use'' then Ok Use
      else if s = lit ''backend'' then Ok Backend
      else if s = lit ''network'' then Ok Network
      else if s = lit ''debug'' then Ok Debug
      else if s = lit ''isolation'' then Ok Isolation
      else Err UnknownKey)"

definition parse_value :: "spec_key \<Rightarrow> str \<Rightarrow> (parse_error, pimp_value) result" where
  "parse_value key s =
     (if key = Debug \<or> key = Isolation then
        (if s = lit ''enabled'' \<or> s = lit ''true'' then Ok (Enabled True)
         else if s = lit ''disabled'' \<or> s = lit ''false'' then Ok (Enabled False)
         else Err InvalidValue)
      else if key = Network then
        (if s = lit ''open'' then Ok (NetworkValue Open)
         else if s = lit ''restricted'' then Ok (NetworkValue Restricted)
         else if s = lit ''disabled'' then Ok (NetworkValue Disabled)
         else Err InvalidValue)
      else (case text_new s of Err _ \<Rightarrow> Err InvalidValue | Ok t \<Rightarrow> Ok (Name t)))"

text \<open>One turn of the loop over the lines, on the entries and their count.\<close>

definition parse_line :: "str \<Rightarrow> pimp_entry slots \<times> nat \<Rightarrow> (parse_error, pimp_entry slots \<times> nat) result" where
  "parse_line raw_line = (\<lambda>(entries, cnt).
     let line = trim raw_line in
     if line = [] \<or> hd line = 35 then Ok (entries, cnt)
     else (case split_once 61 line of
       None \<Rightarrow> Err MalformedLine
     | Some (raw_key, raw_value) \<Rightarrow> (case parse_key (trim raw_key) of
         Err e \<Rightarrow> Err e
       | Ok key \<Rightarrow>
          if list_ex (\<lambda>entry. e_key entry = key) (flatten entries) then Err DuplicateKey
          else (case parse_value key (trim raw_value) of
            Err e \<Rightarrow> Err e
          | Ok v \<Rightarrow>
             if cnt \<ge> MAX_ENTRIES then Err TooManyEntries
             else Ok (entries[cnt := Some \<lparr>e_key = key, e_value = v\<rparr>], cnt + 1)))))"

fun parse_lines :: "str list \<Rightarrow> pimp_entry slots \<times> nat \<Rightarrow> (parse_error, pimp_entry slots \<times> nat) result" where
  "parse_lines [] st = Ok st"
| "parse_lines (l # ls) st = (case parse_line l st of Err e \<Rightarrow> Err e | Ok st' \<Rightarrow> parse_lines ls st')"

definition parse :: "pimp_scope \<Rightarrow> fin \<Rightarrow> fin option \<Rightarrow> str \<Rightarrow> (parse_error, pimp_spec) result" where
  "parse scope target dimension source =
     (case parse_lines (str_lines source) (empty_slots MAX_ENTRIES, 0) of
       Err e \<Rightarrow> Err e
     | Ok (entries, cnt) \<Rightarrow>
        if cnt = 0 then Err Empty
        else Ok \<lparr>p_scope = scope, p_target = target, p_dimension = dimension, p_entries = entries\<rparr>)"

section \<open>DIESE\<close>

definition MAX_SPECS :: nat where
  "MAX_SPECS = 16"

datatype diagnostic = TooManySpecifications | Conflict spec_key pimp_scope | MissingPolicy

record resolution =
  use_mode :: "text_t option"
  backend :: "text_t option"
  network :: "network_policy option"
  debug :: "bool option"
  isolation :: "bool option"

record selected =
  sel_scope :: pimp_scope
  sel_value :: pimp_value

type_synonym diese = "pimp_spec slots"

definition diese_new :: diese where
  "diese_new = empty_slots MAX_SPECS"

definition diese_push :: "pimp_spec \<Rightarrow> diese \<Rightarrow> (diagnostic, diese) result" where
  "diese_push spec d = (case fill_slot spec d of None \<Rightarrow> Err TooManySpecifications | Some d' \<Rightarrow> Ok d')"

fun key_index :: "spec_key \<Rightarrow> nat" where
  "key_index Use = 0"
| "key_index Backend = 1"
| "key_index Network = 2"
| "key_index Debug = 3"
| "key_index Isolation = 4"

definition select_entry ::
  "pimp_scope \<Rightarrow> pimp_entry \<Rightarrow> selected slots \<Rightarrow> (diagnostic, selected slots) result" where
  "select_entry scope entry selected =
     (let index = key_index (e_key entry);
          new = Ok (selected[index := Some \<lparr>sel_scope = scope, sel_value = e_value entry\<rparr>])
      in case selected ! index of
        None \<Rightarrow> new
      | Some current \<Rightarrow>
         if sel_scope current > scope then Ok selected
         else if sel_scope current = scope \<and> sel_value current \<noteq> e_value entry
         then Err (Conflict (e_key entry) scope)
         else new)"

fun select_entries ::
  "pimp_scope \<Rightarrow> pimp_entry list \<Rightarrow> selected slots \<Rightarrow> (diagnostic, selected slots) result" where
  "select_entries scope [] selected = Ok selected"
| "select_entries scope (e # es) selected =
     (case select_entry scope e selected of
       Err d \<Rightarrow> Err d
     | Ok selected' \<Rightarrow> select_entries scope es selected')"

definition applies :: "fin \<Rightarrow> fin \<Rightarrow> pimp_spec \<Rightarrow> bool" where
  "applies target dimension spec \<longleftrightarrow> p_target spec = target \<and>
     (case p_dimension spec of None \<Rightarrow> True | Some required \<Rightarrow> required = dimension)"

fun select_specs ::
  "fin \<Rightarrow> fin \<Rightarrow> pimp_spec list \<Rightarrow> selected slots \<times> bool \<Rightarrow> (diagnostic, selected slots \<times> bool) result" where
  "select_specs target dimension [] st = Ok st"
| "select_specs target dimension (s # ss) (selected, matched) =
     (if \<not> applies target dimension s then select_specs target dimension ss (selected, matched)
      else (case select_entries (p_scope s) (flatten (p_entries s)) selected of
        Err d \<Rightarrow> Err d
      | Ok selected' \<Rightarrow> select_specs target dimension ss (selected', True)))"

definition name_value :: "selected option \<Rightarrow> text_t option" where
  "name_value s = (case s of Some sel \<Rightarrow> (case sel_value sel of Name v \<Rightarrow> Some v | _ \<Rightarrow> None) | None \<Rightarrow> None)"

definition network_value :: "selected option \<Rightarrow> network_policy option" where
  "network_value s =
     (case s of Some sel \<Rightarrow> (case sel_value sel of NetworkValue v \<Rightarrow> Some v | _ \<Rightarrow> None) | None \<Rightarrow> None)"

definition bool_value :: "selected option \<Rightarrow> bool option" where
  "bool_value s = (case s of Some sel \<Rightarrow> (case sel_value sel of Enabled v \<Rightarrow> Some v | _ \<Rightarrow> None) | None \<Rightarrow> None)"

definition resolve :: "diese \<Rightarrow> fin \<Rightarrow> fin \<Rightarrow> (diagnostic, resolution) result" where
  "resolve d target dimension =
     (case select_specs target dimension (flatten d) (empty_slots 5, False) of
       Err e \<Rightarrow> Err e
     | Ok (selected, matched) \<Rightarrow>
        if \<not> matched then Err MissingPolicy
        else Ok \<lparr>use_mode = name_value (selected ! 0), backend = name_value (selected ! 1),
          network = network_value (selected ! 2), debug = bool_value (selected ! 3),
          isolation = bool_value (selected ! 4)\<rparr>)"

section \<open>Specification\<close>

text \<open>The type of value each key takes, and a resolution read as a map from keys to values.\<close>

fun well_typed :: "spec_key \<Rightarrow> pimp_value \<Rightarrow> bool" where
  "well_typed k (Enabled b) \<longleftrightarrow> k = Debug \<or> k = Isolation"
| "well_typed k (NetworkValue n) \<longleftrightarrow> k = Network"
| "well_typed k (Name t) \<longleftrightarrow> k = Use \<or> k = Backend"

fun resolved :: "resolution \<Rightarrow> spec_key \<Rightarrow> pimp_value option" where
  "resolved r Use = map_option Name (use_mode r)"
| "resolved r Backend = map_option Name (backend r)"
| "resolved r Network = map_option NetworkValue (network r)"
| "resolved r Debug = map_option Enabled (debug r)"
| "resolved r Isolation = map_option Enabled (isolation r)"

text \<open>What the applicable specifications say: scope, key and value of each of their entries.\<close>

definition said :: "pimp_scope \<Rightarrow> pimp_entry list \<Rightarrow> (pimp_scope \<times> spec_key \<times> pimp_value) set" where
  "said scope es = (\<lambda>e. (scope, e_key e, e_value e)) ` set es"

definition statements :: "fin \<Rightarrow> fin \<Rightarrow> pimp_spec list \<Rightarrow> (pimp_scope \<times> spec_key \<times> pimp_value) set" where
  "statements target dimension ss =
     (\<Union>s\<in>set (filter (applies target dimension) ss). said (p_scope s) (flatten (p_entries s)))"

text \<open>\<open>settles C k s v\<close>: among the statements \<open>C\<close> on \<open>k\<close>, \<open>v\<close> is said at \<open>s\<close> and is the only value said there or above.\<close>

definition settles :: "(pimp_scope \<times> spec_key \<times> pimp_value) set \<Rightarrow> spec_key \<Rightarrow> pimp_scope \<Rightarrow> pimp_value \<Rightarrow> bool" where
  "settles C k s v \<longleftrightarrow> (s, k, v) \<in> C \<and> (\<forall>s' v'. (s', k, v') \<in> C \<longrightarrow> s' < s \<or> s' = s \<and> v' = v)"

definition conflicting :: "(pimp_scope \<times> spec_key \<times> pimp_value) set \<Rightarrow> spec_key \<Rightarrow> pimp_scope \<Rightarrow> bool" where
  "conflicting C k s \<longleftrightarrow> (\<exists>v v'. v \<noteq> v' \<and> (s, k, v) \<in> C \<and> (s, k, v') \<in> C)"

text \<open>The loop invariant of the resolver after the statements \<open>C\<close> were read.\<close>

definition tracks :: "(pimp_scope \<times> spec_key \<times> pimp_value) set \<Rightarrow> selected slots \<Rightarrow> bool" where
  "tracks C selected \<longleftrightarrow> length selected = 5 \<and>
     (\<forall>k. case selected ! key_index k of
        None \<Rightarrow> \<forall>s v. (s, k, v) \<notin> C
      | Some c \<Rightarrow> settles C k (sel_scope c) (sel_value c))"

section \<open>Lemmas\<close>

lemma parse_value_typed: "parse_value k s = Ok v \<Longrightarrow> well_typed k v"
  by (cases k) (auto simp: parse_value_def split: if_splits sum.splits)

text \<open>The loop state: the first \<open>cnt\<close> slots are taken, the rest is empty.\<close>

definition parse_inv :: "pimp_entry slots \<times> nat \<Rightarrow> bool" where
  "parse_inv = (\<lambda>(entries, cnt). \<exists>es. entries = map Some es @ empty_slots (MAX_ENTRIES - cnt) \<and>
     length es = cnt \<and> distinct (map e_key es) \<and> (\<forall>e\<in>set es. well_typed (e_key e) (e_value e)))"

lemma spec_keys_bounded:
  assumes "distinct (ks :: spec_key list)"
  shows "length ks \<le> 5"
proof -
  have "set ks \<subseteq> {Use, Backend, Network, Debug, Isolation}" using spec_key.exhaust by blast
  then have "card (set ks) \<le> card {Use, Backend, Network, Debug, Isolation}" by (intro card_mono) auto
  then show ?thesis using distinct_card [OF assms] by simp
qed

lemma parse_inv_cnt: "parse_inv (entries, cnt) \<Longrightarrow> cnt \<le> 5"
  using spec_keys_bounded by (fastforce simp: parse_inv_def)

lemma parse_inv_add:
  assumes "parse_inv (entries, cnt)" and "k \<notin> e_key ` set (flatten entries)" and "well_typed k v"
  shows "parse_inv (entries[cnt := Some \<lparr>e_key = k, e_value = v\<rparr>], cnt + 1)"
proof -
  obtain es where es: "entries = map Some es @ empty_slots (MAX_ENTRIES - cnt)" "length es = cnt"
    "distinct (map e_key es)" "\<forall>e\<in>set es. well_typed (e_key e) (e_value e)"
    using assms(1) by (auto simp: parse_inv_def)
  have "cnt \<le> 5" using assms(1) by (rule parse_inv_cnt)
  then obtain n where n: "MAX_ENTRIES - cnt = Suc n" "MAX_ENTRIES - (cnt + 1) = n"
    by (cases "MAX_ENTRIES - cnt") (auto simp: MAX_ENTRIES_def)
  let ?e = "\<lparr>e_key = k, e_value = v\<rparr>"
  have "entries[cnt := Some ?e] = map Some (es @ [?e]) @ empty_slots n"
    using es(1,2) n by (simp add: empty_slots_Suc list_update_append)
  moreover have "k \<notin> e_key ` set es" using assms(2) es(1) by simp
  ultimately show ?thesis
    unfolding parse_inv_def using es assms(3) n by (auto intro!: exI [of _ "es @ [?e]"])
qed

lemma parse_line_Ok:
  assumes "parse_line l (entries, cnt) = Ok st'"
  obtains "st' = (entries, cnt)"
  | k v src where "k \<notin> e_key ` set (flatten entries)" "parse_value k src = Ok v"
      "st' = (entries[cnt := Some \<lparr>e_key = k, e_value = v\<rparr>], cnt + 1)"
proof (cases "trim l = [] \<or> hd (trim l) = 35")
  case True
  with assms that(1) show thesis by (auto simp: parse_line_def)
next
  case False
  with assms obtain a b where ab: "split_once 61 (trim l) = Some (a, b)"
    by (auto simp: parse_line_def Let_def split: option.splits)
  with assms False obtain k where k: "parse_key (trim a) = Ok k"
    by (auto simp: parse_line_def Let_def split: sum.splits)
  with assms False ab have nk: "\<not> list_ex (\<lambda>e. e_key e = k) (flatten entries)"
    by (auto simp: parse_line_def Let_def)
  with assms False ab k obtain v where v: "parse_value k (trim b) = Ok v"
    by (auto simp: parse_line_def Let_def split: sum.splits)
  show thesis
  proof (rule that(2) [of k "trim b" v])
    show "k \<notin> e_key ` set (flatten entries)" using nk by (auto simp: list_ex_iff)
    show "st' = (entries[cnt := Some \<lparr>e_key = k, e_value = v\<rparr>], cnt + 1)"
      using assms False ab k nk v by (simp add: parse_line_def Let_def split: if_splits)
  qed (rule v)
qed

lemma no_overflow:
  "parse_key s \<noteq> Err TooManyEntries" "parse_value k s \<noteq> Err TooManyEntries"
  by (simp add: parse_key_def, cases k) (simp_all add: parse_value_def split: sum.split)

lemma parse_line_inv:
  assumes inv: "parse_inv st" and line: "parse_line l st = r"
  shows "r \<noteq> Err TooManyEntries" and "r = Ok st' \<Longrightarrow> parse_inv st'"
proof -
  obtain entries cnt where st: "st = (entries, cnt)" by (cases st)
  have room: "\<not> cnt \<ge> MAX_ENTRIES" using parse_inv_cnt inv st by (fastforce simp: MAX_ENTRIES_def)
  show "r \<noteq> Err TooManyEntries"
    using line room no_overflow by (auto simp: st parse_line_def Let_def split: if_splits option.splits sum.splits)
  assume r: "r = Ok st'"
  with line st have "parse_line l (entries, cnt) = Ok st'" by simp
  then show "parse_inv st'"
  proof (cases rule: parse_line_Ok)
    case 1
    with inv st show ?thesis by simp
  next
    case (2 k v src)
    then show ?thesis using parse_inv_add [of entries cnt k v] inv st parse_value_typed by simp
  qed
qed

lemma parse_lines_inv:
  "parse_inv st \<Longrightarrow> parse_lines ls st \<noteq> Err TooManyEntries \<and>
    (\<forall>st'. parse_lines ls st = Ok st' \<longrightarrow> parse_inv st')"
proof (induction ls arbitrary: st)
  case (Cons l ls)
  show ?case
  proof (cases "parse_line l st")
    case (Inl e)
    then show ?thesis using parse_line_inv(1) [OF Cons.prems refl, of l] by simp
  next
    case (Inr st')
    then show ?thesis using Cons.IH [OF parse_line_inv(2) [OF Cons.prems refl Inr]] by simp
  qed
qed simp

lemma parse_start: "parse_inv (empty_slots MAX_ENTRIES, 0)"
  by (simp add: parse_inv_def)

lemma parse_Ok:
  assumes "parse scope target dimension source = Ok s"
  shows "p_scope s = scope" "p_target s = target" "p_dimension s = dimension"
    "distinct (map e_key (flatten (p_entries s)))" "flatten (p_entries s) \<noteq> []"
    "\<forall>e\<in>set (flatten (p_entries s)). well_typed (e_key e) (e_value e)"
proof -
  obtain entries cnt where *: "parse_lines (str_lines source) (empty_slots MAX_ENTRIES, 0) = Ok (entries, cnt)"
    "cnt \<noteq> 0" and s: "s = \<lparr>p_scope = scope, p_target = target, p_dimension = dimension, p_entries = entries\<rparr>"
    using assms by (auto simp: parse_def split: sum.splits if_splits)
  have "parse_inv (entries, cnt)" using parse_lines_inv [OF parse_start] * by blast
  then show "distinct (map e_key (flatten (p_entries s)))" "flatten (p_entries s) \<noteq> []"
    "\<forall>e\<in>set (flatten (p_entries s)). well_typed (e_key e) (e_value e)"
    using *(2) s by (auto simp: parse_inv_def)
qed (use assms in \<open>auto simp: parse_def split: sum.splits if_splits\<close>)

subsection \<open>Resolution\<close>

lemma key_index_bound [simp]: "key_index k < 5"
  by (cases k) simp_all

lemma key_index_inject [simp]: "key_index k = key_index l \<longleftrightarrow> k = l"
  by (cases k; cases l) simp_all

lemma tracksD:
  assumes "tracks C sel"
  shows "sel ! key_index k = None \<Longrightarrow> (s, k, v) \<notin> C"
    and "sel ! key_index k = Some c \<Longrightarrow> settles C k (sel_scope c) (sel_value c)"
proof -
  have *: "case sel ! key_index k of None \<Rightarrow> \<forall>s v. (s, k, v) \<notin> C
    | Some c \<Rightarrow> settles C k (sel_scope c) (sel_value c)"
    using assms by (simp add: tracks_def)
  show "sel ! key_index k = None \<Longrightarrow> (s, k, v) \<notin> C" using * by simp
  show "sel ! key_index k = Some c \<Longrightarrow> settles C k (sel_scope c) (sel_value c)" using * by simp
qed

lemma tracks_keep:
  assumes "tracks C sel" and "sel ! key_index k = Some c" and "s < sel_scope c"
  shows "tracks (insert (s, k, v) C) sel"
  unfolding tracks_def
proof (intro conjI allI)
  fix l
  have old: "case sel ! key_index l of None \<Rightarrow> \<forall>s v. (s, l, v) \<notin> C
    | Some c \<Rightarrow> settles C l (sel_scope c) (sel_value c)"
    using assms(1) by (simp add: tracks_def)
  show "case sel ! key_index l of None \<Rightarrow> \<forall>s' v'. (s', l, v') \<notin> insert (s, k, v) C
    | Some c \<Rightarrow> settles (insert (s, k, v) C) l (sel_scope c) (sel_value c)"
    using old assms(2,3) by (cases "l = k") (auto simp: settles_def split: option.splits)
qed (use assms(1) in \<open>simp add: tracks_def\<close>)

lemma tracks_put:
  assumes "tracks C sel"
    and top: "\<And>s' v'. (s', k, v') \<in> C \<Longrightarrow> s' < s \<or> s' = s \<and> v' = v"
  shows "tracks (insert (s, k, v) C) (sel[key_index k := Some \<lparr>sel_scope = s, sel_value = v\<rparr>])"
  unfolding tracks_def
proof (intro conjI allI)
  fix l
  have old: "case sel ! key_index l of None \<Rightarrow> \<forall>s v. (s, l, v) \<notin> C
    | Some c \<Rightarrow> settles C l (sel_scope c) (sel_value c)" and len: "length sel = 5"
    using assms(1) by (simp_all add: tracks_def)
  show "case sel[key_index k := Some \<lparr>sel_scope = s, sel_value = v\<rparr>] ! key_index l of
      None \<Rightarrow> \<forall>s' v'. (s', l, v') \<notin> insert (s, k, v) C
    | Some c \<Rightarrow> settles (insert (s, k, v) C) l (sel_scope c) (sel_value c)"
  proof (cases "l = k")
    case True
    then show ?thesis using len top by (auto simp: settles_def)
  next
    case False
    then show ?thesis using old len by (auto simp: settles_def nth_list_update split: option.splits)
  qed
qed (use assms(1) in \<open>simp add: tracks_def\<close>)

definition outcome ::
  "(pimp_scope \<times> spec_key \<times> pimp_value) set \<Rightarrow> (diagnostic, selected slots) result \<Rightarrow> bool" where
  "outcome C r = (case r of Ok sel \<Rightarrow> tracks C sel | Err d \<Rightarrow> \<exists>k s. d = Conflict k s \<and> conflicting C k s)"

lemma conflicting_mono: "conflicting C k s \<Longrightarrow> C \<subseteq> D \<Longrightarrow> conflicting D k s"
  by (auto simp: conflicting_def)

lemma outcome_Err: "outcome C (Err d) \<Longrightarrow> C \<subseteq> D \<Longrightarrow> outcome D (Err d)"
  using conflicting_mono by (auto simp: outcome_def)

lemma select_entry_tracks:
  assumes "tracks C sel"
  shows "outcome (insert (s, e_key e, e_value e) C) (select_entry s e sel)"
proof (cases "sel ! key_index (e_key e)")
  case None
  have "\<And>s v. (s, e_key e, v) \<notin> C" by (rule tracksD(1) [OF assms None])
  then have "tracks (insert (s, e_key e, e_value e) C)
      (sel[key_index (e_key e) := Some \<lparr>sel_scope = s, sel_value = e_value e\<rparr>])"
    by (intro tracks_put [OF assms]) blast
  then show ?thesis using None by (simp add: select_entry_def Let_def outcome_def)
next
  case (Some c)
  have c: "settles C (e_key e) (sel_scope c) (sel_value c)" by (rule tracksD(2) [OF assms Some])
  consider "sel_scope c > s" | "sel_scope c = s" "sel_value c \<noteq> e_value e"
    | "sel_scope c < s \<or> sel_scope c = s \<and> sel_value c = e_value e"
    by (cases rule: linorder_cases [of "sel_scope c" s]) auto
  then show ?thesis
  proof cases
    case 1
    then show ?thesis using Some tracks_keep [OF assms Some 1, of "e_value e"]
      by (simp add: select_entry_def Let_def outcome_def)
  next
    case 2
    then have "conflicting (insert (s, e_key e, e_value e) C) (e_key e) s"
      using c unfolding conflicting_def settles_def by blast
    then show ?thesis using Some 2 by (simp add: select_entry_def Let_def outcome_def)
  next
    case 3
    have "s' < s \<or> s' = s \<and> v' = e_value e" if "(s', e_key e, v') \<in> C" for s' v'
    proof -
      have "s' < sel_scope c \<or> s' = sel_scope c \<and> v' = sel_value c" using c that by (simp add: settles_def)
      then show ?thesis using 3 by (auto dest: less_trans)
    qed
    from tracks_put [OF assms this] have "tracks (insert (s, e_key e, e_value e) C)
      (sel[key_index (e_key e) := Some \<lparr>sel_scope = s, sel_value = e_value e\<rparr>])" .
    moreover have "select_entry s e sel = Ok (sel[key_index (e_key e) := Some \<lparr>sel_scope = s, sel_value = e_value e\<rparr>])"
      using Some 3 by (auto simp: select_entry_def)
    ultimately show ?thesis by (simp add: outcome_def)
  qed
qed

lemma select_entries_tracks: "tracks C sel \<Longrightarrow> outcome (C \<union> said s es) (select_entries s es sel)"
proof (induction es arbitrary: C sel)
  case Nil
  then show ?case by (simp add: outcome_def said_def)
next
  case (Cons e es)
  let ?C = "insert (s, e_key e, e_value e) C"
  have C: "C \<union> said s (e # es) = ?C \<union> said s es" by (auto simp: said_def)
  have e: "outcome ?C (select_entry s e sel)" using Cons.prems by (rule select_entry_tracks)
  show ?case
  proof (cases "select_entry s e sel")
    case (Inl d)
    with e have "outcome ?C (Err d)" by simp
    then have "outcome (?C \<union> said s es) (Err d)" by (rule outcome_Err) blast
    then show ?thesis unfolding C using Inl by simp
  next
    case (Inr sel')
    with e have "tracks ?C sel'" by (simp add: outcome_def)
    from Cons.IH [OF this] show ?thesis unfolding C using Inr by simp
  qed
qed

lemma select_specs_tracks:
  "tracks C sel \<Longrightarrow> outcome (C \<union> statements t d ss) (map_sum id fst (select_specs t d ss (sel, m)))"
proof (induction ss arbitrary: C sel m)
  case Nil
  then show ?case by (simp add: statements_def outcome_def)
next
  case (Cons s ss)
  let ?S = "said (p_scope s) (flatten (p_entries s))"
  show ?case
  proof (cases "applies t d s")
    case False
    then show ?thesis using Cons.IH [OF Cons.prems, of m] by (simp add: statements_def)
  next
    case True
    have C: "C \<union> statements t d (s # ss) = C \<union> ?S \<union> statements t d ss"
      using True by (auto simp: statements_def)
    have e: "outcome (C \<union> ?S) (select_entries (p_scope s) (flatten (p_entries s)) sel)"
      using Cons.prems by (rule select_entries_tracks)
    show ?thesis
    proof (cases "select_entries (p_scope s) (flatten (p_entries s)) sel")
      case (Inl err)
      with e have "outcome (C \<union> ?S) (Err err)" by simp
      then have "outcome (C \<union> ?S \<union> statements t d ss) (Err err)" by (rule outcome_Err) blast
      then show ?thesis unfolding C using True Inl by simp
    next
      case (Inr sel')
      with e have "tracks (C \<union> ?S) sel'" by (simp add: outcome_def)
      from Cons.IH [OF this, of True] show ?thesis unfolding C using True Inr by simp
    qed
  qed
qed

lemma select_specs_matched:
  "select_specs t d ss (sel, m) = Ok (sel', m') \<Longrightarrow> m' \<longleftrightarrow> m \<or> (\<exists>s\<in>set ss. applies t d s)"
  by (induction ss arbitrary: sel m) (auto split: if_splits sum.splits)

lemma tracks_start: "tracks {} (empty_slots 5)"
proof -
  have "(empty_slots 5 :: selected slots) ! key_index k = None" for k by (simp add: empty_slots_def)
  then show ?thesis by (simp add: tracks_def)
qed

lemma select_outcome:
  obtains (chosen) sel m where "select_specs t d ss (empty_slots 5, False) = Ok (sel, m)"
      "tracks (statements t d ss) sel" "m \<longleftrightarrow> (\<exists>s\<in>set ss. applies t d s)"
  | (conflict) k s where "select_specs t d ss (empty_slots 5, False) = Err (Conflict k s)"
      "conflicting (statements t d ss) k s"
proof (cases "select_specs t d ss (empty_slots 5, False)")
  case (Inl e)
  then show thesis
    using select_specs_tracks [OF tracks_start, of t d ss False] conflict by (auto simp: outcome_def)
next
  case (Inr p)
  then obtain sel m where p: "select_specs t d ss (empty_slots 5, False) = Ok (sel, m)" by (cases p) auto
  then show thesis
    using select_specs_tracks [OF tracks_start, of t d ss False] select_specs_matched [OF p] chosen
    by (simp add: outcome_def)
qed

lemma resolved_selected:
  assumes "tracks C sel" and typed: "\<And>s k v. (s, k, v) \<in> C \<Longrightarrow> well_typed k v"
  shows "resolved \<lparr>use_mode = name_value (sel ! 0), backend = name_value (sel ! 1),
    network = network_value (sel ! 2), debug = bool_value (sel ! 3), isolation = bool_value (sel ! 4)\<rparr> k =
    map_option sel_value (sel ! key_index k)"
proof (cases "sel ! key_index k")
  case None
  then show ?thesis by (cases k) (simp_all add: name_value_def network_value_def bool_value_def)
next
  case (Some c)
  then have "settles C k (sel_scope c) (sel_value c)" by (rule tracksD(2) [OF assms(1)])
  then have "(sel_scope c, k, sel_value c) \<in> C" by (simp add: settles_def)
  then have "well_typed k (sel_value c)" by (rule typed)
  then show ?thesis using Some
    by (cases k; cases "sel_value c") (simp_all add: name_value_def network_value_def bool_value_def)
qed

section \<open>Properties\<close>

text \<open>
  a parsed specification has between one and five entries with distinct keys, each with a value of its
  key's type; the parser never reports \<^verbatim>\<open>TooManyEntries\<close>, because a sixth key is impossible.
\<close>

theorem parse_well_typed:
  "parse scope target dimension source \<noteq> Err TooManyEntries \<and>
   (\<forall>s. parse scope target dimension source = Ok s \<longrightarrow>
     distinct (map e_key (flatten (p_entries s))) \<and>
     1 \<le> length (flatten (p_entries s)) \<and> length (flatten (p_entries s)) \<le> 5 \<and>
     (\<forall>e\<in>set (flatten (p_entries s)). well_typed (e_key e) (e_value e)))"
proof (intro conjI allI impI)
  show "parse scope target dimension source \<noteq> Err TooManyEntries"
    using parse_lines_inv [OF parse_start, of "str_lines source"]
    by (auto simp: parse_def split: sum.splits if_splits)
  fix s assume ok: "parse scope target dimension source = Ok s"
  note facts = parse_Ok [OF ok]
  show "distinct (map e_key (flatten (p_entries s)))" by (rule facts)
  show "1 \<le> length (flatten (p_entries s))" using facts(5) by (simp add: Suc_le_eq)
  show "length (flatten (p_entries s)) \<le> 5" using spec_keys_bounded [OF facts(4)] by simp
  show "\<forall>e\<in>set (flatten (p_entries s)). well_typed (e_key e) (e_value e)" by (rule facts)
qed

text \<open>
  C29: the most specific statement wins. When the resolver accepts a set of parsed specifications,
  a key is unset exactly when no applicable specification mentions it, and a resolved value is
  stated at a scope above every other statement on that key, where no different value is stated.
  \<^verbatim>\<open>MissingPolicy\<close> is reported exactly when no specification applies; a reported conflict is real: two
  different values for that key at that scope.
\<close>

theorem resolve_most_specific:
  fixes target dimension :: fin
  assumes parsed: "\<forall>s\<in>set (flatten d). \<exists>source. parse (p_scope s) (p_target s) (p_dimension s) source = Ok s"
  defines "C \<equiv> statements target dimension (flatten d)"
  shows "(resolve d target dimension = Err MissingPolicy \<longleftrightarrow> (\<forall>s\<in>set (flatten d). \<not> applies target dimension s)) \<and>
    (case resolve d target dimension of
      Ok r \<Rightarrow> (\<forall>k. case resolved r k of None \<Rightarrow> \<forall>s v. (s, k, v) \<notin> C | Some v \<Rightarrow> \<exists>s. settles C k s v)
    | Err MissingPolicy \<Rightarrow> True
    | Err (Conflict k s) \<Rightarrow> conflicting C k s
    | Err TooManySpecifications \<Rightarrow> False)"
proof (cases rule: select_outcome [of target dimension "flatten d"])
  case (chosen sel m)
  have typed: "well_typed k v" if stated: "(s, k, v) \<in> C" for s k v
  proof -
    obtain sp e where "sp \<in> set (flatten d)" "e \<in> set (flatten (p_entries sp))" "k = e_key e" "v = e_value e"
      using stated by (auto simp: C_def statements_def said_def)
    with parsed parse_Ok(6) show ?thesis by metis
  qed
  show ?thesis
  proof (cases m)
    case True
    let ?r = "\<lparr>use_mode = name_value (sel ! 0), backend = name_value (sel ! 1),
      network = network_value (sel ! 2), debug = bool_value (sel ! 3), isolation = bool_value (sel ! 4)\<rparr>"
    have "case resolved ?r k of None \<Rightarrow> \<forall>s v. (s, k, v) \<notin> C | Some v \<Rightarrow> \<exists>s. settles C k s v" for k
    proof -
      have tr: "tracks C sel" using chosen(2) by (simp add: C_def)
      then have "case sel ! key_index k of None \<Rightarrow> \<forall>s v. (s, k, v) \<notin> C
        | Some c \<Rightarrow> settles C k (sel_scope c) (sel_value c)" by (simp add: tracks_def)
      moreover have "resolved ?r k = map_option sel_value (sel ! key_index k)"
        by (rule resolved_selected [OF tr typed])
      ultimately show ?thesis by (cases "sel ! key_index k") auto
    qed
    then show ?thesis using chosen(1,3) True by (simp add: resolve_def)
  next
    case False
    with chosen show ?thesis by (simp add: resolve_def)
  qed
next
  case (conflict k s)
  then have "\<exists>s\<in>set (flatten d). applies target dimension s" by (auto simp: conflicting_def statements_def)
  then show ?thesis using conflict by (auto simp: resolve_def C_def)
qed

text \<open>Specifications of one target that disagree on the network.\<close>

definition demo_spec :: "pimp_scope \<Rightarrow> network_policy \<Rightarrow> pimp_spec" where
  "demo_spec scope policy = \<lparr>p_scope = scope, p_target = from_u128 1, p_dimension = None,
     p_entries = Some \<lparr>e_key = Network, e_value = NetworkValue policy\<rparr> # empty_slots 7\<rparr>"

lemma demo_spec_parsed:
  "parse scope (from_u128 1) None (lit ''network = open'') = Ok (demo_spec scope Open)"
  "parse scope (from_u128 1) None (lit ''network=restricted'') = Ok (demo_spec scope Restricted)"
  "parse scope (from_u128 1) None (lit ''network=disabled'') = Ok (demo_spec scope Disabled)"
proof -
  have "empty_slots 8 = None # (empty_slots 7 :: pimp_entry slots)" using empty_slots_Suc [of 7] by simp
  then have "(empty_slots 8)[0 := x] = x # empty_slots 7" for x :: "pimp_entry option" by simp
  then show "parse scope (from_u128 1) None (lit ''network = open'') = Ok (demo_spec scope Open)"
    "parse scope (from_u128 1) None (lit ''network=restricted'') = Ok (demo_spec scope Restricted)"
    "parse scope (from_u128 1) None (lit ''network=disabled'') = Ok (demo_spec scope Disabled)"
    by (simp_all add: parse_def str_lines_def lit_def trim_def is_whitespace_def strip_cr_def
        parse_line_def parse_key_def parse_value_def MAX_ENTRIES_def demo_spec_def)
qed

lemma demo_spec_wf: "\<exists>source. parse (p_scope (demo_spec c n)) (p_target (demo_spec c n))
    (p_dimension (demo_spec c n)) source = Ok (demo_spec c n)"
  using demo_spec_parsed [of c] by (cases n) (auto simp: demo_spec_def)

lemma demo_applies [simp]: "applies (from_u128 1) d (demo_spec c n)"
  by (simp add: applies_def demo_spec_def)

lemma demo_select [simp]:
  "select_entries (p_scope (demo_spec c n)) (flatten (p_entries (demo_spec c n))) sel =
    select_entry c \<lparr>e_key = Network, e_value = NetworkValue n\<rparr> sel"
  by (simp add: demo_spec_def split: sum.split)

lemma demo_selected [simp]:
  "select_entry c \<lparr>e_key = Network, e_value = v\<rparr> [None, None, None, None, None] =
    Ok [None, None, Some \<lparr>sel_scope = c, sel_value = v\<rparr>, None, None]"
  by (simp add: select_entry_def Let_def)

lemma empty_five: "empty_slots 5 = [None, None, None, None, None]"
proof -
  have "5 = Suc (Suc (Suc (Suc (Suc 0))))" by simp
  then show ?thesis by (simp only: empty_slots_def replicate.simps)
qed

theorem parse_well_typed_witness:
  "parse System (from_u128 1) None (lit ''network = open'') = Ok (demo_spec System Open) \<and>
   length (flatten (p_entries (demo_spec System Open))) \<le> 5 \<and>
   list_all (\<lambda>e. well_typed (e_key e) (e_value e)) (flatten (p_entries (demo_spec System Open)))"
  using parse_well_typed [of System "from_u128 1" None "lit ''network = open''"] demo_spec_parsed(1) [of System]
  by (simp add: list_all_iff)

theorem resolve_most_specific_witness:
  "\<exists>r s. resolve [Some (demo_spec System Open), Some (demo_spec Form Disabled)] (from_u128 1) (from_u128 2) = Ok r \<and>
    network r = Some Disabled \<and>
    settles (statements (from_u128 1) (from_u128 2) [demo_spec System Open, demo_spec Form Disabled])
      Network s (NetworkValue Disabled)"
proof -
  let ?d = "[Some (demo_spec System Open), Some (demo_spec Form Disabled)]"
  have wf: "\<forall>s\<in>set (flatten ?d). \<exists>source. parse (p_scope s) (p_target s) (p_dimension s) source = Ok s"
    using demo_spec_wf by simp
  obtain r where r: "resolve ?d (from_u128 1) (from_u128 2) = Ok r" "network r = Some Disabled"
    by (simp add: resolve_def empty_five select_entry_def less_pimp_scope_def network_value_def Let_def)
  note law = resolve_most_specific [OF wf, of "from_u128 1" "from_u128 2"]
  have "case resolved r Network of
      None \<Rightarrow> \<forall>s v. (s, Network, v) \<notin> statements (from_u128 1) (from_u128 2) (flatten ?d)
    | Some v \<Rightarrow> \<exists>s. settles (statements (from_u128 1) (from_u128 2) (flatten ?d)) Network s v"
    using conjunct2 [OF law] unfolding r(1) sum.case by (rule spec)
  then show ?thesis using r by auto
qed

text \<open>The resolver after some specifications were pushed in order.\<close>

definition diese_of :: "pimp_spec list \<Rightarrow> (diagnostic, diese) result" where
  "diese_of specs = fold (\<lambda>s r. case r of Err e \<Rightarrow> Err e | Ok d \<Rightarrow> diese_push s d) specs (Ok diese_new)"

lemma diese_of_three: "diese_of [a, b, c] = Ok ([Some a, Some b, Some c] @ empty_slots 13)"
proof -
  have "16 = Suc (Suc (Suc 13))" by simp
  then have new: "diese_new = None # None # None # empty_slots 13" by (simp only: diese_new_def MAX_SPECS_def empty_slots_def replicate.simps)
  show ?thesis by (simp add: diese_of_def diese_push_def new)
qed

lemma select_single:
  assumes "flatten (p_entries s) = [\<lparr>e_key = k, e_value = v\<rparr>]"
  shows "select_entries (p_scope s) (flatten (p_entries s)) sel = select_entry (p_scope s) \<lparr>e_key = k, e_value = v\<rparr> sel"
  unfolding assms by (simp split: sum.split)

lemma nth_key_slot: "(empty_slots 5 :: selected slots) ! key_index k = None" "length (empty_slots 5 :: selected slots) = 5"
  by (simp_all add: empty_slots_def)



end
