(* ===== verification/Form_Registry.thy ===== *)
theory Form_Registry
  imports Identity Slots
begin

text \<open>
  The Form registry (\<^verbatim>\<open>form.rs\<close>): Forms, Dimensions and the bindings that make a Form visible in a
  Dimension. \<^verbatim>\<open>Form::new\<close> and \<^verbatim>\<open>Dimension::new\<close> panic on a zero FIN or an invalid name (\<open>None\<close>).
\<close>

section \<open>Model\<close>

definition MAX_FORMS :: nat where
  "MAX_FORMS = 16"

definition MAX_DIMENSIONS :: nat where
  "MAX_DIMENSIONS = 8"

definition MAX_BINDINGS :: nat where
  "MAX_BINDINGS = 32"

datatype form_kind = Root | Service | Interface | Package | Driver | Data | Policy | Executable

datatype lifecycle = Active | Retired | Recoverable | Removed

record form =
  f_fin :: fin
  f_name :: text_t
  f_kind :: form_kind
  f_revision :: u32
  f_lifecycle :: lifecycle

definition form_new :: "fin \<Rightarrow> str \<Rightarrow> form_kind \<Rightarrow> form option" where
  "form_new fin name kind =
     (if is_zero fin then None
      else (case text_new name of
        Err _ \<Rightarrow> None
      | Ok t \<Rightarrow> Some \<lparr>f_fin = fin, f_name = t, f_kind = kind, f_revision = 1, f_lifecycle = Active\<rparr>))"

record dimension =
  d_fin :: fin
  d_name :: text_t
  d_security_boundary :: bool

definition dimension_new :: "fin \<Rightarrow> str \<Rightarrow> bool \<Rightarrow> dimension option" where
  "dimension_new fin name security_boundary =
     (if is_zero fin then None
      else (case text_new name of
        Err _ \<Rightarrow> None
      | Ok t \<Rightarrow> Some \<lparr>d_fin = fin, d_name = t, d_security_boundary = security_boundary\<rparr>))"

datatype visibility = Visible | Hidden

record binding =
  bd_form :: fin
  bd_dimension :: fin
  bd_active_revision :: u32
  bd_visibility :: visibility

datatype registry_error =
    DuplicateFin
  | Full
  | MissingForm
  | MissingDimension
  | AlreadyBound
  | StillBound

record form_registry =
  r_forms :: "form slots"
  r_dimensions :: "dimension slots"
  r_bindings :: "binding slots"

definition registry_new :: form_registry where
  "registry_new = \<lparr>r_forms = empty_slots MAX_FORMS, r_dimensions = empty_slots MAX_DIMENSIONS,
     r_bindings = empty_slots MAX_BINDINGS\<rparr>"

definition registry_form :: "form_registry \<Rightarrow> fin \<Rightarrow> form option" where
  "registry_form r fin = find (\<lambda>form. f_fin form = fin) (flatten (r_forms r))"

definition registry_dimension :: "form_registry \<Rightarrow> fin \<Rightarrow> dimension option" where
  "registry_dimension r fin = find (\<lambda>dimension. d_fin dimension = fin) (flatten (r_dimensions r))"

definition register :: "form \<Rightarrow> form_registry \<Rightarrow> (registry_error, form_registry) result" where
  "register form r =
     (if registry_form r (f_fin form) \<noteq> None \<or> registry_dimension r (f_fin form) \<noteq> None
      then Err DuplicateFin
      else (case fill_slot form (r_forms r) of
        None \<Rightarrow> Err Full
      | Some slots \<Rightarrow> Ok (r\<lparr>r_forms := slots\<rparr>)))"

definition add_dimension :: "dimension \<Rightarrow> form_registry \<Rightarrow> (registry_error, form_registry) result" where
  "add_dimension dimension r =
     (if registry_form r (d_fin dimension) \<noteq> None \<or> registry_dimension r (d_fin dimension) \<noteq> None
      then Err DuplicateFin
      else (case fill_slot dimension (r_dimensions r) of
        None \<Rightarrow> Err Full
      | Some slots \<Rightarrow> Ok (r\<lparr>r_dimensions := slots\<rparr>)))"

text \<open>\<^verbatim>\<open>find_map\<close>: the first binding visible in the Dimension whose Form has the name.\<close>

definition named_through :: "form_registry \<Rightarrow> str \<Rightarrow> fin \<Rightarrow> binding \<Rightarrow> form option" where
  "named_through r name dimension binding =
     (if bd_dimension binding \<noteq> dimension \<or> bd_visibility binding = Hidden then None
      else (case registry_form r (bd_form binding) of
        None \<Rightarrow> None
      | Some form \<Rightarrow> if as_str (f_name form) = name then Some form else None))"

fun find_map :: "('a \<Rightarrow> 'b option) \<Rightarrow> 'a list \<Rightarrow> 'b option" where
  "find_map f [] = None"
| "find_map f (x # xs) = (case f x of None \<Rightarrow> find_map f xs | Some y \<Rightarrow> Some y)"

definition first_named_in :: "form_registry \<Rightarrow> str \<Rightarrow> fin \<Rightarrow> form option" where
  "first_named_in r name dimension = find_map (named_through r name dimension) (flatten (r_bindings r))"

definition bind ::
  "fin \<Rightarrow> fin \<Rightarrow> u32 \<Rightarrow> visibility \<Rightarrow> form_registry \<Rightarrow> (registry_error, form_registry) result" where
  "bind form dimension active_revision visibility r =
     (if registry_form r form = None then Err MissingForm
      else if registry_dimension r dimension = None then Err MissingDimension
      else if list_ex (\<lambda>b. bd_form b = form \<and> bd_dimension b = dimension) (flatten (r_bindings r))
      then Err AlreadyBound
      else (case fill_slot \<lparr>bd_form = form, bd_dimension = dimension,
          bd_active_revision = active_revision, bd_visibility = visibility\<rparr> (r_bindings r) of
        None \<Rightarrow> Err Full
      | Some slots \<Rightarrow> Ok (r\<lparr>r_bindings := slots\<rparr>)))"

definition visibly_bound :: "form_registry \<Rightarrow> fin \<Rightarrow> bool" where
  "visibly_bound r form =
     list_ex (\<lambda>b. bd_form b = form \<and> bd_visibility b = Visible) (flatten (r_bindings r))"

definition retire_from :: "fin \<Rightarrow> fin \<Rightarrow> form_registry \<Rightarrow> (registry_error, form_registry) result" where
  "retire_from form dimension r =
     (if \<not> list_ex (\<lambda>b. bd_form b = form \<and> bd_dimension b = dimension) (flatten (r_bindings r))
      then Err MissingForm
      else
        let r1 = r\<lparr>r_bindings := update_first (\<lambda>b. bd_form b = form \<and> bd_dimension b = dimension)
              (\<lambda>b. b\<lparr>bd_visibility := Hidden\<rparr>) (r_bindings r)\<rparr>
        in Ok (if \<not> visibly_bound r1 form
           then r1\<lparr>r_forms := update_first (\<lambda>record. f_fin record = form)
             (\<lambda>record. record\<lparr>f_lifecycle := Retired\<rparr>) (r_forms r1)\<rparr>
           else r1))"

definition reclaim :: "fin \<Rightarrow> form_registry \<Rightarrow> (registry_error, form_registry) result" where
  "reclaim form r =
     (if visibly_bound r form then Err StillBound
      else if \<not> list_ex (\<lambda>record. f_fin record = form) (flatten (r_forms r)) then Err MissingForm
      else Ok (r\<lparr>r_forms := update_first (\<lambda>record. f_fin record = form)
        (\<lambda>record. record\<lparr>f_lifecycle := Removed\<rparr>) (r_forms r)\<rparr>))"

section \<open>Specification\<close>

inductive registry_step :: "form_registry \<Rightarrow> form_registry \<Rightarrow> bool" where
  step_register: "register f r = Ok r' \<Longrightarrow> registry_step r r'"
| step_dimension: "add_dimension d r = Ok r' \<Longrightarrow> registry_step r r'"
| step_bind: "bind f d n v r = Ok r' \<Longrightarrow> registry_step r r'"
| step_retire: "retire_from f d r = Ok r' \<Longrightarrow> registry_step r r'"
| step_reclaim: "reclaim f r = Ok r' \<Longrightarrow> registry_step r r'"

abbreviation form_fins :: "form_registry \<Rightarrow> fin list" where
  "form_fins r \<equiv> map f_fin (flatten (r_forms r))"

abbreviation dimension_fins :: "form_registry \<Rightarrow> fin list" where
  "dimension_fins r \<equiv> map d_fin (flatten (r_dimensions r))"

abbreviation binding_key :: "binding \<Rightarrow> fin \<times> fin" where
  "binding_key b \<equiv> (bd_form b, bd_dimension b)"

definition registry_inv :: "form_registry \<Rightarrow> bool" where
  "registry_inv r \<longleftrightarrow> length (r_forms r) = MAX_FORMS \<and> length (r_dimensions r) = MAX_DIMENSIONS \<and>
     length (r_bindings r) = MAX_BINDINGS \<and> distinct (form_fins r @ dimension_fins r) \<and>
     distinct (map binding_key (flatten (r_bindings r))) \<and>
     (\<forall>b\<in>set (flatten (r_bindings r)).
        bd_form b \<in> set (form_fins r) \<and> bd_dimension b \<in> set (dimension_fins r))"

section \<open>Lemmas\<close>

interpretation registry_forms: keyed_table flatten fill_slot "\<lambda>t. length t = MAX_FORMS" MAX_FORMS f_fin
  by (rule slots_keyed_table)

interpretation registry_dimensions: keyed_table flatten fill_slot
  "\<lambda>t. length t = MAX_DIMENSIONS" MAX_DIMENSIONS d_fin
  by (rule slots_keyed_table)

interpretation registry_bindings: keyed_table flatten fill_slot
  "\<lambda>t. length t = MAX_BINDINGS" MAX_BINDINGS binding_key
  by (rule slots_keyed_table)

lemma registry_form_None: "registry_form r i = None \<longleftrightarrow> i \<notin> set (form_fins r)"
  by (auto simp: registry_form_def find_None_iff)

lemma registry_dimension_None: "registry_dimension r i = None \<longleftrightarrow> i \<notin> set (dimension_fins r)"
  by (auto simp: registry_dimension_def find_None_iff)

lemma registry_form_mem: "registry_form r i = Some f \<Longrightarrow> f \<in> set (flatten (r_forms r)) \<and> f_fin f = i"
  unfolding registry_form_def by (rule find_SomeD)

lemma register_Ok:
  assumes "register f r = Ok r'"
  shows "r_dimensions r' = r_dimensions r" "r_bindings r' = r_bindings r" "fill_slot f (r_forms r) = Some (r_forms r')"
    "f_fin f \<notin> set (form_fins r)" "f_fin f \<notin> set (dimension_fins r)"
proof -
  show "r_dimensions r' = r_dimensions r" "r_bindings r' = r_bindings r" "fill_slot f (r_forms r) = Some (r_forms r')"
    using assms by (auto simp: register_def split: if_splits option.splits)
  have "registry_form r (f_fin f) = None" "registry_dimension r (f_fin f) = None"
    using assms by (auto simp: register_def split: if_splits)
  then show "f_fin f \<notin> set (form_fins r)" "f_fin f \<notin> set (dimension_fins r)"
    unfolding registry_form_None registry_dimension_None .
qed

lemma add_dimension_Ok:
  assumes "add_dimension d r = Ok r'"
  shows "r_forms r' = r_forms r" "r_bindings r' = r_bindings r" "fill_slot d (r_dimensions r) = Some (r_dimensions r')"
    "d_fin d \<notin> set (form_fins r)" "d_fin d \<notin> set (dimension_fins r)"
proof -
  show "r_forms r' = r_forms r" "r_bindings r' = r_bindings r" "fill_slot d (r_dimensions r) = Some (r_dimensions r')"
    using assms by (auto simp: add_dimension_def split: if_splits option.splits)
  have "registry_form r (d_fin d) = None" "registry_dimension r (d_fin d) = None"
    using assms by (auto simp: add_dimension_def split: if_splits)
  then show "d_fin d \<notin> set (form_fins r)" "d_fin d \<notin> set (dimension_fins r)"
    unfolding registry_form_None registry_dimension_None .
qed

lemma bind_Ok:
  assumes "bind f d n v r = Ok r'"
  defines "b \<equiv> \<lparr>bd_form = f, bd_dimension = d, bd_active_revision = n, bd_visibility = v\<rparr>"
  shows "r_forms r' = r_forms r" "r_dimensions r' = r_dimensions r" "fill_slot b (r_bindings r) = Some (r_bindings r')"
    "f \<in> set (form_fins r)" "d \<in> set (dimension_fins r)"
    "(f, d) \<notin> binding_key ` set (flatten (r_bindings r))"
proof -
  have *: "registry_form r f \<noteq> None" "registry_dimension r d \<noteq> None"
    "\<not> list_ex (\<lambda>b. bd_form b = f \<and> bd_dimension b = d) (flatten (r_bindings r))"
    using assms(1) by (auto simp: bind_def split: if_splits)
  then show "f \<in> set (form_fins r)" "d \<in> set (dimension_fins r)"
    unfolding registry_form_None registry_dimension_None by simp_all
  show "(f, d) \<notin> binding_key ` set (flatten (r_bindings r))"
    using *(3) by (auto simp: list_ex_iff)
  show "r_forms r' = r_forms r" "r_dimensions r' = r_dimensions r" "fill_slot b (r_bindings r) = Some (r_bindings r')"
    using assms(1) unfolding bind_def b_def by (auto split: if_splits option.splits)
qed

text \<open>Hiding a binding and setting a lifecycle change no key.\<close>

definition hide :: "fin \<Rightarrow> fin \<Rightarrow> binding \<Rightarrow> binding" where
  "hide f d b = (if binding_key b = (f, d) then b\<lparr>bd_visibility := Hidden\<rparr> else b)"

definition with_lifecycle :: "fin \<Rightarrow> lifecycle \<Rightarrow> form \<Rightarrow> form" where
  "with_lifecycle f l x = (if f_fin x = f then x\<lparr>f_lifecycle := l\<rparr> else x)"

lemma hide_key [simp]: "bd_form (hide f d b) = bd_form b" "bd_dimension (hide f d b) = bd_dimension b"
  by (simp_all add: hide_def)

lemma with_lifecycle_key [simp]: "f_fin (with_lifecycle f l x) = f_fin x" "f_name (with_lifecycle f l x) = f_name x"
  by (simp_all add: with_lifecycle_def)

lemma flatten_hide:
  assumes "distinct (map binding_key (flatten bs))"
  shows "flatten (update_first (\<lambda>b. bd_form b = f \<and> bd_dimension b = d) (\<lambda>b. b\<lparr>bd_visibility := Hidden\<rparr>) bs) =
    map (hide f d) (flatten bs)"
  using update_first_key [OF assms, of "(f, d)" "\<lambda>b. b\<lparr>bd_visibility := Hidden\<rparr>"]
  unfolding hide_def by simp

lemma flatten_with_lifecycle:
  assumes "distinct (map f_fin (flatten fs))"
  shows "flatten (update_first (\<lambda>x. f_fin x = f) (\<lambda>x. x\<lparr>f_lifecycle := l\<rparr>) fs) = map (with_lifecycle f l) (flatten fs)"
  using update_first_key [OF assms, of f "\<lambda>x. x\<lparr>f_lifecycle := l\<rparr>"] unfolding with_lifecycle_def by simp

lemma retire_Ok:
  assumes inv: "registry_inv r" and ok: "retire_from f d r = Ok r'"
  shows "flatten (r_bindings r') = map (hide f d) (flatten (r_bindings r))"
    "flatten (r_forms r') =
      (if visibly_bound r' f then flatten (r_forms r) else map (with_lifecycle f Retired) (flatten (r_forms r)))"
    "r_dimensions r' = r_dimensions r" "length (r_forms r') = length (r_forms r)"
    "length (r_bindings r') = length (r_bindings r)"
    "(f, d) \<in> binding_key ` set (flatten (r_bindings r))"
proof -
  have d: "distinct (map binding_key (flatten (r_bindings r)))" "distinct (form_fins r)"
    using inv by (simp_all add: registry_inv_def)
  let ?r1 = "r\<lparr>r_bindings := update_first (\<lambda>b. bd_form b = f \<and> bd_dimension b = d)
    (\<lambda>b. b\<lparr>bd_visibility := Hidden\<rparr>) (r_bindings r)\<rparr>"
  have r': "r' = (if \<not> visibly_bound ?r1 f then ?r1\<lparr>r_forms := update_first (\<lambda>record. f_fin record = f)
      (\<lambda>record. record\<lparr>f_lifecycle := Retired\<rparr>) (r_forms ?r1)\<rparr> else ?r1)"
    using ok by (simp add: retire_from_def Let_def split: if_splits)
  have vis: "visibly_bound r' f = visibly_bound ?r1 f" unfolding r' by (simp add: visibly_bound_def)
  show "flatten (r_bindings r') = map (hide f d) (flatten (r_bindings r))"
    unfolding r' using flatten_hide [OF d(1), of f d] by simp
  show "flatten (r_forms r') =
      (if visibly_bound r' f then flatten (r_forms r) else map (with_lifecycle f Retired) (flatten (r_forms r)))"
    unfolding vis unfolding r' using flatten_with_lifecycle [OF d(2), of f Retired] by simp
  show "r_dimensions r' = r_dimensions r" "length (r_forms r') = length (r_forms r)"
    "length (r_bindings r') = length (r_bindings r)"
    unfolding r' by simp_all
  have "list_ex (\<lambda>b. bd_form b = f \<and> bd_dimension b = d) (flatten (r_bindings r))"
    using ok by (simp add: retire_from_def split: if_splits)
  then show "(f, d) \<in> binding_key ` set (flatten (r_bindings r))" by (auto simp: list_ex_iff)
qed

lemma reclaim_Ok:
  assumes inv: "registry_inv r" and ok: "reclaim f r = Ok r'"
  shows "r_bindings r' = r_bindings r" "flatten (r_forms r') = map (with_lifecycle f Removed) (flatten (r_forms r))"
    "r_dimensions r' = r_dimensions r" "length (r_forms r') = length (r_forms r)"
proof -
  have "distinct (form_fins r)" using inv by (simp add: registry_inv_def)
  then show "flatten (r_forms r') = map (with_lifecycle f Removed) (flatten (r_forms r))"
    using ok flatten_with_lifecycle [of "r_forms r" f Removed] by (auto simp: reclaim_def split: if_splits)
qed (use ok in \<open>auto simp: reclaim_def split: if_splits\<close>)

lemma form_fins_with_lifecycle [simp]: "f_fin \<circ> with_lifecycle f l = f_fin"
  by (simp add: fun_eq_iff)

lemma binding_keys_hide [simp]: "binding_key \<circ> hide f d = binding_key"
  by (simp add: fun_eq_iff)

lemma registry_step_inv:
  assumes inv: "registry_inv r" and "registry_step r r'"
  shows "registry_inv r'"
  using assms(2)
proof cases
  case (step_register f)
  note ok = register_Ok [OF step_register]
  have "distinct (form_fins r')"
    using registry_forms.publish_distinct [OF _ _ _ ok(3)] inv ok(4) by (simp add: registry_inv_def)
  then show ?thesis
    using inv ok fill_slot_set [OF ok(3)] fill_slot_length [OF ok(3)]
    by (auto simp: registry_inv_def)
next
  case (step_dimension d)
  note ok = add_dimension_Ok [OF step_dimension]
  have "distinct (dimension_fins r')"
    using registry_dimensions.publish_distinct [OF _ _ _ ok(3)] inv ok(5) by (simp add: registry_inv_def)
  then show ?thesis
    using inv ok fill_slot_set [OF ok(3)] fill_slot_length [OF ok(3)]
    by (auto simp: registry_inv_def)
next
  case (step_bind f d n v)
  note ok = bind_Ok [OF step_bind]
  have "distinct (map binding_key (flatten (r_bindings r')))"
    using registry_bindings.publish_distinct [OF _ _ _ ok(3)] inv ok(6) by (simp add: registry_inv_def)
  then show ?thesis
    using inv ok fill_slot_set [OF ok(3)] fill_slot_length [OF ok(3)]
    by (auto simp: registry_inv_def)
next
  case (step_retire f d)
  note ok = retire_Ok [OF inv step_retire]
  have "form_fins r' = form_fins r" using ok(2) by simp
  then show ?thesis using inv ok by (simp add: registry_inv_def)
next
  case (step_reclaim f)
  note ok = reclaim_Ok [OF inv step_reclaim]
  have "form_fins r' = form_fins r" using ok(2) by simp
  then show ?thesis using inv ok by (simp add: registry_inv_def)
qed

interpretation registry_system: invariant_system "\<lambda>r. r = registry_new" registry_step registry_inv
proof unfold_locales
  fix r r'
  show "r = registry_new \<Longrightarrow> registry_inv r" by (simp add: registry_inv_def registry_new_def)
  show "registry_inv r \<Longrightarrow> registry_step r r' \<Longrightarrow> registry_inv r'" by (rule registry_step_inv)
qed

subsection \<open>Lookup by name\<close>

lemma find_map_Some: "find_map f xs = Some y \<Longrightarrow> \<exists>x\<in>set xs. f x = Some y"
  by (induction xs) (auto split: option.splits)

lemma find_map_None: "find_map f xs = None \<longleftrightarrow> (\<forall>x\<in>set xs. f x = None)"
  by (induction xs) (auto split: option.splits)

lemma find_map_cong_option:
  "(\<And>x. x \<in> set xs \<Longrightarrow> map_option g (h x) = map_option g (k x)) \<Longrightarrow>
    map_option g (find_map h xs) = map_option g (find_map k xs)"
proof (induction xs)
  case (Cons x xs)
  from Cons.prems [of x] have x: "map_option g (h x) = map_option g (k x)" by simp
  from Cons have "map_option g (find_map h xs) = map_option g (find_map k xs)" by simp
  with x show ?case by (cases "h x"; cases "k x") auto
qed simp

lemma find_map_map: "find_map h (map f xs) = find_map (h \<circ> f) xs"
  by (induction xs) (auto split: option.split)

lemma find_with_lifecycle:
  "find (\<lambda>x. f_fin x = i) (map (with_lifecycle f l) fs) =
    map_option (with_lifecycle f l) (find (\<lambda>x. f_fin x = i) fs)"
  by (induction fs) auto

lemma retire_form:
  assumes "registry_inv r" and "retire_from f d r = Ok r'"
  shows "registry_form r' i =
    map_option (if visibly_bound r' f then id else with_lifecycle f Retired) (registry_form r i)"
  unfolding registry_form_def retire_Ok(2) [OF assms]
  by (simp add: find_with_lifecycle option.map_id)

lemma hide_other: "bd_dimension b \<noteq> d \<Longrightarrow> hide f d b = b"
  by (simp add: hide_def)

lemma named_through_Some:
  "named_through r n d b = Some g \<longleftrightarrow> bd_dimension b = d \<and> bd_visibility b = Visible \<and>
    registry_form r (bd_form b) = Some g \<and> as_str (f_name g) = n"
  by (cases "bd_visibility b") (auto simp: named_through_def split: option.splits)

lemma retire_lookup_elsewhere:
  assumes "registry_inv r" and "retire_from f d r = Ok r'" and "d' \<noteq> d"
  shows "map_option f_fin (first_named_in r' n d') = map_option f_fin (first_named_in r n d')"
proof -
  have "map_option f_fin (named_through r' n d' (hide f d b)) = map_option f_fin (named_through r n d' b)" for b
  proof (cases "bd_dimension b = d'")
    case True
    then have "hide f d b = b" using assms(3) by (simp add: hide_other)
    then show ?thesis using True retire_form [OF assms(1,2), of "bd_form b"]
      by (simp add: named_through_def split: option.split)
  qed (simp add: named_through_def)
  then have "map_option f_fin (find_map (named_through r' n d' \<circ> hide f d) (flatten (r_bindings r))) =
      map_option f_fin (find_map (named_through r n d') (flatten (r_bindings r)))"
    by (intro find_map_cong_option) simp
  then show ?thesis unfolding first_named_in_def retire_Ok(1) [OF assms(1,2)] find_map_map .
qed

lemma retire_lookup_here:
  assumes "registry_inv r" and "retire_from f d r = Ok r'" and "first_named_in r' n d = Some g"
  shows "f_fin g \<noteq> f"
proof -
  obtain b where b: "named_through r' n d (hide f d b) = Some g"
    using assms(3) find_map_Some unfolding first_named_in_def retire_Ok(1) [OF assms(1,2)] find_map_map
    by fastforce
  then have g: "registry_form r' (bd_form b) = Some g" "bd_dimension b = d"
    "bd_visibility (hide f d b) = Visible"
    by (simp_all add: named_through_Some)
  then have "bd_form b \<noteq> f" by (auto simp: hide_def)
  then show ?thesis using registry_form_mem [OF g(1)] by simp
qed

section \<open>Properties\<close>

text \<open>A Form visible in two Dimensions.\<close>

definition demo_r1 :: form_registry where
  "demo_r1 = projr (register \<lparr>f_fin = from_u128 1, f_name = text_empty, f_kind = Service, f_revision = 1,
     f_lifecycle = Active\<rparr> registry_new)"

definition demo_r2 :: form_registry where
  "demo_r2 = projr (add_dimension \<lparr>d_fin = from_u128 2, d_name = text_empty, d_security_boundary = True\<rparr> demo_r1)"

definition demo_r3 :: form_registry where
  "demo_r3 = projr (add_dimension \<lparr>d_fin = from_u128 3, d_name = text_empty, d_security_boundary = True\<rparr> demo_r2)"

definition demo_r4 :: form_registry where
  "demo_r4 = projr (bind (from_u128 1) (from_u128 2) 1 Visible demo_r3)"

definition demo_r5 :: form_registry where
  "demo_r5 = projr (bind (from_u128 1) (from_u128 3) 1 Visible demo_r4)"

lemma demo_registry_steps:
  "registry_step registry_new demo_r1" "registry_step demo_r1 demo_r2" "registry_step demo_r2 demo_r3"
  "registry_step demo_r3 demo_r4" "registry_step demo_r4 demo_r5"
proof -
  show "registry_step registry_new demo_r1"
    unfolding demo_r1_def by (rule step_register, rule sum.collapse(2) [symmetric]) code_simp
  show "registry_step demo_r1 demo_r2"
    unfolding demo_r2_def by (rule step_dimension, rule sum.collapse(2) [symmetric]) code_simp
  show "registry_step demo_r2 demo_r3"
    unfolding demo_r3_def by (rule step_dimension, rule sum.collapse(2) [symmetric]) code_simp
  show "registry_step demo_r3 demo_r4"
    unfolding demo_r4_def by (rule step_bind, rule sum.collapse(2) [symmetric]) code_simp
  show "registry_step demo_r4 demo_r5"
    unfolding demo_r5_def by (rule step_bind, rule sum.collapse(2) [symmetric]) code_simp
qed

lemma demo_registry: "reachable (\<lambda>r. r = registry_new) registry_step demo_r5"
  using demo_registry_steps by (intro reachable_run) (meson rtranclp.intros)

text \<open>
  C30: the registry keeps referential integrity. In every reachable registry all Form and Dimension identities
  are distinct, a Form is bound at most once per Dimension, and every binding names a registered
  Form and a registered Dimension.
\<close>

theorem registry_integrity:
  assumes "reachable (\<lambda>r. r = registry_new) registry_step r"
  shows "distinct (form_fins r @ dimension_fins r) \<and> distinct (map binding_key (flatten (r_bindings r))) \<and>
    (\<forall>b\<in>set (flatten (r_bindings r)).
      registry_form r (bd_form b) \<noteq> None \<and> registry_dimension r (bd_dimension b) \<noteq> None)"
proof -
  have "registry_inv r" using assms by (rule registry_system.reachable_inv)
  then show ?thesis
    unfolding registry_form_None registry_dimension_None by (simp add: registry_inv_def)
qed

theorem registry_integrity_witness:
  "distinct (form_fins demo_r5 @ dimension_fins demo_r5) \<and> flatten (r_bindings demo_r5) \<noteq> []"
proof -
  have "flatten (r_bindings demo_r5) \<noteq> []" by code_simp
  then show ?thesis using registry_integrity [OF demo_registry] by blast
qed

text \<open>
  retiring a Form from a Dimension hides it there and nowhere else. Lookup by name never
  finds the Form in that Dimension again, lookups in every other Dimension give the same Form as before, and the
  Form becomes Retired exactly when no visible binding is left.
\<close>

theorem retire_is_local:
  assumes "reachable (\<lambda>r. r = registry_new) registry_step r" and "retire_from f d r = Ok r'"
  shows "(\<forall>g. first_named_in r' n d = Some g \<longrightarrow> f_fin g \<noteq> f) \<and>
    (d' \<noteq> d \<longrightarrow> map_option f_fin (first_named_in r' n d') = map_option f_fin (first_named_in r n d')) \<and>
    (\<forall>i. registry_form r' i =
      map_option (\<lambda>x. if i = f \<and> \<not> visibly_bound r' f then x\<lparr>f_lifecycle := Retired\<rparr> else x) (registry_form r i))"
proof -
  have inv: "registry_inv r" using assms(1) by (rule registry_system.reachable_inv)
  have "registry_form r' i =
      map_option (\<lambda>x. if i = f \<and> \<not> visibly_bound r' f then x\<lparr>f_lifecycle := Retired\<rparr> else x) (registry_form r i)" for i
  proof (cases "registry_form r i")
    case (Some x)
    then have "f_fin x = i" using registry_form_mem by blast
    then show ?thesis using Some retire_form [OF inv assms(2), of i] by (simp add: with_lifecycle_def)
  qed (simp add: retire_form [OF inv assms(2)])
  then show ?thesis
    using retire_lookup_here [OF inv assms(2)] retire_lookup_elsewhere [OF inv assms(2)] by blast
qed

theorem retire_is_local_witness:
  "\<exists>r'. retire_from (from_u128 1) (from_u128 2) demo_r5 = Ok r' \<and>
    map_option f_fin (first_named_in r' (lit ''app'') (from_u128 3)) =
      map_option f_fin (first_named_in demo_r5 (lit ''app'') (from_u128 3)) \<and>
    (\<forall>g. first_named_in r' (lit ''app'') (from_u128 2) = Some g \<longrightarrow> f_fin g \<noteq> from_u128 1)"
proof -
  have "\<not> isl (retire_from (from_u128 1) (from_u128 2) demo_r5)" by code_simp
  then obtain r' where r': "retire_from (from_u128 1) (from_u128 2) demo_r5 = Ok r'"
    by (metis sum.collapse(2))
  have "from_u128 3 \<noteq> from_u128 2" by simp
  then show ?thesis
    using retire_is_local [OF demo_registry r', of "lit ''app''" "from_u128 3"] r' by blast
qed

end
