(* ===== verification/Relationships.thy ===== *)
theory Relationships
  imports Identity Slots
begin

text \<open>
  The relationship graph (\<^verbatim>\<open>relationship.rs\<close>): at most 48 typed edges between identities, each either
  global or confined to one Dimension.
\<close>

section \<open>Model\<close>

definition MAX_RELATIONSHIPS :: nat where
  "MAX_RELATIONSHIPS = 48"

datatype relationship_kind = DependsOn | Provides | Contains | ConfiguredBy | Revises

record relationship =
  rel_source :: fin
  rel_target :: fin
  rel_kind :: relationship_kind
  rel_dimension :: "fin option"

datatype relationship_error = Invalid | Duplicate | Full

type_synonym relationship_graph = "relationship slots"

definition graph_new :: relationship_graph where
  "graph_new = empty_slots MAX_RELATIONSHIPS"

definition relate :: "relationship \<Rightarrow> relationship_graph \<Rightarrow> (relationship_error, relationship_graph) result" where
  "relate r g =
     (if is_zero (rel_source r) \<or> is_zero (rel_target r) \<or> rel_source r = rel_target r then Err Invalid
      else if list_ex (\<lambda>entry. entry = r) (flatten g) then Err Duplicate
      else (case fill_slot r g of None \<Rightarrow> Err Full | Some slots \<Rightarrow> Ok slots))"

definition remove :: "relationship \<Rightarrow> relationship_graph \<Rightarrow> bool \<times> relationship_graph" where
  "remove r g =
     (if list_ex (\<lambda>entry. entry = r) (flatten g) then (True, clear_first (\<lambda>entry. entry = r) g) else (False, g))"

definition targets :: "relationship_graph \<Rightarrow> fin \<Rightarrow> relationship_kind \<Rightarrow> fin option \<Rightarrow> fin list" where
  "targets g source kind dimension =
     map rel_target (filter (\<lambda>e. rel_source e = source \<and> rel_kind e = kind \<and>
       (rel_dimension e = None \<or> rel_dimension e = dimension)) (flatten g))"

definition referenced :: "relationship_graph \<Rightarrow> fin \<Rightarrow> bool" where
  "referenced g target = list_ex (\<lambda>e. rel_target e = target) (flatten g)"

definition involves :: "relationship_graph \<Rightarrow> fin \<Rightarrow> bool" where
  "involves g fin = list_ex (\<lambda>e. rel_source e = fin \<or> rel_target e = fin) (flatten g)"

definition relationship_count :: "relationship_graph \<Rightarrow> nat" where
  "relationship_count g = length (flatten g)"

text \<open>\<^verbatim>\<open>visit\<close> calls a state-changing visitor on every edge in slot order.\<close>

definition visit :: "(relationship \<Rightarrow> 's \<Rightarrow> 's) \<Rightarrow> relationship_graph \<Rightarrow> 's \<Rightarrow> 's" where
  "visit visitor g s = fold visitor (flatten g) s"

section \<open>Specification\<close>

text \<open>The graph as the set of its edges.\<close>

abbreviation edges :: "relationship_graph \<Rightarrow> relationship set" where
  "edges g \<equiv> set (flatten g)"

definition graph_inv :: "relationship_graph \<Rightarrow> bool" where
  "graph_inv g \<longleftrightarrow> length g = MAX_RELATIONSHIPS \<and> distinct (flatten g) \<and>
     (\<forall>r\<in>edges g. \<not> is_zero (rel_source r) \<and> \<not> is_zero (rel_target r) \<and> rel_source r \<noteq> rel_target r)"

inductive graph_step :: "relationship_graph \<Rightarrow> relationship_graph \<Rightarrow> bool" where
  step_relate: "relate r g = Ok g' \<Longrightarrow> graph_step g g'"
| step_remove: "remove r g = (found, g') \<Longrightarrow> graph_step g g'"

section \<open>Lemmas\<close>

interpretation graph_table: keyed_table flatten fill_slot
  "\<lambda>t. length t = MAX_RELATIONSHIPS" MAX_RELATIONSHIPS "\<lambda>r :: relationship. r"
  by (rule slots_keyed_table)

lemma relate_Ok:
  assumes "relate r g = Ok g'"
  shows "fill_slot r g = Some g'" "r \<notin> edges g" "\<not> is_zero (rel_source r)" "\<not> is_zero (rel_target r)"
    "rel_source r \<noteq> rel_target r"
  using assms by (auto simp: relate_def list_ex_iff split: if_splits option.splits)

lemma remove_result:
  assumes "graph_inv g" and "remove r g = (found, g')"
  shows "found \<longleftrightarrow> r \<in> edges g" "flatten g' = filter (\<lambda>e. e \<noteq> r) (flatten g)" "length g' = length g"
proof -
  have "distinct (map (\<lambda>x. x) (flatten g))" using assms(1) by (simp add: graph_inv_def)
  note clear = clear_first_key [OF this, of r]
  show "found \<longleftrightarrow> r \<in> edges g" "length g' = length g"
    using assms(2) by (auto simp: remove_def list_ex_iff split: if_splits)
  show "flatten g' = filter (\<lambda>e. e \<noteq> r) (flatten g)"
  proof (cases "list_ex (\<lambda>entry. entry = r) (flatten g)")
    case True
    then show ?thesis using assms(2) clear by (simp add: remove_def)
  next
    case False
    then have "filter (\<lambda>e. e \<noteq> r) (flatten g) = flatten g" by (auto simp: list_ex_iff filter_id_conv)
    then show ?thesis using assms(2) False by (simp add: remove_def)
  qed
qed

lemma relate_inv:
  assumes "graph_inv g" and "relate r g = Ok g'"
  shows "graph_inv g'"
proof -
  note ok = relate_Ok [OF assms(2)]
  have "distinct (map (\<lambda>r. r) (flatten g'))"
    by (rule graph_table.publish_distinct [OF _ _ _ ok(1)]) (use assms(1) ok(2) in \<open>auto simp: graph_inv_def\<close>)
  then show ?thesis
    using assms(1) ok fill_slot_set [OF ok(1)] fill_slot_length [OF ok(1)] by (simp add: graph_inv_def)
qed

lemma remove_inv: "graph_inv g \<Longrightarrow> remove r g = (found, g') \<Longrightarrow> graph_inv g'"
  using remove_result [of g r found g'] by (simp add: graph_inv_def)

interpretation graph_system: invariant_system "\<lambda>g. g = graph_new" graph_step graph_inv
proof unfold_locales
  fix g g'
  show "g = graph_new \<Longrightarrow> graph_inv g" by (simp add: graph_inv_def graph_new_def)
  show "graph_inv g'" if "graph_inv g" "graph_step g g'"
    using that(2,1) by cases (rule relate_inv remove_inv, assumption+)+
qed

section \<open>Properties\<close>

text \<open>
  the graph is a bounded set of edges. On every reachable graph \<^verbatim>\<open>relate\<close> adds exactly the given edge or
  changes nothing, failing only for an invalid edge, a present one, or at 48 edges; \<^verbatim>\<open>remove\<close> deletes
  exactly the given edge and reports whether it was there; no edge is stored twice or joins an identity to itself.
\<close>

theorem graph_is_edge_set:
  assumes "reachable (\<lambda>g. g = graph_new) graph_step g"
  shows "(case relate r g of
      Ok g' \<Rightarrow> edges g' = insert r (edges g) \<and> r \<notin> edges g
    | Err Invalid \<Rightarrow> is_zero (rel_source r) \<or> is_zero (rel_target r) \<or> rel_source r = rel_target r
    | Err Duplicate \<Rightarrow> r \<in> edges g
    | Err Full \<Rightarrow> card (edges g) = 48) \<and>
    (case remove r g of (found, g') \<Rightarrow> (found \<longleftrightarrow> r \<in> edges g) \<and> edges g' = edges g - {r}) \<and>
    relationship_count g = card (edges g) \<and> (\<forall>e\<in>edges g. rel_source e \<noteq> rel_target e)"
proof -
  have inv: "graph_inv g" using assms by (rule graph_system.reachable_inv)
  have card: "length (flatten g) = card (edges g)"
    using inv by (simp add: graph_inv_def distinct_card)
  have "case relate r g of
      Ok g' \<Rightarrow> edges g' = insert r (edges g) \<and> r \<notin> edges g
    | Err Invalid \<Rightarrow> is_zero (rel_source r) \<or> is_zero (rel_target r) \<or> rel_source r = rel_target r
    | Err Duplicate \<Rightarrow> r \<in> edges g
    | Err Full \<Rightarrow> card (edges g) = 48"
    using inv card fill_slot_set [of r g] fill_slot_full [of r g]
    by (auto simp: relate_def list_ex_iff graph_inv_def MAX_RELATIONSHIPS_def split: option.splits)
  moreover have "case remove r g of (found, g') \<Rightarrow> (found \<longleftrightarrow> r \<in> edges g) \<and> edges g' = edges g - {r}"
    using remove_result [OF inv, of r] by (cases "remove r g") auto
  ultimately show ?thesis using inv card by (simp add: relationship_count_def graph_inv_def)
qed

theorem graph_is_edge_set_witness:
  "relate \<lparr>rel_source = from_u128 1, rel_target = from_u128 1, rel_kind = DependsOn, rel_dimension = None\<rparr> graph_new
     \<noteq> Ok graph_new \<and> relationship_count graph_new = card (edges graph_new)"
  using graph_is_edge_set [OF reachable_start, of
      "\<lparr>rel_source = from_u128 1, rel_target = from_u128 1, rel_kind = DependsOn, rel_dimension = None\<rparr>"]
  by (simp add: relate_def)

end
