(* ===== verification/Ring.thy ===== *)
theory Ring
  imports Slots
begin

text \<open>
  Ring buffers: the recovery ring and the event and message queues of an execution context keep an
  array of slots, the index of the oldest entry and the number of entries. A ring is read
  as the list of its entries, oldest first; the laws say what the three updates of the code do to that list.
\<close>

section \<open>Rings as lists\<close>

definition ring_entries :: "'a slots \<Rightarrow> nat \<Rightarrow> nat \<Rightarrow> 'a list" where
  "ring_entries slots head len = map (\<lambda>i. the (slots ! ((head + i) mod length slots))) [0..<len]"

definition ring_wf :: "nat \<Rightarrow> 'a slots \<Rightarrow> nat \<Rightarrow> nat \<Rightarrow> bool" where
  "ring_wf cap slots head len \<longleftrightarrow> length slots = cap \<and> head < cap \<and> len \<le> cap \<and>
     (\<forall>i<cap. (slots ! ((head + i) mod cap) \<noteq> None) = (i < len))"

lemma ring_wf_empty: "0 < cap \<Longrightarrow> ring_wf cap (empty_slots cap) 0 0"
  by (simp add: ring_wf_def empty_slots_def)

lemma ring_entries_empty [simp]: "ring_entries slots head 0 = []"
  by (simp add: ring_entries_def)

lemma length_ring_entries [simp]: "length (ring_entries slots head len) = len"
  by (simp add: ring_entries_def)

lemma ring_nth:
  assumes "ring_wf cap slots head len" and "i < len"
  shows "slots ! ((head + i) mod cap) = Some (ring_entries slots head len ! i)"
proof -
  have "i < cap" "length slots = cap" using assms by (auto simp: ring_wf_def)
  then have "slots ! ((head + i) mod cap) \<noteq> None" using assms by (simp add: ring_wf_def)
  then show ?thesis using assms(2) \<open>length slots = cap\<close> by (auto simp: ring_entries_def)
qed

text \<open>Distinct offsets below the capacity are distinct slots.\<close>

lemma ring_slot_inject:
  "i < cap \<Longrightarrow> j < cap \<Longrightarrow> (head + i) mod cap = (head + j) mod cap \<longleftrightarrow> i = (j :: nat)"
  using mod_shift_inject [of head i cap j] by blast

lemma ring_slot_bound: "0 < cap \<Longrightarrow> (n :: nat) mod cap < cap"
  by simp

lemma ring_push:
  fixes x :: 'a
  assumes wf: "ring_wf cap slots head len" and room: "len < cap"
  defines "slots' \<equiv> slots[(head + len) mod cap := Some x]"
  shows "ring_wf cap slots' head (Suc len)" "ring_entries slots' head (Suc len) = ring_entries slots head len @ [x]"
proof -
  have len: "length slots = cap" "head < cap" "len \<le> cap" and pos: "0 < cap"
    and occ: "\<And>i. i < cap \<Longrightarrow> (slots ! ((head + i) mod cap) \<noteq> None) = (i < len)"
    using wf room by (auto simp: ring_wf_def)
  have at: "slots' ! ((head + i) mod cap) = (if i = len then Some x else slots ! ((head + i) mod cap))"
    if "i < cap" for i
    unfolding slots'_def using len pos ring_slot_inject [OF that room, of head]
    by (auto simp: nth_list_update)
  have "(slots' ! ((head + i) mod cap) \<noteq> None) = (i < Suc len)" if "i < cap" for i
    using at [OF that] occ [OF that] by auto
  then show "ring_wf cap slots' head (Suc len)"
    unfolding ring_wf_def using len room by (simp add: slots'_def)
  have "map (\<lambda>i. the (slots' ! ((head + i) mod cap))) [0..<len] = map (\<lambda>i. the (slots ! ((head + i) mod cap))) [0..<len]"
    using at room by (intro map_cong) auto
  moreover have "length slots' = cap" using len by (simp add: slots'_def)
  ultimately show "ring_entries slots' head (Suc len) = ring_entries slots head len @ [x]"
    using at [OF room] len by (simp add: ring_entries_def)
qed

text \<open>Offsets from the next head are the successors of offsets from the head.\<close>

lemma ring_next_slot: "(Suc head mod cap + i) mod cap = Suc (head + i) mod cap"
  by (simp add: mod_add_left_eq)

lemma ring_first:
  assumes "ring_wf cap slots head len" and "0 < len"
  shows "slots ! head = Some (hd (ring_entries slots head len))"
proof -
  have "ring_entries slots head len \<noteq> []" using assms(2) by (metis length_ring_entries list.size(3) neq0_conv)
  then show ?thesis using ring_nth [OF assms] assms(1) by (simp add: ring_wf_def hd_conv_nth)
qed

lemma ring_entries_tl:
  assumes "length slots = cap" "length slots' = cap" "0 < len"
    and same: "\<And>i. Suc i < len \<Longrightarrow> slots' ! (Suc (head + i) mod cap) = slots ! (Suc (head + i) mod cap)"
  shows "ring_entries slots' (Suc head mod cap) (len - 1) = tl (ring_entries slots head len)"
proof (rule nth_equalityI)
  fix i
  assume "i < length (ring_entries slots' (Suc head mod cap) (len - 1))"
  then have i: "Suc i < len" by simp
  then have "[0..<len - 1] ! i = i" "i < len - 1" by simp_all
  then have "ring_entries slots' (Suc head mod cap) (len - 1) ! i = the (slots' ! (Suc (head + i) mod cap))"
    using assms(2) by (simp add: ring_entries_def ring_next_slot del: upt_Suc)
  moreover have "tl (ring_entries slots head len) ! i = the (slots ! (Suc (head + i) mod cap))"
    using i assms(1) by (simp add: nth_tl ring_entries_def)
  ultimately show "ring_entries slots' (Suc head mod cap) (len - 1) ! i = tl (ring_entries slots head len) ! i"
    using same [OF i] by simp
qed simp

lemma ring_pop:
  assumes wf: "ring_wf cap slots head len" and some: "0 < len"
  defines "slots' \<equiv> slots[head := None]"
  shows "ring_wf cap slots' (Suc head mod cap) (len - 1)"
    "ring_entries slots' (Suc head mod cap) (len - 1) = tl (ring_entries slots head len)"
proof -
  have len: "length slots = cap" "head < cap" "len \<le> cap" and pos: "0 < cap"
    and occ: "\<And>i. i < cap \<Longrightarrow> (slots ! ((head + i) mod cap) \<noteq> None) = (i < len)"
    using wf some by (auto simp: ring_wf_def)
  have len': "length slots' = cap" and hd: "slots' ! head = None" using len by (simp_all add: slots'_def)
  have at: "slots' ! (Suc (head + i) mod cap) = slots ! (Suc (head + i) mod cap)" if "Suc i < cap" for i
    using ring_slot_inject [OF that pos, of head] len by (simp add: slots'_def nth_list_update)
  have "(slots' ! (Suc (head + i) mod cap) \<noteq> None) = (i < len - 1)" if i: "i < cap" for i
  proof (cases "Suc i = cap")
    case True
    then have "Suc (head + i) = head + cap" by simp
    then have "Suc (head + i) mod cap = head" using len mod_add_self2 [of head cap] by (simp only: mod_less)
    then show ?thesis using hd True len by simp
  next
    case False
    then have "Suc i < cap" using i by simp
    then show ?thesis using at [of i] occ [of "Suc i"] by auto
  qed
  then show "ring_wf cap slots' (Suc head mod cap) (len - 1)"
    unfolding ring_wf_def using len len' pos by (simp add: ring_next_slot)
  show "ring_entries slots' (Suc head mod cap) (len - 1) = tl (ring_entries slots head len)"
    using len by (intro ring_entries_tl [OF _ len' some] at) simp_all
qed

lemma ring_replace:
  fixes x :: 'a
  assumes wf: "ring_wf cap slots head cap"
  defines "slots' \<equiv> slots[head := Some x]"
  shows "ring_wf cap slots' (Suc head mod cap) cap"
    "ring_entries slots' (Suc head mod cap) cap = tl (ring_entries slots head cap) @ [x]"
proof -
  have pos: "0 < cap" using wf by (auto simp: ring_wf_def)
  let ?h = "Suc head mod cap"
  have len: "length slots = cap" "head < cap" using wf by (auto simp: ring_wf_def)
  have "(?h + (cap - 1)) mod cap = Suc (head + (cap - 1)) mod cap" by (rule ring_next_slot)
  moreover have "Suc (head + (cap - 1)) = head + cap" using pos by simp
  ultimately have h: "(?h + (cap - 1)) mod cap = head" using len by simp
  have step: "slots' = (slots[head := None])[(?h + (cap - 1)) mod cap := Some x]"
    unfolding h by (simp add: slots'_def)
  have cap: "cap - 1 < cap" "Suc (cap - 1) = cap" using pos by simp_all
  note pop = ring_pop [OF wf pos]
  note push = ring_push [OF pop(1) cap(1), of x]
  show "ring_wf cap slots' ?h cap" using push(1) unfolding step cap(2) .
  show "ring_entries slots' ?h cap = tl (ring_entries slots head cap) @ [x]"
    using push(2) unfolding step cap(2) pop(2) .
qed

lemma ring_set:
  assumes "ring_wf cap slots head len"
  shows "set (flatten slots) = set (ring_entries slots head len)"
proof (rule set_eqI)
  fix x
  have len: "length slots = cap" "head < cap" "len \<le> cap" using assms by (auto simp: ring_wf_def)
  show "x \<in> set (flatten slots) \<longleftrightarrow> x \<in> set (ring_entries slots head len)"
  proof
    assume "x \<in> set (flatten slots)"
    then obtain j where j: "j < cap" "slots ! j = Some x"
      using len by (metis in_set_conv_nth set_flatten)
    let ?i = "(cap - head + j) mod cap"
    have "(head + ?i) mod cap = (head + (cap - head + j)) mod cap" by (simp add: mod_add_right_eq)
    also have "\<dots> = j" using len j by simp
    finally have at: "(head + ?i) mod cap = j" .
    have "?i < cap" using j by simp
    then have "(slots ! ((head + ?i) mod cap) \<noteq> None) = (?i < len)" using assms unfolding ring_wf_def by blast
    then have "?i < len" using at j(2) by simp
    then show "x \<in> set (ring_entries slots head len)"
      using ring_nth [OF assms \<open>?i < len\<close>] at j(2) nth_mem [of ?i "ring_entries slots head len"] by simp
  next
    assume "x \<in> set (ring_entries slots head len)"
    then obtain i where i: "i < len" "x = ring_entries slots head len ! i"
      by (auto simp: in_set_conv_nth)
    then have "slots ! ((head + i) mod cap) = Some x" using ring_nth [OF assms] by simp
    moreover have "(head + i) mod cap < length slots" using len by simp
    ultimately show "x \<in> set (flatten slots)" by (metis nth_mem set_flatten)
  qed
qed

text \<open>Changing an entry in place, and a ring packed from the first slot.\<close>

lemma ring_update:
  fixes x :: 'a
  assumes wf: "ring_wf cap slots head len" and i: "i < len"
  defines "slots' \<equiv> slots[(head + i) mod cap := Some x]"
  shows "ring_wf cap slots' head len" "ring_entries slots' head len = (ring_entries slots head len)[i := x]"
proof -
  have len: "length slots = cap" "head < cap" "len \<le> cap" using wf by (auto simp: ring_wf_def)
  have at: "slots' ! ((head + j) mod cap) = (if j = i then Some x else slots ! ((head + j) mod cap))" if "j < cap" for j
    using ring_slot_inject [OF that, of i head] i len by (auto simp: slots'_def nth_list_update)
  have len': "length slots' = cap" using len by (simp add: slots'_def)
  show "ring_wf cap slots' head len" using wf at i len by (auto simp: ring_wf_def slots'_def)
  show "ring_entries slots' head len = (ring_entries slots head len)[i := x]"
  proof (rule nth_equalityI)
    fix j
    assume "j < length (ring_entries slots' head len)"
    then have j: "j < len" "j < cap" using len by simp_all
    then show "ring_entries slots' head len ! j = (ring_entries slots head len)[i := x] ! j"
      using at [OF j(2)] len len' i by (simp add: ring_entries_def nth_list_update)
  qed simp
qed

lemma ring_packed:
  assumes "length xs \<le> cap" and "0 < cap"
  shows "ring_wf cap (map Some xs @ empty_slots (cap - length xs)) 0 (length xs)"
    "ring_entries (map Some xs @ empty_slots (cap - length xs)) 0 (length xs) = xs"
proof -
  show "ring_wf cap (map Some xs @ empty_slots (cap - length xs)) 0 (length xs)"
    using assms by (auto simp: ring_wf_def nth_append empty_slots_def)
  show "ring_entries (map Some xs @ empty_slots (cap - length xs)) 0 (length xs) = xs"
    using assms by (intro nth_equalityI) (simp_all add: ring_entries_def nth_append)
qed

section \<open>Bounded queues\<close>

text \<open>
  Any interleaving of insertions (\<open>Some x\<close>) and removals (\<open>None\<close>) on a queue: the entries that were
  accepted, the entries that were taken, and the queue that remains.
\<close>

fun transfer :: "('a \<Rightarrow> 'q \<Rightarrow> bool \<times> 'q) \<Rightarrow> ('q \<Rightarrow> 'a option \<times> 'q) \<Rightarrow> 'a option list \<Rightarrow> 'q \<Rightarrow> 'a list \<times> 'a list \<times> 'q" where
  "transfer enq deq [] q = ([], [], q)"
| "transfer enq deq (Some x # ops) q =
     (case enq x q of (accepted, q') \<Rightarrow>
        case transfer enq deq ops q' of (ins, outs, q'') \<Rightarrow> (if accepted then x # ins else ins, outs, q''))"
| "transfer enq deq (None # ops) q =
     (case deq q of (taken, q') \<Rightarrow>
        case transfer enq deq ops q' of (ins, outs, q'') \<Rightarrow>
          (ins, case taken of None \<Rightarrow> outs | Some x \<Rightarrow> x # outs, q''))"

text \<open>
  What the clients of a queue rely on: an accepted entry goes to the end, a refused one changes nothing
  that is queued, and the oldest entry is taken from the front. A bounded queue refuses only when it is full.
\<close>

locale fifo_queue =
  fixes items :: "'q \<Rightarrow> 'a list"
    and enqueue :: "'a \<Rightarrow> 'q \<Rightarrow> bool \<times> 'q"
    and dequeue :: "'q \<Rightarrow> 'a option \<times> 'q"
    and queue_ok :: "'q \<Rightarrow> bool"
  assumes enqueue_items: "queue_ok q \<Longrightarrow> items (snd (enqueue x q)) = (if fst (enqueue x q) then items q @ [x] else items q)"
    and enqueue_ok: "queue_ok q \<Longrightarrow> queue_ok (snd (enqueue x q))"
    and dequeue_items: "queue_ok q \<Longrightarrow> items q = (case fst (dequeue q) of None \<Rightarrow> [] | Some x \<Rightarrow> x # items (snd (dequeue q)))"
    and dequeue_empty: "queue_ok q \<Longrightarrow> fst (dequeue q) = None \<Longrightarrow> items (snd (dequeue q)) = []"
    and dequeue_ok: "queue_ok q \<Longrightarrow> queue_ok (snd (dequeue q))"
begin

lemma transfer_fifo:
  "queue_ok q \<Longrightarrow> transfer enqueue dequeue ops q = (ins, outs, q') \<Longrightarrow> queue_ok q' \<and> items q @ ins = outs @ items q'"
proof (induction ops arbitrary: q ins outs)
  case (Cons op ops)
  show ?case
  proof (cases op)
    case None
    obtain t r where d: "dequeue q = (t, r)" by fastforce
    obtain outs' where rest: "transfer enqueue dequeue ops r = (ins, outs', q')"
      and outs: "outs = (case t of None \<Rightarrow> outs' | Some x \<Rightarrow> x # outs')"
      using Cons.prems(2) None d by (auto split: prod.splits)
    have "queue_ok r" using dequeue_ok [OF Cons.prems(1)] d by simp
    then show ?thesis using Cons.IH [OF _ rest] dequeue_items [OF Cons.prems(1)] dequeue_empty [OF Cons.prems(1)] d outs
      by (auto split: option.splits)
  next
    case (Some x)
    obtain a r where e: "enqueue x q = (a, r)" by fastforce
    obtain ins' where rest: "transfer enqueue dequeue ops r = (ins', outs, q')"
      and ins: "ins = (if a then x # ins' else ins')"
      using Cons.prems(2) Some e by (auto split: prod.splits)
    have "queue_ok r" using enqueue_ok [OF Cons.prems(1), of x] e by simp
    then show ?thesis using Cons.IH [OF _ rest] enqueue_items [OF Cons.prems(1), of x] e ins by auto
  qed
qed simp

end

locale bounded_queue = fifo_queue items enqueue dequeue queue_ok
  for items :: "'q \<Rightarrow> 'a list" and enqueue :: "'a \<Rightarrow> 'q \<Rightarrow> bool \<times> 'q"
    and dequeue :: "'q \<Rightarrow> 'a option \<times> 'q" and queue_ok :: "'q \<Rightarrow> bool" +
  fixes limit :: nat
  assumes accepts: "queue_ok q \<Longrightarrow> fst (enqueue x q) \<longleftrightarrow> length (items q) < limit"
begin

lemma enqueue_length: "queue_ok q \<Longrightarrow> length (items q) \<le> limit \<Longrightarrow> length (items (snd (enqueue x q))) \<le> limit"
  by (simp add: enqueue_items accepts)

end

end
