(* ===== verification/Recovery.thy ===== *)
theory Recovery
  imports Ring Cfc
begin

text \<open>
  Recovery metadata (\<^verbatim>\<open>recovery.rs\<close>): per CFC one installation baseline and a ring of the last eight
  checkpoints. The \<^verbatim>\<open>u8\<close> index and count of the ring are natural numbers; both stay below nine. The lemmas refine
  the ring to the list of accepted checkpoints of which the last eight are kept.
\<close>

section \<open>Model\<close>

definition RECOVERY_CHECKPOINT_CAPACITY :: nat where
  "RECOVERY_CHECKPOINT_CAPACITY = 8"

definition MAX_RECOVERY_CFCS :: nat where
  "MAX_RECOVERY_CFCS = MAX_CFCS"

datatype recovery_error =
    InvalidCfcFin
  | WrongCfc
  | InvalidMetadata
  | DuplicateCfc
  | UnknownCfc
  | CatalogFull
  | CheckpointNotNewer
  | StaleJournalSequence
  | StaleStateRevision
  | CheckpointNotFound

record recovery_metadata =
  m_state_id :: u64
  m_expfs_sequence :: u32
  m_form_graph_revision :: u32

definition metadata_new :: "u64 \<Rightarrow> u32 \<Rightarrow> u32 \<Rightarrow> (recovery_error, recovery_metadata) result" where
  "metadata_new state_id expfs_sequence form_graph_revision =
     (if state_id = 0 \<or> expfs_sequence = 0 \<or> form_graph_revision = 0 then Err InvalidMetadata
      else Ok \<lparr>m_state_id = state_id, m_expfs_sequence = expfs_sequence,
        m_form_graph_revision = form_graph_revision\<rparr>)"

record installation_baseline =
  ib_cfc :: cfc_fin
  ib_metadata :: recovery_metadata

definition baseline_new ::
  "cfc_fin \<Rightarrow> u64 \<Rightarrow> u32 \<Rightarrow> u32 \<Rightarrow> (recovery_error, installation_baseline) result" where
  "baseline_new cfc state_id expfs_sequence form_graph_revision =
     (if cfc_is_zero cfc then Err InvalidCfcFin
      else (case metadata_new state_id expfs_sequence form_graph_revision of
        Err e \<Rightarrow> Err e
      | Ok m \<Rightarrow> Ok \<lparr>ib_cfc = cfc, ib_metadata = m\<rparr>))"

record checkpoint_metadata =
  cm_cfc :: cfc_fin
  cm_metadata :: recovery_metadata

definition checkpoint_new ::
  "cfc_fin \<Rightarrow> u64 \<Rightarrow> u32 \<Rightarrow> u32 \<Rightarrow> (recovery_error, checkpoint_metadata) result" where
  "checkpoint_new cfc state_id expfs_sequence form_graph_revision =
     (if cfc_is_zero cfc then Err InvalidCfcFin
      else (case metadata_new state_id expfs_sequence form_graph_revision of
        Err e \<Rightarrow> Err e
      | Ok m \<Rightarrow> Ok \<lparr>cm_cfc = cfc, cm_metadata = m\<rparr>))"

datatype restore_target = TargetBaseline | TargetCheckpoint u64

datatype restore_source = SourceBaseline | SourceCheckpoint

record restore_selection =
  rs_cfc :: cfc_fin
  rs_source :: restore_source
  rs_metadata :: recovery_metadata

record cfc_recovery =
  rh_cfc :: cfc_fin
  rh_baseline :: installation_baseline
  rh_checkpoints :: "checkpoint_metadata slots"
  rh_oldest :: nat
  rh_len :: nat

definition recovery_new :: "cfc_fin \<Rightarrow> installation_baseline \<Rightarrow> (recovery_error, cfc_recovery) result" where
  "recovery_new cfc baseline =
     (if cfc_is_zero cfc then Err InvalidCfcFin
      else if ib_cfc baseline \<noteq> cfc then Err WrongCfc
      else Ok \<lparr>rh_cfc = cfc, rh_baseline = baseline,
        rh_checkpoints = empty_slots RECOVERY_CHECKPOINT_CAPACITY, rh_oldest = 0, rh_len = 0\<rparr>)"

definition checkpoint :: "cfc_recovery \<Rightarrow> nat \<Rightarrow> checkpoint_metadata option" where
  "checkpoint h index =
     (if index \<ge> rh_len h then None
      else rh_checkpoints h ! ((rh_oldest h + index) mod RECOVERY_CHECKPOINT_CAPACITY))"

definition latest_checkpoint :: "cfc_recovery \<Rightarrow> checkpoint_metadata option" where
  "latest_checkpoint h = checkpoint h (rh_len h - 1)"

definition latest_metadata :: "cfc_recovery \<Rightarrow> recovery_metadata" where
  "latest_metadata h =
     (case latest_checkpoint h of Some c \<Rightarrow> cm_metadata c | None \<Rightarrow> ib_metadata (rh_baseline h))"

definition validate_successor :: "cfc_recovery \<Rightarrow> checkpoint_metadata \<Rightarrow> (recovery_error, unit) result" where
  "validate_successor h c =
     (let latest = latest_metadata h; candidate = cm_metadata c in
      if m_state_id candidate \<le> m_state_id latest then Err CheckpointNotNewer
      else if m_expfs_sequence candidate < m_expfs_sequence latest then Err StaleJournalSequence
      else if m_form_graph_revision candidate < m_form_graph_revision latest then Err StaleStateRevision
      else Ok ())"

definition record_checkpoint ::
  "checkpoint_metadata \<Rightarrow> cfc_recovery \<Rightarrow> (recovery_error, checkpoint_metadata option \<times> cfc_recovery) result" where
  "record_checkpoint c h =
     (if cm_cfc c \<noteq> rh_cfc h then Err WrongCfc
      else (case validate_successor h c of
        Err e \<Rightarrow> Err e
      | Ok _ \<Rightarrow>
         if rh_len h < RECOVERY_CHECKPOINT_CAPACITY then
           let slot = (rh_oldest h + rh_len h) mod RECOVERY_CHECKPOINT_CAPACITY
           in Ok (None, h\<lparr>rh_checkpoints := (rh_checkpoints h)[slot := Some c], rh_len := rh_len h + 1\<rparr>)
         else
           let slot = rh_oldest h
           in Ok (rh_checkpoints h ! slot,
             h\<lparr>rh_checkpoints := (rh_checkpoints h)[slot := Some c],
               rh_oldest := (slot + 1) mod RECOVERY_CHECKPOINT_CAPACITY\<rparr>)))"

fun record_batch :: "checkpoint_metadata list \<Rightarrow> cfc_recovery \<Rightarrow> (recovery_error, cfc_recovery) result" where
  "record_batch [] h = Ok h"
| "record_batch (c # cs) h =
     (case record_checkpoint c h of Err e \<Rightarrow> Err e | Ok (_, h') \<Rightarrow> record_batch cs h')"

definition select_restore :: "cfc_recovery \<Rightarrow> restore_target \<Rightarrow> (recovery_error, restore_selection) result" where
  "select_restore h target =
     (case target of
       TargetBaseline \<Rightarrow> Ok \<lparr>rs_cfc = rh_cfc h, rs_source = SourceBaseline,
         rs_metadata = ib_metadata (rh_baseline h)\<rparr>
     | TargetCheckpoint state_id \<Rightarrow>
        (case find (\<lambda>c. m_state_id (cm_metadata c) = state_id) (flatten (rh_checkpoints h)) of
          None \<Rightarrow> Err CheckpointNotFound
        | Some c \<Rightarrow> Ok \<lparr>rs_cfc = rh_cfc h, rs_source = SourceCheckpoint, rs_metadata = cm_metadata c\<rparr>))"

type_synonym recovery_catalog = "cfc_recovery slots"

definition recovery_catalog_new :: recovery_catalog where
  "recovery_catalog_new = empty_slots MAX_RECOVERY_CFCS"

definition recovery :: "recovery_catalog \<Rightarrow> cfc_fin \<Rightarrow> cfc_recovery option" where
  "recovery cat cfc = find (\<lambda>h. rh_cfc h = cfc) (flatten cat)"

definition install ::
  "cfc_fin \<Rightarrow> installation_baseline \<Rightarrow> recovery_catalog \<Rightarrow> (recovery_error, recovery_catalog) result" where
  "install cfc baseline cat =
     (if recovery cat cfc \<noteq> None then Err DuplicateCfc
      else (case recovery_new cfc baseline of
        Err e \<Rightarrow> Err e
      | Ok h \<Rightarrow> (case fill_slot h cat of None \<Rightarrow> Err CatalogFull | Some cat' \<Rightarrow> Ok cat')))"

definition catalog_record_checkpoint ::
  "cfc_fin \<Rightarrow> checkpoint_metadata \<Rightarrow> recovery_catalog
     \<Rightarrow> (recovery_error, checkpoint_metadata option \<times> recovery_catalog) result" where
  "catalog_record_checkpoint cfc c cat =
     (case recovery cat cfc of
       None \<Rightarrow> Err UnknownCfc
     | Some h \<Rightarrow> (case record_checkpoint c h of
         Err e \<Rightarrow> Err e
       | Ok (evicted, h') \<Rightarrow> Ok (evicted, update_first (\<lambda>h. rh_cfc h = cfc) (\<lambda>_. h') cat)))"

definition catalog_select_restore ::
  "recovery_catalog \<Rightarrow> cfc_fin \<Rightarrow> restore_target \<Rightarrow> (recovery_error, restore_selection) result" where
  "catalog_select_restore cat cfc target =
     (case recovery cat cfc of None \<Rightarrow> Err UnknownCfc | Some h \<Rightarrow> select_restore h target)"

definition recovery_catalog_len :: "recovery_catalog \<Rightarrow> nat" where
  "recovery_catalog_len cat = length (flatten cat)"

definition recovery_catalog_is_empty :: "recovery_catalog \<Rightarrow> bool" where
  "recovery_catalog_is_empty cat \<longleftrightarrow> recovery_catalog_len cat = 0"

section \<open>Specification\<close>

text \<open>The checkpoints retained, oldest first; and what a history of publications accepts.\<close>

definition retained :: "cfc_recovery \<Rightarrow> checkpoint_metadata list" where
  "retained h = ring_entries (rh_checkpoints h) (rh_oldest h) (rh_len h)"

definition supersedes :: "recovery_metadata \<Rightarrow> recovery_metadata \<Rightarrow> bool" where
  "supersedes new old \<longleftrightarrow> m_state_id old < m_state_id new \<and> m_expfs_sequence old \<le> m_expfs_sequence new \<and>
     m_form_graph_revision old \<le> m_form_graph_revision new"

definition last_eight :: "'a list \<Rightarrow> 'a list" where
  "last_eight xs = drop (length xs - 8) xs"

fun publish_all :: "checkpoint_metadata list \<Rightarrow> cfc_recovery \<Rightarrow> checkpoint_metadata list \<times> cfc_recovery" where
  "publish_all [] h = ([], h)"
| "publish_all (c # cs) h =
     (case record_checkpoint c h of
       Err _ \<Rightarrow> publish_all cs h
     | Ok (_, h') \<Rightarrow> (case publish_all cs h' of (acc, h'') \<Rightarrow> (c # acc, h'')))"

definition history_inv :: "cfc_recovery \<Rightarrow> bool" where
  "history_inv h \<longleftrightarrow> ring_wf 8 (rh_checkpoints h) (rh_oldest h) (rh_len h) \<and> ib_cfc (rh_baseline h) = rh_cfc h \<and>
     (\<forall>c\<in>set (retained h). cm_cfc c = rh_cfc h) \<and>
     sorted_wrt (\<lambda>old new. supersedes new old) (ib_metadata (rh_baseline h) # map cm_metadata (retained h))"

section \<open>Lemmas\<close>

lemma supersedes_trans: "supersedes c b \<Longrightarrow> supersedes b a \<Longrightarrow> supersedes c a"
  by (auto simp: supersedes_def)

lemma supersedes_last:
  "sorted_wrt (\<lambda>old new. supersedes new old) (ms @ [m]) \<Longrightarrow> supersedes x m \<Longrightarrow>
    sorted_wrt (\<lambda>old new. supersedes new old) (ms @ [m, x])"
  by (auto simp: sorted_wrt_append intro: supersedes_trans)

lemma latest_is_last:
  assumes "history_inv h"
  shows "latest_metadata h = last (ib_metadata (rh_baseline h) # map cm_metadata (retained h))"
proof (cases "rh_len h")
  case 0
  then show ?thesis by (simp add: latest_metadata_def latest_checkpoint_def checkpoint_def retained_def)
next
  case (Suc n)
  have wf: "ring_wf 8 (rh_checkpoints h) (rh_oldest h) (rh_len h)" using assms by (simp add: history_inv_def)
  have "latest_checkpoint h = Some (retained h ! n)"
    using ring_nth [OF wf, of n] Suc
    by (simp add: latest_checkpoint_def checkpoint_def RECOVERY_CHECKPOINT_CAPACITY_def retained_def)
  moreover have "retained h \<noteq> []" "length (retained h) = Suc n" using Suc by (auto simp: retained_def ring_entries_def)
  ultimately show ?thesis by (simp add: latest_metadata_def last_map last_conv_nth)
qed

lemma validate_successor_Ok: "validate_successor h c = Ok () \<longleftrightarrow> supersedes (cm_metadata c) (latest_metadata h)"
  by (auto simp: validate_successor_def supersedes_def Let_def)

lemma last_eight_snoc:
  "length xs \<le> 8 \<Longrightarrow> last_eight (xs @ [x]) = (if length xs < 8 then xs @ [x] else tl xs @ [x])"
proof -
  assume le: "length xs \<le> 8"
  show ?thesis
  proof (cases "length xs = 8")
    case True
    then obtain y ys where "xs = y # ys" by (cases xs) auto
    with True show ?thesis by (simp add: last_eight_def)
  qed (use le in \<open>simp add: last_eight_def\<close>)
qed

lemma last_eight_absorb: "last_eight (last_eight xs @ ys) = last_eight (xs @ ys)"
proof (cases "length xs \<le> 8")
  case True
  then show ?thesis by (simp add: last_eight_def)
next
  case False
  then show ?thesis by (simp add: last_eight_def add.commute)
qed

text \<open>Publication refines appending to the list and keeping its last eight elements.\<close>

lemma record_checkpoint_Ok:
  assumes inv: "history_inv h" and ok: "record_checkpoint c h = Ok (ev, h')"
  shows "retained h' = last_eight (retained h @ [c])"
    "ev = (if length (retained h) < 8 then None else Some (hd (retained h)))"
    "rh_baseline h' = rh_baseline h" "rh_cfc h' = rh_cfc h"
    "cm_cfc c = rh_cfc h" "supersedes (cm_metadata c) (latest_metadata h)"
    "ring_wf 8 (rh_checkpoints h') (rh_oldest h') (rh_len h')"
proof -
  have wf: "ring_wf 8 (rh_checkpoints h) (rh_oldest h) (rh_len h)" using inv by (simp add: history_inv_def)
  then have le: "rh_len h \<le> 8" by (simp add: ring_wf_def)
  have valid: "cm_cfc c = rh_cfc h" "validate_successor h c = Ok ()"
    using ok by (auto simp: record_checkpoint_def split: if_splits sum.splits)
  then show "cm_cfc c = rh_cfc h" "supersedes (cm_metadata c) (latest_metadata h)"
    by (simp_all add: validate_successor_Ok)
  have h': "(ev, h') = (if rh_len h < 8
      then (None, h\<lparr>rh_checkpoints := (rh_checkpoints h)[(rh_oldest h + rh_len h) mod 8 := Some c], rh_len := Suc (rh_len h)\<rparr>)
      else (rh_checkpoints h ! rh_oldest h, h\<lparr>rh_checkpoints := (rh_checkpoints h)[rh_oldest h := Some c],
          rh_oldest := Suc (rh_oldest h) mod 8\<rparr>))"
    using ok valid by (auto simp: record_checkpoint_def RECOVERY_CHECKPOINT_CAPACITY_def Let_def split: if_splits)
  have "retained h' = last_eight (retained h @ [c]) \<and>
    ev = (if length (retained h) < 8 then None else Some (hd (retained h))) \<and>
    ring_wf 8 (rh_checkpoints h') (rh_oldest h') (rh_len h')"
  proof (cases "rh_len h < 8")
    case True
    note push = ring_push [OF wf True, of c]
    have "retained h' = retained h @ [c]" using h' True push(2) by (simp add: retained_def)
    then show ?thesis using h' True push(1) last_eight_snoc [of "retained h" c] by (simp add: retained_def)
  next
    case False
    then have full: "rh_len h = 8" using le by simp
    have wf8: "ring_wf 8 (rh_checkpoints h) (rh_oldest h) 8" using wf full by simp
    note repl = ring_replace [OF wf8, of c]
    have "retained h' = tl (retained h) @ [c]" using h' full repl(2) by (simp add: retained_def)
    moreover have "ev = Some (hd (retained h))" using h' full ring_first [OF wf8] by (simp add: retained_def)
    moreover have "ring_wf 8 (rh_checkpoints h') (rh_oldest h') (rh_len h')" using h' full repl(1) by simp
    ultimately show ?thesis using full last_eight_snoc [of "retained h" c] by (simp add: retained_def)
  qed
  then show "retained h' = last_eight (retained h @ [c])"
    "ev = (if length (retained h) < 8 then None else Some (hd (retained h)))"
    "ring_wf 8 (rh_checkpoints h') (rh_oldest h') (rh_len h')" by auto
  show "rh_baseline h' = rh_baseline h" "rh_cfc h' = rh_cfc h" using h' by (auto split: if_splits)
qed

lemma set_last_eight: "set (last_eight xs) \<subseteq> set xs"
  unfolding last_eight_def by (rule set_drop_subset)

lemma sorted_last_eight:
  assumes "sorted_wrt R (b # map f xs)"
  shows "sorted_wrt R (b # map f (last_eight xs))"
proof -
  have "sorted_wrt R (drop (length xs - 8) (map f xs))" using assms by (simp add: sorted_wrt_drop)
  moreover have "\<forall>x\<in>set (last_eight xs). R b (f x)" using assms set_last_eight [of xs] by auto
  ultimately show ?thesis by (simp add: last_eight_def drop_map)
qed

lemma record_checkpoint_inv:
  assumes inv: "history_inv h" and ok: "record_checkpoint c h = Ok (ev, h')"
  shows "history_inv h'"
proof -
  note facts = record_checkpoint_Ok [OF inv ok]
  let ?b = "ib_metadata (rh_baseline h)" and ?R = "\<lambda>old new. supersedes new old"
  have "sorted_wrt ?R (?b # map cm_metadata (retained h))" using inv by (simp add: history_inv_def)
  moreover have "supersedes (cm_metadata c) (last (?b # map cm_metadata (retained h)))"
    using facts(6) latest_is_last [OF inv] by simp
  ultimately have "sorted_wrt ?R (?b # map cm_metadata (retained h @ [c]))"
    using supersedes_last [of "butlast (?b # map cm_metadata (retained h))" "last (?b # map cm_metadata (retained h))"
        "cm_metadata c"] append_butlast_last_id [of "?b # map cm_metadata (retained h)"]
    by (metis append.assoc append_Cons append_Nil list.distinct(1) list.simps(9) map_append list.simps(8))
  then have "sorted_wrt ?R (?b # map cm_metadata (last_eight (retained h @ [c])))"
    by (rule sorted_last_eight)
  moreover have "\<forall>x\<in>set (last_eight (retained h @ [c])). cm_cfc x = rh_cfc h"
    using inv facts(5) set_last_eight [of "retained h @ [c]"] by (auto simp: history_inv_def)
  ultimately show ?thesis using inv facts by (simp add: history_inv_def)
qed

lemma recovery_new_inv: "recovery_new cfc baseline = Ok h \<Longrightarrow> history_inv h \<and> retained h = [] \<and> rh_baseline h = baseline"
  using ring_wf_empty [of 8, where 'a = checkpoint_metadata]
  by (auto simp: recovery_new_def history_inv_def retained_def RECOVERY_CHECKPOINT_CAPACITY_def split: if_splits)

lemma publish_all_refines:
  "history_inv h \<Longrightarrow> publish_all cs h = (acc, h') \<Longrightarrow>
    history_inv h' \<and> retained h' = last_eight (retained h @ acc) \<and>
    rh_baseline h' = rh_baseline h \<and> rh_cfc h' = rh_cfc h \<and>
    sorted_wrt (\<lambda>old new. supersedes new old) (latest_metadata h # map cm_metadata acc)"
proof (induction cs arbitrary: h acc)
  case Nil
  have "length (retained h) \<le> 8" using Nil.prems(1) by (simp add: history_inv_def ring_wf_def retained_def)
  then have "last_eight (retained h) = retained h" by (simp add: last_eight_def)
  with Nil show ?case by simp
next
  case (Cons c cs)
  show ?case
  proof (cases "record_checkpoint c h")
    case (Inl e)
    with Cons show ?thesis by simp
  next
    case (Inr p)
    obtain ev h1 where rc: "record_checkpoint c h = Ok (ev, h1)" using Inr by (cases p) simp
    obtain acc1 where acc: "publish_all cs h1 = (acc1, h')" "acc = c # acc1"
      using Cons.prems(2) rc by (auto split: prod.splits)
    note facts = record_checkpoint_Ok [OF Cons.prems(1) rc]
    have inv1: "history_inv h1" by (rule record_checkpoint_inv [OF Cons.prems(1) rc])
    note ih = Cons.IH [OF inv1 acc(1)]
    have "retained h' = last_eight (retained h @ acc)"
      using ih facts(1) acc(2) last_eight_absorb [of "retained h @ [c]" acc1] by simp
    moreover have "retained h1 \<noteq> []" "last (retained h1) = c"
      using facts(1) by (auto simp: last_eight_def)
    then have "latest_metadata h1 = cm_metadata c"
      using latest_is_last [OF inv1] by (simp add: last_map)
    then have "sorted_wrt (\<lambda>old new. supersedes new old) (latest_metadata h # map cm_metadata acc)"
      using ih facts(6) acc(2) by (auto intro: supersedes_trans)
    ultimately show ?thesis using ih facts by simp
  qed
qed

lemma publish_all_length: "publish_all cs h = (acc, h') \<Longrightarrow> length acc \<le> length cs"
proof (induction cs arbitrary: h acc)
  case (Cons c cs)
  show ?case
  proof (cases "record_checkpoint c h")
    case (Inl e)
    with Cons show ?thesis by (simp add: le_SucI)
  next
    case (Inr p)
    then obtain ev h1 where "record_checkpoint c h = Ok (ev, h1)" by (cases p) simp
    with Cons.prems obtain acc1 where acc: "publish_all cs h1 = (acc1, h')" "acc = c # acc1"
      by (auto split: prod.splits)
    show ?thesis using Cons.IH [OF acc(1)] acc(2) by simp
  qed
qed simp

lemma record_batch_publish:
  "record_batch cs h = Ok h' \<longleftrightarrow> publish_all cs h = (cs, h')"
proof (induction cs arbitrary: h)
  case (Cons c cs)
  show ?case
  proof (cases "record_checkpoint c h")
    case (Inl e)
    have "publish_all cs h \<noteq> (c # cs, h')" using publish_all_length [of cs h "c # cs" h'] by auto
    with Inl show ?thesis by simp
  next
    case (Inr p)
    then obtain ev h1 where "record_checkpoint c h = Ok (ev, h1)" by (cases p) simp
    then show ?thesis using Cons.IH [of h1] by (simp split: prod.split)
  qed
qed simp

lemma select_checkpoint:
  assumes "history_inv h"
  shows "select_restore h (TargetCheckpoint i) =
    (case find (\<lambda>c. m_state_id (cm_metadata c) = i) (retained h) of
      None \<Rightarrow> Err CheckpointNotFound
    | Some c \<Rightarrow> Ok \<lparr>rs_cfc = rh_cfc h, rs_source = SourceCheckpoint, rs_metadata = cm_metadata c\<rparr>)"
proof -
  let ?P = "\<lambda>c. m_state_id (cm_metadata c) = i"
  have set: "set (flatten (rh_checkpoints h)) = set (retained h)"
    unfolding retained_def by (rule ring_set [of 8]) (use assms in \<open>simp add: history_inv_def\<close>)
  have "sorted_wrt (\<lambda>a b. supersedes b a) (map cm_metadata (retained h))"
    using assms by (simp add: history_inv_def)
  then have "sorted_wrt (<) (map (\<lambda>c. m_state_id (cm_metadata c)) (retained h))"
    unfolding sorted_wrt_map by (rule sorted_wrt_mono_rel [rotated]) (simp add: supersedes_def)
  then have "distinct (map (\<lambda>c. m_state_id (cm_metadata c)) (retained h))"
    by (simp add: strict_sorted_iff)
  then have uniq: "a = b" if "a \<in> set (retained h)" "b \<in> set (retained h)" "?P a" "?P b" for a b
    using that by (auto simp: distinct_map dest: inj_onD)
  have "find ?P (flatten (rh_checkpoints h)) = find ?P (retained h)"
    by (rule find_set_unique [OF set uniq])
  then show ?thesis by (simp add: select_restore_def)
qed

section \<open>Properties\<close>

text \<open>
  C18: the recovery ring is exactly the last eight accepted checkpoints. Whatever checkpoints are
  offered to a fresh history, the accepted ones supersede each other and the installation baseline; the ring retains,
  oldest first, the last eight of them; the baseline is untouched; and \<^verbatim>\<open>select_restore\<close> finds
  precisely the retained states.
\<close>

theorem recovery_keeps_last_eight:
  assumes "recovery_new cfc baseline = Ok h0" and "publish_all cs h0 = (acc, h)"
  shows "retained h = last_eight acc \<and> rh_baseline h = baseline \<and>
    sorted_wrt (\<lambda>old new. supersedes new old) (ib_metadata baseline # map cm_metadata acc) \<and>
    (is_ok (select_restore h (TargetCheckpoint i)) \<longleftrightarrow>
      i \<in> (\<lambda>c. m_state_id (cm_metadata c)) ` set (last_eight acc))"
proof -
  have inv0: "history_inv h0" "retained h0 = []" "rh_baseline h0 = baseline"
    using recovery_new_inv [OF assms(1)] by auto
  have inv: "history_inv h" and ret: "retained h = last_eight acc" and base: "rh_baseline h = baseline"
    and sorted: "sorted_wrt (\<lambda>old new. supersedes new old) (latest_metadata h0 # map cm_metadata acc)"
    using publish_all_refines [OF inv0(1) assms(2)] inv0 by auto
  have "latest_metadata h0 = ib_metadata baseline"
    using latest_is_last [OF inv0(1)] inv0 by simp
  moreover have "is_ok (select_restore h (TargetCheckpoint i)) \<longleftrightarrow>
      i \<in> (\<lambda>c. m_state_id (cm_metadata c)) ` set (retained h)"
  proof (cases "find (\<lambda>c. m_state_id (cm_metadata c) = i) (retained h)")
    case None
    then have "\<forall>c\<in>set (retained h). m_state_id (cm_metadata c) \<noteq> i" by (auto simp: find_None_iff)
    then show ?thesis using None by (auto simp: select_checkpoint [OF inv])
  next
    case (Some c)
    then show ?thesis using find_SomeD [OF Some] by (auto simp: select_checkpoint [OF inv])
  qed
  ultimately show ?thesis using ret base sorted by simp
qed

text \<open>
  a batch is all or nothing. \<^verbatim>\<open>record_batch\<close> succeeds exactly when every checkpoint of the batch would be
  accepted in turn, and then gives the history those publications give; otherwise no history is produced.
\<close>

theorem batch_is_atomic:
  "(case record_batch cs h of
     Ok h' \<Rightarrow> publish_all cs h = (cs, h')
   | Err e \<Rightarrow> fst (publish_all cs h) \<noteq> cs)"
proof (cases "record_batch cs h")
  case (Inl e)
  have "fst (publish_all cs h) \<noteq> cs"
  proof
    assume "fst (publish_all cs h) = cs"
    then have "publish_all cs h = (cs, snd (publish_all cs h))" by (metis prod.collapse)
    then have "record_batch cs h = Ok (snd (publish_all cs h))" unfolding record_batch_publish .
    with Inl show False by simp
  qed
  with Inl show ?thesis by simp
next
  case (Inr h')
  then have "publish_all cs h = (cs, h')" unfolding record_batch_publish .
  with Inr show ?thesis by simp
qed

subsection \<open>The catalog\<close>

inductive recovery_step :: "recovery_catalog \<Rightarrow> recovery_catalog \<Rightarrow> bool" where
  step_install: "install cfc baseline cat = Ok cat' \<Longrightarrow> recovery_step cat cat'"
| step_record: "catalog_record_checkpoint cfc c cat = Ok (ev, cat') \<Longrightarrow> recovery_step cat cat'"

definition recovery_catalog_inv :: "recovery_catalog \<Rightarrow> bool" where
  "recovery_catalog_inv cat \<longleftrightarrow> length cat = MAX_RECOVERY_CFCS \<and> distinct (map rh_cfc (flatten cat)) \<and>
     (\<forall>h\<in>set (flatten cat). history_inv h)"

interpretation recovery_table: keyed_table flatten fill_slot
  "\<lambda>t. length t = MAX_RECOVERY_CFCS" MAX_RECOVERY_CFCS rh_cfc
  by (rule slots_keyed_table)

lemma recovery_Some:
  assumes "recovery_catalog_inv cat"
  shows "recovery cat cfc = Some h \<longleftrightarrow> h \<in> set (flatten cat) \<and> rh_cfc h = cfc"
proof
  show "recovery cat cfc = Some h \<Longrightarrow> h \<in> set (flatten cat) \<and> rh_cfc h = cfc"
    unfolding recovery_def by (rule find_SomeD)
  show "recovery cat cfc = Some h" if "h \<in> set (flatten cat) \<and> rh_cfc h = cfc"
    using that recovery_table.find_key [of cat h] assms by (simp add: recovery_def recovery_catalog_inv_def)
qed

lemma install_Ok:
  assumes "install cfc baseline cat = Ok cat'"
  obtains h where "recovery_new cfc baseline = Ok h" "fill_slot h cat = Some cat'" "recovery cat cfc = None"
    "rh_cfc h = cfc"
  using assms by (auto simp: install_def recovery_new_def split: if_splits sum.splits option.splits)

lemma catalog_record_Ok:
  assumes inv: "recovery_catalog_inv cat" and ok: "catalog_record_checkpoint cfc c cat = Ok (ev, cat')"
  obtains h h' where "recovery cat cfc = Some h" "record_checkpoint c h = Ok (ev, h')" "rh_cfc h' = cfc"
    "flatten cat' = map (\<lambda>x. if rh_cfc x = cfc then h' else x) (flatten cat)" "length cat' = length cat"
proof -
  obtain h h' where h: "recovery cat cfc = Some h" "record_checkpoint c h = Ok (ev, h')"
    and cat': "cat' = update_first (\<lambda>h. rh_cfc h = cfc) (\<lambda>_. h') cat"
    using ok by (auto simp: catalog_record_checkpoint_def split: option.splits sum.splits)
  have "h \<in> set (flatten cat)" "rh_cfc h = cfc" using h(1) recovery_Some [OF inv] by simp_all
  moreover from this have "history_inv h" using inv by (simp add: recovery_catalog_inv_def)
  ultimately have "rh_cfc h' = cfc" using record_checkpoint_Ok(4) h(2) by metis
  moreover have "flatten cat' = map (\<lambda>x. if rh_cfc x = cfc then h' else x) (flatten cat)"
    unfolding cat' by (rule update_first_key) (use inv in \<open>simp add: recovery_catalog_inv_def\<close>)
  ultimately show thesis using h that by (simp add: cat')
qed

lemma recovery_step_inv:
  assumes inv: "recovery_catalog_inv cat" and "recovery_step cat cat'"
  shows "recovery_catalog_inv cat'"
  using assms(2)
proof cases
  case (step_install cfc baseline)
  then obtain h where h: "recovery_new cfc baseline = Ok h" "fill_slot h cat = Some cat'"
    "recovery cat cfc = None" "rh_cfc h = cfc" by (rule install_Ok)
  have "rh_cfc h \<notin> rh_cfc ` set (flatten cat)" using h(3,4) by (auto simp: recovery_def find_None_iff)
  then have "distinct (map rh_cfc (flatten cat'))"
    using recovery_table.publish_distinct [OF _ _ _ h(2)] inv by (simp add: recovery_catalog_inv_def)
  then show ?thesis
    using inv fill_slot_set [OF h(2)] fill_slot_length [OF h(2)] recovery_new_inv [OF h(1)]
    by (simp add: recovery_catalog_inv_def)
next
  case (step_record cfc c ev)
  obtain h h' where h: "recovery cat cfc = Some h" "record_checkpoint c h = Ok (ev, h')" "rh_cfc h' = cfc"
    "flatten cat' = map (\<lambda>x. if rh_cfc x = cfc then h' else x) (flatten cat)" "length cat' = length cat"
    by (rule catalog_record_Ok [OF inv step_record])
  have "map rh_cfc (flatten cat') = map rh_cfc (flatten cat)" using h(3,4) by simp
  moreover have "history_inv h" using h(1) recovery_Some [OF inv] inv by (simp add: recovery_catalog_inv_def)
  then have "history_inv h'" using record_checkpoint_inv h(2) by metis
  then have "\<forall>x\<in>set (flatten cat'). history_inv x" using inv h(4) by (auto simp: recovery_catalog_inv_def)
  ultimately show ?thesis using inv h(5) unfolding recovery_catalog_inv_def by metis
qed

interpretation recovery_system: invariant_system
  "\<lambda>cat. cat = recovery_catalog_new" recovery_step recovery_catalog_inv
proof unfold_locales
  fix cat cat'
  show "cat = recovery_catalog_new \<Longrightarrow> recovery_catalog_inv cat"
    by (simp add: recovery_catalog_new_def recovery_catalog_inv_def)
  show "recovery_catalog_inv cat \<Longrightarrow> recovery_step cat cat' \<Longrightarrow> recovery_catalog_inv cat'"
    by (rule recovery_step_inv)
qed

text \<open>
  recovery histories are isolated. Publishing a checkpoint for one CFC of a reachable catalog
  replaces exactly that CFC's history by the one the publication gives, and no other CFC's history,
  baseline or restore choice changes.
\<close>

theorem recovery_isolated:
  assumes "reachable (\<lambda>cat. cat = recovery_catalog_new) recovery_step cat"
    and "catalog_record_checkpoint cfc c cat = Ok (ev, cat')"
  shows "(\<exists>h h'. recovery cat cfc = Some h \<and> record_checkpoint c h = Ok (ev, h') \<and> recovery cat' cfc = Some h') \<and>
    (\<forall>other. other \<noteq> cfc \<longrightarrow> recovery cat' other = recovery cat other \<and>
      (\<forall>t. catalog_select_restore cat' other t = catalog_select_restore cat other t))"
proof -
  have inv: "recovery_catalog_inv cat" using assms(1) by (rule recovery_system.reachable_inv)
  then have inv': "recovery_catalog_inv cat'" using step_record [OF assms(2)] by (rule recovery_step_inv)
  obtain h h' where h: "recovery cat cfc = Some h" "record_checkpoint c h = Ok (ev, h')" "rh_cfc h' = cfc"
    "flatten cat' = map (\<lambda>x. if rh_cfc x = cfc then h' else x) (flatten cat)" "length cat' = length cat"
    by (rule catalog_record_Ok [OF inv assms(2)])
  have "h \<in> set (flatten cat)" "rh_cfc h = cfc" using h(1) recovery_Some [OF inv] by auto
  then have "h' \<in> set (flatten cat')" using h(4) by force
  then have "recovery cat' cfc = Some h'" using h(3) recovery_Some [OF inv'] by simp
  moreover have "recovery cat' other = recovery cat other" if "other \<noteq> cfc" for other
  proof -
    have "x \<in> set (flatten cat') \<longleftrightarrow> x \<in> set (flatten cat)" if "rh_cfc x = other" for x
      using that \<open>other \<noteq> cfc\<close> h(3,4) by auto
    then have "recovery cat' other = Some x \<longleftrightarrow> recovery cat other = Some x" for x
      unfolding recovery_Some [OF inv] recovery_Some [OF inv'] by metis
    then show ?thesis by (metis option.exhaust)
  qed
  ultimately show ?thesis using h by (simp add: catalog_select_restore_def)
qed

text \<open>A history with a baseline and nine offered checkpoints, and a catalog that holds it.\<close>

definition demo_checkpoint :: "u64 \<Rightarrow> checkpoint_metadata" where
  "demo_checkpoint i = \<lparr>cm_cfc = cfc_from_u128 1,
     cm_metadata = \<lparr>m_state_id = i, m_expfs_sequence = 1, m_form_graph_revision = 1\<rparr>\<rparr>"

definition demo_baseline :: installation_baseline where
  "demo_baseline = \<lparr>ib_cfc = cfc_from_u128 1,
     ib_metadata = \<lparr>m_state_id = 1, m_expfs_sequence = 1, m_form_graph_revision = 1\<rparr>\<rparr>"

definition demo_history :: cfc_recovery where
  "demo_history = projr (recovery_new (cfc_from_u128 1) demo_baseline)"

lemma demo_history_new: "recovery_new (cfc_from_u128 1) demo_baseline = Ok demo_history"
  unfolding demo_history_def by (rule sum.collapse(2) [symmetric]) code_simp

definition demo_run :: "checkpoint_metadata list \<times> cfc_recovery" where
  "demo_run = publish_all [demo_checkpoint 2, demo_checkpoint 2, demo_checkpoint 3] demo_history"

theorem recovery_keeps_last_eight_witness:
  "is_ok (select_restore (snd demo_run) (TargetCheckpoint 3)) \<and>
    \<not> is_ok (select_restore (snd demo_run) (TargetCheckpoint 4))"
proof -
  have ids: "map (\<lambda>c. m_state_id (cm_metadata c)) (last_eight (fst demo_run)) = [2, 3]" by code_simp
  have "(\<lambda>c. m_state_id (cm_metadata c)) ` set (last_eight (fst demo_run)) = set [2, 3]"
    unfolding ids [symmetric] by (simp only: set_map)
  moreover have "publish_all [demo_checkpoint 2, demo_checkpoint 2, demo_checkpoint 3] demo_history =
      (fst demo_run, snd demo_run)" by (simp add: demo_run_def)
  note recovery_keeps_last_eight [OF demo_history_new this, of 3] recovery_keeps_last_eight [OF demo_history_new this, of 4]
  ultimately show ?thesis by simp
qed

definition demo_catalog :: recovery_catalog where
  "demo_catalog = projr (install (cfc_from_u128 1) demo_baseline recovery_catalog_new)"

lemma demo_catalog_reachable: "reachable (\<lambda>cat. cat = recovery_catalog_new) recovery_step demo_catalog"
proof (rule reachable_run, rule r_into_rtranclp, rule step_install)
  show "install (cfc_from_u128 1) demo_baseline recovery_catalog_new = Ok demo_catalog"
    unfolding demo_catalog_def by (rule sum.collapse(2) [symmetric]) code_simp
qed

theorem recovery_isolated_witness:
  "\<exists>ev cat'. catalog_record_checkpoint (cfc_from_u128 1) (demo_checkpoint 2) demo_catalog = Ok (ev, cat') \<and>
    recovery cat' (cfc_from_u128 2) = recovery demo_catalog (cfc_from_u128 2) \<and> recovery cat' (cfc_from_u128 1) \<noteq> None"
proof -
  have "\<not> isl (catalog_record_checkpoint (cfc_from_u128 1) (demo_checkpoint 2) demo_catalog)" by code_simp
  then obtain ev cat' where ok: "catalog_record_checkpoint (cfc_from_u128 1) (demo_checkpoint 2) demo_catalog = Ok (ev, cat')"
    by (rule ok_pair)
  have "cfc_from_u128 2 \<noteq> cfc_from_u128 1" by simp
  then show ?thesis using recovery_isolated [OF demo_catalog_reachable ok] ok by auto
qed

end
