(* ===== verification/Bytes.thy ===== *)
theory Bytes
  imports Prelude
begin

text \<open>
  Byte buffers: slices of lists, \<^verbatim>\<open>copy_from_slice\<close> as \<open>overwrite\<close>, and lists of equally long
  pieces read and written as one buffer.
\<close>

section \<open>Slices\<close>

definition slice :: "nat \<Rightarrow> nat \<Rightarrow> 'a list \<Rightarrow> 'a list" where
  "slice from n xs = take n (drop from xs)"

text \<open>\<^verbatim>\<open>buffer[at..at + n].copy_from_slice(data)\<close> with \<open>n\<close> the length of the data.\<close>

definition overwrite :: "'a list \<Rightarrow> nat \<Rightarrow> 'a list \<Rightarrow> 'a list" where
  "overwrite xs at ys = take at xs @ ys @ drop (at + length ys) xs"

text \<open>\<^verbatim>\<open>div_ceil\<close>, and \<^verbatim>\<open>Vec::resize_with\<close> a constant.\<close>

definition div_ceil :: "nat \<Rightarrow> nat \<Rightarrow> nat" where
  "div_ceil a b = (a + b - 1) div b"

definition resize :: "nat \<Rightarrow> 'a \<Rightarrow> 'a list \<Rightarrow> 'a list" where
  "resize n x xs = take n xs @ replicate (n - length xs) x"

lemma length_slice [simp]: "length (slice i n xs) = min n (length xs - i)"
  by (simp add: slice_def min.commute)

lemma length_overwrite [simp]: "at + length ys \<le> length xs \<Longrightarrow> length (overwrite xs at ys) = length xs"
  by (simp add: overwrite_def)

lemma length_resize [simp]: "length (resize n x xs) = n"
  by (simp add: resize_def)

lemma nth_slice: "j < n \<Longrightarrow> i + j < length xs \<Longrightarrow> slice i n xs ! j = xs ! (i + j)"
  by (simp add: slice_def)

lemma nth_overwrite:
  assumes "at + length ys \<le> length xs" and "j < length xs"
  shows "overwrite xs at ys ! j = (if j < at then xs ! j else if j < at + length ys then ys ! (j - at) else xs ! j)"
  using assms by (auto simp: overwrite_def nth_append not_less intro!: arg_cong [of _ _ "(!) xs"])

lemma overwrite_nil [simp]: "overwrite xs at [] = xs"
  by (simp add: overwrite_def)

lemma overwrite_append:
  assumes "at + length ys + length zs \<le> length xs"
  shows "overwrite (overwrite xs at ys) (at + length ys) zs = overwrite xs at (ys @ zs)"
proof -
  have "drop at xs = slice at (length ys) xs @ drop (at + length ys) xs"
    by (metis append_take_drop_id drop_drop add.commute slice_def)
  moreover have "length (take at xs) = at" using assms by simp
  ultimately show ?thesis using assms by (simp add: overwrite_def ac_simps)
qed

lemma slice_split: "m \<le> n \<Longrightarrow> slice i n xs = slice i m xs @ slice (i + m) (n - m) xs"
  using take_add [of m "n - m" "drop i xs"] by (simp add: slice_def add.commute)

lemma slice_append: "i + n \<le> length xs \<Longrightarrow> slice i n (xs @ ys) = slice i n xs"
  by (simp add: slice_def)

lemma slice_overwrite_other:
  assumes "at + length ys \<le> length xs" and "i + n \<le> at \<or> at + length ys \<le> i"
  shows "slice i n (overwrite xs at ys) = slice i n xs"
  using assms by (auto simp: slice_def overwrite_def drop_take min_def add.commute)

lemma slice_overwrite_same: "at + length ys \<le> length xs \<Longrightarrow> slice at (length ys) (overwrite xs at ys) = ys"
  by (simp add: slice_def overwrite_def)

lemma div_ceil_le: "0 < b \<Longrightarrow> div_ceil a b \<le> n \<longleftrightarrow> a \<le> n * b"
proof -
  assume b: "0 < b"
  have "div_ceil a b \<le> n \<longleftrightarrow> (a + b - 1) div b < Suc n" by (simp add: div_ceil_def less_Suc_eq_le)
  also have "\<dots> \<longleftrightarrow> a + b - 1 < Suc n * b" using b by (simp only: div_less_iff_less_mult)
  also have "\<dots> \<longleftrightarrow> a \<le> n * b" using b by (simp add: algebra_simps) arith
  finally show ?thesis .
qed

lemma div_ceil_ge: "0 < b \<Longrightarrow> a \<le> div_ceil a b * b"
  using div_ceil_le [of b a "div_ceil a b"] by simp

section \<open>Searching\<close>

text \<open>\<^verbatim>\<open>windows(n).position(..)\<close>: the index of the first occurrence of a non-empty pattern.\<close>

fun find_sub :: "'a list \<Rightarrow> 'a list \<Rightarrow> nat option" where
  "find_sub pat [] = None"
| "find_sub pat (x # xs) = (if take (length pat) (x # xs) = pat then Some 0 else map_option Suc (find_sub pat xs))"

lemma find_sub_Some: "find_sub pat xs = Some i \<Longrightarrow> i < length xs \<and> take (length pat) (drop i xs) = pat"
proof (induction pat xs arbitrary: i rule: find_sub.induct)
  case (2 pat x xs)
  then show ?case by (cases i) (auto split: if_splits)
qed simp

lemma find_sub_bound: "find_sub pat xs = Some i \<Longrightarrow> i + length pat \<le> length xs"
  by (drule find_sub_Some) (auto dest: arg_cong [where f = length] simp: min_def split: if_splits)

lemma find_sub_skip:
  "pat \<noteq> [] \<Longrightarrow> hd pat \<notin> set xs \<Longrightarrow> find_sub pat (xs @ pat @ ys) = Some (length xs)"
proof (induction xs)
  case Nil
  then show ?case by (cases pat) simp_all
next
  case (Cons x xs)
  then show ?case by (cases pat) auto
qed

section \<open>Equally long pieces\<close>

definition uniform_pieces :: "nat \<Rightarrow> 'a list list \<Rightarrow> bool" where
  "uniform_pieces c cs \<longleftrightarrow> (\<forall>x\<in>set cs. length x = c)"

lemma length_pieces: "uniform_pieces c cs \<Longrightarrow> length (concat cs) = length cs * c"
  by (induction cs) (auto simp: uniform_pieces_def)

lemma nth_pieces:
  assumes "uniform_pieces c cs" and "p < length cs * c"
  shows "concat cs ! p = cs ! (p div c) ! (p mod c)"
  using assms
proof (induction cs arbitrary: p)
  case (Cons x cs)
  have c: "length x = c" "uniform_pieces c cs" using Cons.prems(1) by (auto simp: uniform_pieces_def)
  show ?case
  proof (cases "p < c")
    case True
    then show ?thesis using c by (simp add: nth_append)
  next
    case False
    then have "0 < c" "p - c < length cs * c" using Cons.prems(2) by (auto intro: gr0I)
    moreover have "p div c = Suc ((p - c) div c)" "p mod c = (p - c) mod c"
      using False \<open>0 < c\<close> by (simp_all add: le_div_geq le_mod_geq)
    ultimately show ?thesis using Cons.IH [OF c(2)] c False by (simp add: nth_append)
  qed
qed simp

lemma piece_position:
  fixes c :: nat
  assumes "p mod c + j < c"
  shows "(p + j) div c = p div c" "(p + j) mod c = p mod c + j"
proof -
  obtain q r where q: "p div c = q" "p mod c = r" "p = q * c + r" by (metis div_mult_mod_eq)
  have c: "c \<noteq> 0" "r + j < c" using assms q(2) by auto
  have e: "p + j = (r + j) + q * c" using q(3) by simp
  have "(p + j) div c = q" "(p + j) mod c = r + j" unfolding e using c by simp_all
  then show "(p + j) div c = p div c" "(p + j) mod c = p mod c + j" using q(1,2) by simp_all
qed

lemma piece_fits:
  fixes c :: nat
  assumes "p div c < k" and "p mod c + n \<le> c"
  shows "p + n \<le> k * c"
proof -
  obtain q r where q: "p div c = q" "p mod c = r" "p = q * c + r" by (metis div_mult_mod_eq)
  have "Suc q * c \<le> k * c" using assms(1) q(1) by (intro mult_le_mono1) simp
  then show ?thesis using assms(2) q(2,3) by simp
qed

text \<open>A part of one piece is a part of the buffer.\<close>

lemma slice_pieces:
  assumes u: "uniform_pieces c cs" and p: "p div c < length cs" and n: "p mod c + n \<le> c"
  shows "slice (p mod c) n (cs ! (p div c)) = slice p n (concat cs)"
proof (rule nth_equalityI)
  have x: "length (cs ! (p div c)) = c" using u p by (auto simp: uniform_pieces_def)
  have len: "length (concat cs) = length cs * c" by (rule length_pieces [OF u])
  have fit: "p + n \<le> length cs * c" by (rule piece_fits [OF p n])
  show "length (slice (p mod c) n (cs ! (p div c))) = length (slice p n (concat cs))"
    using x len fit n by simp
  fix j assume "j < length (slice (p mod c) n (cs ! (p div c)))"
  then have j: "j < n" by simp
  have "p mod c + j < c" using j n by simp
  note pos = piece_position [OF this]
  have "p + j < length cs * c" using fit j by simp
  from nth_pieces [OF u this] pos have "concat cs ! (p + j) = cs ! (p div c) ! (p mod c + j)" by simp
  then show "slice (p mod c) n (cs ! (p div c)) ! j = slice p n (concat cs) ! j"
    using j n x len fit by (simp add: nth_slice)
qed

text \<open>Writing a part of one piece writes the part of the buffer.\<close>

lemma overwrite_pieces:
  assumes u: "uniform_pieces c cs" and p: "p div c < length cs" and n: "p mod c + length ys \<le> c"
  defines "cs' \<equiv> cs[p div c := overwrite (cs ! (p div c)) (p mod c) ys]"
  shows "uniform_pieces c cs'" "concat cs' = overwrite (concat cs) p ys"
proof -
  have x: "length (cs ! (p div c)) = c" using u p by (auto simp: uniform_pieces_def)
  show u': "uniform_pieces c cs'"
    using u x n unfolding uniform_pieces_def cs'_def by (auto dest!: set_update_subset_insert [THEN subsetD])
  have len: "length (concat cs) = length cs * c" "length (concat cs') = length cs * c"
    using length_pieces [OF u] length_pieces [OF u'] by (simp_all add: cs'_def)
  have fit: "p + length ys \<le> length cs * c" by (rule piece_fits [OF p n])
  obtain q r where q: "p div c = q" "p mod c = r" "p = q * c + r" by (metis div_mult_mod_eq)
  show "concat cs' = overwrite (concat cs) p ys"
  proof (rule nth_equalityI)
    show "length (concat cs') = length (overwrite (concat cs) p ys)" using len fit by simp
    fix j assume "j < length (concat cs')"
    then have j: "j < length cs * c" using len by simp
    then have c: "0 < c" by (auto intro: gr0I)
    have at: "concat cs' ! j = cs' ! (j div c) ! (j mod c)"
      using nth_pieces [OF u'] j by (simp add: cs'_def)
    have old: "concat cs ! j = cs ! (j div c) ! (j mod c)" by (rule nth_pieces [OF u j])
    have jdiv: "j div c < length cs" using j by (simp add: less_mult_imp_div_less)
    show "concat cs' ! j = overwrite (concat cs) p ys ! j"
    proof (cases "j div c = p div c")
      case True
      obtain s where s: "j mod c = s" "j = q * c + s" using True q(1) by (metis div_mult_mod_eq)
      have "concat cs' ! j = overwrite (cs ! (p div c)) (p mod c) ys ! (j mod c)"
        using at True p by (simp add: cs'_def)
      moreover have "j mod c < p mod c \<longleftrightarrow> j < p" "j mod c - p mod c = j - p"
        "j mod c < p mod c + length ys \<longleftrightarrow> j < p + length ys"
        unfolding q(2) s(1) using s(2) q(3) by simp_all
      moreover have "j mod c < c" using c by simp
      ultimately show ?thesis using old True x n fit len j by (simp add: nth_overwrite)
    next
      case False
      then have "concat cs' ! j = concat cs ! j" using at old by (simp add: cs'_def)
      moreover have "\<not> (p \<le> j \<and> j < p + length ys)"
      proof
        assume r: "p \<le> j \<and> j < p + length ys"
        then have "p mod c + (j - p) < c" using n by linarith
        from piece_position(1) [OF this] r False show False by simp
      qed
      ultimately show ?thesis using fit len j by (auto simp: nth_overwrite)
    qed
  qed
qed

end
