(* ===== verification/Blob.thy ===== *)
theory Blob
  imports Identity Slots Bytes
begin

text \<open>
  Chunked content (\<^verbatim>\<open>blob.rs\<close>). A blob keeps its bytes in 4 KiB chunks and its length apart; the CFC
  store publishes whole replacements under per-Form and per-CFC quotas. An index past the allocated
  chunks panics, which is \<open>None\<close>. The lemmas read a blob as one byte buffer; the store's
  commit is shown to be atomic and to keep the quotas.
\<close>

section \<open>Model\<close>

definition BLOB_CHUNK_BYTES :: nat where
  "BLOB_CHUNK_BYTES = 4096"

definition DEFAULT_FORM_BLOB_QUOTA :: nat where
  "DEFAULT_FORM_BLOB_QUOTA = 32 * 1024"

definition DEFAULT_CFC_BLOB_QUOTA :: nat where
  "DEFAULT_CFC_BLOB_QUOTA = 48 * 1024"

record blob_quota =
  bq_per_form_bytes :: nat
  bq_cfc_bytes :: nat

definition blob_quota_default :: blob_quota where
  "blob_quota_default = \<lparr>bq_per_form_bytes = DEFAULT_FORM_BLOB_QUOTA, bq_cfc_bytes = DEFAULT_CFC_BLOB_QUOTA\<rparr>"

record chunked_blob =
  bl_chunks :: "u8 list list"
  bl_len :: nat

definition blob_new :: chunked_blob where
  "blob_new = \<lparr>bl_chunks = [], bl_len = 0\<rparr>"

definition zero_chunk :: "u8 list" where
  "zero_chunk = replicate BLOB_CHUNK_BYTES 0"

definition allocated_bytes :: "chunked_blob \<Rightarrow> nat" where
  "allocated_bytes b = length (bl_chunks b) * BLOB_CHUNK_BYTES"

definition replace_chunk :: "u8 list \<Rightarrow> nat \<Rightarrow> u8 list \<Rightarrow> u8 list" where
  "replace_chunk bytes index chunk =
     (let start = index * BLOB_CHUNK_BYTES;
          stop = min (start + BLOB_CHUNK_BYTES) (length bytes);
          cleared = replicate (length chunk) 0
      in if start < stop then overwrite cleared 0 (slice start (stop - start) bytes) else cleared)"

definition blob_replace :: "u8 list \<Rightarrow> chunked_blob \<Rightarrow> chunked_blob" where
  "blob_replace bytes b =
     (let required = div_ceil (length bytes) BLOB_CHUNK_BYTES;
          chunks = resize required zero_chunk (bl_chunks b)
      in \<lparr>bl_chunks = map (\<lambda>(index, chunk). replace_chunk bytes index chunk) (enumerate 0 chunks),
          bl_len = length bytes\<rparr>)"

definition from_bytes :: "u8 list \<Rightarrow> chunked_blob" where
  "from_bytes bytes = blob_replace bytes blob_new"

text \<open>The copying loops of \<^verbatim>\<open>read\<close> and \<^verbatim>\<open>write\<close>; both advance by at least one byte.\<close>

function read_loop :: "u8 list list \<Rightarrow> nat \<Rightarrow> nat \<Rightarrow> nat \<Rightarrow> u8 list \<Rightarrow> (nat \<times> u8 list) option" where
  "read_loop chunks offset cnt copied out =
     (if copied < cnt then
        let position = offset + copied;
            chunk = position div BLOB_CHUNK_BYTES;
            within = position mod BLOB_CHUNK_BYTES;
            n = min (BLOB_CHUNK_BYTES - within) (cnt - copied)
        in if chunk < length chunks
           then read_loop chunks offset cnt (copied + n) (overwrite out copied (slice within n (chunks ! chunk)))
           else None
      else Some (copied, out))"
  by pat_completeness auto
termination
  by (relation "measure (\<lambda>(_, _, cnt, copied, _). cnt - copied)") (auto simp: BLOB_CHUNK_BYTES_def)

definition blob_read :: "chunked_blob \<Rightarrow> nat \<Rightarrow> u8 list \<Rightarrow> (nat \<times> u8 list) option" where
  "blob_read b offset out =
     (if offset \<ge> bl_len b \<or> out = [] then Some (0, out)
      else read_loop (bl_chunks b) offset (min (length out) (bl_len b - offset)) 0 out)"

datatype blob_error =
    WrongCfc
  | InvalidForm
  | DuplicateForm
  | StaleRevision
  | FormQuotaExceeded
  | CfcQuotaExceeded
  | EmptyTransaction
  | LengthOverflow
  | NotFound

function write_loop :: "u8 list list \<Rightarrow> nat \<Rightarrow> u8 list \<Rightarrow> nat \<Rightarrow> u8 list list option" where
  "write_loop chunks offset bytes copied =
     (if copied < length bytes then
        let position = offset + copied;
            chunk = position div BLOB_CHUNK_BYTES;
            within = position mod BLOB_CHUNK_BYTES;
            n = min (BLOB_CHUNK_BYTES - within) (length bytes - copied)
        in if chunk < length chunks
           then write_loop (chunks[chunk := overwrite (chunks ! chunk) within (slice copied n bytes)])
             offset bytes (copied + n)
           else None
      else Some chunks)"
  by pat_completeness auto
termination
  by (relation "measure (\<lambda>(_, _, bytes, copied). length bytes - copied)") (auto simp: BLOB_CHUNK_BYTES_def)

declare read_loop.simps [simp del] write_loop.simps [simp del]

definition blob_write :: "nat \<Rightarrow> u8 list \<Rightarrow> chunked_blob \<Rightarrow> (blob_error, chunked_blob) result option" where
  "blob_write offset bytes b =
     (case usize_add offset (length bytes) of
       None \<Rightarrow> Some (Err LengthOverflow)
     | Some stop \<Rightarrow>
        let required = div_ceil stop BLOB_CHUNK_BYTES;
            chunks = resize required zero_chunk (bl_chunks b)
        in map_option (\<lambda>chunks'. Ok \<lparr>bl_chunks = chunks', bl_len = max (bl_len b) stop\<rparr>)
             (write_loop chunks offset bytes 0))"

definition to_vec :: "chunked_blob \<Rightarrow> u8 list option" where
  "to_vec b = map_option snd (blob_read b 0 (replicate (bl_len b) 0))"

record blob_object =
  bo_form :: fin
  bo_revision :: u32
  bo_content :: chunked_blob

record blob_transaction =
  bt_cfc :: cfc_fin
  bt_replacements :: "blob_object list"

definition tx_replace ::
  "fin \<Rightarrow> u32 \<Rightarrow> u8 list \<Rightarrow> blob_transaction \<Rightarrow> (blob_error, blob_transaction) result" where
  "tx_replace form revision bytes t =
     (if is_zero form \<or> revision = 0 then Err InvalidForm
      else if list_ex (\<lambda>object. bo_form object = form) (bt_replacements t) then Err DuplicateForm
      else Ok (t\<lparr>bt_replacements := bt_replacements t @
        [\<lparr>bo_form = form, bo_revision = revision, bo_content = from_bytes bytes\<rparr>]\<rparr>))"

record cfc_blob_store =
  bs_cfc :: cfc_fin
  bs_quota :: blob_quota
  bs_objects :: "blob_object list"
  bs_generation :: u64

definition blob_store_new :: "cfc_fin \<Rightarrow> blob_quota \<Rightarrow> (blob_error, cfc_blob_store) result" where
  "blob_store_new cfc quota =
     (if cfc_is_zero cfc \<or> bq_per_form_bytes quota = 0 \<or> bq_cfc_bytes quota < bq_per_form_bytes quota
      then Err WrongCfc
      else Ok \<lparr>bs_cfc = cfc, bs_quota = quota, bs_objects = [], bs_generation = 0\<rparr>)"

definition blob_begin :: "cfc_blob_store \<Rightarrow> blob_transaction" where
  "blob_begin s = \<lparr>bt_cfc = bs_cfc s, bt_replacements = []\<rparr>"

definition find_object :: "blob_object list \<Rightarrow> fin \<Rightarrow> blob_object option" where
  "find_object objects form = find (\<lambda>object. bo_form object = form) objects"

fun preflight :: "cfc_blob_store \<Rightarrow> blob_object list \<Rightarrow> (blob_error, unit) result" where
  "preflight s [] = Ok ()"
| "preflight s (r # rs) =
     (if bl_len (bo_content r) > bq_per_form_bytes (bs_quota s) then Err FormQuotaExceeded
      else if (case find_object (bs_objects s) (bo_form r) of
          None \<Rightarrow> False | Some object \<Rightarrow> bo_revision object \<ge> bo_revision r) then Err StaleRevision
      else preflight s rs)"

fun upsert :: "blob_object \<Rightarrow> blob_object list \<Rightarrow> blob_object list" where
  "upsert r [] = [r]"
| "upsert r (x # xs) = (if bo_form x = bo_form r then r # xs else x # upsert r xs)"

definition content_bytes :: "blob_object list \<Rightarrow> nat" where
  "content_bytes objects = sum_list (map (\<lambda>object. bl_len (bo_content object)) objects)"

definition blob_commit :: "blob_transaction \<Rightarrow> cfc_blob_store \<Rightarrow> (blob_error, u64 \<times> cfc_blob_store) result" where
  "blob_commit t s =
     (if bt_cfc t \<noteq> bs_cfc s then Err WrongCfc
      else if bt_replacements t = [] then Err EmptyTransaction
      else (case preflight s (bt_replacements t) of
        Err e \<Rightarrow> Err e
      | Ok _ \<Rightarrow>
         let retained = content_bytes (filter (\<lambda>object.
               \<not> list_ex (\<lambda>r. bo_form r = bo_form object) (bt_replacements t)) (bs_objects s));
             staged = content_bytes (bt_replacements t)
         in if min (retained + staged) (usize_limit - 1) > bq_cfc_bytes (bs_quota s) then Err CfcQuotaExceeded
            else let generation = next_nonzero (bs_generation s)
              in Ok (generation, s\<lparr>bs_objects := fold upsert (bt_replacements t) (bs_objects s),
                   bs_generation := generation\<rparr>)))"

definition store_read ::
  "cfc_blob_store \<Rightarrow> fin \<Rightarrow> nat \<Rightarrow> u8 list \<Rightarrow> (blob_error, (nat \<times> u8 list) option) result" where
  "store_read s form offset out =
     (case find_object (bs_objects s) form of
       None \<Rightarrow> Err NotFound
     | Some object \<Rightarrow> Ok (blob_read (bo_content object) offset out))"

definition store_len :: "cfc_blob_store \<Rightarrow> fin \<Rightarrow> nat option" where
  "store_len s form = map_option (\<lambda>object. bl_len (bo_content object)) (find_object (bs_objects s) form)"

definition used_bytes :: "cfc_blob_store \<Rightarrow> nat" where
  "used_bytes s = content_bytes (bs_objects s)"

section \<open>Blobs as buffers\<close>

text \<open>The bytes of a blob. A blob is whole when its chunks have full size and hold its length; the write paths also keep the space
  after the content zero.\<close>

definition blob_bytes :: "chunked_blob \<Rightarrow> u8 list" where
  "blob_bytes b = take (bl_len b) (concat (bl_chunks b))"

definition blob_whole :: "chunked_blob \<Rightarrow> bool" where
  "blob_whole b \<longleftrightarrow> uniform_pieces BLOB_CHUNK_BYTES (bl_chunks b) \<and> bl_len b \<le> allocated_bytes b"

definition blob_ok :: "chunked_blob \<Rightarrow> bool" where
  "blob_ok b \<longleftrightarrow> uniform_pieces BLOB_CHUNK_BYTES (bl_chunks b) \<and> bl_len b \<le> allocated_bytes b \<and>
     (\<exists>n. drop (bl_len b) (concat (bl_chunks b)) = replicate n 0)"

lemma chunk_pos [simp]: "0 < BLOB_CHUNK_BYTES"
  by (simp add: BLOB_CHUNK_BYTES_def)

lemma length_zero_chunk [simp]: "length zero_chunk = BLOB_CHUNK_BYTES"
  by (simp add: zero_chunk_def)

lemma take_step:
  fixes r m :: nat
  assumes "r < c" and "0 < m"
  shows "0 < min (c - r) m" "min (c - r) m \<le> m" "r + min (c - r) m \<le> c"
  using assms by (auto simp: min_def)

lemma read_loop_reads:
  assumes u: "uniform_pieces BLOB_CHUNK_BYTES chunks"
    and fit: "offset + cnt \<le> length (concat chunks)" and le: "copied \<le> cnt" "cnt \<le> length out"
  shows "read_loop chunks offset cnt copied out =
    Some (cnt, overwrite out copied (slice (offset + copied) (cnt - copied) (concat chunks)))"
  using le
proof (induction "cnt - copied" arbitrary: copied out rule: less_induct)
  case less
  have len: "length (concat chunks) = length chunks * BLOB_CHUNK_BYTES" by (rule length_pieces [OF u])
  show ?case
  proof (cases "copied < cnt")
    case False
    then show ?thesis using less.prems by (subst read_loop.simps) (simp add: slice_def)
  next
    case True
    define p where "p = offset + copied"
    define n where "n = min (BLOB_CHUNK_BYTES - p mod BLOB_CHUNK_BYTES) (cnt - copied)"
    define xs where "xs = slice p n (concat chunks)"
    have chunk: "p div BLOB_CHUNK_BYTES < length chunks"
      using True fit len by (simp add: p_def less_mult_imp_div_less)
    have n: "0 < n" "n \<le> cnt - copied" "p mod BLOB_CHUNK_BYTES + n \<le> BLOB_CHUNK_BYTES"
      unfolding n_def using True by (auto intro!: take_step)
    have part: "slice (p mod BLOB_CHUNK_BYTES) n (chunks ! (p div BLOB_CHUNK_BYTES)) = xs"
      unfolding xs_def by (rule slice_pieces [OF u chunk n(3)])
    have xs: "length xs = n" using n(2) fit True by (simp add: xs_def p_def)
    have out: "length (overwrite out copied xs) = length out"
      using xs n(2) less.prems True by (intro length_overwrite) simp
    define ys where "ys = slice (p + n) (cnt - copied - n) (concat chunks)"
    have ys: "length ys = cnt - copied - n" using n(2) fit True by (simp add: ys_def p_def)
    have "read_loop chunks offset cnt (copied + n) (overwrite out copied xs) =
      Some (cnt, overwrite (overwrite out copied xs) (copied + n)
        (slice (offset + (copied + n)) (cnt - (copied + n)) (concat chunks)))"
      using n(1,2) less.prems True out by (intro less.hyps) simp_all
    also have "slice (offset + (copied + n)) (cnt - (copied + n)) (concat chunks) = ys"
      by (simp add: ys_def p_def add.assoc)
    also have "overwrite (overwrite out copied xs) (copied + n) ys = overwrite out copied (xs @ ys)"
      using overwrite_append [of copied xs ys out] xs ys n(2) less.prems True by simp
    also have "xs @ ys = slice p (cnt - copied) (concat chunks)"
      unfolding xs_def ys_def by (rule slice_split [OF n(2), symmetric])
    finally show ?thesis
      using True chunk part by (subst read_loop.simps) (simp add: Let_def p_def n_def)
  qed
qed

lemma write_loop_writes:
  assumes "uniform_pieces BLOB_CHUNK_BYTES chunks"
    and "offset + length bytes \<le> length (concat chunks)" and "copied \<le> length bytes"
  shows "\<exists>chunks'. write_loop chunks offset bytes copied = Some chunks' \<and> uniform_pieces BLOB_CHUNK_BYTES chunks' \<and>
    length chunks' = length chunks \<and>
    concat chunks' = overwrite (concat chunks) (offset + copied) (drop copied bytes)"
  using assms
proof (induction "length bytes - copied" arbitrary: copied chunks rule: less_induct)
  case less
  note u = less.prems(1) and fit = less.prems(2)
  have len: "length (concat chunks) = length chunks * BLOB_CHUNK_BYTES" by (rule length_pieces [OF u])
  show ?case
  proof (cases "copied < length bytes")
    case False
    then show ?thesis using less.prems by (subst write_loop.simps) simp
  next
    case True
    define p where "p = offset + copied"
    define n where "n = min (BLOB_CHUNK_BYTES - p mod BLOB_CHUNK_BYTES) (length bytes - copied)"
    define xs where "xs = slice copied n bytes"
    define cs where "cs = chunks[p div BLOB_CHUNK_BYTES :=
      overwrite (chunks ! (p div BLOB_CHUNK_BYTES)) (p mod BLOB_CHUNK_BYTES) xs]"
    have chunk: "p div BLOB_CHUNK_BYTES < length chunks"
      using True fit len by (simp add: p_def less_mult_imp_div_less)
    have n: "0 < n" "n \<le> length bytes - copied" "p mod BLOB_CHUNK_BYTES + n \<le> BLOB_CHUNK_BYTES"
      unfolding n_def using True by (auto intro!: take_step)
    have xs: "length xs = n" using n(2) True by (simp add: xs_def)
    have cs: "uniform_pieces BLOB_CHUNK_BYTES cs" "concat cs = overwrite (concat chunks) p xs" "length cs = length chunks"
      unfolding cs_def using overwrite_pieces [OF u chunk, of xs] xs n(3) by simp_all
    have pn: "p + length xs \<le> length (concat chunks)" using xs n(2) fit True by (simp add: p_def)
    then have "offset + length bytes \<le> length (concat cs)" using cs(2) fit by simp
    moreover have "length bytes - (copied + n) < length bytes - copied" "copied + n \<le> length bytes"
      using n(1,2) True by linarith+
    ultimately obtain chunks' where c': "write_loop cs offset bytes (copied + n) = Some chunks'"
      "uniform_pieces BLOB_CHUNK_BYTES chunks'" "length chunks' = length cs"
      "concat chunks' = overwrite (concat cs) (offset + (copied + n)) (drop (copied + n) bytes)"
      using less.hyps [of "copied + n" cs] cs(1) by blast
    have "concat chunks' = overwrite (overwrite (concat chunks) p xs) (p + length xs) (drop (copied + n) bytes)"
      using c'(4) cs(2) xs by (simp add: p_def add.assoc)
    also have "\<dots> = overwrite (concat chunks) p (xs @ drop (copied + n) bytes)"
      using xs n(2) fit True by (intro overwrite_append) (simp add: p_def)
    also have "xs @ drop (copied + n) bytes = drop copied bytes"
      using append_take_drop_id [of n "drop copied bytes"] by (simp add: xs_def slice_def add.commute)
    finally have "concat chunks' = overwrite (concat chunks) (offset + copied) (drop copied bytes)"
      by (simp add: p_def)
    moreover have "write_loop chunks offset bytes copied = Some chunks'"
      using True chunk c'(1) by (subst write_loop.simps) (simp add: Let_def p_def n_def cs_def xs_def)
    ultimately show ?thesis using c'(2,3) cs(3) by simp
  qed
qed

lemma nth_replace_chunk:
  assumes "length chunk = BLOB_CHUNK_BYTES" and "j < BLOB_CHUNK_BYTES"
  shows "replace_chunk bytes i chunk ! j =
    (if i * BLOB_CHUNK_BYTES + j < length bytes then bytes ! (i * BLOB_CHUNK_BYTES + j) else 0)"
  using assms by (auto simp: replace_chunk_def Let_def nth_overwrite nth_slice min_def split: if_splits)

lemma length_replace_chunk: "length chunk = BLOB_CHUNK_BYTES \<Longrightarrow> length (replace_chunk bytes i chunk) = BLOB_CHUNK_BYTES"
  by (auto simp: replace_chunk_def Let_def intro!: length_overwrite [THEN trans])

lemma resize_chunks:
  "uniform_pieces BLOB_CHUNK_BYTES cs \<Longrightarrow> uniform_pieces BLOB_CHUNK_BYTES (resize n zero_chunk cs)"
  by (auto simp: uniform_pieces_def resize_def dest: in_set_takeD)

lemma replace_bytes:
  assumes "uniform_pieces BLOB_CHUNK_BYTES (bl_chunks b)"
  shows "uniform_pieces BLOB_CHUNK_BYTES (bl_chunks (blob_replace bytes b))"
    "concat (bl_chunks (blob_replace bytes b)) =
      bytes @ replicate (div_ceil (length bytes) BLOB_CHUNK_BYTES * BLOB_CHUNK_BYTES - length bytes) 0"
proof -
  let ?n = "div_ceil (length bytes) BLOB_CHUNK_BYTES"
  define cs where "cs = resize ?n zero_chunk (bl_chunks b)"
  let ?r = "bl_chunks (blob_replace bytes b)"
  have u: "uniform_pieces BLOB_CHUNK_BYTES cs" unfolding cs_def by (rule resize_chunks [OF assms])
  have len: "length cs = ?n" "length ?r = ?n" by (simp_all add: cs_def blob_replace_def Let_def)
  have at: "?r ! i = replace_chunk bytes i (cs ! i)" "length (cs ! i) = BLOB_CHUNK_BYTES" if "i < ?n" for i
    using that u len by (auto simp: blob_replace_def Let_def cs_def nth_enumerate_eq uniform_pieces_def)
  show u': "uniform_pieces BLOB_CHUNK_BYTES ?r"
    unfolding uniform_pieces_def using at len(2) length_replace_chunk by (metis in_set_conv_nth)
  have big: "length bytes \<le> ?n * BLOB_CHUNK_BYTES" by (rule div_ceil_ge) simp
  show "concat ?r = bytes @ replicate (?n * BLOB_CHUNK_BYTES - length bytes) 0"
  proof (rule nth_equalityI)
    have l: "length (concat ?r) = ?n * BLOB_CHUNK_BYTES" using length_pieces [OF u'] len by simp
    then show "length (concat ?r) = length (bytes @ replicate (?n * BLOB_CHUNK_BYTES - length bytes) 0)"
      using big by simp
    fix p assume "p < length (concat ?r)"
    then have p: "p < ?n * BLOB_CHUNK_BYTES" using l by simp
    then have i: "p div BLOB_CHUNK_BYTES < ?n" by (simp add: less_mult_imp_div_less)
    have "concat ?r ! p = ?r ! (p div BLOB_CHUNK_BYTES) ! (p mod BLOB_CHUNK_BYTES)"
      using nth_pieces [OF u'] p len by simp
    also have "\<dots> = (if p < length bytes then bytes ! p else 0)"
      using at [OF i] by (simp add: nth_replace_chunk)
    finally show "concat ?r ! p = (bytes @ replicate (?n * BLOB_CHUNK_BYTES - length bytes) 0) ! p"
      using p by (simp add: nth_append)
  qed
qed

lemma replace_ok:
  assumes "uniform_pieces BLOB_CHUNK_BYTES (bl_chunks b)"
  shows "blob_ok (blob_replace bytes b)" "blob_bytes (blob_replace bytes b) = bytes"
    "bl_len (blob_replace bytes b) = length bytes"
proof -
  show len: "bl_len (blob_replace bytes b) = length bytes" by (simp add: blob_replace_def Let_def)
  show "blob_bytes (blob_replace bytes b) = bytes"
    unfolding blob_bytes_def len replace_bytes(2) [OF assms] by simp
  have "length (bl_chunks (blob_replace bytes b)) = div_ceil (length bytes) BLOB_CHUNK_BYTES"
    by (simp add: blob_replace_def Let_def)
  then show "blob_ok (blob_replace bytes b)"
    unfolding blob_ok_def len replace_bytes(2) [OF assms]
    using replace_bytes(1) [OF assms] div_ceil_ge [OF chunk_pos, of "length bytes"]
    by (auto simp: allocated_bytes_def)
qed

lemma from_bytes_ok [simp]:
  "blob_ok (from_bytes bytes)" "blob_bytes (from_bytes bytes) = bytes" "bl_len (from_bytes bytes) = length bytes"
  unfolding from_bytes_def by (rule replace_ok, simp add: blob_new_def uniform_pieces_def)+

lemma blob_ok_whole: "blob_ok b \<Longrightarrow> blob_whole b"
  by (simp add: blob_ok_def blob_whole_def)

lemma blob_wholeD:
  assumes "blob_whole b"
  shows "uniform_pieces BLOB_CHUNK_BYTES (bl_chunks b)" "bl_len b \<le> length (concat (bl_chunks b))"
proof -
  show u: "uniform_pieces BLOB_CHUNK_BYTES (bl_chunks b)" using assms by (simp add: blob_whole_def)
  show "bl_len b \<le> length (concat (bl_chunks b))"
    using assms length_pieces [OF u] by (simp add: blob_whole_def allocated_bytes_def)
qed

lemmas blob_okD = blob_wholeD [OF blob_ok_whole]

lemma blob_read_reads:
  assumes "blob_whole b"
  shows "blob_read b offset out =
    (let n = min (length out) (bl_len b - offset) in Some (n, slice offset n (blob_bytes b) @ drop n out))"
proof -
  note u = blob_wholeD(1) [OF assms] and le = blob_wholeD(2) [OF assms]
  let ?n = "min (length out) (bl_len b - offset)"
  show ?thesis
  proof (cases "offset \<ge> bl_len b \<or> out = []")
    case True
    then show ?thesis by (auto simp: blob_read_def Let_def slice_def)
  next
    case False
    then have "read_loop (bl_chunks b) offset ?n 0 out =
      Some (?n, overwrite out 0 (slice (offset + 0) (?n - 0) (concat (bl_chunks b))))"
      using le by (intro read_loop_reads [OF u]) auto
    moreover have "slice offset ?n (concat (bl_chunks b)) = slice offset ?n (blob_bytes b)"
      using le by (simp add: slice_def blob_bytes_def drop_take min_def)
    moreover have "length (slice offset ?n (blob_bytes b)) = ?n" using le by (simp add: blob_bytes_def)
    ultimately show ?thesis using False by (simp add: blob_read_def Let_def overwrite_def)
  qed
qed

lemma to_vec_bytes: "blob_whole b \<Longrightarrow> to_vec b = Some (blob_bytes b)"
  using blob_wholeD(2) [of b] by (simp add: to_vec_def blob_read_reads Let_def slice_def blob_bytes_def)

lemma take_overwrite: "at + length ys \<le> m \<Longrightarrow> m \<le> length xs \<Longrightarrow> take m (overwrite xs at ys) = overwrite (take m xs) at ys"
  by (cases "m = at") (auto simp: overwrite_def drop_take min_def)

lemma drop_overwrite: "at + length ys \<le> m \<Longrightarrow> m \<le> length xs \<Longrightarrow> drop m (overwrite xs at ys) = drop m xs"
  by (simp add: overwrite_def)

lemma concat_replicate_zero_chunk: "concat (replicate l zero_chunk) = replicate (l * BLOB_CHUNK_BYTES) 0"
  by (induction l) (simp_all add: zero_chunk_def replicate_add)

text \<open>What \<^verbatim>\<open>write\<close> does to the chunks, whether the array grows or shrinks.\<close>

lemma blob_write_chunks:
  assumes "blob_ok b" and "offset + length bytes < usize_limit"
  defines "stop \<equiv> offset + length bytes"
  defines "chunks \<equiv> resize (div_ceil stop BLOB_CHUNK_BYTES) zero_chunk (bl_chunks b)"
  shows "\<exists>b'. blob_write offset bytes b = Some (Ok b') \<and> bl_len b' = max (bl_len b) stop \<and>
    uniform_pieces BLOB_CHUNK_BYTES (bl_chunks b') \<and> length (bl_chunks b') = div_ceil stop BLOB_CHUNK_BYTES \<and>
    concat (bl_chunks b') = overwrite (concat chunks) offset bytes"
proof -
  have u: "uniform_pieces BLOB_CHUNK_BYTES chunks"
    unfolding chunks_def by (rule resize_chunks [OF blob_okD(1) [OF assms(1)]])
  have "offset + length bytes \<le> length (concat chunks)"
    using length_pieces [OF u] div_ceil_ge [OF chunk_pos, of stop] by (simp add: chunks_def stop_def)
  then obtain chunks' where "write_loop chunks offset bytes 0 = Some chunks'"
    "uniform_pieces BLOB_CHUNK_BYTES chunks'" "length chunks' = length chunks"
    "concat chunks' = overwrite (concat chunks) offset bytes"
    using write_loop_writes [OF u, of offset bytes 0] by auto
  then show ?thesis using assms(2)
    by (simp add: blob_write_def usize_add_def Let_def chunks_def stop_def)
qed

section \<open>The store\<close>

fun stage_all :: "(fin \<times> u32 \<times> u8 list) list \<Rightarrow> blob_transaction \<Rightarrow> (blob_error, blob_transaction) result" where
  "stage_all [] t = Ok t"
| "stage_all ((form, revision, bytes) # items) t =
     (case tx_replace form revision bytes t of Err e \<Rightarrow> Err e | Ok t' \<Rightarrow> stage_all items t')"

definition object_of :: "fin \<times> u32 \<times> u8 list \<Rightarrow> blob_object" where
  "object_of = (\<lambda>(form, revision, bytes). \<lparr>bo_form = form, bo_revision = revision, bo_content = from_bytes bytes\<rparr>)"

inductive blob_step :: "cfc_blob_store \<Rightarrow> cfc_blob_store \<Rightarrow> bool" where
  step_commit: "stage_all items (blob_begin origin) = Ok t \<Longrightarrow> blob_commit t s = Ok (g, s') \<Longrightarrow> blob_step s s'"

definition blob_init :: "cfc_blob_store \<Rightarrow> bool" where
  "blob_init s \<longleftrightarrow> (\<exists>cfc quota. blob_store_new cfc quota = Ok s \<and> bq_cfc_bytes quota < usize_limit - 1)"

definition blob_store_inv :: "cfc_blob_store \<Rightarrow> bool" where
  "blob_store_inv s \<longleftrightarrow> distinct (map bo_form (bs_objects s)) \<and> used_bytes s \<le> bq_cfc_bytes (bs_quota s) \<and>
     bq_cfc_bytes (bs_quota s) < usize_limit - 1 \<and>
     (\<forall>x\<in>set (bs_objects s). bl_len (bo_content x) \<le> bq_per_form_bytes (bs_quota s) \<and> blob_ok (bo_content x))"

lemma stage_all_Ok:
  "stage_all items t = Ok t' \<Longrightarrow> distinct (map bo_form (bt_replacements t)) \<Longrightarrow>
    bt_cfc t' = bt_cfc t \<and> bt_replacements t' = bt_replacements t @ map object_of items \<and>
    distinct (map bo_form (bt_replacements t'))"
proof (induction items t rule: stage_all.induct)
  case (2 form revision bytes items t)
  show ?case
  proof (cases "tx_replace form revision bytes t")
    case (Inl e)
    with 2 show ?thesis by simp
  next
    case (Inr t1)
    then have "t1 = t\<lparr>bt_replacements := bt_replacements t @ [object_of (form, revision, bytes)]\<rparr>"
      "form \<notin> bo_form ` set (bt_replacements t)"
      by (auto simp: tx_replace_def object_of_def list_ex_iff split: if_splits)
    moreover have "bo_form (object_of (form, revision, bytes)) = form" by (simp add: object_of_def)
    moreover from calculation have "distinct (map bo_form (bt_replacements t1))" using 2(3) by simp
    moreover have "stage_all items t1 = Ok t'" using 2(2) Inr by simp
    ultimately show ?thesis using 2(1) [OF Inr] by (simp del: map_append distinct_append map_map) metis
  qed
qed simp

lemma stage_all_begin:
  assumes "stage_all items (blob_begin s) = Ok t"
  shows "bt_replacements t = map object_of items" "distinct (map bo_form (bt_replacements t))"
  using stage_all_Ok [OF assms] by (auto simp: blob_begin_def simp del: map_map)

lemma find_object_Cons: "find_object (x # xs) f = (if bo_form x = f then Some x else find_object xs f)"
  by (simp add: find_object_def)

lemma find_upsert: "find_object (upsert r xs) f = (if f = bo_form r then Some r else find_object xs f)"
  by (induction xs) (auto simp: find_object_def)

lemma find_fold_upsert:
  "distinct (map bo_form rs) \<Longrightarrow> find_object (fold upsert rs xs) f =
    (case find_object rs f of Some r \<Rightarrow> Some r | None \<Rightarrow> find_object xs f)"
proof (induction rs arbitrary: xs)
  case (Cons r rs)
  have "find_object rs (bo_form r) = None" using Cons.prems
    by (auto simp: find_object_def find_None_iff) (metis image_eqI)
  with Cons show ?case by (auto simp: find_upsert find_object_Cons split: option.splits)
qed (simp add: find_object_def)

lemma set_upsert: "set (upsert r xs) \<subseteq> insert r (set xs)"
  by (induction xs) auto

lemma set_fold_upsert: "set (fold upsert rs xs) \<subseteq> set rs \<union> set xs"
  by (induction rs arbitrary: xs) (use set_upsert in \<open>fastforce+\<close>)

lemma forms_upsert:
  "map bo_form (upsert r xs) = (if bo_form r \<in> bo_form ` set xs then map bo_form xs else map bo_form xs @ [bo_form r])"
  by (induction xs) auto

lemma distinct_fold_upsert: "distinct (map bo_form xs) \<Longrightarrow> distinct (map bo_form (fold upsert rs xs))"
  by (induction rs arbitrary: xs) (auto simp: forms_upsert)

lemma filter_upsert:
  "Q (bo_form r) \<Longrightarrow> filter (\<lambda>x. Q (bo_form x)) (upsert r xs) = upsert r (filter (\<lambda>x. Q (bo_form x)) xs)"
  by (induction xs) auto

lemma content_upsert:
  "distinct (map bo_form xs) \<Longrightarrow>
    content_bytes (upsert r xs) = content_bytes (filter (\<lambda>x. bo_form x \<noteq> bo_form r) xs) + bl_len (bo_content r)"
proof (induction xs)
  case (Cons x xs)
  show ?case
  proof (cases "bo_form x = bo_form r")
    case True
    then have "\<forall>y\<in>set xs. bo_form y \<noteq> bo_form r" using Cons.prems by (auto simp: image_iff)
    then have "filter (\<lambda>y. bo_form y \<noteq> bo_form r) xs = xs" by (simp add: filter_id_conv)
    with True show ?thesis by (simp add: content_bytes_def)
  qed (use Cons in \<open>simp add: content_bytes_def\<close>)
qed (simp add: content_bytes_def)

lemma content_fold_upsert:
  "distinct (map bo_form rs) \<Longrightarrow> distinct (map bo_form xs) \<Longrightarrow>
    content_bytes (fold upsert rs xs) =
      content_bytes (filter (\<lambda>x. bo_form x \<notin> bo_form ` set rs) xs) + content_bytes rs"
proof (induction rs arbitrary: xs)
  case (Cons r rs)
  let ?F = "filter (\<lambda>x. bo_form x \<notin> bo_form ` set rs)"
  have r: "bo_form r \<notin> bo_form ` set rs" using Cons.prems by simp
  have "content_bytes (fold upsert (r # rs) xs) = content_bytes (?F (upsert r xs)) + content_bytes rs"
    using Cons.IH [of "upsert r xs"] Cons.prems by (simp add: forms_upsert)
  also have "?F (upsert r xs) = upsert r (?F xs)" by (rule filter_upsert) (rule r)
  also have "content_bytes (upsert r (?F xs)) =
      content_bytes (filter (\<lambda>x. bo_form x \<noteq> bo_form r) (?F xs)) + bl_len (bo_content r)"
    using Cons.prems(2) by (intro content_upsert) (simp add: distinct_map_filter)
  also have "filter (\<lambda>x. bo_form x \<noteq> bo_form r) (?F xs) = filter (\<lambda>x. bo_form x \<notin> bo_form ` set (r # rs)) xs"
    by (simp add: conj_commute)
  finally show ?case by (simp add: content_bytes_def)
qed (simp add: content_bytes_def)

lemma preflight_Ok:
  "preflight s rs = Ok () \<Longrightarrow> \<forall>r\<in>set rs. bl_len (bo_content r) \<le> bq_per_form_bytes (bs_quota s) \<and>
    (\<forall>x. find_object (bs_objects s) (bo_form r) = Some x \<longrightarrow> bo_revision x < bo_revision r)"
  by (induction s rs rule: preflight.induct) (auto split: if_splits option.splits simp: not_le)

lemma blob_commit_Ok:
  assumes "blob_commit t s = Ok (g, s')"
  shows "s' = s\<lparr>bs_objects := fold upsert (bt_replacements t) (bs_objects s), bs_generation := g\<rparr>"
    "preflight s (bt_replacements t) = Ok ()" "g \<noteq> 0"
    "min (content_bytes (filter (\<lambda>x. bo_form x \<notin> bo_form ` set (bt_replacements t)) (bs_objects s)) +
       content_bytes (bt_replacements t)) (usize_limit - 1) \<le> bq_cfc_bytes (bs_quota s)"
proof -
  have *: "list_ex (\<lambda>r. bo_form r = bo_form x) rs \<longleftrightarrow> bo_form x \<in> bo_form ` set rs" for x rs
    by (force simp: list_ex_iff)
  show "min (content_bytes (filter (\<lambda>x. bo_form x \<notin> bo_form ` set (bt_replacements t)) (bs_objects s)) +
       content_bytes (bt_replacements t)) (usize_limit - 1) \<le> bq_cfc_bytes (bs_quota s)"
    using assms by (simp add: blob_commit_def Let_def * not_less min_def split: if_splits sum.splits) linarith?
qed (use assms in \<open>auto simp: blob_commit_def Let_def split: if_splits sum.splits\<close>)

lemma blob_step_inv:
  assumes inv: "blob_store_inv s" and "blob_step s s'"
  shows "blob_store_inv s'"
  using assms(2)
proof cases
  case (step_commit items origin t g)
  note ok = blob_commit_Ok [OF step_commit(2)]
  note t = stage_all_begin [OF step_commit(1)]
  have d: "distinct (map bo_form (bs_objects s))" using inv by (simp add: blob_store_inv_def)
  have quota: "bs_quota s' = bs_quota s" and objs: "bs_objects s' = fold upsert (bt_replacements t) (bs_objects s)"
    by (simp_all add: ok(1))
  have "used_bytes s' \<le> bq_cfc_bytes (bs_quota s)"
    using ok(4) inv content_fold_upsert [OF t(2) d] by (simp add: used_bytes_def objs blob_store_inv_def min_le_iff_disj)
  moreover have "bl_len (bo_content x) \<le> bq_per_form_bytes (bs_quota s) \<and> blob_ok (bo_content x)"
    if x: "x \<in> set (bs_objects s')" for x
  proof -
    consider "x \<in> set (bs_objects s)" | "x \<in> set (bt_replacements t)"
      using x set_fold_upsert [of "bt_replacements t" "bs_objects s"] objs by auto
    then show ?thesis
    proof cases
      case 1
      then show ?thesis using inv by (simp add: blob_store_inv_def)
    next
      case 2
      then have "blob_ok (bo_content x)" using t(1) by (auto simp: object_of_def)
      then show ?thesis using 2 preflight_Ok [OF ok(2)] by simp
    qed
  qed
  moreover have "distinct (map bo_form (bs_objects s'))" unfolding objs by (rule distinct_fold_upsert [OF d])
  ultimately show ?thesis using inv quota by (simp add: blob_store_inv_def)
qed

interpretation blob_system: invariant_system blob_init blob_step blob_store_inv
proof unfold_locales
  fix s s'
  show "blob_init s \<Longrightarrow> blob_store_inv s"
    by (auto simp: blob_init_def blob_store_new_def blob_store_inv_def used_bytes_def content_bytes_def split: if_splits)
  show "blob_store_inv s \<Longrightarrow> blob_step s s' \<Longrightarrow> blob_store_inv s'" by (rule blob_step_inv)
qed

lemma find_object_items:
  "find_object (map object_of items) f =
    map_option (\<lambda>(r, bytes). \<lparr>bo_form = f, bo_revision = r, bo_content = from_bytes bytes\<rparr>) (map_of items f)"
  by (induction items) (auto simp: find_object_def object_of_def)

section \<open>Properties\<close>

text \<open>
  quotas. In every store that commits of staged transactions can build, the Forms are distinct,
  the bytes in use stay within the CFC's quota and no Form exceeds its own.
\<close>

theorem blob_store_within_quota:
  assumes "reachable blob_init blob_step s"
  shows "used_bytes s \<le> bq_cfc_bytes (bs_quota s) \<and> distinct (map bo_form (bs_objects s)) \<and>
    (store_len s form = Some n \<longrightarrow> n \<le> bq_per_form_bytes (bs_quota s))"
proof -
  have inv: "blob_store_inv s" using assms by (rule blob_system.reachable_inv)
  have "n \<le> bq_per_form_bytes (bs_quota s)" if len: "store_len s form = Some n"
  proof -
    obtain x where x: "find_object (bs_objects s) form = Some x" and n: "n = bl_len (bo_content x)"
      using len by (auto simp: store_len_def)
    have "x \<in> set (bs_objects s)" using find_SomeD [OF x [unfolded find_object_def]] by simp
    then show ?thesis using inv n by (simp add: blob_store_inv_def)
  qed
  then show ?thesis using inv by (simp add: blob_store_inv_def)
qed

definition demo_store :: cfc_blob_store where
  "demo_store = \<lparr>bs_cfc = cfc_from_u128 1, bs_quota = blob_quota_default, bs_objects = [], bs_generation = 0\<rparr>"

definition demo_stored :: cfc_blob_store where
  "demo_stored = demo_store\<lparr>bs_objects := [object_of (from_u128 7, 1, [1, 2, 3])], bs_generation := 1\<rparr>"

lemma demo_store_init: "blob_init demo_store"
  unfolding blob_init_def blob_store_new_def
  by (rule exI [of _ "cfc_from_u128 1"], rule exI [of _ blob_quota_default])
    (simp add: demo_store_def blob_quota_default_def DEFAULT_FORM_BLOB_QUOTA_def DEFAULT_CFC_BLOB_QUOTA_def
      usize_limit_def)

lemma demo_staged:
  "stage_all [(from_u128 7, 1, [1, 2, 3])] (blob_begin demo_store) =
    Ok \<lparr>bt_cfc = cfc_from_u128 1, bt_replacements = [object_of (from_u128 7, 1, [1, 2, 3])]\<rparr>"
  by (simp add: tx_replace_def blob_begin_def demo_store_def object_of_def)

lemma demo_committed:
  "blob_commit \<lparr>bt_cfc = cfc_from_u128 1, bt_replacements = [object_of (from_u128 7, 1, [1, 2, 3])]\<rparr> demo_store =
    Ok (1, demo_stored)"
  by (simp add: blob_commit_def demo_store_def demo_stored_def find_object_def object_of_def content_bytes_def
      blob_quota_default_def DEFAULT_FORM_BLOB_QUOTA_def DEFAULT_CFC_BLOB_QUOTA_def next_nonzero_def usize_limit_def)

theorem blob_store_within_quota_witness:
  "used_bytes demo_stored \<le> DEFAULT_CFC_BLOB_QUOTA \<and> used_bytes demo_stored = 3"
proof -
  have "reachable blob_init blob_step demo_stored"
    using reachable_step [of blob_init blob_step, OF reachable_init [of blob_init, OF demo_store_init]
        step_commit [OF demo_staged demo_committed]] .
  note within = blob_store_within_quota [OF this, of "from_u128 7" 3]
  show ?thesis using within
    by (simp add: demo_stored_def demo_store_def blob_quota_default_def used_bytes_def content_bytes_def object_of_def)
qed

text \<open>
  a commit publishes exactly what was staged. After it a read of a Form returns the staged bytes
  at the offset, as many as fit, and leaves the rest of the caller's buffer alone; every Form the
  transaction does not mention reads as before.
\<close>

theorem blob_commit_publishes:
  assumes "stage_all items (blob_begin origin) = Ok t" and "blob_commit t s = Ok (g, s')"
  shows "store_read s' form offset out =
    (case map_of items form of
      None \<Rightarrow> store_read s form offset out
    | Some (revision, bytes) \<Rightarrow>
        let n = min (length out) (length bytes - offset) in Ok (Some (n, slice offset n bytes @ drop n out)))"
proof -
  note t = stage_all_begin [OF assms(1)]
  have "find_object (bs_objects s') form =
      (case find_object (map object_of items) form of Some r \<Rightarrow> Some r | None \<Rightarrow> find_object (bs_objects s) form)"
    using blob_commit_Ok(1) [OF assms(2)] find_fold_upsert [OF t(2)] t(1) by simp
  then show ?thesis
    by (simp add: store_read_def find_object_items blob_read_reads blob_ok_whole Let_def split: option.split)
qed

theorem blob_commit_publishes_witness:
  "store_read demo_stored (from_u128 7) 1 [9, 9, 9] = Ok (Some (2, [2, 3, 9]))"
  using blob_commit_publishes [OF demo_staged demo_committed, of "from_u128 7" 1 "[9, 9, 9]"]
  by (simp add: slice_def)

text \<open>
  a write that reaches the last chunk. When the written range ends in the last chunk or beyond,
  the write succeeds and the blob reads as its old bytes, extended with zeros up to the end of the
  range, with the range overwritten.
\<close>

theorem blob_write_extends:
  assumes "blob_ok b" and "offset + length bytes < usize_limit"
    and "length (bl_chunks b) \<le> div_ceil (offset + length bytes) BLOB_CHUNK_BYTES"
  shows "\<exists>b'. blob_write offset bytes b = Some (Ok b') \<and> blob_ok b' \<and>
    to_vec b' = Some (overwrite (blob_bytes b @ replicate (offset + length bytes - bl_len b) 0) offset bytes)"
proof -
  define stop where "stop = offset + length bytes"
  define m where "m = max (bl_len b) stop"
  define chunks where "chunks = resize (div_ceil stop BLOB_CHUNK_BYTES) zero_chunk (bl_chunks b)"
  obtain b' where b': "blob_write offset bytes b = Some (Ok b')" "bl_len b' = m"
    "uniform_pieces BLOB_CHUNK_BYTES (bl_chunks b')" "length (bl_chunks b') = div_ceil stop BLOB_CHUNK_BYTES"
    "concat (bl_chunks b') = overwrite (concat chunks) offset bytes"
    using blob_write_chunks [OF assms(1,2)] by (auto simp: chunks_def stop_def m_def)
  obtain k where k: "concat chunks = blob_bytes b @ replicate k 0"
  proof -
    obtain n where n: "drop (bl_len b) (concat (bl_chunks b)) = replicate n 0"
      using assms(1) by (auto simp: blob_ok_def)
    obtain l where "chunks = bl_chunks b @ replicate l zero_chunk"
      using assms(3) by (auto simp: chunks_def stop_def resize_def)
    then have "concat chunks = concat (bl_chunks b) @ replicate (l * BLOB_CHUNK_BYTES) 0"
      by (simp add: concat_replicate_zero_chunk)
    also have "concat (bl_chunks b) = blob_bytes b @ replicate n 0"
      using append_take_drop_id [of "bl_len b" "concat (bl_chunks b)"] n by (simp add: blob_bytes_def)
    finally show ?thesis using that [of "n + l * BLOB_CHUNK_BYTES"] by (simp add: replicate_add)
  qed
  have len: "length (concat chunks) = div_ceil stop BLOB_CHUNK_BYTES * BLOB_CHUNK_BYTES"
    using length_pieces [OF resize_chunks [OF blob_okD(1) [OF assms(1)]]] by (simp add: chunks_def)
  have fit: "stop \<le> length (concat chunks)" "length (blob_bytes b) = bl_len b"
    using div_ceil_ge [OF chunk_pos, of stop] blob_okD(2) [OF assms(1)] by (simp_all add: len blob_bytes_def)
  have m: "offset + length bytes \<le> m" "m \<le> length (concat chunks)"
    using fit k by (auto simp: m_def stop_def)
  have pad: "take m (concat chunks) = blob_bytes b @ replicate (stop - bl_len b) 0"
    using fit k m(2) by (auto simp: m_def max_def min_def)
  have "blob_ok b'"
    using b'(2,3,4) m(2) len fit(2) k drop_overwrite [OF m] unfolding blob_ok_def b'(5)
    by (auto simp: allocated_bytes_def m_def drop_append intro: exI)
  moreover have "blob_bytes b' = overwrite (blob_bytes b @ replicate (stop - bl_len b) 0) offset bytes"
    unfolding blob_bytes_def [of b'] b'(2,5) take_overwrite [OF m] pad by simp
  ultimately show ?thesis using b'(1) by (simp add: to_vec_bytes blob_ok_whole stop_def)
qed

theorem blob_write_extends_witness:
  "\<exists>b'. blob_write 2 [7, 8] (from_bytes [1, 2, 3]) = Some (Ok b') \<and> to_vec b' = Some [1, 2, 7, 8]"
proof -
  have "length (bl_chunks (from_bytes [1, 2, 3])) \<le> div_ceil (2 + length [7, 8 :: u8]) BLOB_CHUNK_BYTES"
    by (simp add: from_bytes_def blob_replace_def Let_def div_ceil_def BLOB_CHUNK_BYTES_def)
  from blob_write_extends [OF from_bytes_ok(1) _ this] show ?thesis
    by (auto simp: usize_limit_def overwrite_def)
qed

text \<open>
  C37: a write below the last chunk loses data. \<^verbatim>\<open>write\<close> resizes the chunk array to the end of the
  written range but keeps the larger length, so whenever the range ends before the last chunk the
  write reports success, the length is unchanged, and reading the last byte indexes past the
  chunks.
\<close>

theorem blob_write_truncates:
  assumes "blob_ok b"
    and "div_ceil (offset + length bytes) BLOB_CHUNK_BYTES < div_ceil (bl_len b) BLOB_CHUNK_BYTES"
    and "bl_len b < usize_limit"
  shows "\<exists>b'. blob_write offset bytes b = Some (Ok b') \<and> bl_len b' = bl_len b \<and> blob_read b' (bl_len b - 1) [x] = None"
proof -
  define stop where "stop = offset + length bytes"
  define k where "k = div_ceil stop BLOB_CHUNK_BYTES"
  have short: "k * BLOB_CHUNK_BYTES < bl_len b"
    using assms(2) div_ceil_le [OF chunk_pos, of "bl_len b" k] by (simp add: k_def stop_def)
  then have stop: "stop < bl_len b" using div_ceil_ge [OF chunk_pos, of stop] by (simp add: k_def)
  then obtain b' where b': "blob_write offset bytes b = Some (Ok b')" "bl_len b' = bl_len b" "length (bl_chunks b') = k"
    using blob_write_chunks [OF assms(1), of offset bytes] assms(3) by (auto simp: stop_def k_def)
  have "k * BLOB_CHUNK_BYTES \<le> bl_len b - 1" using short by simp
  then have "k \<le> (bl_len b - 1) div BLOB_CHUNK_BYTES" by (simp add: less_eq_div_iff_mult_less_eq)
  then have "blob_read b' (bl_len b - 1) [x] = None"
    using b' stop by (simp add: blob_read_def read_loop.simps [of _ _ "Suc 0"] Let_def)
  then show ?thesis using b' by blast
qed

theorem blob_write_truncates_witness:
  "\<exists>b'. blob_write 0 [1] (from_bytes (replicate 5000 0)) = Some (Ok b') \<and> bl_len b' = 5000 \<and> blob_read b' 4999 [0] = None"
  using blob_write_truncates [OF from_bytes_ok(1) [of "replicate 5000 0"], of 0 "[1]" 0]
  by (simp add: div_ceil_def BLOB_CHUNK_BYTES_def usize_limit_def)

end
