(* ===== verification/Exp_Fs.thy ===== *)
theory Exp_Fs
  imports Cfc Blob
begin

text \<open>
  The CFC database (\<^verbatim>\<open>expfs.rs\<close>): typed system records and Form contents, staged in a transaction and
  published together under one journal sequence. \<open>None\<close> is the panic of \<^verbatim>\<open>expect\<close>. The lemmas refine the
  two slot tables to append-only logs in which every key has at most one record per revision.
\<close>

section \<open>Model\<close>

definition MAX_RECORDS :: nat where
  "MAX_RECORDS = 32"

definition MAX_STAGED :: nat where
  "MAX_STAGED = 8"

definition MAX_SYSTEM_RECORDS :: nat where
  "MAX_SYSTEM_RECORDS = 64"

definition MAX_STAGED_SYSTEM_RECORDS :: nat where
  "MAX_STAGED_SYSTEM_RECORDS = 16"

definition FORM_CONTENT_CAPACITY :: nat where
  "FORM_CONTENT_CAPACITY = DEFAULT_FORM_BLOB_QUOTA"

definition CFC_CONTENT_CAPACITY :: nat where
  "CFC_CONTENT_CAPACITY = DEFAULT_CFC_BLOB_QUOTA"

definition SYSTEM_RECORD_CAPACITY :: nat where
  "SYSTEM_RECORD_CAPACITY = 512"

datatype record_kind =
    RkCfc
  | RkPrimaryDimension
  | RkDimension
  | RkForm
  | RkRelationship
  | RkPimp
  | RkCapability
  | RkAccount
  | RkRevision
  | RkSetting
  | RkCheckpoint

record record_key =
  rk_kind :: record_kind
  rk_identity :: fin
  rk_dimension :: fin

record system_record =
  sr_cfc :: cfc_fin
  sr_key :: record_key
  sr_revision :: u32
  sr_journal_sequence :: u32
  sr_payload :: "u8 list"
  sr_len :: u16

definition record_bytes :: "system_record \<Rightarrow> u8 list" where
  "record_bytes r = take (unat (sr_len r)) (sr_payload r)"

record persistent_form =
  pf_cfc :: cfc_fin
  pf_form :: fin
  pf_dimension :: fin
  pf_revision :: u32
  pf_journal_sequence :: u32
  pf_blob :: chunked_blob

definition pf_content :: "persistent_form \<Rightarrow> u8 list option" where
  "pf_content r = to_vec (pf_blob r)"

definition content_len :: "persistent_form \<Rightarrow> nat" where
  "content_len r = bl_len (pf_blob r)"

definition pf_read :: "persistent_form \<Rightarrow> nat \<Rightarrow> u8 list \<Rightarrow> (nat \<times> u8 list) option" where
  "pf_read r offset out = blob_read (pf_blob r) offset out"

datatype storage_error =
    StorageFull
  | EmptyTransaction
  | InvalidRecord
  | ContentTooLarge
  | CfcQuotaExceeded
  | DuplicateRecord
  | DuplicateKey
  | StaleRevision
  | SequenceExhausted
  | WrongCfc
  | UnownedForm
  | UnownedDimension

record transaction =
  tx_cfc :: cfc
  tx_records :: "persistent_form slots"
  tx_system_records :: "system_record slots"

definition stage_record ::
  "record_key \<Rightarrow> u32 \<Rightarrow> u8 list \<Rightarrow> transaction \<Rightarrow> (storage_error, transaction) result" where
  "stage_record key revision bytes t =
     (if is_zero (rk_identity key) \<or> revision = 0 then Err InvalidRecord
      else if length bytes > SYSTEM_RECORD_CAPACITY then Err ContentTooLarge
      else if \<not> is_zero (rk_dimension key) \<and> \<not> owns_dimension (tx_cfc t) (rk_dimension key)
        then Err UnownedDimension
      else if rk_kind key \<in> {RkForm, RkCapability, RkPimp} \<and> \<not> owns_form (tx_cfc t) (rk_identity key)
        then Err UnownedForm
      else if list_ex (\<lambda>r. sr_key r = key) (flatten (tx_system_records t)) then Err DuplicateKey
      else
        let payload = overwrite (replicate SYSTEM_RECORD_CAPACITY 0) 0 bytes;
            r = \<lparr>sr_cfc = c_fin (tx_cfc t), sr_key = key, sr_revision = revision, sr_journal_sequence = 0,
              sr_payload = payload, sr_len = of_nat (length bytes)\<rparr>
        in (case fill_slot r (tx_system_records t) of
          None \<Rightarrow> Err StorageFull
        | Some slots \<Rightarrow> Ok (t\<lparr>tx_system_records := slots\<rparr>)))"

definition stage_content ::
  "fin \<Rightarrow> fin \<Rightarrow> u32 \<Rightarrow> u8 list \<Rightarrow> transaction \<Rightarrow> (storage_error, transaction) result" where
  "stage_content form dimension revision bytes t =
     (if is_zero form \<or> is_zero dimension \<or> revision = 0 then Err InvalidRecord
      else if \<not> owns_form (tx_cfc t) form then Err UnownedForm
      else if \<not> owns_dimension (tx_cfc t) dimension then Err UnownedDimension
      else if length bytes > FORM_CONTENT_CAPACITY then Err ContentTooLarge
      else if list_ex (\<lambda>r. pf_form r = form \<and> pf_dimension r = dimension) (flatten (tx_records t))
        then Err DuplicateRecord
      else
        let r = \<lparr>pf_cfc = c_fin (tx_cfc t), pf_form = form, pf_dimension = dimension, pf_revision = revision,
              pf_journal_sequence = 0, pf_blob = from_bytes bytes\<rparr>
        in (case fill_slot r (tx_records t) of
          None \<Rightarrow> Err StorageFull
        | Some slots \<Rightarrow> Ok (t\<lparr>tx_records := slots\<rparr>)))"

definition stage_form :: "fin \<Rightarrow> fin \<Rightarrow> u32 \<Rightarrow> transaction \<Rightarrow> (storage_error, transaction) result" where
  "stage_form form dimension revision t = stage_content form dimension revision [] t"

record exp_fs =
  fs_cfc :: cfc
  fs_records :: "persistent_form slots"
  fs_system_records :: "system_record slots"
  fs_next_sequence :: u32

definition fs_new :: "cfc \<Rightarrow> exp_fs option" where
  "fs_new c = (case validate c of
       Err _ \<Rightarrow> None
     | Ok _ \<Rightarrow> Some \<lparr>fs_cfc = c, fs_records = empty_slots MAX_RECORDS,
         fs_system_records = empty_slots MAX_SYSTEM_RECORDS, fs_next_sequence = 1\<rparr>)"

definition fs_begin :: "exp_fs \<Rightarrow> transaction" where
  "fs_begin s = \<lparr>tx_cfc = fs_cfc s, tx_records = empty_slots MAX_STAGED,
     tx_system_records = empty_slots MAX_STAGED_SYSTEM_RECORDS\<rparr>"

definition latest :: "exp_fs \<Rightarrow> fin \<Rightarrow> fin \<Rightarrow> persistent_form option" where
  "latest s form dimension =
     max_by_key pf_revision (filter (\<lambda>r. pf_form r = form \<and> pf_dimension r = dimension) (flatten (fs_records s)))"

definition latest_record :: "exp_fs \<Rightarrow> record_key \<Rightarrow> system_record option" where
  "latest_record s key = max_by_key sr_revision (filter (\<lambda>r. sr_key r = key) (flatten (fs_system_records s)))"

definition records_at :: "exp_fs \<Rightarrow> u32 \<Rightarrow> system_record list" where
  "records_at s sequence =
     filter (\<lambda>r. sr_journal_sequence r \<le> sequence \<and>
       \<not> list_ex (\<lambda>candidate. sr_key candidate = sr_key r \<and> sr_journal_sequence candidate \<le> sequence \<and>
           sr_revision candidate > sr_revision r) (flatten (fs_system_records s)))
       (flatten (fs_system_records s))"

definition stale_form :: "exp_fs \<Rightarrow> persistent_form \<Rightarrow> bool" where
  "stale_form s r = (case latest s (pf_form r) (pf_dimension r) of
     None \<Rightarrow> False | Some previous \<Rightarrow> pf_revision previous \<ge> pf_revision r)"

definition stale_record :: "exp_fs \<Rightarrow> system_record \<Rightarrow> bool" where
  "stale_record s r = (case latest_record s (sr_key r) of
     None \<Rightarrow> False | Some previous \<Rightarrow> sr_revision previous \<ge> sr_revision r)"

definition is_current :: "exp_fs \<Rightarrow> persistent_form \<Rightarrow> bool" where
  "is_current s r = (case latest s (pf_form r) (pf_dimension r) of
     None \<Rightarrow> False | Some l \<Rightarrow> pf_revision l = pf_revision r)"

definition retained_bytes :: "exp_fs \<Rightarrow> persistent_form list \<Rightarrow> nat" where
  "retained_bytes s staged = sum_list (map content_len
     (filter (\<lambda>r. is_current s r \<and>
        \<not> list_ex (\<lambda>n. pf_form n = pf_form r \<and> pf_dimension n = pf_dimension r) staged)
       (flatten (fs_records s))))"

text \<open>The publishing loops: each record is stamped and put into the first free slot.\<close>

fun publish_records :: "('a \<Rightarrow> 'a) \<Rightarrow> 'a list \<Rightarrow> 'a slots \<Rightarrow> 'a slots option" where
  "publish_records stamp [] slots = Some slots"
| "publish_records stamp (r # rs) slots =
     (case fill_slot (stamp r) slots of None \<Rightarrow> None | Some slots' \<Rightarrow> publish_records stamp rs slots')"

definition fs_commit :: "transaction \<Rightarrow> exp_fs \<Rightarrow> (storage_error, u32 \<times> exp_fs) result option" where
  "fs_commit t s =
     (let staged = flatten (tx_records t); staged_system = flatten (tx_system_records t) in
      if tx_cfc t \<noteq> fs_cfc s then Some (Err WrongCfc)
      else if length staged = 0 \<and> length staged_system = 0 then Some (Err EmptyTransaction)
      else if length staged > free_count (fs_records s) then Some (Err StorageFull)
      else if length staged_system > free_count (fs_system_records s) then Some (Err StorageFull)
      else if list_ex (stale_form s) staged then Some (Err StaleRevision)
      else if min (retained_bytes s staged + sum_list (map content_len staged)) (usize_limit - 1) > CFC_CONTENT_CAPACITY
        then Some (Err CfcQuotaExceeded)
      else if list_ex (stale_record s) staged_system then Some (Err StaleRevision)
      else (case checked_add (fs_next_sequence s) 1 of
        None \<Rightarrow> Some (Err SequenceExhausted)
      | Some next_sequence \<Rightarrow>
          let sequence = fs_next_sequence s in
          (case publish_records (\<lambda>r. r\<lparr>pf_journal_sequence := sequence\<rparr>) staged (fs_records s) of
            None \<Rightarrow> None
          | Some records \<Rightarrow>
              (case publish_records (\<lambda>r. r\<lparr>sr_journal_sequence := sequence\<rparr>) staged_system (fs_system_records s) of
                None \<Rightarrow> None
              | Some system_records \<Rightarrow> Some (Ok (sequence, s\<lparr>fs_next_sequence := next_sequence,
                  fs_records := records, fs_system_records := system_records\<rparr>))))))"

section \<open>Slot tables as logs\<close>

definition log_slots :: "nat \<Rightarrow> 'a list \<Rightarrow> 'a slots" where
  "log_slots n xs = map Some xs @ empty_slots (n - length xs)"

definition log_wf :: "nat \<Rightarrow> 'a slots \<Rightarrow> bool" where
  "log_wf n slots \<longleftrightarrow> slots = log_slots n (flatten slots) \<and> length (flatten slots) \<le> n"

lemma flatten_log_slots [simp]: "flatten (log_slots n xs) = xs"
  by (simp add: log_slots_def)

lemma log_wf_log_slots [simp]: "log_wf n (log_slots n xs) \<longleftrightarrow> length xs \<le> n"
  by (simp add: log_wf_def)

lemma log_wf_empty [simp]: "log_wf n (empty_slots n)"
  by (simp add: log_wf_def log_slots_def)

lemma fill_log_slots: "length xs < n \<Longrightarrow> fill_slot x (log_slots n xs) = Some (log_slots n (xs @ [x]))"
proof -
  assume "length xs < n"
  then obtain k where k: "n - length xs = Suc k" "n - Suc (length xs) = k" by (cases "n - length xs") auto
  show ?thesis using fill_slot_at [of "map Some xs" x "empty_slots k"]
    by (auto simp: log_slots_def k empty_slots_Suc)
qed

lemma publish_log_slots:
  "length xs + length rs \<le> n \<Longrightarrow> publish_records stamp rs (log_slots n xs) = Some (log_slots n (xs @ map stamp rs))"
  by (induction rs arbitrary: xs) (simp_all add: fill_log_slots)

lemma free_log_slots: "length xs \<le> n \<Longrightarrow> free_count (log_slots n xs) = n - length xs"
  using length_flatten [of "log_slots n xs"] by (simp add: log_slots_def)

lemma publish_records_room: "length rs \<le> free_count slots \<Longrightarrow> \<exists>slots'. publish_records stamp rs slots = Some slots'"
proof (induction rs arbitrary: slots)
  case (Cons r rs)
  then have "fill_slot (stamp r) slots \<noteq> None"
    unfolding fill_slot_full using length_flatten [of slots] by auto
  then obtain slots' where "fill_slot (stamp r) slots = Some slots'" by auto
  moreover from this have "length rs \<le> free_count slots'" using Cons.prems fill_slot_free by fastforce
  ultimately show ?case using Cons.IH by simp
qed simp

text \<open>
  A log in which records of one key carry different revisions, and what its newest record is after
  a batch of newer records is appended.
\<close>

locale versioned_log =
  fixes log :: "'s \<Rightarrow> 'a list" and key :: "'a \<Rightarrow> 'k" and rev_of :: "'a \<Rightarrow> u32" and newest :: "'s \<Rightarrow> 'k \<Rightarrow> 'a option"
  assumes newest_max: "newest s k = max_by_key rev_of (filter (\<lambda>r. key r = k) (log s))"
begin

lemma newest_None: "newest s k = None \<longleftrightarrow> k \<notin> key ` set (log s)"
  by (auto simp: newest_max filter_empty_conv)

lemma newest_Some: "newest s k = Some x \<Longrightarrow> x \<in> set (log s) \<and> key x = k \<and> (\<forall>y\<in>set (log s). key y = k \<longrightarrow> rev_of y \<le> rev_of x)"
  unfolding newest_max by (drule max_by_key_Some) auto

lemma newest_append_other: "k \<notin> key ` set ys \<Longrightarrow> log s' = log s @ ys \<Longrightarrow> newest s' k = newest s k"
proof -
  assume "k \<notin> key ` set ys" and s': "log s' = log s @ ys"
  then have "filter (\<lambda>r. key r = k) ys = []" by (auto simp: filter_empty_conv)
  then show ?thesis by (simp add: newest_max s')
qed

lemma newest_append_new:
  assumes "log s' = log s @ ys" and "distinct (map key ys)" and "y \<in> set ys"
    and newer: "\<forall>x\<in>set (log s). key x = key y \<longrightarrow> rev_of x < rev_of y"
  shows "newest s' (key y) = Some y"
proof -
  have "z = y" if "z \<in> set ys" "key z = key y" for z
    using that assms(2,3) by (auto simp: distinct_map inj_on_def)
  then show ?thesis unfolding newest_max using assms(1,3) newer by (intro max_by_key_unique) auto
qed

lemma newest_append:
  assumes "log s' = log s @ ys" and "distinct (map key ys)"
    and newer: "\<forall>y\<in>set ys. \<forall>x\<in>set (log s). key x = key y \<longrightarrow> rev_of x < rev_of y"
  shows "newest s' k = (case find (\<lambda>y. key y = k) ys of Some y \<Rightarrow> Some y | None \<Rightarrow> newest s k)"
proof (cases "find (\<lambda>y. key y = k) ys")
  case None
  then have "k \<notin> key ` set ys" by (auto simp: find_None_iff)
  then show ?thesis using None newest_append_other [OF _ assms(1)] by simp
next
  case (Some y)
  then have "y \<in> set ys" "key y = k" using find_SomeD [OF Some] by auto
  then show ?thesis using Some newest_append_new [OF assms(1,2)] newer by auto
qed

lemma newer_than_newest:
  assumes "\<not> (case newest s (key y) of None \<Rightarrow> False | Some p \<Rightarrow> rev_of p \<ge> rev_of y)"
  shows "\<forall>x\<in>set (log s). key x = key y \<longrightarrow> rev_of x < rev_of y"
proof (cases "newest s (key y)")
  case None
  then show ?thesis using newest_None by (metis image_eqI)
next
  case (Some p)
  then show ?thesis using assms newest_Some [OF Some] by (auto simp: not_le intro: le_less_trans)
qed

end

interpretation form_log: versioned_log "\<lambda>s. flatten (fs_records s)" "\<lambda>r. (pf_form r, pf_dimension r)" pf_revision
  "\<lambda>s (form, dimension). latest s form dimension"
  by unfold_locales (auto simp: latest_def)

interpretation record_log: versioned_log "\<lambda>s. flatten (fs_system_records s)" sr_key sr_revision latest_record
  by unfold_locales (simp add: latest_record_def)

section \<open>Transactions\<close>

inductive tx_step :: "transaction \<Rightarrow> transaction \<Rightarrow> bool" where
  tx_record: "stage_record key revision bytes t = Ok t' \<Longrightarrow> tx_step t t'"
| tx_content: "stage_content form dimension revision bytes t = Ok t' \<Longrightarrow> tx_step t t'"

abbreviation form_key :: "persistent_form \<Rightarrow> fin \<times> fin" where
  "form_key r \<equiv> (pf_form r, pf_dimension r)"

definition form_ok :: "cfc \<Rightarrow> persistent_form \<Rightarrow> bool" where
  "form_ok c r \<longleftrightarrow> owns_form c (pf_form r) \<and> owns_dimension c (pf_dimension r) \<and> pf_cfc r = c_fin c \<and>
     blob_ok (pf_blob r) \<and> content_len r \<le> FORM_CONTENT_CAPACITY"

definition record_ok :: "cfc \<Rightarrow> system_record \<Rightarrow> bool" where
  "record_ok c r \<longleftrightarrow> sr_cfc r = c_fin c \<and> (is_zero (rk_dimension (sr_key r)) \<or> owns_dimension c (rk_dimension (sr_key r))) \<and>
     (rk_kind (sr_key r) \<in> {RkForm, RkCapability, RkPimp} \<longrightarrow> owns_form c (rk_identity (sr_key r))) \<and>
     length (record_bytes r) \<le> SYSTEM_RECORD_CAPACITY"

definition tx_inv :: "transaction \<Rightarrow> bool" where
  "tx_inv t \<longleftrightarrow> distinct (map form_key (flatten (tx_records t))) \<and> distinct (map sr_key (flatten (tx_system_records t))) \<and>
     (\<forall>r\<in>set (flatten (tx_records t)). form_ok (tx_cfc t) r) \<and>
     (\<forall>r\<in>set (flatten (tx_system_records t)). record_ok (tx_cfc t) r)"

lemmas slots_publish_distinct = keyed_table.publish_distinct [OF slots_keyed_table refl]

lemma stage_content_inv: "stage_content form dimension revision bytes t = Ok t' \<Longrightarrow> tx_inv t \<Longrightarrow> tx_inv t'"
proof -
  assume ok: "stage_content form dimension revision bytes t = Ok t'" and inv: "tx_inv t"
  define r where "r = \<lparr>pf_cfc = c_fin (tx_cfc t), pf_form = form, pf_dimension = dimension, pf_revision = revision,
    pf_journal_sequence = 0, pf_blob = from_bytes bytes\<rparr>"
  obtain slots where slots: "fill_slot r (tx_records t) = Some slots" and t': "t' = t\<lparr>tx_records := slots\<rparr>"
    and owned: "owns_form (tx_cfc t) form" "owns_dimension (tx_cfc t) dimension" "length bytes \<le> FORM_CONTENT_CAPACITY"
    and fresh: "form_key r \<notin> form_key ` set (flatten (tx_records t))"
    using ok by (fastforce simp: stage_content_def r_def list_ex_iff split: if_splits option.splits)
  have "form_ok (tx_cfc t) r" using owned by (simp add: form_ok_def r_def content_len_def)
  then show ?thesis using inv slots_publish_distinct [OF _ fresh slots] fill_slot_set [OF slots]
    by (simp add: tx_inv_def t')
qed

lemma stage_record_inv: "stage_record key revision bytes t = Ok t' \<Longrightarrow> tx_inv t \<Longrightarrow> tx_inv t'"
proof -
  assume ok: "stage_record key revision bytes t = Ok t'" and inv: "tx_inv t"
  define r where "r = \<lparr>sr_cfc = c_fin (tx_cfc t), sr_key = key, sr_revision = revision, sr_journal_sequence = 0,
    sr_payload = overwrite (replicate SYSTEM_RECORD_CAPACITY 0) 0 bytes, sr_len = of_nat (length bytes)\<rparr>"
  obtain slots where slots: "fill_slot r (tx_system_records t) = Some slots" and t': "t' = t\<lparr>tx_system_records := slots\<rparr>"
    and owned: "is_zero (rk_dimension key) \<or> owns_dimension (tx_cfc t) (rk_dimension key)"
      "rk_kind key \<in> {RkForm, RkCapability, RkPimp} \<longrightarrow> owns_form (tx_cfc t) (rk_identity key)"
      "length bytes \<le> SYSTEM_RECORD_CAPACITY"
    and fresh: "sr_key r \<notin> sr_key ` set (flatten (tx_system_records t))"
    using ok by (fastforce simp: stage_record_def r_def list_ex_iff split: if_splits option.splits)
  have "record_ok (tx_cfc t) r" using owned by (auto simp: record_ok_def r_def record_bytes_def)
  then show ?thesis using inv slots_publish_distinct [OF _ fresh slots] fill_slot_set [OF slots]
    by (simp add: tx_inv_def t')
qed

interpretation tx_system: invariant_system "\<lambda>t. t = fs_begin s" tx_step tx_inv
  for s
proof unfold_locales
  show "t = fs_begin s \<Longrightarrow> tx_inv t" for t by (simp add: fs_begin_def tx_inv_def)
  show "tx_inv t \<Longrightarrow> tx_step t t' \<Longrightarrow> tx_inv t'" for t t'
    by (auto elim!: tx_step.cases intro: stage_content_inv stage_record_inv)
qed

section \<open>Commits\<close>

definition log_ok :: "u32 \<Rightarrow> ('a \<Rightarrow> 'k \<times> u32) \<Rightarrow> ('a \<Rightarrow> u32) \<Rightarrow> 'a list \<Rightarrow> bool" where
  "log_ok next_sequence version sequence xs \<longleftrightarrow> distinct (map version xs) \<and> (\<forall>x\<in>set xs. sequence x < next_sequence)"

definition fs_inv :: "exp_fs \<Rightarrow> bool" where
  "fs_inv s \<longleftrightarrow> log_wf MAX_RECORDS (fs_records s) \<and> log_wf MAX_SYSTEM_RECORDS (fs_system_records s) \<and>
     (\<forall>r\<in>set (flatten (fs_records s)). form_ok (fs_cfc s) r) \<and>
     (\<forall>r\<in>set (flatten (fs_system_records s)). record_ok (fs_cfc s) r) \<and>
     log_ok (fs_next_sequence s) (\<lambda>r. (form_key r, pf_revision r)) pf_journal_sequence (flatten (fs_records s)) \<and>
     log_ok (fs_next_sequence s) (\<lambda>r. (sr_key r, sr_revision r)) sr_journal_sequence (flatten (fs_system_records s)) \<and>
     retained_bytes s [] \<le> CFC_CONTENT_CAPACITY"

abbreviation stamp_form :: "u32 \<Rightarrow> persistent_form \<Rightarrow> persistent_form" where
  "stamp_form q \<equiv> \<lambda>r. r\<lparr>pf_journal_sequence := q\<rparr>"

abbreviation stamp_record :: "u32 \<Rightarrow> system_record \<Rightarrow> system_record" where
  "stamp_record q \<equiv> \<lambda>r. r\<lparr>sr_journal_sequence := q\<rparr>"

lemma log_ok_append:
  assumes "log_ok q version sequence xs" and "q < q'" and "distinct (map (\<lambda>r. fst (version r)) ys)"
    and "\<forall>y\<in>set ys. sequence y = q"
    and "\<forall>y\<in>set ys. \<forall>x\<in>set xs. fst (version x) = fst (version y) \<longrightarrow> snd (version x) < snd (version y)"
  shows "log_ok q' version sequence (xs @ ys)"
proof -
  have "distinct (map version ys)" using assms(3) distinct_map [of fst "map version ys"] by (simp add: o_def)
  moreover have "version x \<noteq> version y" if "x \<in> set xs" "y \<in> set ys" for x y
    using assms(5) that by force
  then have "version ` set xs \<inter> version ` set ys = {}" by fastforce
  ultimately show ?thesis using assms(1,2,4) by (auto simp: log_ok_def dest: less_trans)
qed

lemma publish_log_wf:
  assumes "log_wf n slots" and "length rs \<le> free_count slots" and "publish_records stamp rs slots = Some slots'"
  shows "flatten slots' = flatten slots @ map stamp rs" "log_wf n slots'"
proof -
  have slots: "slots = log_slots n (flatten slots)" "length (flatten slots) \<le> n" using assms(1) by (simp_all add: log_wf_def)
  have room: "length (flatten slots) + length rs \<le> n"
    using assms(2) slots free_log_slots [OF slots(2)] by simp
  have "slots' = log_slots n (flatten slots @ map stamp rs)"
    using assms(3) publish_log_slots [OF room, of stamp] slots(1) by simp
  then show "flatten slots' = flatten slots @ map stamp rs" "log_wf n slots'" using room by simp_all
qed

lemma fs_commit_Ok:
  assumes "fs_commit t s = Some (Ok (q, s'))" and inv: "fs_inv s"
  shows "q = fs_next_sequence s" "q < fs_next_sequence s'" "fs_cfc s' = fs_cfc s" "tx_cfc t = fs_cfc s"
    "flatten (fs_records s') = flatten (fs_records s) @ map (stamp_form q) (flatten (tx_records t))"
    "flatten (fs_system_records s') = flatten (fs_system_records s) @ map (stamp_record q) (flatten (tx_system_records t))"
    "log_wf MAX_RECORDS (fs_records s')" "log_wf MAX_SYSTEM_RECORDS (fs_system_records s')"
    "\<forall>r\<in>set (flatten (tx_records t)). \<not> stale_form s r" "\<forall>r\<in>set (flatten (tx_system_records t)). \<not> stale_record s r"
    "retained_bytes s (flatten (tx_records t)) + sum_list (map content_len (flatten (tx_records t))) \<le> CFC_CONTENT_CAPACITY"
proof -
  obtain records system_records n where *:
    "length (flatten (tx_records t)) \<le> free_count (fs_records s)"
    "length (flatten (tx_system_records t)) \<le> free_count (fs_system_records s)"
    "publish_records (stamp_form q) (flatten (tx_records t)) (fs_records s) = Some records"
    "publish_records (stamp_record q) (flatten (tx_system_records t)) (fs_system_records s) = Some system_records"
    "s' = s\<lparr>fs_next_sequence := n, fs_records := records, fs_system_records := system_records\<rparr>"
    and n: "checked_add (fs_next_sequence s) 1 = Some n" and q: "q = fs_next_sequence s"
    and rest: "tx_cfc t = fs_cfc s" "\<not> list_ex (stale_form s) (flatten (tx_records t))"
      "\<not> list_ex (stale_record s) (flatten (tx_system_records t))"
      "\<not> min (retained_bytes s (flatten (tx_records t)) + sum_list (map content_len (flatten (tx_records t))))
         (usize_limit - 1) > CFC_CONTENT_CAPACITY"
    using assms(1) unfolding fs_commit_def Let_def
    by (simp only: not_less option.simps sum.simps prod.simps simp_thms split: if_split_asm option.split_asm) blast
  have wf: "log_wf MAX_RECORDS (fs_records s)" "log_wf MAX_SYSTEM_RECORDS (fs_system_records s)"
    using inv by (simp_all add: fs_inv_def)
  have nxt: "unat n = unat (fs_next_sequence s) + 1" using checked_add_unat [OF n] by simp
  show "q = fs_next_sequence s" "fs_cfc s' = fs_cfc s" "tx_cfc t = fs_cfc s"
    "\<forall>r\<in>set (flatten (tx_records t)). \<not> stale_form s r" "\<forall>r\<in>set (flatten (tx_system_records t)). \<not> stale_record s r"
    using q rest *(5) by (auto simp: list_ex_iff)
  show "q < fs_next_sequence s'" using nxt *(5) q by (simp add: word_less_nat_alt)
  show "flatten (fs_records s') = flatten (fs_records s) @ map (stamp_form q) (flatten (tx_records t))"
    "log_wf MAX_RECORDS (fs_records s')"
    using publish_log_wf [OF wf(1) *(1,3)] *(5) by simp_all
  show "flatten (fs_system_records s') = flatten (fs_system_records s) @ map (stamp_record q) (flatten (tx_system_records t))"
    "log_wf MAX_SYSTEM_RECORDS (fs_system_records s')"
    using publish_log_wf [OF wf(2) *(2,4)] *(5) by simp_all
  show "retained_bytes s (flatten (tx_records t)) + sum_list (map content_len (flatten (tx_records t))) \<le> CFC_CONTENT_CAPACITY"
    using rest(4) by (simp add: min_le_iff_disj CFC_CONTENT_CAPACITY_def DEFAULT_CFC_BLOB_QUOTA_def usize_limit_def)
qed

lemma fs_commit_never_panics: "fs_commit t s \<noteq> None"
proof -
  obtain a where a: "publish_records (stamp_form (fs_next_sequence s)) (flatten (tx_records t)) (fs_records s) = Some a"
    if "length (flatten (tx_records t)) \<le> free_count (fs_records s)"
    using publish_records_room by metis
  obtain b where b: "publish_records (stamp_record (fs_next_sequence s)) (flatten (tx_system_records t)) (fs_system_records s) = Some b"
    if "length (flatten (tx_system_records t)) \<le> free_count (fs_system_records s)"
    using publish_records_room by metis
  show ?thesis using a b by (auto simp: fs_commit_def Let_def split: option.splits)
qed

inductive fs_step :: "exp_fs \<Rightarrow> exp_fs \<Rightarrow> bool" where
  fs_committed: "reachable (\<lambda>t. t = fs_begin origin) tx_step t \<Longrightarrow> fs_commit t s = Some (Ok (q, s')) \<Longrightarrow> fs_step s s'"

definition fs_init :: "exp_fs \<Rightarrow> bool" where
  "fs_init s \<longleftrightarrow> (\<exists>c. fs_new c = Some s)"

lemma form_not_stale:
  "\<not> stale_form s r \<Longrightarrow> \<forall>x\<in>set (flatten (fs_records s)). form_key x = form_key r \<longrightarrow> pf_revision x < pf_revision r"
  using form_log.newer_than_newest [of r s] by (simp add: stale_form_def)

lemma record_not_stale:
  "\<not> stale_record s r \<Longrightarrow> \<forall>x\<in>set (flatten (fs_system_records s)). sr_key x = sr_key r \<longrightarrow> sr_revision x < sr_revision r"
  using record_log.newer_than_newest [of r s] by (simp add: stale_record_def)

lemma staged_forms_newer:
  assumes "tx_inv t" and "fs_inv s" and "fs_commit t s = Some (Ok (q, s'))"
  shows "distinct (map form_key (map (stamp_form q) (flatten (tx_records t))))"
    "\<forall>y\<in>set (map (stamp_form q) (flatten (tx_records t))). \<forall>x\<in>set (flatten (fs_records s)).
      form_key x = form_key y \<longrightarrow> pf_revision x < pf_revision y"
proof -
  show "distinct (map form_key (map (stamp_form q) (flatten (tx_records t))))"
    using assms(1) by (simp add: tx_inv_def o_def)
  have "form_key x = form_key r \<longrightarrow> pf_revision x < pf_revision r"
    if "r \<in> set (flatten (tx_records t))" "x \<in> set (flatten (fs_records s))" for r x
    using form_not_stale [of s r] fs_commit_Ok(9) [OF assms(3,2)] that by blast
  then show "\<forall>y\<in>set (map (stamp_form q) (flatten (tx_records t))). \<forall>x\<in>set (flatten (fs_records s)).
      form_key x = form_key y \<longrightarrow> pf_revision x < pf_revision y" by auto
qed

lemma staged_records_newer:
  assumes "tx_inv t" and "fs_inv s" and "fs_commit t s = Some (Ok (q, s'))"
  shows "distinct (map sr_key (map (stamp_record q) (flatten (tx_system_records t))))"
    "\<forall>y\<in>set (map (stamp_record q) (flatten (tx_system_records t))). \<forall>x\<in>set (flatten (fs_system_records s)).
      sr_key x = sr_key y \<longrightarrow> sr_revision x < sr_revision y"
proof -
  show "distinct (map sr_key (map (stamp_record q) (flatten (tx_system_records t))))"
    using assms(1) by (simp add: tx_inv_def o_def)
  have "sr_key x = sr_key r \<longrightarrow> sr_revision x < sr_revision r"
    if "r \<in> set (flatten (tx_system_records t))" "x \<in> set (flatten (fs_system_records s))" for r x
    using record_not_stale [of s r] fs_commit_Ok(10) [OF assms(3,2)] that by blast
  then show "\<forall>y\<in>set (map (stamp_record q) (flatten (tx_system_records t))). \<forall>x\<in>set (flatten (fs_system_records s)).
      sr_key x = sr_key y \<longrightarrow> sr_revision x < sr_revision y" by auto
qed

lemma latest_commit:
  assumes "tx_inv t" and "fs_inv s" and "fs_commit t s = Some (Ok (q, s'))"
  shows "latest s' form dimension =
    (case find (\<lambda>r. form_key r = (form, dimension)) (map (stamp_form q) (flatten (tx_records t))) of
      Some r \<Rightarrow> Some r | None \<Rightarrow> latest s form dimension)"
  using form_log.newest_append [OF fs_commit_Ok(5) [OF assms(3,2)] staged_forms_newer [OF assms],
    of "(form, dimension)"] unfolding prod.case .

lemma latest_record_commit:
  assumes "tx_inv t" and "fs_inv s" and "fs_commit t s = Some (Ok (q, s'))"
  shows "latest_record s' key =
    (case find (\<lambda>r. sr_key r = key) (map (stamp_record q) (flatten (tx_system_records t))) of
      Some r \<Rightarrow> Some r | None \<Rightarrow> latest_record s key)"
  by (rule record_log.newest_append [OF fs_commit_Ok(6) [OF assms(3,2)] staged_records_newer [OF assms]])

text \<open>A commit retires the versions it replaces, so the bytes in use are what its quota check summed up.\<close>

lemma is_current_commit:
  assumes "tx_inv t" and "fs_inv s" and "fs_commit t s = Some (Ok (q, s'))"
  defines "ys \<equiv> map (stamp_form q) (flatten (tx_records t))"
  shows "r \<in> set (flatten (fs_records s)) \<Longrightarrow>
      is_current s' r \<longleftrightarrow> is_current s r \<and> form_key r \<notin> form_key ` set ys"
    and "r \<in> set ys \<Longrightarrow> is_current s' r"
proof -
  note new = latest_commit [OF assms(1-3), folded ys_def]
    and newer = staged_forms_newer [OF assms(1-3), folded ys_def]
  show "is_current s' r \<longleftrightarrow> is_current s r \<and> form_key r \<notin> form_key ` set ys"
    if r: "r \<in> set (flatten (fs_records s))"
  proof (cases "find (\<lambda>y. form_key y = form_key r) ys")
    case None
    then have "form_key r \<notin> form_key ` set ys" by (rule find_key_None [THEN iffD1])
    then show ?thesis using None new [of "pf_form r" "pf_dimension r"] by (simp add: is_current_def)
  next
    case (Some y)
    note y = find_key_Some [of form_key, OF Some]
    then have "form_key r \<in> form_key ` set ys" by blast
    moreover have "pf_revision r < pf_revision y"
      using newer(2) [THEN bspec, OF y [THEN conjunct1], THEN bspec, OF r] y by simp
    ultimately show ?thesis using Some new [of "pf_form r" "pf_dimension r"] by (simp add: is_current_def)
  qed
  show "is_current s' r" if r: "r \<in> set ys"
  proof -
    have older: "\<forall>x\<in>set (flatten (fs_records s)). form_key x = form_key r \<longrightarrow> pf_revision x < pf_revision r"
      using newer(2) r by blast
    show ?thesis using form_log.newest_append_new [OF _ newer(1) r older, of s'] fs_commit_Ok(5) [OF assms(3,2)]
      by (simp add: is_current_def ys_def)
  qed
qed

lemma retained_commit:
  assumes "tx_inv t" and "fs_inv s" and "fs_commit t s = Some (Ok (q, s'))"
  shows "retained_bytes s' [] =
    retained_bytes s (flatten (tx_records t)) + sum_list (map content_len (flatten (tx_records t)))"
proof -
  define ys where "ys = map (stamp_form q) (flatten (tx_records t))"
  note cur = is_current_commit [OF assms, folded ys_def]
  have "form_key ` set ys = form_key ` set (flatten (tx_records t))" by (force simp: ys_def image_iff)
  then have named: "list_ex (\<lambda>n. pf_form n = pf_form r \<and> pf_dimension n = pf_dimension r) (flatten (tx_records t)) \<longleftrightarrow>
      form_key r \<in> form_key ` set ys" for r
    using list_ex_key [of form_key "form_key r" "flatten (tx_records t)"] by simp
  have "filter (\<lambda>r. is_current s r \<and> \<not> list_ex (\<lambda>n. pf_form n = pf_form r \<and> pf_dimension n = pf_dimension r)
      (flatten (tx_records t))) (flatten (fs_records s)) = filter (is_current s') (flatten (fs_records s))"
    unfolding named by (rule filter_cong [OF refl]) (simp add: cur(1))
  then have "retained_bytes s (flatten (tx_records t)) =
      sum_list (map content_len (filter (is_current s') (flatten (fs_records s))))"
    by (simp add: retained_bytes_def)
  moreover have "filter (is_current s') ys = ys" using cur(2) by (simp add: filter_id_conv)
  moreover have "map content_len ys = map content_len (flatten (tx_records t))"
    by (simp add: ys_def content_len_def)
  ultimately show ?thesis using fs_commit_Ok(5) [OF assms(3,2), folded ys_def]
    by (simp add: retained_bytes_def)
qed

lemma fs_step_inv: "fs_inv s \<Longrightarrow> fs_step s s' \<Longrightarrow> fs_inv s'"
proof (elim fs_step.cases, clarsimp)
  fix origin t q
  assume inv: "fs_inv s" and "reachable (\<lambda>t. t = fs_begin origin) tx_step t" and c: "fs_commit t s = Some (Ok (q, s'))"
  then have tx: "tx_inv t" by (auto intro: tx_system.reachable_inv)
  note ok = fs_commit_Ok [OF c inv]
  have logs: "log_ok q (\<lambda>r. (form_key r, pf_revision r)) pf_journal_sequence (flatten (fs_records s))"
    "log_ok q (\<lambda>r. (sr_key r, sr_revision r)) sr_journal_sequence (flatten (fs_system_records s))"
    using inv ok(1) by (simp_all add: fs_inv_def)
  have "log_ok (fs_next_sequence s') (\<lambda>r. (form_key r, pf_revision r)) pf_journal_sequence (flatten (fs_records s'))"
    unfolding ok(5) by (rule log_ok_append [OF logs(1) ok(2)]) (use staged_forms_newer [OF tx inv c] in simp_all)
  moreover have "log_ok (fs_next_sequence s') (\<lambda>r. (sr_key r, sr_revision r)) sr_journal_sequence (flatten (fs_system_records s'))"
    unfolding ok(6) by (rule log_ok_append [OF logs(2) ok(2)]) (use staged_records_newer [OF tx inv c] in simp_all)
  moreover have "\<forall>r\<in>set (flatten (fs_records s')). form_ok (fs_cfc s') r"
    unfolding ok(3,5) using inv tx ok(4) by (auto simp: fs_inv_def tx_inv_def form_ok_def content_len_def)
  moreover have "\<forall>r\<in>set (flatten (fs_system_records s')). record_ok (fs_cfc s') r"
    unfolding ok(3,6) using inv tx ok(4) by (auto simp: fs_inv_def tx_inv_def record_ok_def record_bytes_def)
  ultimately show "fs_inv s'" using ok(7,8,11) retained_commit [OF tx inv c] by (simp add: fs_inv_def)
qed

lemma fs_new_Some:
  "fs_new c = Some s \<Longrightarrow> s = \<lparr>fs_cfc = c, fs_records = empty_slots MAX_RECORDS,
    fs_system_records = empty_slots MAX_SYSTEM_RECORDS, fs_next_sequence = 1\<rparr>"
  by (cases "validate c") (auto simp: fs_new_def)

lemma fs_init_inv: "fs_init s \<Longrightarrow> fs_inv s"
  by (auto simp: fs_init_def fs_inv_def log_ok_def retained_bytes_def dest!: fs_new_Some)

interpretation fs_system: invariant_system fs_init fs_step fs_inv
  by unfold_locales (rule fs_init_inv, assumption, rule fs_step_inv)

lemma fs_stepE:
  assumes "fs_step s s'" and "fs_inv s"
  obtains t q where "tx_inv t" "fs_commit t s = Some (Ok (q, s'))"
  using assms(1) by (cases rule: fs_step.cases) (auto dest: tx_system.reachable_inv)

lemma records_at_step:
  assumes "fs_step s s'" and inv: "fs_inv s" and "q < fs_next_sequence s"
  shows "records_at s' q = records_at s q" "q < fs_next_sequence s'"
proof -
  obtain t n where t: "tx_inv t" "fs_commit t s = Some (Ok (n, s'))" using assms(1,2) by (rule fs_stepE)
  note ok = fs_commit_Ok [OF t(2) inv]
  define ys where "ys = map (stamp_record n) (flatten (tx_system_records t))"
  have late: "\<not> sr_journal_sequence y \<le> q" if "y \<in> set ys" for y
    using that assms(3) ok(1) by (auto simp: ys_def)
  have "\<not> list_ex (\<lambda>y. sr_key y = k \<and> sr_journal_sequence y \<le> q \<and> sr_revision y > v) ys" for k v
    using late by (auto simp: list_ex_iff)
  moreover have "filter (\<lambda>y. sr_journal_sequence y \<le> q \<and> P y) ys = []" for P
    using late by (auto simp: filter_empty_conv)
  ultimately show "records_at s' q = records_at s q"
    unfolding records_at_def ok(6) ys_def [symmetric] by simp
  show "q < fs_next_sequence s'" using ok(1,2) assms(3) by simp
qed

lemma records_at_keys: "fs_inv s \<Longrightarrow> distinct (map sr_key (records_at s q))"
proof -
  assume "fs_inv s"
  then have d: "distinct (map (\<lambda>r. (sr_key r, sr_revision r)) (flatten (fs_system_records s)))"
    by (simp add: fs_inv_def log_ok_def)
  have "inj_on sr_key (set (records_at s q))"
  proof (rule inj_onI)
    fix x y
    assume *: "x \<in> set (records_at s q)" "y \<in> set (records_at s q)" "sr_key x = sr_key y"
    then have "sr_revision x = sr_revision y" by (auto simp: records_at_def list_ex_iff not_less antisym)
    then show "x = y" using * d by (auto simp: records_at_def distinct_map inj_on_def)
  qed
  then show ?thesis using d by (simp add: distinct_map records_at_def)
qed

lemma staged_content:
  assumes "stage_content form dimension revision bytes t = Ok t'" and "tx_inv t"
  shows "\<exists>r. find (\<lambda>r. form_key r = (form, dimension)) (map (stamp_form q) (flatten (tx_records t'))) = Some r \<and>
    pf_content r = Some bytes \<and> pf_revision r = revision \<and> pf_journal_sequence r = q"
proof -
  define r where "r = \<lparr>pf_cfc = c_fin (tx_cfc t), pf_form = form, pf_dimension = dimension, pf_revision = revision,
    pf_journal_sequence = 0, pf_blob = from_bytes bytes\<rparr>"
  obtain slots where slots: "fill_slot r (tx_records t) = Some slots" and t': "t' = t\<lparr>tx_records := slots\<rparr>"
    using assms(1) by (auto simp: stage_content_def r_def split: if_splits option.splits)
  then have r: "stamp_form q r \<in> set (map (stamp_form q) (flatten (tx_records t')))"
    using fill_slot_set [OF slots] by simp
  have "distinct (map form_key (map (stamp_form q) (flatten (tx_records t'))))"
    using stage_content_inv [OF assms] by (simp add: tx_inv_def o_def)
  from keyed_table.find_key [OF slots_keyed_table, of form_key "map Some (map (stamp_form q) (flatten (tx_records t')))"]
  have "find (\<lambda>x. form_key x = form_key (stamp_form q r)) (map (stamp_form q) (flatten (tx_records t'))) = Some (stamp_form q r)"
    using \<open>distinct _\<close> r by (simp only: flatten_map_Some)
  then show ?thesis by (simp add: r_def pf_content_def to_vec_bytes blob_ok_whole)
qed

section \<open>Properties\<close>

text \<open>A store of a small CFC, and two commits to it.\<close>

definition demo_key :: record_key where
  "demo_key = \<lparr>rk_kind = RkSetting, rk_identity = from_u128 5, rk_dimension = from_u128 10\<rparr>"

definition demo_fs :: exp_fs where
  "demo_fs = \<lparr>fs_cfc = demo_owner 1, fs_records = empty_slots MAX_RECORDS,
     fs_system_records = empty_slots MAX_SYSTEM_RECORDS, fs_next_sequence = 1\<rparr>"

definition demo_system_record :: "u32 \<Rightarrow> system_record" where
  "demo_system_record v = \<lparr>sr_cfc = cfc_from_u128 1, sr_key = demo_key, sr_revision = v, sr_journal_sequence = 0,
     sr_payload = replicate SYSTEM_RECORD_CAPACITY 0, sr_len = 0\<rparr>"

definition demo_form :: persistent_form where
  "demo_form = \<lparr>pf_cfc = cfc_from_u128 1, pf_form = from_u128 20, pf_dimension = from_u128 10, pf_revision = 1,
     pf_journal_sequence = 0, pf_blob = from_bytes [1, 2, 3]\<rparr>"

definition demo_tx :: "u32 \<Rightarrow> transaction" where
  "demo_tx v = (fs_begin demo_fs)\<lparr>tx_system_records := log_slots MAX_STAGED_SYSTEM_RECORDS [demo_system_record v]\<rparr>"

definition demo_tx2 :: transaction where
  "demo_tx2 = (demo_tx 1)\<lparr>tx_records := log_slots MAX_STAGED [demo_form]\<rparr>"

definition demo_fs1 :: exp_fs where
  "demo_fs1 = demo_fs\<lparr>fs_records := log_slots MAX_RECORDS [stamp_form 1 demo_form],
     fs_system_records := log_slots MAX_SYSTEM_RECORDS [stamp_record 1 (demo_system_record 1)], fs_next_sequence := 2\<rparr>"

definition demo_fs2 :: exp_fs where
  "demo_fs2 = demo_fs1\<lparr>fs_system_records := log_slots MAX_SYSTEM_RECORDS
     [stamp_record 1 (demo_system_record 1), stamp_record 2 (demo_system_record 2)], fs_next_sequence := 3\<rparr>"

lemma log_slots_Nil: "log_slots n [] = empty_slots n"
  by (simp add: log_slots_def)

lemmas fill_demo = fill_log_slots [of "[]", simplified log_slots_Nil append_Nil list.size]

lemma demo_fs_staged:
  "v \<noteq> 0 \<Longrightarrow> stage_record demo_key v [] (fs_begin demo_fs) = Ok (demo_tx v)"
  "stage_content (from_u128 20) (from_u128 10) 1 [1, 2, 3] (demo_tx 1) = Ok demo_tx2"
proof -
  show "stage_record demo_key v [] (fs_begin demo_fs) = Ok (demo_tx v)" if "v \<noteq> 0"
    using that fill_demo [of MAX_STAGED_SYSTEM_RECORDS "demo_system_record v"]
    by (simp add: stage_record_def demo_key_def fs_begin_def demo_fs_def demo_tx_def owns_dimension_iff demo_system_record_def
        demo_owner_def demo_cfc_def MAX_STAGED_SYSTEM_RECORDS_def)
  show "stage_content (from_u128 20) (from_u128 10) 1 [1, 2, 3] (demo_tx 1) = Ok demo_tx2"
    using fill_demo [of MAX_STAGED demo_form]
    by (simp add: stage_content_def fs_begin_def demo_fs_def demo_tx_def demo_tx2_def demo_form_def owns_form_iff
        owns_dimension_iff demo_owner_def demo_cfc_def MAX_STAGED_def FORM_CONTENT_CAPACITY_def DEFAULT_FORM_BLOB_QUOTA_def)
qed

lemma demo_tx_reachable:
  "v \<noteq> 0 \<Longrightarrow> reachable (\<lambda>t. t = fs_begin demo_fs) tx_step (demo_tx v)"
  "reachable (\<lambda>t. t = fs_begin demo_fs) tx_step demo_tx2"
proof -
  show first: "reachable (\<lambda>t. t = fs_begin demo_fs) tx_step (demo_tx v)" if "v \<noteq> 0" for v
    using tx_step.tx_record [OF demo_fs_staged(1) [OF that]] by (rule reachable_step [OF reachable_start])
  show "reachable (\<lambda>t. t = fs_begin demo_fs) tx_step demo_tx2"
    using tx_step.tx_content [OF demo_fs_staged(2)] by (rule reachable_step [OF first [OF one_neq_zero]])
qed

lemma demo_commits:
  "fs_commit demo_tx2 demo_fs = Some (Ok (1, demo_fs1))"
  "fs_commit (demo_tx 2) demo_fs1 = Some (Ok (2, demo_fs2))"
proof -
  have room: "free_count (empty_slots n) = n" for n by (simp add: empty_slots_def free_count_def)
  note defs = fs_commit_def Let_def demo_tx2_def demo_tx_def fs_begin_def demo_fs_def demo_fs1_def
    checked_add_def stale_form_def stale_record_def latest_def latest_record_def retained_bytes_def content_len_def
    MAX_RECORDS_def MAX_SYSTEM_RECORDS_def CFC_CONTENT_CAPACITY_def DEFAULT_CFC_BLOB_QUOTA_def usize_limit_def
  show "fs_commit demo_tx2 demo_fs = Some (Ok (1, demo_fs1))"
    using publish_log_slots [of "[]" "[demo_form]" MAX_RECORDS "stamp_form 1"]
      publish_log_slots [of "[]" "[demo_system_record 1]" MAX_SYSTEM_RECORDS "stamp_record 1"]
    by (simp add: defs room log_slots_Nil demo_form_def)
  show "fs_commit (demo_tx 2) demo_fs1 = Some (Ok (2, demo_fs2))"
    using publish_log_slots [of "[stamp_record 1 (demo_system_record 1)]" "[demo_system_record 2]" MAX_SYSTEM_RECORDS "stamp_record 2"]
    by (simp add: defs demo_fs2_def free_log_slots demo_form_def demo_system_record_def is_current_def word_le_nat_alt)
qed

lemma demo_fs_reachable: "reachable fs_init fs_step demo_fs" "reachable fs_init fs_step demo_fs1" "fs_step demo_fs1 demo_fs2"
proof -
  have "fs_init demo_fs" unfolding fs_init_def
    by (rule exI [of _ "demo_owner 1"]) (simp add: fs_new_def demo_owner_valid demo_fs_def)
  then show init: "reachable fs_init fs_step demo_fs" by (rule reachable_init)
  show "reachable fs_init fs_step demo_fs1"
    using fs_committed [OF demo_tx_reachable(2) demo_commits(1)] by (rule reachable_step [OF init])
  show "fs_step demo_fs1 demo_fs2" by (rule fs_committed [OF demo_tx_reachable(1) demo_commits(2)]) simp
qed

text \<open>
  C16: a commit never panics, and one that succeeds publishes every staged record as the newest of its
  key, stamped with the returned sequence, and changes the newest record of no other key.
\<close>

theorem expfs_commit_publishes:
  assumes "reachable fs_init fs_step s" and "reachable (\<lambda>t. t = fs_begin origin) tx_step t"
  shows "fs_commit t s \<noteq> None \<and>
    (fs_commit t s = Some (Ok (q, s')) \<longrightarrow>
      latest s' form dimension =
        (case find (\<lambda>r. form_key r = (form, dimension)) (map (stamp_form q) (flatten (tx_records t))) of
          Some r \<Rightarrow> Some r | None \<Rightarrow> latest s form dimension) \<and>
      latest_record s' key =
        (case find (\<lambda>r. sr_key r = key) (map (stamp_record q) (flatten (tx_system_records t))) of
          Some r \<Rightarrow> Some r | None \<Rightarrow> latest_record s key))"
  using fs_commit_never_panics latest_commit latest_record_commit
    tx_system.reachable_inv [OF assms(2)] fs_system.reachable_inv [OF assms(1)] by blast

theorem expfs_commit_publishes_witness:
  "latest demo_fs1 (from_u128 20) (from_u128 10) = Some (stamp_form 1 demo_form)"
  using expfs_commit_publishes [OF demo_fs_reachable(1) demo_tx_reachable(2), of 1 demo_fs1 "from_u128 20" "from_u128 10" demo_key]
  by (simp add: demo_commits(1)) (simp add: demo_tx2_def demo_form_def)

text \<open>
  Form contents survive the journal. Staging bytes for a Form in a Dimension and committing makes
  them, with their revision and the returned sequence, what the store holds for that pair.
\<close>

theorem expfs_content_roundtrip:
  assumes "reachable fs_init fs_step s" and "reachable (\<lambda>t. t = fs_begin origin) tx_step t"
    and "stage_content form dimension revision bytes t = Ok t'" and "fs_commit t' s = Some (Ok (q, s'))"
  shows "\<exists>r. latest s' form dimension = Some r \<and> pf_content r = Some bytes \<and> pf_revision r = revision \<and>
    pf_journal_sequence r = q"
proof -
  have tx: "tx_inv t" "tx_inv t'"
    using tx_system.reachable_inv [OF assms(2)] stage_content_inv [OF assms(3)] by auto
  have "fs_inv s" using assms(1) by (rule fs_system.reachable_inv)
  from latest_commit [OF tx(2) this assms(4)] staged_content [OF assms(3) tx(1), of q]
  show ?thesis by auto
qed

theorem expfs_content_roundtrip_witness:
  "\<exists>r. latest demo_fs1 (from_u128 20) (from_u128 10) = Some r \<and> pf_content r = Some [1, 2, 3] \<and> pf_revision r = 1 \<and>
    pf_journal_sequence r = 1"
  using demo_tx_reachable(1) [of 1]
  by (intro expfs_content_roundtrip [OF demo_fs_reachable(1) _ demo_fs_staged(2) demo_commits(1)]) simp

text \<open>
  C17: quota and ownership. In every reachable store the newest contents together fit the CFC's
  capacity, each fits a Form's, and all of them belong to Forms and Dimensions of the store's CFC.
\<close>

theorem expfs_within_quota:
  assumes "reachable fs_init fs_step s"
  shows "sum_list (map content_len (filter (is_current s) (flatten (fs_records s)))) \<le> CFC_CONTENT_CAPACITY \<and>
    (latest s form dimension = Some r \<longrightarrow> owns_form (fs_cfc s) form \<and> owns_dimension (fs_cfc s) dimension \<and>
      content_len r \<le> FORM_CONTENT_CAPACITY)"
proof -
  have inv: "fs_inv s" using assms by (rule fs_system.reachable_inv)
  have "owns_form (fs_cfc s) form \<and> owns_dimension (fs_cfc s) dimension \<and> content_len r \<le> FORM_CONTENT_CAPACITY"
    if "latest s form dimension = Some r"
    using form_log.newest_Some [of s "(form, dimension)" r] that inv by (auto simp: fs_inv_def form_ok_def)
  then show ?thesis using inv by (simp add: fs_inv_def retained_bytes_def)
qed

theorem expfs_within_quota_witness:
  "sum_list (map content_len (filter (is_current demo_fs1) (flatten (fs_records demo_fs1)))) \<le> CFC_CONTENT_CAPACITY"
  using expfs_within_quota [OF demo_fs_reachable(2), of "from_u128 20" "from_u128 10" demo_form] by blast

text \<open>
  checkpoint views are stable. The view of a committed sequence names each key at most once, and
  no later commit changes it.
\<close>

theorem expfs_view_stable:
  assumes "reachable fs_init fs_step s" and "fs_step\<^sup>*\<^sup>* s s'" and "q < fs_next_sequence s"
  shows "records_at s' q = records_at s q \<and> distinct (map sr_key (records_at s q))"
proof -
  have inv: "fs_inv s" using assms(1) by (rule fs_system.reachable_inv)
  have "records_at s' q = records_at s q \<and> q < fs_next_sequence s'"
    using assms(2)
  proof (induction rule: rtranclp_induct)
    case (step a b)
    have "fs_inv a" using fs_system.run_inv [OF step(1) inv] .
    then show ?case using records_at_step [OF step(2), of q] step.IH by simp
  qed (use assms(3) in simp)
  then show ?thesis using records_at_keys [OF inv] by simp
qed

theorem expfs_view_stable_witness:
  "records_at demo_fs2 1 = records_at demo_fs1 1 \<and> length (records_at demo_fs1 1) = 1"
proof -
  have "fs_step\<^sup>*\<^sup>* demo_fs1 demo_fs2" using demo_fs_reachable(3) by (rule r_into_rtranclp)
  from expfs_view_stable [OF demo_fs_reachable(2) this, of 1] show ?thesis
    by (simp add: demo_fs1_def) (simp add: records_at_def)
qed

end
