(* ===== verification/Exec_Context.thy ===== *)
theory Exec_Context
  imports Capability Budget Ring Bytes
begin

text \<open>
  Execution contexts (\<^verbatim>\<open>execution.rs\<close>, everything but the scheduler): identity, address space, handle
  set, event and message queues, heap and budget of one Form. The \<^verbatim>\<open>u8\<close> heads and lengths of the rings are
  natural numbers; they stay at most 16. The lemmas refine both rings to queues and show that the message
  budget is exactly what is queued.
\<close>

section \<open>Model\<close>

definition MAX_CONTEXT_HANDLES :: nat where
  "MAX_CONTEXT_HANDLES = 16"

definition MAX_CONTEXT_EVENTS :: nat where
  "MAX_CONTEXT_EVENTS = 16"

definition MAX_CONTEXT_MESSAGES :: nat where
  "MAX_CONTEXT_MESSAGES = 8"

definition IPC_INLINE_BYTES :: nat where
  "IPC_INLINE_BYTES = 64"

record execution_identity =
  ei_cfc :: cfc_fin
  ei_dimension :: fin
  ei_form :: fin

definition identity_new :: "cfc_fin \<Rightarrow> fin \<Rightarrow> fin \<Rightarrow> execution_identity" where
  "identity_new cfc dimension form = \<lparr>ei_cfc = cfc, ei_dimension = dimension, ei_form = form\<rparr>"

definition identity_is_valid :: "execution_identity \<Rightarrow> bool" where
  "identity_is_valid i \<longleftrightarrow> \<not> cfc_is_zero (ei_cfc i) \<and> \<not> is_zero (ei_dimension i) \<and> \<not> is_zero (ei_form i)"

record address_space =
  as_root :: u64
  as_lower_bound :: u64
  as_upper_bound :: u64

definition kernel_bootstrap :: address_space where
  "kernel_bootstrap = \<lparr>as_root = 0, as_lower_bound = 0, as_upper_bound = - 1\<rparr>"

definition confined :: "u64 \<Rightarrow> u64 \<Rightarrow> u64 \<Rightarrow> address_space option" where
  "confined root lower_bound upper_bound =
     (if root = 0 \<or> lower_bound \<ge> upper_bound then None
      else Some \<lparr>as_root = root, as_lower_bound = lower_bound, as_upper_bound = upper_bound\<rparr>)"

record cpu_state =
  cs_instruction_pointer :: u64
  cs_stack_pointer :: u64
  cs_flags :: u64
  cs_accumulator :: u64

definition cpu_default :: cpu_state where
  "cpu_default = \<lparr>cs_instruction_pointer = 0, cs_stack_pointer = 0, cs_flags = 0, cs_accumulator = 0\<rparr>"

record execution_event =
  ev_source :: fin
  ev_code :: u32
  ev_value :: u64

datatype execution_error =
    InvalidIdentity
  | InvalidAddressSpace
  | DuplicateContext
  | ContextTableFull
  | UnknownContext
  | HandleSetFull
  | DuplicateHandle
  | ForeignHandle
  | EventQueueFull
  | MessageQueueFull
  | InvalidMessage
  | HeapLimit
  | BudgetDenied
  | NotRunnable

record ipc_message =
  im_source :: fin
  im_correlation :: u64
  im_stream_id :: u32
  im_len :: u8
  im_bytes :: "u8 list"

definition message_new :: "fin \<Rightarrow> u64 \<Rightarrow> u32 \<Rightarrow> u8 list \<Rightarrow> (execution_error, ipc_message) result" where
  "message_new source correlation stream_id bytes =
     (if is_zero source \<or> length bytes > IPC_INLINE_BYTES then Err InvalidMessage
      else Ok \<lparr>im_source = source, im_correlation = correlation, im_stream_id = stream_id,
        im_len = of_nat (length bytes), im_bytes = overwrite (replicate IPC_INLINE_BYTES 0) 0 bytes\<rparr>)"

definition message_payload :: "ipc_message \<Rightarrow> u8 list" where
  "message_payload m = take (unat (im_len m)) (im_bytes m)"

record context_heap =
  hp_base :: u64
  hp_reserved_pages :: u32
  hp_committed_pages :: u32
  hp_guard_pages :: u8

definition heap_new :: "u64 \<Rightarrow> u32 \<Rightarrow> context_heap option" where
  "heap_new base reserved_pages =
     (if base = 0 \<or> base mod 4096 \<noteq> 0 \<or> reserved_pages = 0 then None
      else Some \<lparr>hp_base = base, hp_reserved_pages = reserved_pages, hp_committed_pages = 0, hp_guard_pages = 1\<rparr>)"

definition heap_grow :: "u32 \<Rightarrow> context_heap \<Rightarrow> (execution_error, u32 \<times> context_heap) result" where
  "heap_grow pages h =
     (case checked_add (hp_committed_pages h) pages of
       None \<Rightarrow> Err HeapLimit
     | Some n \<Rightarrow> if n \<le> hp_reserved_pages h then Ok (n, h\<lparr>hp_committed_pages := n\<rparr>) else Err HeapLimit)"

datatype execution_state =
    Ready
  | Running
  | Paused
  | Waiting
  | BudgetBlocked
  | Exited
  | Terminated

datatype execution_runtime =
    KernelNative
  | ExpPython
  | NativeForm

record execution_context =
  x_id :: u32
  x_identity :: execution_identity
  x_address_space :: address_space
  x_handles :: "form_handle slots"
  x_events :: "execution_event slots"
  x_event_head :: nat
  x_event_len :: nat
  x_messages :: "ipc_message slots"
  x_message_head :: nat
  x_message_len :: nat
  x_heap :: "context_heap option"
  x_budget :: "execution_identity exp_budget"
  x_cpu :: cpu_state
  x_runtime :: execution_runtime
  x_state :: execution_state
  x_dispatches :: u64
  x_preemptions :: u64
  x_cpu_ticks :: u64

definition context_new ::
  "execution_identity \<Rightarrow> address_space \<Rightarrow> u64 \<Rightarrow> (execution_error, execution_context) result" where
  "context_new identity address_space budget_ceiling =
     (if \<not> identity_is_valid identity then Err InvalidIdentity
      else if as_root address_space \<noteq> 0 \<and> as_lower_bound address_space \<ge> as_upper_bound address_space
        then Err InvalidAddressSpace
      else Ok \<lparr>x_id = 0, x_identity = identity, x_address_space = address_space,
        x_handles = empty_slots MAX_CONTEXT_HANDLES, x_events = empty_slots MAX_CONTEXT_EVENTS,
        x_event_head = 0, x_event_len = 0, x_messages = empty_slots MAX_CONTEXT_MESSAGES,
        x_message_head = 0, x_message_len = 0, x_heap = None, x_budget = uniform identity budget_ceiling,
        x_cpu = cpu_default, x_runtime = KernelNative, x_state = Ready,
        x_dispatches = 0, x_preemptions = 0, x_cpu_ticks = 0\<rparr>)"

definition set_cpu_state :: "cpu_state \<Rightarrow> execution_context \<Rightarrow> execution_context" where
  "set_cpu_state cpu c = c\<lparr>x_cpu := cpu\<rparr>"

definition set_runtime :: "execution_runtime \<Rightarrow> execution_context \<Rightarrow> execution_context" where
  "set_runtime runtime c = c\<lparr>x_runtime := runtime\<rparr>"

definition attach_handle :: "form_handle \<Rightarrow> execution_context \<Rightarrow> (execution_error, execution_context) result" where
  "attach_handle h c =
     (if h_cfc h \<noteq> ei_cfc (x_identity c) \<or> h_dimension h \<noteq> ei_dimension (x_identity c) \<or>
         (h_requester h \<noteq> ei_form (x_identity c) \<and> h_target h \<noteq> ei_form (x_identity c))
      then Err ForeignHandle
      else if list_ex (\<lambda>item. h_id item = h_id h) (flatten (x_handles c)) then Err DuplicateHandle
      else (case fill_slot h (x_handles c) of
        None \<Rightarrow> Err HandleSetFull
      | Some slots \<Rightarrow> Ok (c\<lparr>x_handles := slots\<rparr>)))"

definition push_event :: "execution_event \<Rightarrow> execution_context \<Rightarrow> (execution_error, execution_context) result" where
  "push_event event c =
     (if x_event_len c = MAX_CONTEXT_EVENTS then Err EventQueueFull
      else let slot = (x_event_head c + x_event_len c) mod MAX_CONTEXT_EVENTS
        in Ok (c\<lparr>x_events := (x_events c)[slot := Some event], x_event_len := x_event_len c + 1\<rparr>))"

definition pop_event :: "execution_context \<Rightarrow> execution_event option \<times> execution_context" where
  "pop_event c =
     (if x_event_len c = 0 then (None, c)
      else let slot = x_event_head c
        in (x_events c ! slot, c\<lparr>x_events := (x_events c)[slot := None],
          x_event_head := (slot + 1) mod MAX_CONTEXT_EVENTS, x_event_len := x_event_len c - 1\<rparr>))"

definition configure_heap :: "context_heap \<Rightarrow> execution_context \<Rightarrow> execution_context" where
  "configure_heap h c = c\<lparr>x_heap := Some h\<rparr>"

text \<open>\<^verbatim>\<open>let _ = budget.release(..)\<close>: a refused release changes nothing.\<close>

definition release_ignored :: "resource_kind \<Rightarrow> u64 \<Rightarrow> 'c exp_budget \<Rightarrow> 'c exp_budget" where
  "release_ignored kind amount b = (case release kind amount b of Err _ \<Rightarrow> b | Ok b' \<Rightarrow> b')"

definition push_message ::
  "ipc_message \<Rightarrow> execution_context \<Rightarrow> (execution_error, unit) result \<times> execution_context" where
  "push_message m c =
     (if x_message_len c = MAX_CONTEXT_MESSAGES then (Err MessageQueueFull, c)
      else (case charge IpcMessages 1 (x_budget c) of
        (Err _, b) \<Rightarrow> (Err BudgetDenied, c\<lparr>x_budget := b\<rparr>)
      | (Ok _, b) \<Rightarrow>
         (case charge IpcBytes (ucast (im_len m)) b of
           (Err _, b') \<Rightarrow> (Err BudgetDenied, c\<lparr>x_budget := release_ignored IpcMessages 1 b'\<rparr>)
         | (Ok _, b') \<Rightarrow>
            let slot = (x_message_head c + x_message_len c) mod MAX_CONTEXT_MESSAGES
            in (Ok (), c\<lparr>x_messages := (x_messages c)[slot := Some m],
                 x_message_len := x_message_len c + 1, x_budget := b'\<rparr>))))"

definition pop_message :: "execution_context \<Rightarrow> ipc_message option \<times> execution_context" where
  "pop_message c =
     (if x_message_len c = 0 then (None, c)
      else let slot = x_message_head c
        in (case x_messages c ! slot of
          None \<Rightarrow> (None, c)
        | Some m \<Rightarrow> (Some m, c\<lparr>x_messages := (x_messages c)[slot := None],
            x_message_head := (slot + 1) mod MAX_CONTEXT_MESSAGES, x_message_len := x_message_len c - 1,
            x_budget := release_ignored IpcBytes (ucast (im_len m)) (release_ignored IpcMessages 1 (x_budget c))\<rparr>)))"

section \<open>Queues\<close>

definition events_ok :: "execution_context \<Rightarrow> bool" where
  "events_ok c \<longleftrightarrow> ring_wf MAX_CONTEXT_EVENTS (x_events c) (x_event_head c) (x_event_len c)"

definition pending_events :: "execution_context \<Rightarrow> execution_event list" where
  "pending_events c = ring_entries (x_events c) (x_event_head c) (x_event_len c)"

definition offer_event :: "execution_event \<Rightarrow> execution_context \<Rightarrow> bool \<times> execution_context" where
  "offer_event event c = (case push_event event c of Err _ \<Rightarrow> (False, c) | Ok c' \<Rightarrow> (True, c'))"

interpretation event_queue: bounded_queue pending_events offer_event pop_event events_ok MAX_CONTEXT_EVENTS
proof unfold_locales
  fix c :: execution_context and e
  assume ok: "events_ok c"
  then have wf: "ring_wf MAX_CONTEXT_EVENTS (x_events c) (x_event_head c) (x_event_len c)"
    and len: "x_event_len c \<le> MAX_CONTEXT_EVENTS" by (simp_all add: events_ok_def ring_wf_def)
  show "pending_events (snd (offer_event e c)) = (if fst (offer_event e c) then pending_events c @ [e] else pending_events c)"
    using ring_push(2) [OF wf, of e] len by (simp add: offer_event_def push_event_def pending_events_def Let_def)
  show "events_ok (snd (offer_event e c))"
    using ok ring_push(1) [OF wf, of e] len
    by (cases "x_event_len c = MAX_CONTEXT_EVENTS") (simp_all add: offer_event_def push_event_def events_ok_def Let_def)
  show "pending_events c = (case fst (pop_event c) of None \<Rightarrow> [] | Some x \<Rightarrow> x # pending_events (snd (pop_event c)))"
    using ring_first [OF wf] ring_pop(2) [OF wf] length_ring_entries [of "x_events c" "x_event_head c" "x_event_len c"]
    by (cases "ring_entries (x_events c) (x_event_head c) (x_event_len c)")
      (auto simp: pop_event_def pending_events_def Let_def)
  show "fst (pop_event c) = None \<Longrightarrow> pending_events (snd (pop_event c)) = []"
    using ring_first [OF wf] by (simp add: pop_event_def pending_events_def Let_def split: if_splits)
  show "events_ok (snd (pop_event c))"
    using ok ring_pop(1) [OF wf] by (cases "x_event_len c = 0") (simp_all add: pop_event_def events_ok_def Let_def)
  show "fst (offer_event e c) \<longleftrightarrow> length (pending_events c) < MAX_CONTEXT_EVENTS"
    using len by (auto simp: offer_event_def push_event_def pending_events_def Let_def)
qed

section \<open>Messages and their budget\<close>

abbreviation used :: "'c exp_budget \<Rightarrow> resource_kind \<Rightarrow> nat" where
  "used b k \<equiv> unat (a_used (account b k))"

lemma charge_Ok:
  assumes "budget_inv b" and "charge k n b = (Ok v, b')"
  shows "budget_inv b'" "used b' l = (if l = k then used b k + unat n else used b l)"
proof -
  show "budget_inv b'" using serve_inv [OF assms(1), of "Charge k n"] assms(2) by (simp add: serve_def)
  have "length (eb_accounts b) = RESOURCE_KIND_COUNT" using assms(1) by (simp add: budget_inv_def)
  then show "used b' l = (if l = k then used b k + unat n else used b l)"
    using assms(2) by (auto simp: charge_def Let_def checked_add_unat split: option.splits if_splits)
qed

lemma charge_Err:
  assumes "budget_inv b" and "charge k n b = (Err e, b')"
  shows "budget_inv b'" "used b' l = used b l"
proof -
  show "budget_inv b'" using serve_inv [OF assms(1), of "Charge k n"] assms(2) by (simp add: serve_def)
  have "length (eb_accounts b) = RESOURCE_KIND_COUNT" using assms(1) by (simp add: budget_inv_def)
  then show "used b' l = used b l"
    using assms(2) by (auto simp: charge_def Let_def split: option.splits if_splits)
qed

lemma release_used:
  assumes "budget_inv b" and "unat n \<le> used b k"
  shows "budget_inv (release_ignored k n b)"
    "used (release_ignored k n b) l = (if l = k then used b k - unat n else used b l)"
proof -
  have len: "length (eb_accounts b) = RESOURCE_KIND_COUNT" using assms(1) by (simp add: budget_inv_def)
  have le: "n \<le> a_used (account b k)" using assms(2) by (simp add: word_le_nat_alt)
  have r: "release k n b = Ok (set_account k ((account b k)\<lparr>a_used := a_used (account b k) - n\<rparr>) b)"
    using le by (simp add: release_def Let_def checked_sub_def)
  show "budget_inv (release_ignored k n b)"
    using serve_inv [OF assms(1), of "Release k n"] r by (simp add: serve_def release_ignored_def)
  show "used (release_ignored k n b) l = (if l = k then used b k - unat n else used b l)"
    using len le r by (simp add: release_ignored_def unat_sub)
qed

definition pending_messages :: "execution_context \<Rightarrow> ipc_message list" where
  "pending_messages c = ring_entries (x_messages c) (x_message_head c) (x_message_len c)"

definition messages_ok :: "execution_context \<Rightarrow> bool" where
  "messages_ok c \<longleftrightarrow> ring_wf MAX_CONTEXT_MESSAGES (x_messages c) (x_message_head c) (x_message_len c) \<and>
     budget_inv (x_budget c) \<and> used (x_budget c) IpcMessages = length (pending_messages c) \<and>
     used (x_budget c) IpcBytes = sum_list (map (\<lambda>m. unat (im_len m)) (pending_messages c))"

definition offer_message :: "ipc_message \<Rightarrow> execution_context \<Rightarrow> bool \<times> execution_context" where
  "offer_message m c = (is_ok (fst (push_message m c)), snd (push_message m c))"

lemma unat_len: "unat (ucast (n :: u8) :: u64) = unat n"
proof -
  have "unat n < 18446744073709551616" by (rule order_less_le_trans [OF unat_bound]) simp
  then show ?thesis by (simp add: unsigned_ucast_eq take_bit_eq_mod)
qed

lemma push_message_cases:
  assumes ok: "messages_ok c"
  obtains (accepted) c' where "push_message m c = (Ok (), c')" "pending_messages c' = pending_messages c @ [m]" "messages_ok c'"
    | (refused) e c' where "push_message m c = (Err e, c')" "pending_messages c' = pending_messages c" "messages_ok c'"
proof -
  have wf: "ring_wf MAX_CONTEXT_MESSAGES (x_messages c) (x_message_head c) (x_message_len c)"
    and b: "budget_inv (x_budget c)" and len: "x_message_len c \<le> MAX_CONTEXT_MESSAGES"
    using ok by (simp_all add: messages_ok_def ring_wf_def)
  show thesis
  proof (cases "x_message_len c = MAX_CONTEXT_MESSAGES")
    case True
    then show thesis using refused ok by (simp add: push_message_def)
  next
    case False
    then have room: "x_message_len c < MAX_CONTEXT_MESSAGES" using len by simp
    obtain r1 b1 where c1: "charge IpcMessages 1 (x_budget c) = (r1, b1)" by fastforce
    show thesis
    proof (cases r1)
      case (Inl e)
      then show thesis using charge_Err [OF b] c1 False ok
        by (intro refused [of BudgetDenied "c\<lparr>x_budget := b1\<rparr>"])
          (auto simp: push_message_def messages_ok_def pending_messages_def)
    next
      case (Inr v)
      note b1 = charge_Ok [OF b, of IpcMessages 1 v b1]
      obtain r2 b2 where c2: "charge IpcBytes (ucast (im_len m)) b1 = (r2, b2)" by fastforce
      show thesis
      proof (cases r2)
        case (Inl e)
        note b2 = charge_Err [OF b1(1), of IpcBytes "ucast (im_len m)" e b2]
        let ?b = "release_ignored IpcMessages 1 b2"
        have "used b2 IpcMessages = used (x_budget c) IpcMessages + 1" using b1(2) b2(2) c1 c2 Inl \<open>r1 = Ok v\<close> by simp
        then have "budget_inv ?b" "used ?b IpcMessages = used (x_budget c) IpcMessages" "used ?b IpcBytes = used (x_budget c) IpcBytes"
          using release_used [of b2 1 IpcMessages] b1 b2 c1 c2 Inl \<open>r1 = Ok v\<close> by simp_all
        then show thesis using c1 c2 Inl \<open>r1 = Ok v\<close> False ok
          by (intro refused [of BudgetDenied "c\<lparr>x_budget := ?b\<rparr>"])
            (auto simp: push_message_def messages_ok_def pending_messages_def)
      next
        case (Inr w)
        note b2 = charge_Ok [OF b1(1), of IpcBytes "ucast (im_len m)" w b2]
        have "used b2 IpcMessages = used (x_budget c) IpcMessages + 1"
          "used b2 IpcBytes = used (x_budget c) IpcBytes + unat (im_len m)" "budget_inv b2"
          using b1 b2 c1 c2 Inr \<open>r1 = Ok v\<close> by (simp_all add: unat_len)
        then show thesis using ring_push [OF wf room, of m] c1 c2 Inr \<open>r1 = Ok v\<close> False ok
          by (intro accepted [of "c\<lparr>x_messages := (x_messages c)[(x_message_head c + x_message_len c) mod MAX_CONTEXT_MESSAGES := Some m],
              x_message_len := x_message_len c + 1, x_budget := b2\<rparr>"]) (auto simp: push_message_def messages_ok_def pending_messages_def Let_def)
      qed
    qed
  qed
qed

lemma pop_message_cases:
  assumes ok: "messages_ok c"
  obtains (empty) "pop_message c = (None, c)" "pending_messages c = []"
    | (taken) m c' where "pop_message c = (Some m, c')" "pending_messages c = m # pending_messages c'" "messages_ok c'"
proof -
  have wf: "ring_wf MAX_CONTEXT_MESSAGES (x_messages c) (x_message_head c) (x_message_len c)"
    and b: "budget_inv (x_budget c)" using ok by (simp_all add: messages_ok_def)
  show thesis
  proof (cases "x_message_len c = 0")
    case True
    then show thesis using empty by (simp add: pop_message_def pending_messages_def)
  next
    case False
    then obtain m ms where pending: "pending_messages c = m # ms"
      by (metis length_ring_entries list.exhaust list.size(3) pending_messages_def)
    define c' where "c' = snd (pop_message c)"
    have first: "x_messages c ! x_message_head c = Some m"
      using ring_first [OF wf] False pending by (simp add: pending_messages_def)
    have c': "pop_message c = (Some m, c')"
      using first False by (simp add: pop_message_def c'_def Let_def)
    have rest: "pending_messages c' = ms" "ring_wf MAX_CONTEXT_MESSAGES (x_messages c') (x_message_head c') (x_message_len c')"
      using ring_pop [OF wf] False first pending
      by (simp_all add: c'_def pop_message_def pending_messages_def Let_def)
    define b1 where "b1 = release_ignored IpcMessages 1 (x_budget c)"
    have budget: "x_budget c' = release_ignored IpcBytes (ucast (im_len m)) b1"
      using first False by (simp add: c'_def pop_message_def Let_def b1_def)
    have b1: "budget_inv b1" "used b1 IpcMessages = length ms" "used b1 IpcBytes = used (x_budget c) IpcBytes"
      using release_used [OF b, of 1 IpcMessages] ok pending by (simp_all add: messages_ok_def b1_def)
    have "unat (ucast (im_len m) :: u64) \<le> used b1 IpcBytes"
      using b1(3) ok pending by (simp add: messages_ok_def unat_len)
    from release_used [OF b1(1) this] have "messages_ok c'"
      using b1 ok pending rest budget by (simp add: messages_ok_def unat_len)
    then show thesis using taken c' pending rest(1) by simp
  qed
qed

interpretation message_queue: fifo_queue pending_messages offer_message pop_message messages_ok
proof unfold_locales
  fix c :: execution_context and m
  assume ok: "messages_ok c"
  show "pending_messages (snd (offer_message m c)) =
      (if fst (offer_message m c) then pending_messages c @ [m] else pending_messages c)"
    "messages_ok (snd (offer_message m c))"
    by (rule push_message_cases [OF ok, of m]; simp add: offer_message_def)+
  show "pending_messages c = (case fst (pop_message c) of None \<Rightarrow> [] | Some x \<Rightarrow> x # pending_messages (snd (pop_message c)))"
    by (rule pop_message_cases [OF ok]; simp)
  show "fst (pop_message c) = None \<Longrightarrow> pending_messages (snd (pop_message c)) = []"
    by (rule pop_message_cases [OF ok]; simp)
  show "messages_ok (snd (pop_message c))"
    using ok by (auto intro: pop_message_cases [OF ok])
qed

section \<open>Properties\<close>

lemma context_new_ok:
  assumes "context_new identity space limit = Ok c"
  shows "messages_ok c" "events_ok c" "pending_messages c = []" "x_id c = 0" "x_state c = Ready" "x_identity c = identity"
proof -
  have c: "x_messages c = empty_slots MAX_CONTEXT_MESSAGES" "x_message_head c = 0" "x_message_len c = 0"
    "x_events c = empty_slots MAX_CONTEXT_EVENTS" "x_event_head c = 0" "x_event_len c = 0"
    "x_budget c = uniform identity limit" "x_id c = 0 \<and> x_state c = Ready \<and> x_identity c = identity"
    using assms by (auto simp: context_new_def split: if_splits)
  then show "x_id c = 0" "x_state c = Ready" "x_identity c = identity" "pending_messages c = []"
    by (simp_all add: pending_messages_def)
  show "events_ok c" using c by (simp add: events_ok_def ring_wf_empty MAX_CONTEXT_EVENTS_def)
  have "budget_inv (x_budget c)" "\<And>k. used (x_budget c) k = 0"
    unfolding c(7) uniform_def by (simp_all add: budget_new_inv with_ceiling_def)
  then show "messages_ok c" using c
    by (simp add: messages_ok_def ring_wf_empty MAX_CONTEXT_MESSAGES_def pending_messages_def)
qed

text \<open>
  C31: messages are delivered in order and their budget is exact. For a new context and any interleaving of
  deliveries and receptions, the accepted messages are the received ones followed by the pending
  ones, and the two message accounts hold exactly the number and the bytes of the pending ones.
\<close>

theorem messages_fifo_and_accounted:
  assumes "context_new identity space limit = Ok c" and "transfer offer_message pop_message ops c = (ins, outs, c')"
  shows "ins = outs @ pending_messages c' \<and> length (pending_messages c') \<le> MAX_CONTEXT_MESSAGES \<and>
    used (x_budget c') IpcMessages = length (pending_messages c') \<and>
    used (x_budget c') IpcBytes = sum_list (map (\<lambda>m. unat (im_len m)) (pending_messages c'))"
proof -
  have "messages_ok c' \<and> pending_messages c @ ins = outs @ pending_messages c'"
    using message_queue.transfer_fifo [OF context_new_ok(1) [OF assms(1)] assms(2)] .
  then show ?thesis using context_new_ok(3) [OF assms(1)]
    by (auto simp: messages_ok_def ring_wf_def pending_messages_def)
qed

definition demo_identity :: "128 word \<Rightarrow> execution_identity" where
  "demo_identity n = identity_new (cfc_from_u128 1) (from_u128 10) (from_u128 n)"

definition demo_context :: "128 word \<Rightarrow> execution_context" where
  "demo_context n = projr (context_new (demo_identity n) kernel_bootstrap 100)"

definition demo_message :: "u64 \<Rightarrow> ipc_message" where
  "demo_message n = \<lparr>im_source = from_u128 7, im_correlation = n, im_stream_id = 0, im_len = 60, im_bytes = replicate 64 0\<rparr>"

lemma demo_context_new: "n \<noteq> 0 \<Longrightarrow> context_new (demo_identity n) kernel_bootstrap 100 = Ok (demo_context n)"
  by (simp add: demo_context_def context_new_def demo_identity_def identity_new_def identity_is_valid_def kernel_bootstrap_def)

text \<open>The second message is refused for its bytes, the third is accepted after the first was received.\<close>

theorem messages_fifo_and_accounted_witness:
  "\<exists>c'. transfer offer_message pop_message
      [Some (demo_message 1), Some (demo_message 2), None, Some (demo_message 3)] (demo_context 20) =
        ([demo_message 1, demo_message 3], [demo_message 1], c') \<and>
     pending_messages c' = [demo_message 3] \<and> used (x_budget c') IpcBytes = 60"
proof -
  let ?ops = "[Some (demo_message 1), Some (demo_message 2), None, Some (demo_message 3)]"
  obtain ins outs c' where t: "transfer offer_message pop_message ?ops (demo_context 20) = (ins, outs, c')"
    by (metis prod_cases3)
  have "(case transfer offer_message pop_message ?ops (demo_context 20) of (ins, outs, c') \<Rightarrow>
      ins = [demo_message 1, demo_message 3] \<and> outs = [demo_message 1])" by code_simp
  then have io: "ins = [demo_message 1, demo_message 3]" "outs = [demo_message 1]" using t by simp_all
  have "context_new (demo_identity 20) kernel_bootstrap 100 = Ok (demo_context 20)" by (rule demo_context_new) simp
  note exact = messages_fifo_and_accounted [OF this t]
  then have "pending_messages c' = [demo_message 3]" using io by simp
  moreover from this have "used (x_budget c') IpcBytes = 60" using exact by (simp add: demo_message_def)
  ultimately show ?thesis using t io by blast
qed

end
