(* ===== verification/Scheduler.thy ===== *)
theory Scheduler
  imports Exec_Context
begin

text \<open>
  The scheduler (\<^verbatim>\<open>Scheduler\<close> of \<^verbatim>\<open>execution.rs\<close>): admission, round-robin dispatch, preemption, waiting,
  pausing, termination, restart and message delivery over a table of eight contexts. The lemmas show
  that at most one context runs, that it is the current one, and that a ready context is dispatched within
  eight rounds.
\<close>

section \<open>Model\<close>

definition MAX_EXECUTION_CONTEXTS :: nat where
  "MAX_EXECUTION_CONTEXTS = 8"

record scheduler =
  sc_contexts :: "execution_context slots"
  sc_current_slot :: "nat option"
  sc_cursor :: nat
  sc_next_id :: u32

definition scheduler_new :: scheduler where
  "scheduler_new = \<lparr>sc_contexts = empty_slots MAX_EXECUTION_CONTEXTS, sc_current_slot = None, sc_cursor = 0, sc_next_id = 1\<rparr>"

definition is_dead :: "execution_context \<Rightarrow> bool" where
  "is_dead c \<longleftrightarrow> x_state c \<in> {Exited, Terminated}"

definition admit :: "execution_context \<Rightarrow> scheduler \<Rightarrow> (execution_error, u32 \<times> scheduler) result" where
  "admit c s =
     (if list_ex (\<lambda>item. x_identity item = x_identity c \<and> \<not> is_dead item) (flatten (sc_contexts s))
      then Err DuplicateContext
      else (case position (\<lambda>slot. case slot of None \<Rightarrow> True | Some c \<Rightarrow> is_dead c) (sc_contexts s) of
        None \<Rightarrow> Err ContextTableFull
      | Some slot \<Rightarrow>
          let new_id = sc_next_id s
          in Ok (new_id, s\<lparr>sc_next_id := next_nonzero (sc_next_id s),
               sc_contexts := (sc_contexts s)[slot := Some (c\<lparr>x_id := new_id, x_state := Ready\<rparr>)]\<rparr>)))"

text \<open>\<^verbatim>\<open>context\<close> looks an identifier up; \<^verbatim>\<open>context_mut\<close> gives mutable access to what it finds.\<close>

definition sched_context :: "u32 \<Rightarrow> scheduler \<Rightarrow> execution_context option" where
  "sched_context i s = find (\<lambda>c. x_id c = i) (flatten (sc_contexts s))"

definition context_mut :: "u32 \<Rightarrow> (execution_context \<Rightarrow> execution_context) \<Rightarrow> scheduler \<Rightarrow> scheduler" where
  "context_mut i f s = s\<lparr>sc_contexts := update_first (\<lambda>c. x_id c = i) f (sc_contexts s)\<rparr>"

definition sched_current :: "scheduler \<Rightarrow> execution_context option" where
  "sched_current s = (case sc_current_slot s of None \<Rightarrow> None | Some slot \<Rightarrow> sc_contexts s ! slot)"

definition current_is :: "u32 \<Rightarrow> scheduler \<Rightarrow> bool" where
  "current_is i s = (case sched_current s of None \<Rightarrow> False | Some c \<Rightarrow> x_id c = i)"

definition clear_current :: "bool \<Rightarrow> scheduler \<Rightarrow> scheduler" where
  "clear_current cur s = (if cur then s\<lparr>sc_current_slot := None\<rparr> else s)"

text \<open>The start of \<^verbatim>\<open>dispatch_next\<close> and \<^verbatim>\<open>resume\<close>: the running context goes back to \<open>Ready\<close>.\<close>

definition park_current :: "scheduler \<Rightarrow> scheduler" where
  "park_current s =
     (case sc_current_slot s of
       None \<Rightarrow> s
     | Some slot \<Rightarrow>
         (case sc_contexts s ! slot of
           None \<Rightarrow> s\<lparr>sc_current_slot := None\<rparr>
         | Some c \<Rightarrow> s\<lparr>sc_current_slot := None, sc_contexts := (sc_contexts s)[slot :=
             Some (if x_state c = Running then c\<lparr>x_state := Ready\<rparr> else c)]\<rparr>))"

definition run_slot :: "nat \<Rightarrow> execution_context \<Rightarrow> scheduler \<Rightarrow> scheduler" where
  "run_slot slot c s = s\<lparr>sc_contexts := (sc_contexts s)[slot :=
       Some (c\<lparr>x_state := Running, x_dispatches := saturating_add (x_dispatches c) 1\<rparr>)],
     sc_current_slot := Some slot\<rparr>"

definition is_ready :: "execution_context option \<Rightarrow> bool" where
  "is_ready slot = (case slot of None \<Rightarrow> False | Some c \<Rightarrow> x_state c = Ready)"

definition dispatch_order :: "nat \<Rightarrow> nat list" where
  "dispatch_order cursor = map (\<lambda>offset. (cursor + offset) mod MAX_EXECUTION_CONTEXTS) [0..<MAX_EXECUTION_CONTEXTS]"

definition dispatch_next :: "scheduler \<Rightarrow> (execution_error, u32) result \<times> scheduler" where
  "dispatch_next s0 =
     (let s = park_current s0 in
      case find (\<lambda>slot. is_ready (sc_contexts s ! slot)) (dispatch_order (sc_cursor s)) of
        None \<Rightarrow> (Err NotRunnable, s)
      | Some slot \<Rightarrow>
          let c = the (sc_contexts s ! slot)
          in (Ok (x_id c), (run_slot slot c s)\<lparr>sc_cursor := (slot + 1) mod MAX_EXECUTION_CONTEXTS\<rparr>))"

definition resume :: "u32 \<Rightarrow> scheduler \<Rightarrow> (execution_error, scheduler) result" where
  "resume i s =
     (case position (\<lambda>entry. case entry of None \<Rightarrow> False | Some c \<Rightarrow> x_id c = i) (sc_contexts s) of
       None \<Rightarrow> Err UnknownContext
     | Some slot \<Rightarrow>
         if \<not> is_ready (sc_contexts s ! slot) then Err NotRunnable
         else let s' = park_current s in Ok (run_slot slot (the (sc_contexts s' ! slot)) s'))"

definition preempt_context :: "cpu_state \<Rightarrow> u64 \<Rightarrow> bool \<Rightarrow> execution_context \<Rightarrow> execution_context" where
  "preempt_context cpu ticks budget_exhausted c =
     (case charge CpuTicks ticks (x_budget c) of
       (Err _, b) \<Rightarrow> c\<lparr>x_budget := b, x_state := BudgetBlocked\<rparr>
     | (Ok _, b) \<Rightarrow> c\<lparr>x_budget := b, x_cpu_ticks := saturating_add (x_cpu_ticks c) ticks,
         x_preemptions := saturating_add (x_preemptions c) 1, x_cpu := cpu,
         x_state := if budget_exhausted then BudgetBlocked else Ready\<rparr>)"

definition preempt :: "u32 \<Rightarrow> cpu_state \<Rightarrow> u64 \<Rightarrow> bool \<Rightarrow> scheduler \<Rightarrow> (execution_error, scheduler) result" where
  "preempt i cpu ticks budget_exhausted s =
     (let cur = current_is i s in
      case sched_context i s of
        None \<Rightarrow> Err UnknownContext
      | Some c \<Rightarrow>
          if x_state c \<noteq> Running then Err NotRunnable
          else Ok (clear_current cur (context_mut i (preempt_context cpu ticks budget_exhausted) s)))"

definition finish_context :: "cpu_state \<Rightarrow> u64 \<Rightarrow> u64 \<Rightarrow> execution_context \<Rightarrow> execution_context" where
  "finish_context cpu ticks result c =
     (case (if ticks \<noteq> 0 then charge CpuTicks ticks (x_budget c) else (Ok 0, x_budget c)) of
       (Err _, b) \<Rightarrow> c\<lparr>x_budget := b, x_state := BudgetBlocked\<rparr>
     | (Ok _, b) \<Rightarrow> c\<lparr>x_budget := b, x_cpu_ticks := saturating_add (x_cpu_ticks c) ticks,
         x_cpu := cpu\<lparr>cs_accumulator := result\<rparr>, x_state := Exited\<rparr>)"

definition finish_slice :: "u32 \<Rightarrow> cpu_state \<Rightarrow> u64 \<Rightarrow> u64 \<Rightarrow> scheduler \<Rightarrow> (execution_error, scheduler) result" where
  "finish_slice i cpu ticks result s =
     (let cur = current_is i s in
      case sched_context i s of
        None \<Rightarrow> Err UnknownContext
      | Some c \<Rightarrow> Ok (clear_current cur (context_mut i (finish_context cpu ticks result) s)))"

definition wait :: "u32 \<Rightarrow> scheduler \<Rightarrow> (execution_error, scheduler) result" where
  "wait i s =
     (case sched_context i s of
       None \<Rightarrow> Err UnknownContext
     | Some c \<Rightarrow> let s' = context_mut i (\<lambda>c. c\<lparr>x_state := Waiting\<rparr>) s in Ok (clear_current (current_is i s') s'))"

definition wake :: "u32 \<Rightarrow> scheduler \<Rightarrow> (execution_error, scheduler) result" where
  "wake i s =
     (case sched_context i s of
       None \<Rightarrow> Err UnknownContext
     | Some c \<Rightarrow> if x_state c \<noteq> Waiting then Err NotRunnable
         else Ok (context_mut i (\<lambda>c. c\<lparr>x_state := Ready\<rparr>) s))"

definition pause :: "u32 \<Rightarrow> scheduler \<Rightarrow> (execution_error, scheduler) result" where
  "pause i s =
     (let cur = current_is i s in
      case sched_context i s of
        None \<Rightarrow> Err UnknownContext
      | Some c \<Rightarrow> if x_state c \<notin> {Ready, Running} then Err NotRunnable
          else Ok (clear_current cur (context_mut i (\<lambda>c. c\<lparr>x_state := Paused\<rparr>) s)))"

definition continue_context :: "u32 \<Rightarrow> scheduler \<Rightarrow> (execution_error, scheduler) result" where
  "continue_context i s =
     (case sched_context i s of
       None \<Rightarrow> Err UnknownContext
     | Some c \<Rightarrow> if x_state c \<noteq> Paused then Err NotRunnable
         else Ok (context_mut i (\<lambda>c. c\<lparr>x_state := Ready\<rparr>) s))"

definition terminate :: "u32 \<Rightarrow> scheduler \<Rightarrow> (execution_error, scheduler) result" where
  "terminate i s =
     (let cur = current_is i s in
      case sched_context i s of
        None \<Rightarrow> Err UnknownContext
      | Some c \<Rightarrow> Ok (clear_current cur (context_mut i (\<lambda>c. c\<lparr>x_state := Terminated\<rparr>) s)))"

definition restart_context :: "execution_context \<Rightarrow> execution_context" where
  "restart_context c = c\<lparr>
     x_budget := budget_new (x_identity c) (map (\<lambda>kind. a_ceiling (account (x_budget c) kind)) ALL_KINDS),
     x_cpu := cpu_default, x_events := empty_slots MAX_CONTEXT_EVENTS, x_event_head := 0, x_event_len := 0,
     x_messages := empty_slots MAX_CONTEXT_MESSAGES, x_message_head := 0, x_message_len := 0, x_state := Ready\<rparr>"

definition restart :: "u32 \<Rightarrow> scheduler \<Rightarrow> (execution_error, scheduler) result" where
  "restart i s =
     (case sched_context i s of
       None \<Rightarrow> Err UnknownContext
     | Some c \<Rightarrow> if x_state c \<notin> {Exited, Terminated, BudgetBlocked} then Err NotRunnable
         else Ok (context_mut i restart_context s))"

definition send_message ::
  "u32 \<Rightarrow> ipc_message \<Rightarrow> scheduler \<Rightarrow> (execution_error, unit) result \<times> scheduler" where
  "send_message target m s =
     (case sched_context target s of
       None \<Rightarrow> (Err UnknownContext, s)
     | Some c \<Rightarrow>
         (case push_message m c of
           (Err e, c') \<Rightarrow> (Err e, context_mut target (\<lambda>_. c') s)
         | (Ok _, c') \<Rightarrow> (Ok (), context_mut target
             (\<lambda>_. if x_state c' = Waiting then c'\<lparr>x_state := Ready\<rparr> else c') s)))"

definition finish :: "u32 \<Rightarrow> u64 \<Rightarrow> scheduler \<Rightarrow> (execution_error, scheduler) result" where
  "finish i result s =
     (case sched_context i s of
       None \<Rightarrow> Err UnknownContext
     | Some c \<Rightarrow>
         let s' = context_mut i (\<lambda>c. c\<lparr>x_cpu := (x_cpu c)\<lparr>cs_accumulator := result\<rparr>, x_state := Exited\<rparr>) s
         in Ok (clear_current (current_is i s') s'))"

definition sched_exit :: "u32 \<Rightarrow> scheduler \<Rightarrow> (execution_error, scheduler) result" where
  "sched_exit i s = finish i 0 s"

section \<open>Invariant\<close>

text \<open>
  Identifiers are unique and below the next one, of which \<open>n\<close> have been given out; the running context is
  the current one. Identifiers are 32 bits wide: the invariant speaks about fewer than \<open>2 ^ 32 - 1\<close> admissions.
\<close>

definition running_at :: "scheduler \<Rightarrow> nat \<Rightarrow> bool" where
  "running_at s slot \<longleftrightarrow> (\<exists>c. sc_contexts s ! slot = Some c \<and> x_state c = Running)"

definition sched_ok :: "nat \<Rightarrow> scheduler \<Rightarrow> bool" where
  "sched_ok n s \<longleftrightarrow> length (sc_contexts s) = MAX_EXECUTION_CONTEXTS \<and> sc_cursor s < MAX_EXECUTION_CONTEXTS \<and>
     distinct (map x_id (flatten (sc_contexts s))) \<and> unat (sc_next_id s) = n + 1 \<and>
     (\<forall>c\<in>set (flatten (sc_contexts s)). unat (x_id c) \<le> n) \<and>
     (\<forall>slot. sc_current_slot s = Some slot \<longleftrightarrow> slot < MAX_EXECUTION_CONTEXTS \<and> running_at s slot)"

lemma sched_okD:
  assumes "sched_ok n s"
  shows "length (sc_contexts s) = MAX_EXECUTION_CONTEXTS" "distinct (map x_id (flatten (sc_contexts s)))"
    "sc_cursor s < MAX_EXECUTION_CONTEXTS"
    "sc_current_slot s = Some slot \<longleftrightarrow> slot < MAX_EXECUTION_CONTEXTS \<and> running_at s slot"
  using assms by (auto simp: sched_ok_def)

lemma sched_ok_new: "sched_ok 0 scheduler_new"
proof -
  have "\<not> running_at scheduler_new slot" if "slot < MAX_EXECUTION_CONTEXTS" for slot
    using that by (simp add: running_at_def scheduler_new_def empty_slots_def)
  moreover have "sc_current_slot scheduler_new = None" by (simp add: scheduler_new_def)
  ultimately show ?thesis by (simp add: sched_ok_def) (simp add: scheduler_new_def MAX_EXECUTION_CONTEXTS_def)
qed

lemma ids_bounded:
  assumes "sched_ok n s" and "map x_id (flatten xs) = map x_id (flatten (sc_contexts s))"
  shows "\<forall>c\<in>set (flatten xs). unat (x_id c) \<le> n"
proof -
  have "\<forall>v\<in>set (map x_id (flatten xs)). unat v \<le> n" unfolding assms(2) using assms(1) by (simp add: sched_ok_def)
  then show ?thesis by simp
qed

lemma slot_context:
  assumes "sched_ok n s" and "slot < MAX_EXECUTION_CONTEXTS" and "sc_contexts s ! slot = Some c"
  shows "sched_context (x_id c) s = Some c"
proof -
  have "c \<in> set (flatten (sc_contexts s))" using assms sched_okD(1) [OF assms(1)] by (metis nth_mem set_flatten)
  then show ?thesis unfolding sched_context_def
    by (rule keyed_table.find_key [OF slots_keyed_table sched_okD(2) [OF assms(1)]])
qed

lemma context_slot:
  assumes "sched_ok n s" and "sched_context i s = Some c"
  obtains slot where "slot < MAX_EXECUTION_CONTEXTS" "sc_contexts s ! slot = Some c" "x_id c = i"
proof -
  have "Some c \<in> set (sc_contexts s)" "x_id c = i"
    using find_key_Some [OF assms(2) [unfolded sched_context_def]] by (auto simp: set_flatten)
  then show thesis using that sched_okD(1) [OF assms(1)] by (metis in_set_conv_nth)
qed

lemma current_is_running:
  assumes "sched_ok n s" and "sched_context i s = Some c"
  shows "current_is i s \<longleftrightarrow> x_state c = Running"
proof -
  obtain slot where slot: "slot < MAX_EXECUTION_CONTEXTS" "sc_contexts s ! slot = Some c" "x_id c = i"
    using assms by (rule context_slot)
  note cur = sched_okD(4) [OF assms(1)]
  show ?thesis
  proof
    assume "x_state c = Running"
    then have "sc_current_slot s = Some slot" using slot cur by (simp add: running_at_def)
    then show "current_is i s" using slot by (simp add: current_is_def sched_current_def)
  next
    assume "current_is i s"
    then obtain k d where k: "sc_current_slot s = Some k" "sc_contexts s ! k = Some d" "x_id d = i"
      by (auto simp: current_is_def sched_current_def split: option.splits)
    then have r: "k < MAX_EXECUTION_CONTEXTS" "x_state d = Running" using cur [of k] by (auto simp: running_at_def)
    then have "d = c" using slot_context [OF assms(1) r(1) k(2)] k(3) assms(2) by simp
    then show "x_state c = Running" using r(2) by simp
  qed
qed

lemma context_mut_slots:
  assumes "sched_ok n s" and "sched_context i s = Some c"
  shows "sc_contexts (context_mut i f s) = map (\<lambda>y. if y = Some c then Some (f c) else y) (sc_contexts s)"
  using update_first_unique [OF sched_okD(2) [OF assms(1)] assms(2) [unfolded sched_context_def]]
  by (simp add: context_mut_def)

lemma context_mut_keys:
  assumes "sched_ok n s" and "sched_context i s = Some c" and "x_id (f c) = x_id c"
  shows "map x_id (flatten (sc_contexts (context_mut i f s))) = map x_id (flatten (sc_contexts s))"
proof -
  have "map x_id (flatten (map (\<lambda>y. if y = Some c then Some (f c) else y) xs)) = map x_id (flatten xs)" for xs
    by (induction xs rule: flatten.induct) (auto simp: assms(3))
  then show ?thesis unfolding context_mut_slots [OF assms(1,2)] .
qed

text \<open>Every operation on one context either stops it or leaves whether it runs alone.\<close>

lemma sched_ok_change:
  assumes ok: "sched_ok n s" and c: "sched_context i s = Some c" and key: "x_id (f c) = x_id c"
    and s': "sc_contexts s' = sc_contexts (context_mut i f s)" "sc_cursor s' = sc_cursor s" "sc_next_id s' = sc_next_id s"
    and cur: "sc_current_slot s' = sc_current_slot s \<and> (x_state (f c) = Running \<longleftrightarrow> x_state c = Running) \<or>
      sc_current_slot s' = (if current_is i s then None else sc_current_slot s) \<and> x_state (f c) \<noteq> Running"
  shows "sched_ok n s'"
proof -
  note slots = context_mut_slots [OF ok c, of f] and keys = context_mut_keys [OF ok c, of f, OF key]
  have len: "length (sc_contexts s) = MAX_EXECUTION_CONTEXTS" by (rule sched_okD(1) [OF ok])
  have at: "running_at s' slot \<longleftrightarrow>
      (if sc_contexts s ! slot = Some c then x_state (f c) = Running else running_at s slot)"
    if "slot < MAX_EXECUTION_CONTEXTS" for slot
    using that len by (auto simp: running_at_def s'(1) slots)
  have "\<forall>d\<in>set (flatten (sc_contexts s')). unat (x_id d) \<le> n"
    by (rule ids_bounded [OF ok]) (simp add: s'(1) keys)
  moreover have "sc_current_slot s' = Some slot \<longleftrightarrow> slot < MAX_EXECUTION_CONTEXTS \<and> running_at s' slot" for slot
  proof -
    obtain k where k: "k < MAX_EXECUTION_CONTEXTS" "sc_contexts s ! k = Some c" using ok c by (rule context_slot)
    have same: "running_at s slot \<longleftrightarrow> x_state c = Running" if "sc_contexts s ! slot = Some c"
      using that by (simp add: running_at_def)
    have "sc_contexts s ! slot = Some c" if "x_state c = Running" "slot < MAX_EXECUTION_CONTEXTS" "running_at s slot"
      using that k sched_okD(4) [OF ok, of slot] sched_okD(4) [OF ok, of k] by (simp add: running_at_def)
    then show ?thesis using cur at [of slot] same sched_okD(4) [OF ok, of slot] current_is_running [OF ok c]
      by (auto split: if_splits)
  qed
  ultimately show ?thesis using ok len slots s' keys unfolding sched_ok_def by simp
qed

lemma sched_ok_stop:
  assumes "sched_ok n s" and "sched_context i s = Some c" and "x_id (f c) = x_id c" and "x_state (f c) \<noteq> Running"
  shows "sched_ok n (clear_current (current_is i s) (context_mut i f s))"
  by (rule sched_ok_change [OF assms(1,2), of f, OF assms(3)]) (use assms(4) in \<open>simp_all add: clear_current_def context_mut_def\<close>)

lemma sched_ok_keep:
  assumes "sched_ok n s" and "sched_context i s = Some c" and "x_id (f c) = x_id c"
    and "x_state (f c) = Running \<longleftrightarrow> x_state c = Running"
  shows "sched_ok n (context_mut i f s)"
  by (rule sched_ok_change [OF assms(1,2), of f, OF assms(3)]) (use assms(4) in \<open>simp_all add: context_mut_def\<close>)

lemma current_is_mut:
  assumes "sched_ok n s" and "sched_context i s = Some c" and "x_id (f c) = x_id c"
  shows "current_is i (context_mut i f s) = current_is i s"
proof -
  have "sc_current_slot (context_mut i f s) = sc_current_slot s" by (simp add: context_mut_def)
  moreover have "slot < MAX_EXECUTION_CONTEXTS" if "sc_current_slot s = Some slot" for slot
    using that sched_okD(4) [OF assms(1)] by simp
  ultimately show ?thesis using sched_okD(1) [OF assms(1)]
    by (auto simp: current_is_def sched_current_def context_mut_slots [OF assms(1,2)] assms(3) split: option.splits)
qed

lemma park_current_ok:
  assumes ok: "sched_ok n s"
  shows "sched_ok n (park_current s)" "sc_current_slot (park_current s) = None"
    "sc_cursor (park_current s) = sc_cursor s"
    "slot < MAX_EXECUTION_CONTEXTS \<Longrightarrow> sc_contexts (park_current s) ! slot =
      map_option (\<lambda>c. if x_state c = Running then c\<lparr>x_state := Ready\<rparr> else c) (sc_contexts s ! slot)"
proof -
  show cur: "sc_current_slot (park_current s) = None" "sc_cursor (park_current s) = sc_cursor s"
    by (auto simp: park_current_def split: option.splits)
  have next_id: "sc_next_id (park_current s) = sc_next_id s" "length (sc_contexts (park_current s)) = length (sc_contexts s)"
    by (auto simp: park_current_def split: option.splits)
  show at: "sc_contexts (park_current s) ! slot =
      map_option (\<lambda>c. if x_state c = Running then c\<lparr>x_state := Ready\<rparr> else c) (sc_contexts s ! slot)"
    if slot: "slot < MAX_EXECUTION_CONTEXTS" for slot
  proof (cases "sc_current_slot s = Some slot")
    case True
    then show ?thesis using slot sched_okD(1) [OF ok] sched_okD(4) [OF ok, of slot]
      by (auto simp: park_current_def running_at_def)
  next
    case False
    then have "x_state c \<noteq> Running" if "sc_contexts s ! slot = Some c" for c
      using that slot sched_okD(4) [OF ok, of slot] by (simp add: running_at_def)
    moreover have "sc_contexts (park_current s) ! slot = sc_contexts s ! slot"
      using False by (auto simp: park_current_def nth_list_update split: option.splits)
    ultimately show ?thesis by (cases "sc_contexts s ! slot") auto
  qed
  have keys: "map x_id (flatten (sc_contexts (park_current s))) = map x_id (flatten (sc_contexts s))"
  proof (cases "sc_current_slot s")
    case (Some slot)
    then obtain c where "sc_contexts s ! slot = Some c" "slot < MAX_EXECUTION_CONTEXTS"
      using sched_okD(4) [OF ok, of slot] by (auto simp: running_at_def)
    then show ?thesis using Some sched_okD(1) [OF ok] by (simp add: park_current_def map_key_replace)
  qed (simp add: park_current_def)
  note ids_bounded [OF ok keys]
  moreover have "\<not> running_at (park_current s) slot" if "slot < MAX_EXECUTION_CONTEXTS" for slot
    using at [OF that] by (auto simp: running_at_def)
  ultimately show "sched_ok n (park_current s)" using ok cur keys next_id by (auto simp: sched_ok_def)
qed

lemma run_slot_ok:
  assumes ok: "sched_ok n s" and "sc_current_slot s = None" and slot: "slot < MAX_EXECUTION_CONTEXTS"
    and c: "sc_contexts s ! slot = Some c"
  shows "sched_ok n (run_slot slot c s)"
proof -
  note len = sched_okD(1) [OF ok]
  have keys: "map x_id (flatten (sc_contexts (run_slot slot c s))) = map x_id (flatten (sc_contexts s))"
    using len slot c by (simp add: run_slot_def map_key_replace)
  have "\<not> running_at s k" if "k < MAX_EXECUTION_CONTEXTS" for k
    using that assms(2) sched_okD(4) [OF ok, of k] by simp
  then have "running_at (run_slot slot c s) k \<longleftrightarrow> k = slot" if "k < MAX_EXECUTION_CONTEXTS" for k
    using that len slot by (auto simp: running_at_def run_slot_def nth_list_update)
  moreover note ids_bounded [OF ok keys]
  moreover have "sc_current_slot (run_slot slot c s) = Some slot" "sc_cursor (run_slot slot c s) = sc_cursor s"
    "sc_next_id (run_slot slot c s) = sc_next_id s" "length (sc_contexts (run_slot slot c s)) = length (sc_contexts s)"
    by (simp_all add: run_slot_def)
  ultimately show ?thesis using ok slot keys by (auto simp: sched_ok_def)
qed

section \<open>Runs\<close>

text \<open>The public operations of a context, and those of the scheduler other than admission.\<close>

inductive context_step :: "execution_context \<Rightarrow> execution_context \<Rightarrow> bool" where
  step_cpu: "context_step c (set_cpu_state cpu c)"
| step_runtime: "context_step c (set_runtime runtime c)"
| step_handle: "attach_handle h c = Ok c' \<Longrightarrow> context_step c c'"
| step_push: "push_event e c = Ok c' \<Longrightarrow> context_step c c'"
| step_pop: "context_step c (snd (pop_event c))"
| step_heap: "context_step c (configure_heap h c)"
| step_push_message: "context_step c (snd (push_message m c))"
| step_pop_message: "context_step c (snd (pop_message c))"
| step_budget: "context_step c (c\<lparr>x_budget := b\<rparr>)"

inductive sched_step :: "scheduler \<Rightarrow> scheduler \<Rightarrow> bool" where
  op_context: "sched_context i s = Some c \<Longrightarrow> context_step c c' \<Longrightarrow> sched_step s (context_mut i (\<lambda>_. c') s)"
| op_dispatch: "sched_step s (snd (dispatch_next s))"
| op_resume: "resume i s = Ok s' \<Longrightarrow> sched_step s s'"
| op_preempt: "preempt i cpu ticks exhausted s = Ok s' \<Longrightarrow> sched_step s s'"
| op_finish_slice: "finish_slice i cpu ticks result s = Ok s' \<Longrightarrow> sched_step s s'"
| op_wait: "wait i s = Ok s' \<Longrightarrow> sched_step s s'"
| op_wake: "wake i s = Ok s' \<Longrightarrow> sched_step s s'"
| op_pause: "pause i s = Ok s' \<Longrightarrow> sched_step s s'"
| op_continue: "continue_context i s = Ok s' \<Longrightarrow> sched_step s s'"
| op_terminate: "terminate i s = Ok s' \<Longrightarrow> sched_step s s'"
| op_restart: "restart i s = Ok s' \<Longrightarrow> sched_step s s'"
| op_send: "sched_step s (snd (send_message i m s))"
| op_finish: "finish i result s = Ok s' \<Longrightarrow> sched_step s s'"

text \<open>A run with \<open>n\<close> admissions.\<close>

inductive sched_run :: "nat \<Rightarrow> scheduler \<Rightarrow> bool" where
  run_new: "sched_run 0 scheduler_new"
| run_admit: "sched_run n s \<Longrightarrow> admit c s = Ok (i, s') \<Longrightarrow> sched_run (Suc n) s'"
| run_step: "sched_run n s \<Longrightarrow> sched_step s s' \<Longrightarrow> sched_run n s'"

lemma push_message_frame [simp]:
  "x_id (snd (push_message m c)) = x_id c" "x_state (snd (push_message m c)) = x_state c"
  "x_identity (snd (push_message m c)) = x_identity c"
  by (auto simp: push_message_def Let_def split: prod.splits sum.splits)

lemma context_step_frame:
  "context_step c c' \<Longrightarrow> x_id c' = x_id c \<and> x_state c' = x_state c \<and> x_identity c' = x_identity c"
  by (induction rule: context_step.induct)
    (auto simp: set_cpu_state_def set_runtime_def attach_handle_def push_event_def pop_event_def configure_heap_def
      pop_message_def Let_def split: if_splits option.splits)

lemma preempt_context_frame [simp]:
  "x_id (preempt_context cpu ticks b c) = x_id c" "x_state (preempt_context cpu ticks b c) \<noteq> Running"
  by (auto simp: preempt_context_def split: prod.splits sum.splits)

lemma finish_context_frame [simp]:
  "x_id (finish_context cpu ticks r c) = x_id c" "x_state (finish_context cpu ticks r c) \<noteq> Running"
  by (auto simp: finish_context_def split: prod.splits sum.splits)

lemma dispatch_slot:
  assumes "find (\<lambda>slot. is_ready (sc_contexts s ! slot)) (dispatch_order (sc_cursor s)) = Some slot"
  obtains c j where "slot < MAX_EXECUTION_CONTEXTS" "sc_contexts s ! slot = Some c" "x_state c = Ready"
    "j < MAX_EXECUTION_CONTEXTS" "slot = (sc_cursor s + j) mod MAX_EXECUTION_CONTEXTS"
    "\<And>k. k < j \<Longrightarrow> \<not> is_ready (sc_contexts s ! ((sc_cursor s + k) mod MAX_EXECUTION_CONTEXTS))"
proof -
  obtain j where j: "j < MAX_EXECUTION_CONTEXTS" "is_ready (sc_contexts s ! slot)"
    "slot = (sc_cursor s + j) mod MAX_EXECUTION_CONTEXTS"
    "\<forall>k<j. \<not> is_ready (sc_contexts s ! ((sc_cursor s + k) mod MAX_EXECUTION_CONTEXTS))"
    using assms unfolding find_Some_iff dispatch_order_def by auto
  then show thesis using that by (auto simp: is_ready_def MAX_EXECUTION_CONTEXTS_def split: option.splits)
qed

lemma sched_ok_cursor: "sched_ok n s \<Longrightarrow> k < MAX_EXECUTION_CONTEXTS \<Longrightarrow> sched_ok n (s\<lparr>sc_cursor := k\<rparr>)"
  by (auto simp: sched_ok_def running_at_def)

lemma dispatch_next_ok:
  assumes ok: "sched_ok n s"
  shows "sched_ok n (snd (dispatch_next s))"
proof (cases "find (\<lambda>slot. is_ready (sc_contexts (park_current s) ! slot)) (dispatch_order (sc_cursor (park_current s)))")
  case None
  then show ?thesis using park_current_ok [OF ok] by (simp add: dispatch_next_def Let_def)
next
  case (Some slot)
  then obtain c where c: "slot < MAX_EXECUTION_CONTEXTS" "sc_contexts (park_current s) ! slot = Some c"
    by (rule dispatch_slot)
  have "sched_ok n (run_slot slot c (park_current s))"
    using park_current_ok(1,2) [OF ok] c by (rule run_slot_ok)
  then show ?thesis using Some c by (simp add: dispatch_next_def Let_def sched_ok_cursor MAX_EXECUTION_CONTEXTS_def)
qed

lemma resume_ok:
  assumes ok: "sched_ok n s" and "resume i s = Ok s'"
  shows "sched_ok n s'"
proof -
  obtain slot where p: "position (\<lambda>entry. case entry of None \<Rightarrow> False | Some c \<Rightarrow> x_id c = i) (sc_contexts s) = Some slot"
    and r: "is_ready (sc_contexts s ! slot)" and s': "s' = run_slot slot (the (sc_contexts (park_current s) ! slot)) (park_current s)"
    using assms(2) by (auto simp: resume_def Let_def split: option.splits if_splits)
  then have slot: "slot < MAX_EXECUTION_CONTEXTS" using sched_okD(1) [OF ok] by (simp add: position_Some)
  then obtain c where "sc_contexts (park_current s) ! slot = Some c"
    using park_current_ok(4) [OF ok slot] r by (auto simp: is_ready_def split: option.splits)
  then show ?thesis using run_slot_ok [OF park_current_ok(1,2) [OF ok] slot] s' by simp
qed

lemma sched_step_ok:
  assumes "sched_step s s'" and ok: "sched_ok n s"
  shows "sched_ok n s'"
  using assms(1)
proof cases
  case (op_context i c c')
  have "sched_ok n (context_mut i (\<lambda>_. c') s)"
    by (rule sched_ok_keep [OF ok op_context(2)]) (use context_step_frame [OF op_context(3)] in simp_all)
  then show ?thesis using op_context(1) by simp
next
  case (op_send i m)
  show ?thesis
  proof (cases "sched_context i s")
    case (Some c)
    obtain r c' where p: "push_message m c = (r, c')" by fastforce
    have frame: "x_id c' = x_id c" "x_state c' = x_state c" using push_message_frame [of m c] p by simp_all
    show ?thesis
    proof (cases r)
      case (Inl e)
      have "sched_ok n (context_mut i (\<lambda>_. c') s)" by (rule sched_ok_keep [OF ok Some]) (simp_all add: frame)
      then show ?thesis using op_send Some p Inl by (simp add: send_message_def)
    next
      case (Inr u)
      have "sched_ok n (context_mut i (\<lambda>_. if x_state c' = Waiting then c'\<lparr>x_state := Ready\<rparr> else c') s)"
        by (rule sched_ok_keep [OF ok Some]) (simp_all add: frame)
      then show ?thesis using op_send Some p Inr by (simp add: send_message_def)
    qed
  qed (use op_send ok in \<open>simp add: send_message_def\<close>)
next
  case op_dispatch
  then show ?thesis using dispatch_next_ok [OF ok] by simp
next
  case (op_resume i)
  then show ?thesis using resume_ok [OF ok] by simp
qed (auto simp: preempt_def finish_slice_def wait_def wake_def pause_def continue_context_def terminate_def restart_def
    restart_context_def finish_def Let_def current_is_mut [OF ok]
    intro!: sched_ok_stop [OF ok] sched_ok_keep [OF ok] split: option.splits if_splits)

lemma other_context:
  assumes "sc_contexts s' = sc_contexts (context_mut i f s)" and "\<And>c. x_id (f c) = x_id c" and "j \<noteq> i"
  shows "sched_context j s' = sched_context j s"
proof -
  have "find (\<lambda>c. x_id c = j) (flatten (update_first (\<lambda>c. x_id c = i) f xs)) = find (\<lambda>c. x_id c = j) (flatten xs)" for xs
    using assms(2,3) by (induction xs rule: flatten.induct) auto
  then show ?thesis by (simp add: sched_context_def assms(1) context_mut_def)
qed

lemma changed_context:
  assumes "sched_ok n s" and "sched_context i s = Some c" and "sched_ok n s'"
    and "sc_contexts s' = sc_contexts (context_mut i f s)" and "x_id (f c) = x_id c"
  shows "sched_context i s' = Some (f c)"
proof -
  obtain slot where slot: "slot < MAX_EXECUTION_CONTEXTS" "sc_contexts s ! slot = Some c" "x_id c = i"
    using assms(1,2) by (rule context_slot)
  then have "sc_contexts s' ! slot = Some (f c)"
    using sched_okD(1) [OF assms(1)] by (simp add: assms(4) context_mut_slots [OF assms(1,2)])
  then show ?thesis using slot_context [OF assms(3) slot(1)] assms(5) slot(3) by simp
qed

lemma admit_ok:
  assumes ok: "sched_ok n s" and "admit c s = Ok (i, s')" and "Suc n < 2 ^ 32 - 1"
  shows "sched_ok (Suc n) s'"
proof -
  define d where "d = c\<lparr>x_id := sc_next_id s, x_state := Ready\<rparr>"
  obtain slot where p: "position (\<lambda>slot. case slot of None \<Rightarrow> True | Some c \<Rightarrow> is_dead c) (sc_contexts s) = Some slot"
    and s': "s' = s\<lparr>sc_next_id := next_nonzero (sc_next_id s), sc_contexts := (sc_contexts s)[slot := Some d]\<rparr>"
    using assms(2) by (auto simp: admit_def Let_def d_def split: option.splits if_splits)
  have slot: "slot < length (sc_contexts s)" "\<not> running_at s slot"
    using p by (auto simp: position_Some running_at_def is_dead_def)
  have next_id: "unat (sc_next_id s) = n + 1" and below: "\<forall>c\<in>set (flatten (sc_contexts s)). unat (x_id c) \<le> n"
    using ok by (simp_all add: sched_ok_def)
  have "x_id d \<notin> x_id ` set (flatten (sc_contexts s))" using next_id below by (auto simp: d_def)
  then have "distinct (map x_id (flatten (sc_contexts s')))"
    using distinct_key_fresh [OF slot(1) sched_okD(2) [OF ok]] by (simp add: s')
  moreover have "\<forall>c\<in>set (flatten (sc_contexts s')). unat (x_id c) \<le> Suc n"
  proof
    fix e
    assume "e \<in> set (flatten (sc_contexts s'))"
    then have "e = d \<or> e \<in> set (flatten (sc_contexts s))"
      using set_update_subset_insert [of "sc_contexts s" slot "Some d"] by (auto simp: s' set_flatten)
    then show "unat (x_id e) \<le> Suc n" using below next_id by (auto simp: d_def)
  qed
  moreover have "unat (next_nonzero (sc_next_id s)) = Suc n + 1"
  proof -
    have "unat (sc_next_id s + 1) = n + 2" using next_id assms(3) by (simp add: unat_word_ariths)
    then show ?thesis by (simp add: next_nonzero_def max_def word_le_nat_alt)
  qed
  moreover have "running_at s' k \<longleftrightarrow> running_at s k" for k
    using slot by (auto simp: running_at_def s' d_def nth_list_update)
  ultimately show ?thesis using ok by (simp add: sched_ok_def) (simp add: s')
qed

lemma sched_run_ok: "sched_run n s \<Longrightarrow> n < 2 ^ 32 - 1 \<Longrightarrow> sched_ok n s"
proof (induction rule: sched_run.induct)
  case run_new
  show ?case by (rule sched_ok_new)
next
  case (run_admit n s c i s')
  then show ?case using admit_ok [of n s c i s'] by simp
next
  case (run_step n s s')
  then show ?case using sched_step_ok by simp
qed

section \<open>Liveness of dispatch\<close>

definition dispatch_round :: "scheduler \<Rightarrow> scheduler" where
  "dispatch_round s = snd (dispatch_next s)"

text \<open>One round either dispatches a runnable slot or brings the cursor closer to it.\<close>

lemma dispatch_progress:
  assumes ok: "sched_ok n s" and d: "d < MAX_EXECUTION_CONTEXTS" "slot = (sc_cursor s + d) mod MAX_EXECUTION_CONTEXTS"
    and c: "sc_contexts s ! slot = Some c" "x_state c \<in> {Ready, Running}"
  shows "(\<exists>c'. sc_contexts (dispatch_round s) ! slot = Some c' \<and> x_id c' = x_id c \<and> x_state c' \<in> {Ready, Running}) \<and>
    (sc_current_slot (dispatch_round s) = Some slot \<or>
     (\<exists>d'<d. slot = (sc_cursor (dispatch_round s) + d') mod MAX_EXECUTION_CONTEXTS))"
proof -
  define t where "t = park_current s"
  note park = park_current_ok [OF ok, folded t_def]
  have slot: "slot < MAX_EXECUTION_CONTEXTS" using d(2) by (simp add: MAX_EXECUTION_CONTEXTS_def)
  obtain e where e: "sc_contexts t ! slot = Some e" "x_state e = Ready" "x_id e = x_id c"
    using park(4) [OF slot] c by auto
  then have ready: "is_ready (sc_contexts t ! slot)" by (simp add: is_ready_def)
  have "slot \<in> set (dispatch_order (sc_cursor t))" using d park(3) by (auto simp: dispatch_order_def)
  then obtain f where f: "find (\<lambda>slot. is_ready (sc_contexts t ! slot)) (dispatch_order (sc_cursor t)) = Some f"
    using ready by (metis (mono_tags, lifting) find_None_iff not_None_eq)
  then obtain g j where g: "f < MAX_EXECUTION_CONTEXTS" "sc_contexts t ! f = Some g" "j < MAX_EXECUTION_CONTEXTS"
    "f = (sc_cursor t + j) mod MAX_EXECUTION_CONTEXTS"
    "\<And>k. k < j \<Longrightarrow> \<not> is_ready (sc_contexts t ! ((sc_cursor t + k) mod MAX_EXECUTION_CONTEXTS))"
    by (rule dispatch_slot) blast
  have round: "dispatch_round s = (run_slot f g t)\<lparr>sc_cursor := (f + 1) mod MAX_EXECUTION_CONTEXTS\<rparr>"
    using f g(2) by (simp add: dispatch_round_def dispatch_next_def Let_def t_def)
  have "j \<le> d" using g(5) [of d] ready d(2) park(3) by (metis not_le)
  have "length (sc_contexts t) = MAX_EXECUTION_CONTEXTS" by (rule sched_okD(1) [OF park(1)])
  then have at: "sc_contexts (dispatch_round s) ! slot =
      (if slot = f then Some (g\<lparr>x_state := Running, x_dispatches := saturating_add (x_dispatches g) 1\<rparr>) else Some e)"
    using g(1) e by (simp add: round run_slot_def)
  show ?thesis
  proof (cases "slot = f")
    case True
    then show ?thesis using at e g(2) by (simp add: round run_slot_def)
  next
    case False
    then have "j < d" using \<open>j \<le> d\<close> g(4) d(2) park(3) by (metis le_neq_implies_less)
    then obtain r where r: "d = Suc (j + r)" using less_imp_Suc_add by blast
    have "slot = ((f + 1) mod MAX_EXECUTION_CONTEXTS + r) mod MAX_EXECUTION_CONTEXTS"
      unfolding d(2) g(4) park(3) r by (simp add: mod_simps add.assoc)
    then have "\<exists>d'<d. slot = (sc_cursor (dispatch_round s) + d') mod MAX_EXECUTION_CONTEXTS"
      using r by (intro exI [of _ r]) (simp add: round)
    then show ?thesis using at False e by simp
  qed
qed

lemma dispatch_reaches:
  "sched_ok n s \<Longrightarrow> d < MAX_EXECUTION_CONTEXTS \<Longrightarrow> slot = (sc_cursor s + d) mod MAX_EXECUTION_CONTEXTS \<Longrightarrow>
    sc_contexts s ! slot = Some c \<Longrightarrow> x_state c \<in> {Ready, Running} \<Longrightarrow>
    \<exists>k\<le>d. sc_current_slot ((dispatch_round ^^ Suc k) s) = Some slot \<and>
      (\<exists>c'. sc_contexts ((dispatch_round ^^ Suc k) s) ! slot = Some c' \<and> x_id c' = x_id c)"
proof (induction d arbitrary: s c rule: less_induct)
  case (less d)
  obtain c' where c': "sc_contexts (dispatch_round s) ! slot = Some c'" "x_id c' = x_id c" "x_state c' \<in> {Ready, Running}"
    and goal: "sc_current_slot (dispatch_round s) = Some slot \<or>
      (\<exists>d'<d. slot = (sc_cursor (dispatch_round s) + d') mod MAX_EXECUTION_CONTEXTS)"
    using dispatch_progress [OF less.prems] by blast
  show ?case
  proof (cases "sc_current_slot (dispatch_round s) = Some slot")
    case True
    then show ?thesis using c' by (intro exI [of _ 0]) simp
  next
    case False
    then obtain d' where d': "d' < d" "slot = (sc_cursor (dispatch_round s) + d') mod MAX_EXECUTION_CONTEXTS"
      using goal by blast
    have "sched_ok n (dispatch_round s)" unfolding dispatch_round_def by (rule dispatch_next_ok [OF less.prems(1)])
    from less.IH [OF d'(1) this _ d'(2) c'(1,3)] obtain k where "k \<le> d'"
      "sc_current_slot ((dispatch_round ^^ Suc (Suc k)) s) = Some slot \<and>
        (\<exists>e. sc_contexts ((dispatch_round ^^ Suc (Suc k)) s) ! slot = Some e \<and> x_id e = x_id c')"
      using d'(1) less.prems(2) by (auto simp: funpow_swap1)
    then show ?thesis using d'(1) c'(2) by (intro exI [of _ "Suc k"]) (simp del: funpow.simps)
  qed
qed

section \<open>Properties\<close>

text \<open>
  C14: at most one context runs. In every run with fewer than \<open>2 ^ 32 - 1\<close> admissions identifiers are
  unique and a slot is current exactly when the context in it is running.
\<close>

theorem scheduler_single_running:
  assumes "sched_run n s" and "n < 2 ^ 32 - 1"
  shows "distinct (map x_id (flatten (sc_contexts s))) \<and>
    (sc_current_slot s = Some slot \<longleftrightarrow>
      slot < MAX_EXECUTION_CONTEXTS \<and> (\<exists>c. sc_contexts s ! slot = Some c \<and> x_state c = Running))"
  using sched_run_ok [OF assms] by (auto simp: sched_ok_def running_at_def)

definition demo_admit :: "128 word \<Rightarrow> scheduler \<Rightarrow> scheduler" where
  "demo_admit n s = snd (projr (admit (demo_context n) s))"

definition demo_sched :: scheduler where
  "demo_sched = demo_admit 30 (demo_admit 20 scheduler_new)"

lemma demo_admit_run: "sched_run n s \<Longrightarrow> \<not> isl (admit (demo_context k) s) \<Longrightarrow> sched_run (Suc n) (demo_admit k s)"
  by (cases "admit (demo_context k) s") (auto simp: demo_admit_def intro: run_admit)

lemma demo_sched_run: "sched_run 2 demo_sched"
proof -
  have "\<not> isl (admit (demo_context 20) scheduler_new)" "\<not> isl (admit (demo_context 30) (demo_admit 20 scheduler_new))"
    by code_simp+
  then have "sched_run (Suc (Suc 0)) demo_sched"
    unfolding demo_sched_def by (intro demo_admit_run run_new)
  then show ?thesis by (simp add: numeral_2_eq_2)
qed

theorem scheduler_single_running_witness:
  "sc_current_slot (snd (dispatch_next demo_sched)) = Some 0 \<and>
   (\<exists>c. sc_contexts (snd (dispatch_next demo_sched)) ! 0 = Some c \<and> x_state c = Running)"
proof -
  have "sched_run 2 (snd (dispatch_next demo_sched))" by (rule run_step [OF demo_sched_run op_dispatch])
  note single = scheduler_single_running [OF this, of 0]
  have "sc_current_slot (snd (dispatch_next demo_sched)) = Some 0" by code_simp
  then show ?thesis using single by simp
qed

text \<open>
  C15: round robin is fair. A context that is ready or running is the running one after at most
  eight dispatches.
\<close>

theorem dispatch_is_fair:
  assumes "sched_run n s" and "n < 2 ^ 32 - 1" and "slot < MAX_EXECUTION_CONTEXTS"
    and "sc_contexts s ! slot = Some c" and "x_state c \<in> {Ready, Running}"
  shows "\<exists>k<MAX_EXECUTION_CONTEXTS. sc_current_slot ((dispatch_round ^^ Suc k) s) = Some slot \<and>
    (\<exists>c'. sc_contexts ((dispatch_round ^^ Suc k) s) ! slot = Some c' \<and> x_id c' = x_id c)"
proof -
  have ok: "sched_ok n s" using assms(1,2) by (rule sched_run_ok)
  define d where "d = (slot + MAX_EXECUTION_CONTEXTS - sc_cursor s) mod MAX_EXECUTION_CONTEXTS"
  have "d < MAX_EXECUTION_CONTEXTS" by (simp add: d_def MAX_EXECUTION_CONTEXTS_def)
  moreover have "slot = (sc_cursor s + d) mod MAX_EXECUTION_CONTEXTS"
    using assms(3) sched_okD(3) [OF ok] by (simp add: d_def mod_simps)
  ultimately obtain k where "k \<le> d" "sc_current_slot ((dispatch_round ^^ Suc k) s) = Some slot \<and>
      (\<exists>c'. sc_contexts ((dispatch_round ^^ Suc k) s) ! slot = Some c' \<and> x_id c' = x_id c)"
    using dispatch_reaches [OF ok _ _ assms(4,5)] by blast
  then show ?thesis using \<open>d < MAX_EXECUTION_CONTEXTS\<close> le_less_trans by blast
qed

theorem dispatch_is_fair_witness:
  "\<exists>k<MAX_EXECUTION_CONTEXTS. sc_current_slot ((dispatch_round ^^ Suc k) demo_sched) = Some 1"
proof -
  have "\<exists>c. sc_contexts demo_sched ! 1 = Some c \<and> x_state c \<in> {Ready, Running}"
  proof (intro exI conjI)
    show "sc_contexts demo_sched ! 1 = Some (the (sc_contexts demo_sched ! 1))" by code_simp
    show "x_state (the (sc_contexts demo_sched ! 1)) \<in> {Ready, Running}" by code_simp
  qed
  then show ?thesis using dispatch_is_fair [OF demo_sched_run, of 1] by (auto simp: MAX_EXECUTION_CONTEXTS_def)
qed

text \<open>
  C38: identities are exclusive only at admission. \<^verbatim>\<open>admit\<close> refuses an identity that is alive, but \<^verbatim>\<open>restart\<close> does not look:
  restarting an exited or terminated context succeeds also when its identity was admitted again, and leaves two
  contexts of one identity, both alive.
\<close>

theorem restart_duplicates_identity:
  assumes "sched_run n s" and "n < 2 ^ 32 - 1" and "sched_context i s = Some c" and "x_state c \<in> {Exited, Terminated}"
    and "sched_context j s = Some d" and "x_identity d = x_identity c" and "\<not> is_dead d"
  shows "\<exists>s' c'. restart i s = Ok s' \<and> sched_context i s' = Some c' \<and> x_state c' = Ready \<and> x_identity c' = x_identity d \<and>
    sched_context j s' = Some d \<and> i \<noteq> j"
proof -
  have ok: "sched_ok n s" using assms(1,2) by (rule sched_run_ok)
  have ij: "i \<noteq> j" using assms(3-5,7) by (auto simp: is_dead_def)
  obtain s' where s': "restart i s = Ok s'" "sc_contexts s' = sc_contexts (context_mut i restart_context s)"
    using assms(3,4) by (auto simp: restart_def)
  have ok': "sched_ok n s'" using op_restart [OF s'(1)] ok by (rule sched_step_ok)
  have c': "sched_context i s' = Some (restart_context c)" by (rule changed_context [OF ok assms(3) ok' s'(2)]) (simp add: restart_context_def)
  have "sched_context j s' = Some d" using assms(5) ij other_context [OF s'(2), of j] by (simp add: restart_context_def)
  then show ?thesis using s'(1) c' ij assms(6) by (simp add: restart_context_def)
qed

theorem restart_duplicates_identity_witness:
  "\<exists>s s' c d. sched_run 3 s \<and> restart 2 s = Ok s' \<and> sched_context 2 s' = Some c \<and> sched_context 3 s' = Some d \<and>
     x_identity c = x_identity d \<and> x_state c = Ready \<and> \<not> is_dead d"
proof -
  define s1 where "s1 = projr (finish 1 0 demo_sched)"
  define s2 where "s2 = projr (finish 2 0 s1)"
  define s3 where "s3 = demo_admit 30 s2"
  note defs = s3_def s2_def s1_def
  have 1: "\<not> isl (finish 1 0 demo_sched)" by code_simp
  have 2: "\<not> isl (finish 2 0 s1)" unfolding defs by code_simp
  have 3: "\<not> isl (admit (demo_context 30) s2)" unfolding defs by code_simp
  have "sched_run 2 s1" unfolding s1_def by (rule run_step [OF demo_sched_run op_finish [OF sum.collapse(2) [OF 1, symmetric]]])
  then have "sched_run 2 s2" unfolding s2_def by (rule run_step [OF _ op_finish [OF sum.collapse(2) [OF 2, symmetric]]])
  then have run: "sched_run 3 s3" unfolding s3_def using demo_admit_run [OF _ 3, of 2] by simp
  have "(case (sched_context 2 s3, sched_context 3 s3) of (Some c, Some d) \<Rightarrow>
      x_state c = Exited \<and> x_identity d = x_identity c \<and> \<not> is_dead d | _ \<Rightarrow> False)" unfolding defs by code_simp
  then obtain c d where cd: "sched_context 2 s3 = Some c" "x_state c \<in> {Exited, Terminated}" "sched_context 3 s3 = Some d"
      "x_identity d = x_identity c" "\<not> is_dead d" by (auto split: option.splits)
  from restart_duplicates_identity [OF run _ cd] obtain s' c' where "restart 2 s3 = Ok s'" "sched_context 2 s' = Some c'" "x_state c' = Ready"
      "x_identity c' = x_identity d" "sched_context 3 s' = Some d" by auto
  then show ?thesis using run cd(5) by blast
qed

text \<open>
  C39: waiting revives. \<^verbatim>\<open>wait\<close> accepts a context in any state, so a terminated context is
  ready again after \<^verbatim>\<open>wait\<close> and \<^verbatim>\<open>wake\<close>, with the budget it had spent and not with the fresh one of \<^verbatim>\<open>restart\<close>.
\<close>

theorem wait_revives_terminated:
  assumes "sched_run n s" and "n < 2 ^ 32 - 1" and "sched_context i s = Some c" and "x_state c = Terminated"
  shows "\<exists>s1 s2 d. wait i s = Ok s1 \<and> wake i s1 = Ok s2 \<and> sched_context i s2 = Some d \<and>
    x_state d = Ready \<and> x_budget d = x_budget c"
proof -
  have ok: "sched_ok n s" using assms(1,2) by (rule sched_run_ok)
  let ?w = "\<lambda>c. c\<lparr>x_state := Waiting\<rparr>" and ?r = "\<lambda>c. c\<lparr>x_state := Ready\<rparr>"
  obtain s1 where s1: "wait i s = Ok s1" "sc_contexts s1 = sc_contexts (context_mut i ?w s)"
    using assms(3) by (auto simp: wait_def Let_def clear_current_def)
  have ok1: "sched_ok n s1" using op_wait [OF s1(1)] ok by (rule sched_step_ok)
  have c1: "sched_context i s1 = Some (?w c)" by (rule changed_context [OF ok assms(3) ok1 s1(2)]) simp
  obtain s2 where s2: "wake i s1 = Ok s2" "sc_contexts s2 = sc_contexts (context_mut i ?r s1)"
    using c1 by (auto simp: wake_def)
  have ok2: "sched_ok n s2" using op_wake [OF s2(1)] ok1 by (rule sched_step_ok)
  have "sched_context i s2 = Some (?r (?w c))" by (rule changed_context [OF ok1 c1 ok2 s2(2)]) simp
  then show ?thesis using s1(1) s2(1) by auto
qed

theorem wait_revives_terminated_witness:
  "\<exists>s s1 s2. terminate 1 demo_sched = Ok s \<and> wait 1 s = Ok s1 \<and> wake 1 s1 = Ok s2"
proof -
  define s where "s = projr (terminate 1 demo_sched)"
  have "\<not> isl (terminate 1 demo_sched)" by code_simp
  then have s: "terminate 1 demo_sched = Ok s" unfolding s_def by (rule sum.collapse(2) [symmetric])
  then have run: "sched_run 2 s" by (intro run_step [OF demo_sched_run op_terminate])
  have "(case sched_context 1 s of None \<Rightarrow> False | Some c \<Rightarrow> x_state c = Terminated)" unfolding s_def by code_simp
  then obtain c where "sched_context 1 s = Some c" "x_state c = Terminated" by (auto split: option.splits)
  then show ?thesis using wait_revives_terminated [OF run] s by fastforce
qed

end
