(* ===== verification/Abi.thy ===== *)
theory Abi
  imports Capability
begin

text \<open>
  The Form ABI (\<^verbatim>\<open>abi.rs\<close>): call numbers, request validation, the streaming extension and the native call
  gate. The service behind the gate is a parameter that may change a state of any type; the lemmas show that
  it is reached only by a request whose caller holds a live Handle for exactly this CFC, target,
  Dimension and operation.
\<close>

section \<open>Model\<close>

definition FORM_ABI_VERSION :: u16 where
  "FORM_ABI_VERSION = 1"

definition STREAM_ABI_VERSION :: u16 where
  "STREAM_ABI_VERSION = 2"

definition STREAM_CHUNK_BYTES :: nat where
  "STREAM_CHUNK_BYTES = 4096 - 256"

datatype stream_call =
    OpenRead
  | OpenWrite
  | ReadChunk
  | WriteChunk
  | StreamCommit
  | StreamAbort

definition stream_call_from_raw :: "u16 \<Rightarrow> stream_call option" where
  "stream_call_from_raw v =
     (if v = 1 then Some OpenRead else if v = 2 then Some OpenWrite else if v = 3 then Some ReadChunk
      else if v = 4 then Some WriteChunk else if v = 5 then Some StreamCommit else if v = 6 then Some StreamAbort
      else None)"

datatype abi_status =
    StatusOk
  | StatusInvalid
  | StatusDenied
  | StatusUnsupported
  | StatusWouldBlock

fun status_raw :: "abi_status \<Rightarrow> u16" where
  "status_raw StatusOk = 0"
| "status_raw StatusInvalid = 1"
| "status_raw StatusDenied = 2"
| "status_raw StatusUnsupported = 3"
| "status_raw StatusWouldBlock = 4"

definition status_from_raw :: "u16 \<Rightarrow> abi_status option" where
  "status_from_raw v =
     (if v = 0 then Some StatusOk else if v = 1 then Some StatusInvalid else if v = 2 then Some StatusDenied
      else if v = 3 then Some StatusUnsupported else if v = 4 then Some StatusWouldBlock else None)"

record stream_request =
  sq_version :: u16
  sq_call :: u16
  sq_caller :: fin
  sq_handle_id :: u32
  sq_stream_id :: u32
  sq_offset :: u64
  sq_length :: u32
  sq_flags :: u32

definition stream_validate :: "stream_request \<Rightarrow> (abi_status, operations) result" where
  "stream_validate q =
     (if sq_version q \<noteq> STREAM_ABI_VERSION \<or> is_zero (sq_caller q) \<or> sq_handle_id q = 0 then Err StatusInvalid
      else if unat (sq_length q) > STREAM_CHUNK_BYTES then Err StatusInvalid
      else (case stream_call_from_raw (sq_call q) of
        None \<Rightarrow> Err StatusUnsupported
      | Some call \<Rightarrow> if call \<in> {OpenRead, ReadChunk} then Ok READ else Ok CONFIGURE))"

datatype abi_call =
    Log
  | FormResolve
  | HandleAuthorize
  | TimeNow
  | IpcSend
  | IpcReceive
  | ExecutionYield
  | ExecutionExit
  | SurfaceCreate
  | BufferAttach
  | SurfaceDamage
  | SurfaceCommit
  | EventPoll
  | BrowserNavigate
  | StorageRead
  | StorageWrite
  | NetworkSend
  | NetworkReceive
  | PackageTransaction

fun call_raw :: "abi_call \<Rightarrow> u16" where
  "call_raw Log = 1"
| "call_raw FormResolve = 2"
| "call_raw HandleAuthorize = 3"
| "call_raw TimeNow = 4"
| "call_raw IpcSend = 5"
| "call_raw IpcReceive = 6"
| "call_raw ExecutionYield = 7"
| "call_raw ExecutionExit = 8"
| "call_raw SurfaceCreate = 16"
| "call_raw BufferAttach = 17"
| "call_raw SurfaceDamage = 18"
| "call_raw SurfaceCommit = 19"
| "call_raw EventPoll = 20"
| "call_raw BrowserNavigate = 32"
| "call_raw StorageRead = 33"
| "call_raw StorageWrite = 34"
| "call_raw NetworkSend = 35"
| "call_raw NetworkReceive = 36"
| "call_raw PackageTransaction = 48"

definition call_from_raw :: "u16 \<Rightarrow> abi_call option" where
  "call_from_raw v =
     (if v = 1 then Some Log else if v = 2 then Some FormResolve else if v = 3 then Some HandleAuthorize
      else if v = 4 then Some TimeNow else if v = 5 then Some IpcSend else if v = 6 then Some IpcReceive
      else if v = 7 then Some ExecutionYield else if v = 8 then Some ExecutionExit
      else if v = 16 then Some SurfaceCreate else if v = 17 then Some BufferAttach
      else if v = 18 then Some SurfaceDamage else if v = 19 then Some SurfaceCommit
      else if v = 20 then Some EventPoll else if v = 32 then Some BrowserNavigate
      else if v = 33 then Some StorageRead else if v = 34 then Some StorageWrite
      else if v = 35 then Some NetworkSend else if v = 36 then Some NetworkReceive
      else if v = 48 then Some PackageTransaction else None)"

record abi_request =
  rq_version :: u16
  rq_call :: u16
  rq_caller :: fin
  rq_handle_id :: u32
  rq_arguments :: "u64 list"

record abi_response =
  rs_status :: u16
  rs_values :: "u64 list"

fun call_operation :: "abi_call \<Rightarrow> operations" where
  "call_operation Log = READ"
| "call_operation FormResolve = READ"
| "call_operation TimeNow = READ"
| "call_operation EventPoll = INPUT"
| "call_operation HandleAuthorize = EXECUTE"
| "call_operation IpcSend = EXECUTE"
| "call_operation IpcReceive = EXECUTE"
| "call_operation ExecutionYield = EXECUTE"
| "call_operation ExecutionExit = EXECUTE"
| "call_operation SurfaceCreate = DISPLAY"
| "call_operation BufferAttach = DISPLAY"
| "call_operation SurfaceDamage = DISPLAY"
| "call_operation SurfaceCommit = DISPLAY"
| "call_operation BrowserNavigate = EXECUTE"
| "call_operation StorageRead = READ"
| "call_operation StorageWrite = CONFIGURE"
| "call_operation NetworkSend = NETWORK"
| "call_operation NetworkReceive = NETWORK"
| "call_operation PackageTransaction = PACKAGE"

definition request_validate :: "abi_request \<Rightarrow> (abi_status, operations) result" where
  "request_validate q =
     (if rq_version q \<noteq> FORM_ABI_VERSION \<or> is_zero (rq_caller q) then Err StatusInvalid
      else (case call_from_raw (rq_call q) of
        None \<Rightarrow> Err StatusUnsupported
      | Some call \<Rightarrow>
          if rq_handle_id q = 0 \<and> call \<noteq> Log then Err StatusDenied else Ok (call_operation call)))"

definition response_status :: "abi_status \<Rightarrow> abi_response" where
  "response_status status = \<lparr>rs_status = status_raw status, rs_values = replicate 4 0\<rparr>"

definition response_ok :: "u64 list \<Rightarrow> abi_response" where
  "response_ok values = \<lparr>rs_status = status_raw StatusOk, rs_values = values\<rparr>"

record native_call_gate =
  ng_broker :: capability_broker
  ng_cfc :: cfc_fin
  ng_target :: fin
  ng_dimension :: fin

definition gate_new :: "capability_broker \<Rightarrow> cfc_fin \<Rightarrow> fin \<Rightarrow> fin \<Rightarrow> native_call_gate" where
  "gate_new broker cfc target dimension =
     \<lparr>ng_broker = broker, ng_cfc = cfc, ng_target = target, ng_dimension = dimension\<rparr>"

definition gate_dispatch ::
  "native_call_gate \<Rightarrow> abi_request \<Rightarrow> u64 \<Rightarrow> (abi_call \<Rightarrow> u64 list \<Rightarrow> 's \<Rightarrow> abi_response \<times> 's) \<Rightarrow> 's \<Rightarrow> abi_response \<times> 's" where
  "gate_dispatch g q tick service s =
     (case request_validate q of
       Err status \<Rightarrow> (response_status status, s)
     | Ok operation \<Rightarrow>
        if cfc_is_zero (ng_cfc g) \<or> is_zero (ng_target g) \<or> is_zero (ng_dimension g)
        then (response_status StatusInvalid, s)
        else if \<not> is_ok (authorize_in (ng_broker g) (ng_cfc g) (rq_handle_id q) (ng_target g) (ng_dimension g) operation tick) \<or>
                \<not> is_ok (authorize_requester (ng_broker g) (rq_handle_id q) (rq_caller q) (ng_target g) (ng_dimension g) operation tick)
        then (response_status StatusDenied, s)
        else (case call_from_raw (rq_call q) of
          None \<Rightarrow> (response_status StatusUnsupported, s)
        | Some call \<Rightarrow> service call (rq_arguments q) s))"

section \<open>The gate\<close>

lemma call_round_trip: "call_from_raw (call_raw c) = Some c"
  by (cases c) (simp_all add: call_from_raw_def)

lemma call_from_raw_Some: "call_from_raw v = Some c \<Longrightarrow> v = call_raw c"
  by (auto simp: call_from_raw_def split: if_splits)

lemma status_nonzero: "rs_status (response_status st) = 0 \<longleftrightarrow> st = StatusOk"
  by (cases st) (simp_all add: response_status_def)

lemma request_validate_Ok:
  "request_validate q = Ok operation \<longleftrightarrow>
    (\<exists>c. rq_version q = FORM_ABI_VERSION \<and> \<not> is_zero (rq_caller q) \<and> rq_call q = call_raw c \<and>
      (rq_handle_id q \<noteq> 0 \<or> c = Log) \<and> operation = call_operation c)"
  by (auto simp: request_validate_def call_round_trip call_round_trip [of Log, unfolded call_raw.simps] dest: call_from_raw_Some split: option.splits)

lemma is_ok_unit: "is_ok (r :: ('e, unit) result) \<longleftrightarrow> r = Ok ()"
  by (cases r) auto

text \<open>Everything the gate checks before it calls the service.\<close>

definition gate_admits :: "native_call_gate \<Rightarrow> abi_request \<Rightarrow> u64 \<Rightarrow> abi_call \<Rightarrow> form_handle \<Rightarrow> bool" where
  "gate_admits g q tick c h \<longleftrightarrow> rq_version q = FORM_ABI_VERSION \<and> rq_call q = call_raw c \<and>
     find_handle (ng_broker g) (rq_handle_id q) = Some h \<and> h_requester h = rq_caller q \<and> h_cfc h = ng_cfc g \<and>
     b_cfc (ng_broker g) = ng_cfc g \<and> covers h (ng_target g) (ng_dimension g) (call_operation c) tick"

lemma gate_dispatch_cases:
  obtains (served) c h where "gate_admits g q tick c h" "gate_dispatch g q tick service s = service c (rq_arguments q) s"
  | (refused) st where "st \<noteq> StatusOk" "gate_dispatch g q tick service s = (response_status st, s)"
proof (cases "request_validate q")
  case (Inl st)
  then have "st \<noteq> StatusOk" by (auto simp: request_validate_def split: if_splits option.splits)
  then show thesis using refused Inl by (simp add: gate_dispatch_def)
next
  case (Inr operation)
  then obtain c where c: "rq_version q = FORM_ABI_VERSION" "rq_call q = call_raw c" "operation = call_operation c"
    by (auto simp: request_validate_Ok)
  show thesis
  proof (cases "cfc_is_zero (ng_cfc g) \<or> is_zero (ng_target g) \<or> is_zero (ng_dimension g)")
    case True
    then show thesis using refused [of StatusInvalid] Inr by (simp add: gate_dispatch_def)
  next
    case False
    let ?in = "authorize_in (ng_broker g) (ng_cfc g) (rq_handle_id q) (ng_target g) (ng_dimension g) operation tick"
    let ?req = "authorize_requester (ng_broker g) (rq_handle_id q) (rq_caller q) (ng_target g) (ng_dimension g) operation tick"
    show thesis
    proof (cases "?in = Ok () \<and> ?req = Ok ()")
      case True
      then obtain h where "gate_admits g q tick c h"
        unfolding authorize_in_Ok authorize_requester_Ok gate_admits_def c(3) [symmetric] using c(1,2) by auto
      moreover have "gate_dispatch g q tick service s = service c (rq_arguments q) s"
        using True False Inr c by (simp add: gate_dispatch_def is_ok_unit call_round_trip)
      ultimately show thesis by (rule served)
    next
      case denied: False
      then have "gate_dispatch g q tick service s = (response_status StatusDenied, s)"
        using False Inr by (simp add: gate_dispatch_def is_ok_unit)
      then show thesis using refused by blast
    qed
  qed
qed

section \<open>Properties\<close>

text \<open>
  C6: complete mediation. The gate either refuses, with a status other than \<open>Ok\<close> and without running the
  service, or it runs the service for the call the request names, and then the broker of
  this CFC holds a live Handle of the caller that covers the target, the Dimension and the operation of that call.
\<close>

theorem gate_mediates:
  "(\<exists>st. st \<noteq> StatusOk \<and> gate_dispatch g q tick service s = (response_status st, s)) \<or>
   (\<exists>c h. rq_call q = call_raw c \<and> gate_dispatch g q tick service s = service c (rq_arguments q) s \<and>
      find_handle (ng_broker g) (rq_handle_id q) = Some h \<and> h_requester h = rq_caller q \<and>
      h_cfc h = ng_cfc g \<and> \<not> h_revoked h \<and> tick \<le> h_valid_until_tick h \<and> h_target h = ng_target g \<and>
      h_dimension h = ng_dimension g \<and> ops_contains (h_operations h) (call_operation c))"
  by (rule gate_dispatch_cases [of g q tick service s]) (auto simp: gate_admits_def covers_def not_less)

end
