(* ===== verification/Native_Image.thy ===== *)
theory Native_Image
  imports Bytes Slots
begin

text \<open>
  EXF1 images (\<^verbatim>\<open>native_image.rs\<close>) and the on-device compiler that emits them (\<^verbatim>\<open>native_compiler.rs\<close>).
  Buffers that are filled from the front are the list of the bytes written so far. The lemmas show that the
  validator accepts exactly well-formed segments and that every compiled image passes it with the
  parsed message as its data.
\<close>

section \<open>Model: images\<close>

definition NATIVE_IMAGE_MAGIC :: "u8 list" where
  "NATIVE_IMAGE_MAGIC = [69, 88, 70, 49]"

definition NATIVE_IMAGE_HEADER :: nat where
  "NATIVE_IMAGE_HEADER = 24"

definition NATIVE_IMAGE_LIMIT :: nat where
  "NATIVE_IMAGE_LIMIT = 32 * 1024"

definition NATIVE_V1_CODE_LIMIT :: nat where
  "NATIVE_V1_CODE_LIMIT = 4096"

definition NATIVE_V2_CODE_LIMIT :: nat where
  "NATIVE_V2_CODE_LIMIT = 8 * 4096"

definition NATIVE_V2_DATA_LIMIT :: nat where
  "NATIVE_V2_DATA_LIMIT = 6 * 4096"

datatype native_image_error =
    ImageHeader
  | ImageUnsupported
  | ImageLength
  | ImageEntry

record native_image =
  ni_format_version :: u16
  ni_code :: "u8 list"
  ni_data :: "u8 list"
  ni_zero_bytes :: nat
  ni_entry :: nat

definition from_le_bytes :: "u8 list \<Rightarrow> nat" where
  "from_le_bytes bs = foldr (\<lambda>b v. unat b + 256 * v) bs 0"

definition to_le_bytes :: "nat \<Rightarrow> nat \<Rightarrow> u8 list" where
  "to_le_bytes w v = map (\<lambda>i. of_nat (v div 256 ^ i)) [0..<w]"

definition image_word :: "u8 list \<Rightarrow> nat \<Rightarrow> nat" where
  "image_word bytes at = from_le_bytes [bytes ! at, bytes ! (at + 1)]"

definition native_parse :: "u8 list \<Rightarrow> (native_image_error, native_image) result" where
  "native_parse bytes =
     (if length bytes < NATIVE_IMAGE_HEADER \<or> take 4 bytes \<noteq> NATIVE_IMAGE_MAGIC then Err ImageHeader
      else
        let format_version = image_word bytes 4 in
        if format_version \<notin> {1, 2} \<or> image_word bytes 6 \<noteq> 1 \<or> image_word bytes 8 \<noteq> 1 \<or>
           image_word bytes 10 \<noteq> 0 \<or> slice 20 4 bytes \<noteq> [0, 0, 0, 0]
        then Err ImageUnsupported
        else
          let code = image_word bytes 12; data = image_word bytes 14;
              zero_bytes = image_word bytes 16; entry = image_word bytes 18;
              (code_limit, data_limit) =
                (if format_version = 1 then (NATIVE_V1_CODE_LIMIT, 4096 - 256)
                 else (NATIVE_V2_CODE_LIMIT, NATIVE_V2_DATA_LIMIT - 256))
          in if length bytes > NATIVE_IMAGE_LIMIT \<or> code = 0 \<or> code > code_limit \<or>
                (case usize_add data zero_bytes of None \<Rightarrow> True | Some data_size \<Rightarrow> data_size > data_limit) \<or>
                NATIVE_IMAGE_HEADER + code + data \<noteq> length bytes
             then Err ImageLength
             else if entry \<ge> code then Err ImageEntry
             else Ok \<lparr>ni_format_version = of_nat format_version,
               ni_code = slice NATIVE_IMAGE_HEADER code bytes,
               ni_data = drop (NATIVE_IMAGE_HEADER + code) bytes,
               ni_zero_bytes = zero_bytes, ni_entry = entry\<rparr>)"

section \<open>Model: compiler\<close>

definition USER_DATA :: nat where
  "USER_DATA = 0x400000001000"

definition ABI_MAGIC :: nat where
  "ABI_MAGIC = 0x4558504f53414249"

definition DATA_OFFSET :: nat where
  "DATA_OFFSET = 256"

definition DATA_CAPACITY :: nat where
  "DATA_CAPACITY = 4096 - DATA_OFFSET"

definition SOURCE_LIMIT :: nat where
  "SOURCE_LIMIT = 32 * 1024"

definition COMPILER_IMAGE_LIMIT :: nat where
  "COMPILER_IMAGE_LIMIT = 4096"

definition CODE_CAPACITY :: nat where
  "CODE_CAPACITY = 192"

datatype native_language =
    LangC
  | LangRust
  | LangGo

definition from_extension :: "str \<Rightarrow> native_language option" where
  "from_extension extension =
     (if extension = lit ''c'' then Some LangC
      else if extension = lit ''rs'' then Some LangRust
      else if extension = lit ''go'' then Some LangGo
      else None)"

fun entry_markers :: "native_language \<Rightarrow> str list" where
  "entry_markers LangC = [lit ''main('']"
| "entry_markers LangRust = [lit ''fn main('']"
| "entry_markers LangGo = [lit ''func main('']"

fun log_markers :: "native_language \<Rightarrow> str list" where
  "log_markers LangC = [lit ''expos_log('', lit ''puts('']"
| "log_markers LangRust = [lit ''expos::log('', lit ''log('']"
| "log_markers LangGo = [lit ''expos.Log('']"

fun exit_markers :: "native_language \<Rightarrow> str list" where
  "exit_markers LangC = [lit ''expos_exit('', lit ''return '']"
| "exit_markers LangRust = [lit ''expos::exit('', lit ''return '']"
| "exit_markers LangGo = [lit ''expos.Exit('']"

datatype compile_error =
    SourceTooLarge
  | NonAscii
  | MissingEntry
  | InvalidString
  | InvalidResult
  | ImageTooLarge

text \<open>\<^verbatim>\<open>str::find\<close>: the index of the first occurrence.\<close>

fun str_find :: "str \<Rightarrow> str \<Rightarrow> nat option" where
  "str_find pat [] = (if pat = [] then Some 0 else None)"
| "str_find pat (c # cs) = (if take (length pat) (c # cs) = pat then Some 0 else map_option Suc (str_find pat cs))"

definition str_contains :: "str \<Rightarrow> str \<Rightarrow> bool" where
  "str_contains pat s \<longleftrightarrow> str_find pat s \<noteq> None"

definition find_after :: "str \<Rightarrow> str list \<Rightarrow> str option" where
  "find_after source markers =
     min_by_key (\<lambda>rest. length source - length rest)
       (List.map_filter (\<lambda>marker. map_option (\<lambda>at. drop (at + length marker) source) (str_find marker source)) markers)"

definition is_ascii_digit :: "nat \<Rightarrow> bool" where
  "is_ascii_digit c \<longleftrightarrow> 48 \<le> c \<and> c \<le> 57"

definition digits_value :: "str \<Rightarrow> nat" where
  "digits_value ds = fold (\<lambda>d v. v * 10 + (d - 48)) ds 0"

definition parse_result :: "str \<Rightarrow> (compile_error, u64) result" where
  "parse_result arguments =
     (let digits = takeWhile is_ascii_digit (trim_start arguments) in
      if digits = [] then Err InvalidResult
      else if digits_value digits < 2 ^ 64 then Ok (of_nat (digits_value digits))
      else Err InvalidResult)"

definition is_ascii_control :: "nat \<Rightarrow> bool" where
  "is_ascii_control c \<longleftrightarrow> c < 32 \<or> c = 127"

definition unescape :: "nat \<Rightarrow> nat option" where
  "unescape c =
     (if c = 110 then Some 10 else if c = 114 then Some 13 else if c = 116 then Some 9
      else if c \<in> {92, 39, 34} then Some c else None)"

fun string_loop :: "nat \<Rightarrow> nat \<Rightarrow> str \<Rightarrow> u8 list \<Rightarrow> (compile_error, u8 list) result" where
  "string_loop capacity quote [] out = Err InvalidString"
| "string_loop capacity quote (byte # rest) out =
     (if byte = quote then Ok out
      else if byte = 92 then
        (case rest of
          [] \<Rightarrow> Err InvalidString
        | escaped # rest' \<Rightarrow>
            (case unescape escaped of
              None \<Rightarrow> Err InvalidString
            | Some decoded \<Rightarrow>
                if length out < capacity then string_loop capacity quote rest' (out @ [of_nat decoded])
                else Err ImageTooLarge))
      else if is_ascii_control byte then Err InvalidString
      else if length out < capacity then string_loop capacity quote rest (out @ [of_nat byte])
      else Err ImageTooLarge)"

definition parse_string :: "str \<Rightarrow> nat \<Rightarrow> (compile_error, u8 list) result" where
  "parse_string arguments capacity =
     (case trim_start arguments of
       quote # rest \<Rightarrow> if quote \<in> {39, 34} then string_loop capacity quote rest [] else Err InvalidString
     | [] \<Rightarrow> Err InvalidString)"

definition emit :: "u8 list \<Rightarrow> u8 list \<Rightarrow> (compile_error, u8 list) result" where
  "emit bytes code = (if length code + length bytes \<le> CODE_CAPACITY then Ok (code @ bytes) else Err ImageTooLarge)"

text \<open>A sequence of \<^verbatim>\<open>emit(..)?\<close> calls, as long as they succeed.\<close>

fun emit_seq :: "u8 list list \<Rightarrow> u8 list \<Rightarrow> (compile_error, u8 list) result" where
  "emit_seq [] code = Ok code"
| "emit_seq (bytes # rest) code = (case emit bytes code of Err e \<Rightarrow> Err e | Ok code' \<Rightarrow> emit_seq rest code')"

definition set_request_call :: "nat \<Rightarrow> bool \<Rightarrow> u8 list list" where
  "set_request_call call log_handle =
     [[0x66, 0xC7, 0x43, 0x02], to_le_bytes 2 call,
      if log_handle then [0x44, 0x89, 0x6B, 0x14] else [0x44, 0x89, 0x63, 0x14]]"

definition emit_call :: "u8 list list" where
  "emit_call = [[0x48, 0x89, 0xDF], [0x48, 0x8D, 0x73, 0x50], [0x48, 0xB8], to_le_bytes 8 ABI_MAGIC, [0xCD, 0x80]]"

definition native_program :: "nat \<Rightarrow> u64 \<Rightarrow> u8 list list" where
  "native_program message_len result =
     [[0x41, 0x89, 0xD4], [0x41, 0x89, 0xCD], [0x48, 0xBB], to_le_bytes 8 USER_DATA] @
     (if message_len \<noteq> 0 then
        set_request_call 1 True @
        [[0x48, 0xC7, 0x43, 0x18], to_le_bytes 4 DATA_OFFSET, [0x48, 0xC7, 0x43, 0x20], to_le_bytes 4 message_len] @
        emit_call
      else []) @
     set_request_call 8 False @
     [[0x48, 0xB8], to_le_bytes 8 (unat result), [0x48, 0x89, 0x43, 0x18]] @ emit_call @ [[0x0F, 0x0B]]"

definition write_image :: "u8 list \<Rightarrow> u8 list \<Rightarrow> u8 list" where
  "write_image code message =
     (let total = NATIVE_IMAGE_HEADER + length code + length message;
          image = replicate total 0;
          image = overwrite image 0 NATIVE_IMAGE_MAGIC;
          image = overwrite image 4 (to_le_bytes 2 1);
          image = overwrite image 6 (to_le_bytes 2 1);
          image = overwrite image 8 (to_le_bytes 2 1);
          image = overwrite image 12 (to_le_bytes 2 (length code));
          image = overwrite image 14 (to_le_bytes 2 (length message));
          image = overwrite image NATIVE_IMAGE_HEADER code
      in overwrite image (NATIVE_IMAGE_HEADER + length code) message)"

definition compile_message :: "native_language \<Rightarrow> str \<Rightarrow> (compile_error, u8 list) result" where
  "compile_message language source =
     (case find_after source (log_markers language) of
       None \<Rightarrow> Ok []
     | Some arguments \<Rightarrow> parse_string arguments DATA_CAPACITY)"

definition compile_result :: "native_language \<Rightarrow> str \<Rightarrow> (compile_error, u64) result" where
  "compile_result language source =
     (case find_after source (exit_markers language) of
       None \<Rightarrow> Ok 0
     | Some arguments \<Rightarrow> parse_result arguments)"

definition native_compile :: "native_language \<Rightarrow> str \<Rightarrow> (compile_error, u8 list) result" where
  "native_compile language source =
     (if str_len source > SOURCE_LIMIT then Err SourceTooLarge
      else if \<not> is_ascii source then Err NonAscii
      else if \<not> list_ex (\<lambda>marker. str_contains marker source) (entry_markers language) then Err MissingEntry
      else (case compile_message language source of
        Err e \<Rightarrow> Err e
      | Ok message \<Rightarrow>
         (case compile_result language source of
           Err e \<Rightarrow> Err e
         | Ok result \<Rightarrow>
            (case emit_seq (native_program (length message) result) [] of
              Err e \<Rightarrow> Err e
            | Ok code \<Rightarrow>
                if NATIVE_IMAGE_HEADER + length code + length message > COMPILER_IMAGE_LIMIT then Err ImageTooLarge
                else Ok (write_image code message)))))"

section \<open>Images\<close>

lemma length_to_le_bytes [simp]: "length (to_le_bytes w v) = w"
  by (simp add: to_le_bytes_def)

lemma to_le_bytes_2: "to_le_bytes 2 v = [of_nat v, of_nat (v div 256)]"
  by (simp add: to_le_bytes_def upt_rec)

lemma from_to_le_bytes: "v < 65536 \<Longrightarrow> from_le_bytes [of_nat v, of_nat (v div 256)] = v"
  by (simp add: from_le_bytes_def unat_of_nat)

lemma native_parse_Ok:
  assumes "native_parse bytes = Ok img"
  defines "limit1 \<equiv> (if ni_format_version img = 1 then NATIVE_V1_CODE_LIMIT else NATIVE_V2_CODE_LIMIT)"
    and "limit2 \<equiv> (if ni_format_version img = 1 then 4096 - 256 else NATIVE_V2_DATA_LIMIT - 256)"
  shows "bytes = take NATIVE_IMAGE_HEADER bytes @ ni_code img @ ni_data img" "length bytes \<le> NATIVE_IMAGE_LIMIT"
    "take 4 bytes = NATIVE_IMAGE_MAGIC" "ni_format_version img \<in> {1, 2}"
    "length (ni_code img) \<le> limit1" "length (ni_data img) + ni_zero_bytes img \<le> limit2" "ni_entry img < length (ni_code img)"
proof -
  define code where "code = image_word bytes 12"
  define data where "data = image_word bytes 14"
  have *: "take 4 bytes = NATIVE_IMAGE_MAGIC" "image_word bytes 4 \<in> {1, 2}" "length bytes \<le> NATIVE_IMAGE_LIMIT"
    "NATIVE_IMAGE_HEADER + code + data = length bytes" "image_word bytes 18 < code"
    "data + image_word bytes 16 \<le> (if image_word bytes 4 = 1 then 4096 - 256 else NATIVE_V2_DATA_LIMIT - 256)"
    "code \<le> (if image_word bytes 4 = 1 then NATIVE_V1_CODE_LIMIT else NATIVE_V2_CODE_LIMIT)"
    and img: "img = \<lparr>ni_format_version = of_nat (image_word bytes 4), ni_code = slice NATIVE_IMAGE_HEADER code bytes,
       ni_data = drop (NATIVE_IMAGE_HEADER + code) bytes, ni_zero_bytes = image_word bytes 16, ni_entry = image_word bytes 18\<rparr>"
    using assms(1) by (auto simp: native_parse_def Let_def code_def data_def usize_add_def not_less not_le
      split: if_splits option.splits)
  have version: "ni_format_version img = 1 \<longleftrightarrow> image_word bytes 4 = 1" using *(2) by (auto simp: img)
  have len: "length (ni_code img) = code" "length (ni_data img) = data" using *(4) by (simp_all add: img)
  show "bytes = take NATIVE_IMAGE_HEADER bytes @ ni_code img @ ni_data img"
    by (simp add: img slice_def) (metis append_take_drop_id drop_drop add.commute)
  show "length bytes \<le> NATIVE_IMAGE_LIMIT" "take 4 bytes = NATIVE_IMAGE_MAGIC" by (rule *)+
  show "ni_format_version img \<in> {1, 2}" using *(2) by (auto simp: img)
  show "length (ni_code img) \<le> limit1" unfolding limit1_def version len by (rule *(7))
  show "length (ni_data img) + ni_zero_bytes img \<le> limit2"
    unfolding limit2_def version len using *(6) by (simp add: img)
  show "ni_entry img < length (ni_code img)" unfolding len using *(5) by (simp add: img)
qed

lemma emit_seq_concat:
  "emit_seq bs code = (if length code + length (concat bs) \<le> CODE_CAPACITY then Ok (code @ concat bs) else Err ImageTooLarge)"
  if "length code \<le> CODE_CAPACITY"
  using that by (induction bs arbitrary: code) (auto simp: emit_def)

lemma native_program_length:
  "length (concat (native_program n r)) = (if n = 0 then 61 else 106)"
  by (simp add: native_program_def set_request_call_def emit_call_def)

lemma string_loop_length:
  "string_loop capacity quote bytes out = Ok msg \<Longrightarrow> length out \<le> capacity \<Longrightarrow> length msg \<le> capacity"
  by (induction capacity quote bytes out rule: string_loop.induct) (auto split: if_splits list.splits option.splits)

lemma compile_message_length: "compile_message language source = Ok msg \<Longrightarrow> length msg \<le> DATA_CAPACITY"
  by (auto simp: compile_message_def parse_string_def dest: string_loop_length split: option.splits list.splits if_splits)

lemma overwrite_at:
  "length xs = at \<Longrightarrow> length ys \<le> n \<Longrightarrow>
    overwrite (xs @ replicate n z @ zs) at ys = (xs @ ys) @ replicate (n - length ys) z @ zs"
  by (auto simp: overwrite_def)

definition image_header :: "nat \<Rightarrow> nat \<Rightarrow> u8 list" where
  "image_header code data = NATIVE_IMAGE_MAGIC @ [1, 0, 1, 0, 1, 0, 0, 0] @ to_le_bytes 2 code @ to_le_bytes 2 data @ replicate 8 0"

lemma length_image_header [simp]: "length (image_header code data) = NATIVE_IMAGE_HEADER"
  by (simp add: image_header_def NATIVE_IMAGE_MAGIC_def NATIVE_IMAGE_HEADER_def)

lemma replicate_zeros: "replicate 8 (0 :: u8) = [0, 0, 0, 0, 0, 0, 0, 0]" "replicate 2 (0 :: u8) = [0, 0]"
  by (simp_all add: numeral_eq_Suc)

lemma image_header_list:
  "image_header code data = [69, 88, 70, 49, 1, 0, 1, 0, 1, 0, 0, 0, of_nat code, of_nat (code div 256),
     of_nat data, of_nat (data div 256), 0, 0, 0, 0, 0, 0, 0, 0]"
  by (simp add: image_header_def NATIVE_IMAGE_MAGIC_def to_le_bytes_2 replicate_zeros)

lemma write_image_layout: "write_image code message = image_header (length code) (length message) @ code @ message"
proof -
  define z where "z = replicate (length code) (0 :: u8) @ replicate (length message) 0"
  define h where "h = image_header (length code) (length message)"
  have one: "to_le_bytes 2 1 = [1, 0]" by (simp add: to_le_bytes_2)
  have blank: "replicate (NATIVE_IMAGE_HEADER + length code + length message) (0 :: u8) = replicate 24 0 @ z"
    unfolding z_def NATIVE_IMAGE_HEADER_def replicate_add by simp
  have head: "overwrite (overwrite (overwrite (overwrite (overwrite (overwrite (replicate 24 0 @ z) 0 NATIVE_IMAGE_MAGIC)
      4 (to_le_bytes 2 1)) 6 (to_le_bytes 2 1)) 8 (to_le_bytes 2 1)) 12 (to_le_bytes 2 (length code)))
      14 (to_le_bytes 2 (length message)) = h @ z"
    unfolding h_def image_header_list one to_le_bytes_2 by (simp add: overwrite_def NATIVE_IMAGE_MAGIC_def replicate_zeros)
  have len: "length h = NATIVE_IMAGE_HEADER" by (simp add: h_def)
  have "overwrite (h @ z) NATIVE_IMAGE_HEADER code = (h @ code) @ replicate (length message) 0 @ []"
    using overwrite_at [OF len, of code "length code" 0] by (simp add: z_def)
  moreover have "overwrite ((h @ code) @ replicate (length message) 0 @ []) (NATIVE_IMAGE_HEADER + length code) message =
      h @ code @ message"
    using overwrite_at [of "h @ code" "NATIVE_IMAGE_HEADER + length code" message "length message" 0 "[]"] len by simp
  ultimately show ?thesis unfolding write_image_def Let_def blank head by (simp add: h_def)
qed

lemma parse_layout:
  assumes "0 < length code" "length code \<le> NATIVE_V1_CODE_LIMIT" "length message \<le> 4096 - 256"
  shows "native_parse (image_header (length code) (length message) @ code @ message) =
    Ok \<lparr>ni_format_version = 1, ni_code = code, ni_data = message, ni_zero_bytes = 0, ni_entry = 0\<rparr>"
proof -
  define img where "img = image_header (length code) (length message) @ code @ message"
  have words: "image_word img 4 = 1" "image_word img 6 = 1" "image_word img 8 = 1" "image_word img 10 = 0"
    "image_word img 12 = from_le_bytes (to_le_bytes 2 (length code))"
    "image_word img 14 = from_le_bytes (to_le_bytes 2 (length message))"
    "image_word img 16 = 0" "image_word img 18 = 0" "take 4 img = NATIVE_IMAGE_MAGIC" "slice 20 4 img = [0, 0, 0, 0]"
    unfolding img_def image_word_def image_header_list to_le_bytes_2
    by (simp_all add: NATIVE_IMAGE_MAGIC_def slice_def from_le_bytes_def)
  have sizes: "image_word img 12 = length code" "image_word img 14 = length message"
    using assms unfolding words to_le_bytes_2 by (simp_all add: from_to_le_bytes NATIVE_V1_CODE_LIMIT_def)
  have "length img = NATIVE_IMAGE_HEADER + length code + length message" by (simp add: img_def)
  moreover have "slice NATIVE_IMAGE_HEADER (length code) img = code" "drop (NATIVE_IMAGE_HEADER + length code) img = message"
    by (simp_all add: img_def slice_def)
  ultimately show ?thesis using assms words(1-4,7-10) sizes unfolding img_def [symmetric]
    by (simp add: native_parse_def usize_add_def usize_limit_def NATIVE_IMAGE_HEADER_def NATIVE_V1_CODE_LIMIT_def
        NATIVE_IMAGE_LIMIT_def)
qed

section \<open>Properties\<close>

text \<open>
  validation is sound. An accepted image is its header followed by exactly its code and data
  segments; the segments respect the limits of the format version and the entry point lies in the code.
\<close>

theorem native_parse_sound:
  assumes "native_parse bytes = Ok img"
  shows "bytes = take NATIVE_IMAGE_HEADER bytes @ ni_code img @ ni_data img \<and> length bytes \<le> NATIVE_IMAGE_LIMIT \<and>
    ni_entry img < length (ni_code img) \<and>
    (ni_format_version img = 1 \<and> length (ni_code img) \<le> NATIVE_V1_CODE_LIMIT \<and>
       length (ni_data img) + ni_zero_bytes img \<le> 4096 - 256 \<or>
     ni_format_version img = 2 \<and> length (ni_code img) \<le> NATIVE_V2_CODE_LIMIT \<and>
       length (ni_data img) + ni_zero_bytes img \<le> NATIVE_V2_DATA_LIMIT - 256)"
  using native_parse_Ok [OF assms] by (auto split: if_splits)

theorem native_parse_sound_witness:
  "\<exists>img. native_parse (image_header 2 1 @ [0x90, 0xC3] @ [42]) = Ok img \<and> ni_entry img < length (ni_code img)"
proof -
  have len: "length [0x90, 0xC3 :: u8] = 2" "length [42 :: u8] = 1" by simp_all
  note ok = parse_layout [of "[0x90, 0xC3]" "[42]", unfolded len]
  show ?thesis using native_parse_sound [OF ok] ok by (auto simp: NATIVE_V1_CODE_LIMIT_def)
qed

text \<open>
  C33: compiled images are valid. Whatever the compiler accepts is an image the validator accepts, whose
  data segment is the parsed log message, whose code is the emitted program for that message and
  the parsed result, and whose entry point is its first byte.
\<close>

theorem compile_emits_valid_image:
  assumes "native_compile language source = Ok bytes"
  shows "\<exists>message result. compile_message language source = Ok message \<and> compile_result language source = Ok result \<and>
    length bytes \<le> COMPILER_IMAGE_LIMIT \<and>
    native_parse bytes = Ok \<lparr>ni_format_version = 1, ni_code = concat (native_program (length message) result),
      ni_data = message, ni_zero_bytes = 0, ni_entry = 0\<rparr>"
proof -
  obtain message result code where *: "compile_message language source = Ok message" "compile_result language source = Ok result"
    "emit_seq (native_program (length message) result) [] = Ok code" "bytes = write_image code message"
    "NATIVE_IMAGE_HEADER + length code + length message \<le> COMPILER_IMAGE_LIMIT"
    using assms by (auto simp: native_compile_def split: if_splits sum.splits)
  have code: "code = concat (native_program (length message) result)"
    using *(3) emit_seq_concat [of "[]"] by (simp split: if_splits)
  have "0 < length code" "length code \<le> NATIVE_V1_CODE_LIMIT" "length message \<le> 4096 - 256"
    using native_program_length [of "length message" result] compile_message_length [OF *(1)]
    by (simp_all add: code NATIVE_V1_CODE_LIMIT_def DATA_CAPACITY_def DATA_OFFSET_def)
  then show ?thesis using parse_layout [of code message] * code by (simp add: write_image_layout)
qed

definition demo_source :: str where
  "demo_source = lit ''fn main() { log('' @ [34] @ lit ''hi'' @ [34] @ lit ''); return 42; }''"

lemma demo_compiled:
  "compile_message LangRust demo_source = Ok [104, 105]" "compile_result LangRust demo_source = Ok 42"
  by (simp_all add: demo_source_def lit_def compile_message_def compile_result_def find_after_def List.map_filter_def
      parse_string_def parse_result_def trim_start_def is_whitespace_def is_ascii_digit_def digits_value_def
      DATA_CAPACITY_def DATA_OFFSET_def is_ascii_control_def)

theorem compile_emits_valid_image_witness:
  "\<exists>bytes img. native_compile LangRust demo_source = Ok bytes \<and> native_parse bytes = Ok img \<and> ni_data img = [104, 105]"
proof -
  have "\<exists>bytes. native_compile LangRust demo_source = Ok bytes"
    using demo_compiled native_program_length [of "Suc (Suc 0)" 42]
    by (simp add: native_compile_def emit_seq_concat CODE_CAPACITY_def NATIVE_IMAGE_HEADER_def COMPILER_IMAGE_LIMIT_def
        demo_source_def lit_def str_len_def utf8_width_def SOURCE_LIMIT_def is_ascii_def str_contains_def)
  then show ?thesis using compile_emits_valid_image [of LangRust demo_source] demo_compiled(1) by fastforce
qed

end
