(* ===== verification/Protection.thy ===== *)
theory Protection
  imports Identity
begin

text \<open>
  Storage-protection policy (\<^verbatim>\<open>protection.rs\<close>): the parameters a Genesis installation accepts for the key
  derivation and the authenticated encryption of one CFC. The code is a configuration contract and so is the
  model: no cryptography is involved.
\<close>

section \<open>Model\<close>

definition STORAGE_KEY_BYTES :: nat where
  "STORAGE_KEY_BYTES = 32"

definition ARGON2ID_SALT_BYTES :: nat where
  "ARGON2ID_SALT_BYTES = 16"

definition ARGON2ID_VERSION_13 :: u32 where
  "ARGON2ID_VERSION_13 = 0x13"

datatype installation_mode = Basic | Architect

datatype protection_error =
    InvalidCfcFin
  | InvalidArgon2idParameters
  | InvalidAeadSuite
  | EncryptionRequired

record argon2id_parameters =
  ar_memory_kib :: u32
  ar_passes :: u32
  ar_lanes :: u8
  ar_version :: u32

definition saturating_mul :: "'a::len word \<Rightarrow> 'a word \<Rightarrow> 'a word" where
  "saturating_mul a b = (if unat a * unat b < 2 ^ LENGTH('a) then a * b else - 1)"

definition argon2id_new :: "u32 \<Rightarrow> u32 \<Rightarrow> u8 \<Rightarrow> (protection_error, argon2id_parameters) result" where
  "argon2id_new memory_kib passes lanes =
     (let minimum_memory = saturating_mul (ucast lanes) 8 in
      if lanes = 0 \<or> passes = 0 \<or> memory_kib < minimum_memory then Err InvalidArgon2idParameters
      else Ok \<lparr>ar_memory_kib = memory_kib, ar_passes = passes, ar_lanes = lanes, ar_version = ARGON2ID_VERSION_13\<rparr>)"

record aead_suite =
  ae_id :: u16
  ae_nonce_bytes :: u8
  ae_tag_bytes :: u8

definition aead_new :: "u16 \<Rightarrow> u8 \<Rightarrow> u8 \<Rightarrow> (protection_error, aead_suite) result" where
  "aead_new suite nonce_bytes tag_bytes =
     (if suite = 0 \<or> nonce_bytes < 12 \<or> tag_bytes < 16 then Err InvalidAeadSuite
      else Ok \<lparr>ae_id = suite, ae_nonce_bytes = nonce_bytes, ae_tag_bytes = tag_bytes\<rparr>)"

record encrypted_storage_policy =
  es_kdf :: argon2id_parameters
  es_aead :: aead_suite

record storage_protection_policy =
  sp_cfc :: cfc_fin
  sp_mode :: installation_mode
  sp_encrypted :: "encrypted_storage_policy option"

definition policy_build ::
  "installation_mode \<Rightarrow> cfc_fin \<Rightarrow> (argon2id_parameters \<times> aead_suite) option \<Rightarrow>
   (protection_error, storage_protection_policy) result" where
  "policy_build mode cfc encryption =
     (if cfc_is_zero cfc then Err InvalidCfcFin
      else if mode = Basic \<and> encryption = None then Err EncryptionRequired
      else Ok \<lparr>sp_cfc = cfc, sp_mode = mode,
        sp_encrypted = map_option (\<lambda>(kdf, aead). \<lparr>es_kdf = kdf, es_aead = aead\<rparr>) encryption\<rparr>)"

definition policy_basic ::
  "cfc_fin \<Rightarrow> argon2id_parameters \<Rightarrow> aead_suite \<Rightarrow> (protection_error, storage_protection_policy) result" where
  "policy_basic cfc kdf aead = policy_build Basic cfc (Some (kdf, aead))"

definition policy_architect ::
  "cfc_fin \<Rightarrow> (argon2id_parameters \<times> aead_suite) option \<Rightarrow> (protection_error, storage_protection_policy) result" where
  "policy_architect cfc encryption = policy_build Architect cfc encryption"

definition is_encrypted :: "storage_protection_policy \<Rightarrow> bool" where
  "is_encrypted p \<longleftrightarrow> sp_encrypted p \<noteq> None"

definition uses_independent_random_storage_key :: "storage_protection_policy \<Rightarrow> bool" where
  "uses_independent_random_storage_key p \<longleftrightarrow> sp_encrypted p \<noteq> None"

section \<open>Properties\<close>

text \<open>A policy that only the public constructors can build.\<close>

inductive built_policy :: "storage_protection_policy \<Rightarrow> bool" where
  built_basic: "argon2id_new m p l = Ok kdf \<Longrightarrow> aead_new i n t = Ok aead \<Longrightarrow> policy_basic cfc kdf aead = Ok policy \<Longrightarrow>
    built_policy policy"
| built_architect: "argon2id_new m p l = Ok kdf \<Longrightarrow> aead_new i n t = Ok aead \<Longrightarrow>
    policy_architect cfc (Some (kdf, aead)) = Ok policy \<Longrightarrow> built_policy policy"
| built_plain: "policy_architect cfc None = Ok policy \<Longrightarrow> built_policy policy"

lemma minimum_memory: "unat (saturating_mul (ucast (lanes :: u8) :: u32) 8) = unat lanes * 8"
proof -
  have small: "unat lanes < 536870912" by (rule order_less_le_trans [OF unat_bound]) simp
  then have "unat lanes < 4294967296" by simp
  then have "unat (ucast lanes :: u32) = unat lanes" by (simp add: unsigned_ucast_eq take_bit_eq_mod)
  moreover have "unat lanes * 8 < 4294967296" using small by simp
  ultimately show ?thesis by (simp add: saturating_mul_def unat_word_ariths)
qed

lemma argon2id_new_Ok:
  "argon2id_new m p l = Ok kdf \<Longrightarrow> ar_lanes kdf \<noteq> 0 \<and> ar_passes kdf \<noteq> 0 \<and>
     8 * unat (ar_lanes kdf) \<le> unat (ar_memory_kib kdf) \<and> ar_version kdf = ARGON2ID_VERSION_13"
  using minimum_memory [of l] by (auto simp: argon2id_new_def Let_def word_less_nat_alt not_less split: if_splits)

lemma aead_new_Ok: "aead_new i n t = Ok aead \<Longrightarrow> ae_id aead \<noteq> 0 \<and> 12 \<le> ae_nonce_bytes aead \<and> 16 \<le> ae_tag_bytes aead"
  by (auto simp: aead_new_def not_less split: if_splits)

text \<open>
  protection policies are sound by construction. Every policy the constructors can build belongs to a
  real CFC, is encrypted when the installation mode is Basic, and an encrypted one carries key
  derivation parameters with at least eight KiB per lane (computed without overflow) and a full-size tag.
\<close>

theorem storage_policy_sound:
  assumes "built_policy policy"
  shows "\<not> cfc_is_zero (sp_cfc policy) \<and> (sp_mode policy = Basic \<longrightarrow> is_encrypted policy) \<and>
    (\<forall>e. sp_encrypted policy = Some e \<longrightarrow> ar_lanes (es_kdf e) \<noteq> 0 \<and> ar_passes (es_kdf e) \<noteq> 0 \<and>
      8 * unat (ar_lanes (es_kdf e)) \<le> unat (ar_memory_kib (es_kdf e)) \<and>
      ar_version (es_kdf e) = ARGON2ID_VERSION_13 \<and>
      ae_id (es_aead e) \<noteq> 0 \<and> 12 \<le> ae_nonce_bytes (es_aead e) \<and> 16 \<le> ae_tag_bytes (es_aead e))"
  using assms
proof cases
  case (built_basic m p l kdf i n t aead cfc)
  then show ?thesis using argon2id_new_Ok [OF built_basic(1)] aead_new_Ok [OF built_basic(2)]
    by (auto simp: policy_basic_def policy_build_def is_encrypted_def split: if_splits)
next
  case (built_architect m p l kdf i n t aead cfc)
  then show ?thesis using argon2id_new_Ok [OF built_architect(1)] aead_new_Ok [OF built_architect(2)]
    by (auto simp: policy_architect_def policy_build_def split: if_splits)
next
  case (built_plain cfc)
  then show ?thesis by (auto simp: policy_architect_def policy_build_def split: if_splits)
qed

theorem storage_policy_sound_witness:
  "\<exists>kdf aead policy. argon2id_new 65536 3 4 = Ok kdf \<and> aead_new 1 12 16 = Ok aead \<and>
     policy_basic (cfc_from_u128 1) kdf aead = Ok policy \<and> is_encrypted policy"
proof -
  define kdf where "kdf = projr (argon2id_new 65536 3 4)"
  define aead where "aead = projr (aead_new 1 12 16)"
  define policy where "policy = projr (policy_basic (cfc_from_u128 1) kdf aead)"
  have k: "argon2id_new 65536 3 4 = Ok kdf"
    unfolding kdf_def by (simp add: argon2id_new_def saturating_mul_def word_less_nat_alt)
  have a: "aead_new 1 12 16 = Ok aead" unfolding aead_def by (simp add: aead_new_def word_less_nat_alt)
  have p: "policy_basic (cfc_from_u128 1) kdf aead = Ok policy"
    unfolding policy_def by (simp add: policy_basic_def policy_build_def)
  have "sp_mode policy = Basic" using p by (auto simp: policy_basic_def policy_build_def)
  then have "is_encrypted policy" using storage_policy_sound [OF built_basic [OF k a p]] by blast
  then show ?thesis using k a p by blast
qed

end
