(* ===== verification/Http.thy ===== *)
theory Http
  imports Bytes Native_Image
begin

text \<open>
  HTTP responses (\<^verbatim>\<open>http.rs\<close>): decoding of chunked bodies, parsing of a response, and the record in which the
  network worker hands it to its client. A slice whose start lies past the input panics, which is \<open>None\<close>.
  The lemmas show that decoding never panics and inverts the chunked encoding, and that the
  hand-over record round-trips.
\<close>

section \<open>Model\<close>

definition HTTP_BODY_CAPACITY :: nat where
  "HTTP_BODY_CAPACITY = 56 * 1024"

definition HTTP_LOCATION_CAPACITY :: nat where
  "HTTP_LOCATION_CAPACITY = 512"

definition HTTP_CONTENT_TYPE_CAPACITY :: nat where
  "HTTP_CONTENT_TYPE_CAPACITY = 96"

definition HTTP_COOKIE_CAPACITY :: nat where
  "HTTP_COOKIE_CAPACITY = 384"

datatype http_error = MalformedHttp

record http_response =
  hr_status :: u16
  hr_body_buffer :: "u8 list"
  hr_body_len :: nat
  hr_truncated :: bool
  hr_peer :: "u8 list"
  hr_location_buffer :: "u8 list"
  hr_location_len :: nat
  hr_content_type_buffer :: "u8 list"
  hr_content_type_len :: nat
  hr_set_cookie_buffer :: "u8 list"
  hr_set_cookie_len :: nat

definition hr_body :: "http_response \<Rightarrow> u8 list" where
  "hr_body r = take (hr_body_len r) (hr_body_buffer r)"

definition hr_location :: "http_response \<Rightarrow> u8 list option" where
  "hr_location r = (if hr_location_len r \<noteq> 0 then Some (take (hr_location_len r) (hr_location_buffer r)) else None)"

definition hr_content_type :: "http_response \<Rightarrow> u8 list option" where
  "hr_content_type r =
     (if hr_content_type_len r \<noteq> 0 then Some (take (hr_content_type_len r) (hr_content_type_buffer r)) else None)"

definition hr_set_cookie :: "http_response \<Rightarrow> u8 list option" where
  "hr_set_cookie r =
     (if hr_set_cookie_len r \<noteq> 0 then Some (take (hr_set_cookie_len r) (hr_set_cookie_buffer r)) else None)"

definition find_bytes :: "u8 list \<Rightarrow> u8 list \<Rightarrow> nat option" where
  "find_bytes haystack needle = (if needle = [] then Some 0 else find_sub needle haystack)"

definition is_blank :: "u8 \<Rightarrow> bool" where
  "is_blank b \<longleftrightarrow> b = 32 \<or> b = 9"

fun ascii_usize_loop :: "u8 list \<Rightarrow> nat \<Rightarrow> bool \<Rightarrow> nat option" where
  "ascii_usize_loop [] val found = (if found then Some val else None)"
| "ascii_usize_loop (b # bs) val found =
     (if is_blank b then ascii_usize_loop bs val found
      else if \<not> (48 \<le> b \<and> b \<le> 57) then None
      else (case usize_mul val 10 of
        None \<Rightarrow> None
      | Some v \<Rightarrow> (case usize_add v (unat (b - 48)) of
          None \<Rightarrow> None
        | Some v' \<Rightarrow> ascii_usize_loop bs v' True)))"

definition parse_ascii_usize :: "u8 list \<Rightarrow> nat option" where
  "parse_ascii_usize bytes = ascii_usize_loop bytes 0 False"

definition chunk_digit :: "u8 \<Rightarrow> nat option" where
  "chunk_digit b =
     (if 48 \<le> b \<and> b \<le> 57 then Some (unat (b - 48))
      else if 97 \<le> b \<and> b \<le> 102 then Some (unat (b - 97 + 10))
      else if 65 \<le> b \<and> b \<le> 70 then Some (unat (b - 65 + 10))
      else None)"

fun chunk_size_loop :: "u8 list \<Rightarrow> nat \<Rightarrow> bool \<Rightarrow> nat option" where
  "chunk_size_loop [] val found = (if found then Some val else None)"
| "chunk_size_loop (b # bs) val found =
     (if is_blank b then chunk_size_loop bs val found
      else (case chunk_digit b of
        None \<Rightarrow> None
      | Some digit \<Rightarrow> (case usize_mul val 16 of
          None \<Rightarrow> None
        | Some v \<Rightarrow> (case usize_add v digit of
            None \<Rightarrow> None
          | Some v' \<Rightarrow> chunk_size_loop bs v' True))))"

definition parse_chunk_size :: "u8 list \<Rightarrow> nat option" where
  "parse_chunk_size line = chunk_size_loop (takeWhile (\<lambda>b. b \<noteq> 59) line) 0 False"

abbreviation CRLF :: "u8 list" where
  "CRLF \<equiv> [13, 10]"

text \<open>
  One pass of the loop of \<^verbatim>\<open>decode_chunked\<close> over the input from an offset: the result with the output buffer, or
  the offset and the output with which the loop continues.
\<close>

datatype chunk_step =
    ChunkPanic
  | ChunkDone "(http_error, nat \<times> bool) result" "u8 list"
  | ChunkNext nat nat "u8 list"

definition decode_chunk :: "u8 list \<Rightarrow> nat \<Rightarrow> nat \<Rightarrow> u8 list \<Rightarrow> chunk_step" where
  "decode_chunk input input_offset output_length out =
     (if input_offset > length input then ChunkPanic
      else (case find_bytes (drop input_offset input) CRLF of
        None \<Rightarrow> ChunkDone (Err MalformedHttp) out
      | Some relative \<Rightarrow>
         let line_end = input_offset + relative in
         (case parse_chunk_size (slice input_offset (line_end - input_offset) input) of
           None \<Rightarrow> ChunkDone (Err MalformedHttp) out
         | Some chunk_length \<Rightarrow>
            let data_offset = line_end + 2 in
            if chunk_length = 0 then ChunkDone (Ok (output_length, False)) out
            else (case usize_add data_offset chunk_length of
              None \<Rightarrow> ChunkDone (Err MalformedHttp) out
            | Some chunk_end \<Rightarrow>
               if \<not> (case usize_add chunk_end 2 of None \<Rightarrow> False | Some tail \<Rightarrow> tail \<le> length input)
               then ChunkDone (Err MalformedHttp) out
               else if slice chunk_end 2 input \<noteq> CRLF then ChunkDone (Err MalformedHttp) out
               else
                 let remaining = length out - output_length;
                     copied = min chunk_length remaining;
                     out' = overwrite out output_length (slice data_offset copied input)
                 in if copied \<noteq> chunk_length then ChunkDone (Ok (output_length + copied, True)) out'
                    else ChunkNext (chunk_end + 2) (output_length + copied) out'))))"

lemma decode_chunk_progress:
  assumes "decode_chunk input offset n out = ChunkNext offset' n' out'"
  shows "offset < offset'" "offset' \<le> length input"
  using assms by (auto simp: decode_chunk_def Let_def usize_add_def split: if_splits option.splits)

function decode_chunked_loop ::
  "u8 list \<Rightarrow> nat \<Rightarrow> nat \<Rightarrow> u8 list \<Rightarrow> ((http_error, nat \<times> bool) result \<times> u8 list) option" where
  "decode_chunked_loop input offset n out =
     (case decode_chunk input offset n out of
       ChunkPanic \<Rightarrow> None
     | ChunkDone r out' \<Rightarrow> Some (r, out')
     | ChunkNext offset' n' out' \<Rightarrow> decode_chunked_loop input offset' n' out')"
  by pat_completeness auto
termination
proof (relation "measure (\<lambda>(input, offset, _, _). length input - offset)")
  fix input offset n out offset' n' out'
  assume "decode_chunk input offset n out = ChunkNext offset' n' out'"
  from decode_chunk_progress [OF this]
  show "((input, offset', n', out'), (input, offset, n, out)) \<in> measure (\<lambda>(input, offset, _, _). length input - offset)"
    by simp
qed simp

declare decode_chunked_loop.simps [simp del]

definition decode_chunked :: "u8 list \<Rightarrow> u8 list \<Rightarrow> ((http_error, nat \<times> bool) result \<times> u8 list) option" where
  "decode_chunked input out = decode_chunked_loop input 0 0 out"

section \<open>Model: responses\<close>

definition to_ascii_lower :: "u8 \<Rightarrow> u8" where
  "to_ascii_lower b = (if 65 \<le> b \<and> b \<le> 90 then b + 32 else b)"

definition eq_ignore_ascii_case :: "u8 list \<Rightarrow> u8 list \<Rightarrow> bool" where
  "eq_ignore_ascii_case a b \<longleftrightarrow> map to_ascii_lower a = map to_ascii_lower b"

definition is_ascii_whitespace :: "u8 \<Rightarrow> bool" where
  "is_ascii_whitespace b \<longleftrightarrow> b \<in> {32, 9, 10, 12, 13}"

definition trim_ascii :: "u8 list \<Rightarrow> u8 list" where
  "trim_ascii bs = rev (dropWhile is_ascii_whitespace (rev (dropWhile is_ascii_whitespace bs)))"

definition lit8 :: "string \<Rightarrow> u8 list" where
  "lit8 s = map of_char s"

definition windows_any :: "nat \<Rightarrow> (u8 list \<Rightarrow> bool) \<Rightarrow> u8 list \<Rightarrow> bool" where
  "windows_any n P bs \<longleftrightarrow> list_ex (\<lambda>i. P (slice i n bs)) [0..<length bs + 1 - n]"

record header_state =
  hs_content_length :: "nat option"
  hs_chunked :: bool
  hs_location :: "u8 list"
  hs_location_len :: nat
  hs_content_type :: "u8 list"
  hs_content_type_len :: nat
  hs_set_cookie :: "u8 list"
  hs_set_cookie_len :: nat

definition header_start :: header_state where
  "header_start = \<lparr>hs_content_length = None, hs_chunked = False,
     hs_location = replicate HTTP_LOCATION_CAPACITY 0, hs_location_len = 0,
     hs_content_type = replicate HTTP_CONTENT_TYPE_CAPACITY 0, hs_content_type_len = 0,
     hs_set_cookie = replicate HTTP_COOKIE_CAPACITY 0, hs_set_cookie_len = 0\<rparr>"

definition visible :: "u8 \<Rightarrow> u8 list \<Rightarrow> bool" where
  "visible minimum bs = list_all (\<lambda>b. minimum \<le> b \<and> b \<le> 0x7E) bs"

definition header_value :: "u8 list \<Rightarrow> nat \<Rightarrow> u8 \<Rightarrow> (http_error, u8 list) result" where
  "header_value raw capacity minimum =
     (let v = trim_ascii raw in
      if v = [] \<or> length v > capacity \<or> \<not> visible minimum v then Err MalformedHttp else Ok v)"

definition header_line :: "u8 list \<Rightarrow> header_state \<Rightarrow> (http_error, header_state) result" where
  "header_line line h =
     (case position (\<lambda>b. b = 58) line of
       None \<Rightarrow> Ok h
     | Some colon \<Rightarrow>
        let name = take colon line; raw = drop (colon + 1) line in
        if eq_ignore_ascii_case name (lit8 ''content-length'') then
          (case parse_ascii_usize raw of None \<Rightarrow> Err MalformedHttp | Some v \<Rightarrow> Ok (h\<lparr>hs_content_length := Some v\<rparr>))
        else if eq_ignore_ascii_case name (lit8 ''location'') then
          (case header_value raw (length (hs_location h)) 0x21 of
            Err e \<Rightarrow> Err e
          | Ok v \<Rightarrow> Ok (h\<lparr>hs_location := overwrite (hs_location h) 0 v, hs_location_len := length v\<rparr>))
        else if eq_ignore_ascii_case name (lit8 ''content-type'') then
          (case header_value raw (length (hs_content_type h)) 0x20 of
            Err e \<Rightarrow> Err e
          | Ok v \<Rightarrow> Ok (h\<lparr>hs_content_type := overwrite (hs_content_type h) 0 v, hs_content_type_len := length v\<rparr>))
        else if eq_ignore_ascii_case name (lit8 ''set-cookie'') \<and> hs_set_cookie_len h = 0 then
          (case header_value raw (length (hs_set_cookie h)) 0x20 of
            Err e \<Rightarrow> Err e
          | Ok v \<Rightarrow> Ok (h\<lparr>hs_set_cookie := overwrite (hs_set_cookie h) 0 v, hs_set_cookie_len := length v\<rparr>))
        else if eq_ignore_ascii_case name (lit8 ''transfer-encoding'') \<and>
            windows_any 7 (\<lambda>part. eq_ignore_ascii_case part (lit8 ''chunked'')) raw then
          Ok (h\<lparr>hs_chunked := True\<rparr>)
        else Ok h)"

function header_loop :: "u8 list \<Rightarrow> nat \<Rightarrow> nat \<Rightarrow> header_state \<Rightarrow> (http_error, header_state) result" where
  "header_loop wire header_end cursor h =
     (if cursor < header_end then
        let line_length = (case find_bytes (slice cursor (header_end - cursor) wire) CRLF of
              None \<Rightarrow> header_end - cursor | Some n \<Rightarrow> n)
        in (case header_line (slice cursor line_length wire) h of
             Err e \<Rightarrow> Err e
           | Ok h' \<Rightarrow> header_loop wire header_end (cursor + line_length + 2) h')
      else Ok h)"
  by pat_completeness auto
termination
  by (relation "measure (\<lambda>(_, header_end, cursor, _). header_end - cursor)") auto

declare header_loop.simps [simp del]

definition parse_status :: "u8 list \<Rightarrow> (http_error, u16) result" where
  "parse_status status_line =
     (if take 7 status_line \<noteq> lit8 ''HTTP/1.'' then Err MalformedHttp
      else (case position (\<lambda>b. b = 32) status_line of
        None \<Rightarrow> Err MalformedHttp
      | Some first_space \<Rightarrow>
          if first_space + 4 > length status_line then Err MalformedHttp
          else let status_bytes = slice (first_space + 1) 3 status_line in
            if \<not> list_all (\<lambda>b. 48 \<le> b \<and> b \<le> 57) status_bytes then Err MalformedHttp
            else Ok (ucast (status_bytes ! 0 - 48) * 100 + ucast (status_bytes ! 1 - 48) * 10 +
              ucast (status_bytes ! 2 - 48))))"

definition response_body :: "u8 list \<Rightarrow> bool \<Rightarrow> header_state \<Rightarrow> ((http_error, u8 list \<times> nat \<times> bool) result) option" where
  "response_body encoded_body wire_truncated h =
     (let body = replicate HTTP_BODY_CAPACITY 0 in
      if hs_chunked h then
        (case decode_chunked encoded_body body of
          None \<Rightarrow> None
        | Some (Err e, _) \<Rightarrow> Some (Err e)
        | Some (Ok (n, truncated), body') \<Rightarrow> Some (Ok (body', n, truncated \<or> wire_truncated)))
      else
        let expected = (case hs_content_length h of None \<Rightarrow> length encoded_body | Some n \<Rightarrow> n) in
        if length encoded_body < expected \<and> \<not> wire_truncated then Some (Err MalformedHttp)
        else
          let available = min expected (length encoded_body);
              body_len = min available (length body)
          in Some (Ok (overwrite body 0 (take body_len encoded_body), body_len,
               expected > length body \<or> available < expected \<or> (hs_content_length h = None \<and> wire_truncated))))"

definition parse_http_response :: "u8 list \<Rightarrow> u8 list \<Rightarrow> bool \<Rightarrow> (http_error, http_response) result option" where
  "parse_http_response peer wire wire_truncated =
     (case find_bytes wire [13, 10, 13, 10] of
       None \<Rightarrow> Some (Err MalformedHttp)
     | Some header_end \<Rightarrow>
        let first_line_end = (case find_bytes (take header_end wire) CRLF of None \<Rightarrow> header_end | Some n \<Rightarrow> n) in
        (case parse_status (take first_line_end wire) of
          Err e \<Rightarrow> Some (Err e)
        | Ok status \<Rightarrow>
           (case header_loop wire header_end (first_line_end + 2) header_start of
             Err e \<Rightarrow> Some (Err e)
           | Ok h \<Rightarrow>
              (case response_body (drop (header_end + 4) wire) wire_truncated h of
                None \<Rightarrow> None
              | Some (Err e) \<Rightarrow> Some (Err e)
              | Some (Ok (body, body_len, truncated)) \<Rightarrow>
                  Some (Ok \<lparr>hr_status = status, hr_body_buffer = body, hr_body_len = body_len, hr_truncated = truncated,
                    hr_peer = peer, hr_location_buffer = hs_location h, hr_location_len = hs_location_len h,
                    hr_content_type_buffer = hs_content_type h, hr_content_type_len = hs_content_type_len h,
                    hr_set_cookie_buffer = hs_set_cookie h, hr_set_cookie_len = hs_set_cookie_len h\<rparr>)))))"

definition write_segments :: "u8 list list \<Rightarrow> nat \<Rightarrow> u8 list \<Rightarrow> u8 list" where
  "write_segments segments cursor out =
     fst (fold (\<lambda>data (out, cursor). (overwrite out cursor data, cursor + length data)) segments (out, cursor))"

definition http_encode :: "http_response \<Rightarrow> u8 list \<Rightarrow> (http_error, nat \<times> u8 list) result" where
  "http_encode r out =
     (let n = 16 + hr_body_len r + hr_location_len r + hr_content_type_len r + hr_set_cookie_len r in
      if length out < n then Err MalformedHttp
      else
        let out = overwrite out 0 (to_le_bytes 2 (unat (hr_status r)));
            out = out[2 := if hr_truncated r then 1 else 0];
            out = out[3 := 0];
            out = overwrite out 4 (to_le_bytes 2 (hr_body_len r));
            out = overwrite out 6 (to_le_bytes 2 (hr_location_len r));
            out = overwrite out 8 (to_le_bytes 2 (hr_content_type_len r));
            out = overwrite out 10 (to_le_bytes 2 (hr_set_cookie_len r));
            out = overwrite out 12 (hr_peer r)
        in Ok (n, write_segments [hr_body r, take (hr_location_len r) (hr_location_buffer r),
             take (hr_content_type_len r) (hr_content_type_buffer r),
             take (hr_set_cookie_len r) (hr_set_cookie_buffer r)] 16 out))"

definition http_decode :: "u8 list \<Rightarrow> (http_error, http_response) result" where
  "http_decode bytes =
     (if length bytes < 16 \<or> bytes ! 2 > 1 \<or> bytes ! 3 \<noteq> 0 then Err MalformedHttp
      else
        let body = image_word bytes 4; location = image_word bytes 6;
            content_type = image_word bytes 8; cookie = image_word bytes 10; status = image_word bytes 0 in
        if body > HTTP_BODY_CAPACITY \<or> location > HTTP_LOCATION_CAPACITY \<or>
           content_type > HTTP_CONTENT_TYPE_CAPACITY \<or> cookie > HTTP_COOKIE_CAPACITY \<or>
           length bytes \<noteq> 16 + body + location + content_type + cookie \<or> \<not> (100 \<le> status \<and> status \<le> 599)
        then Err MalformedHttp
        else
          let at_location = 16 + body; at_type = at_location + location; at_cookie = at_type + content_type;
              location_data = slice at_location location bytes; type_data = slice at_type content_type bytes;
              cookie_data = slice at_cookie cookie bytes in
          if \<not> visible 0x21 location_data then Err MalformedHttp
          else if \<not> visible 0x20 type_data then Err MalformedHttp
          else if \<not> visible 0x20 cookie_data then Err MalformedHttp
          else Ok \<lparr>hr_status = of_nat status,
            hr_body_buffer = overwrite (replicate HTTP_BODY_CAPACITY 0) 0 (slice 16 body bytes), hr_body_len = body,
            hr_truncated = (bytes ! 2 \<noteq> 0), hr_peer = slice 12 4 bytes,
            hr_location_buffer = overwrite (replicate HTTP_LOCATION_CAPACITY 0) 0 location_data, hr_location_len = location,
            hr_content_type_buffer = overwrite (replicate HTTP_CONTENT_TYPE_CAPACITY 0) 0 type_data,
            hr_content_type_len = content_type,
            hr_set_cookie_buffer = overwrite (replicate HTTP_COOKIE_CAPACITY 0) 0 cookie_data,
            hr_set_cookie_len = cookie\<rparr>)"

section \<open>Chunked bodies\<close>

text \<open>The chunked encoding as a sender writes it: hexadecimal length, data, and a last chunk of length zero.\<close>

definition hex_char :: "nat \<Rightarrow> u8" where
  "hex_char d = of_nat (if d < 10 then 48 + d else 87 + d)"

fun hex_of :: "nat \<Rightarrow> u8 list" where
  "hex_of n = (if n < 16 then [hex_char n] else hex_of (n div 16) @ [hex_char (n mod 16)])"

declare hex_of.simps [simp del]

definition chunk_wire :: "u8 list \<Rightarrow> u8 list" where
  "chunk_wire c = hex_of (length c) @ CRLF @ c @ CRLF"

definition chunked_wire :: "u8 list list \<Rightarrow> u8 list \<Rightarrow> u8 list" where
  "chunked_wire cs trailer = concat (map chunk_wire cs) @ [48] @ CRLF @ trailer"

lemma hex_char_digit:
  assumes "d < 16"
  shows "chunk_digit (hex_char d) = Some d" "hex_char d \<notin> {9, 13, 32, 59}"
proof -
  have "list_all (\<lambda>d. chunk_digit (hex_char d) = Some d \<and> hex_char d \<notin> {9, 13, 32, 59}) [0..<16]" by code_simp
  then show "chunk_digit (hex_char d) = Some d" "hex_char d \<notin> {9, 13, 32, 59}" using assms by (simp_all add: list_all_iff)
qed

lemma hex_of_chars: "set (hex_of n) \<inter> {9, 13, 32, 59} = {}"
proof (induction n rule: hex_of.induct)
  case (1 n)
  have "set (hex_of n) \<subseteq> (if n < 16 then {hex_char n} else set (hex_of (n div 16)) \<union> {hex_char (n mod 16)})"
    using hex_of.simps [of n] by simp
  moreover have "hex_char (n mod 16) \<notin> {9, 13, 32, 59}" "n < 16 \<Longrightarrow> hex_char n \<notin> {9, 13, 32, 59}"
    using hex_char_digit(2) [of "n mod 16"] hex_char_digit(2) [of n] by simp_all
  ultimately show ?case using 1 by (auto split: if_splits)
qed

lemma chunk_size_digit:
  assumes "d < 16" and "v * 16 + d < usize_limit"
  shows "chunk_size_loop (hex_char d # ys) v found = chunk_size_loop ys (v * 16 + d) True"
  using hex_char_digit [OF assms(1)] assms(2) by (simp add: is_blank_def usize_mul_def usize_add_def)

lemma chunk_size_hex: "n < usize_limit \<Longrightarrow> chunk_size_loop (hex_of n @ ys) 0 False = chunk_size_loop ys n True"
proof (induction n arbitrary: ys rule: hex_of.induct)
  case (1 n)
  show ?case
  proof (cases "n < 16")
    case True
    then show ?thesis using chunk_size_digit [of n 0] 1 by (simp add: hex_of.simps [of n])
  next
    case False
    have "n div 16 < usize_limit" using 1 by (meson div_le_dividend le_less_trans)
    then have "chunk_size_loop (hex_of n @ ys) 0 False = chunk_size_loop (hex_char (n mod 16) # ys) (n div 16) True"
      using 1 False by (simp add: hex_of.simps [of n])
    also have "\<dots> = chunk_size_loop ys n True"
      using chunk_size_digit [of "n mod 16" "n div 16"] 1 by simp
    finally show ?thesis .
  qed
qed

lemma parse_chunk_size_hex: "n < usize_limit \<Longrightarrow> parse_chunk_size (hex_of n) = Some n"
proof -
  assume n: "n < usize_limit"
  have all: "takeWhile (\<lambda>b. b \<noteq> 59) (hex_of n) = hex_of n" using hex_of_chars [of n] by (intro takeWhile_eq_all_conv [THEN iffD2]) auto
  show ?thesis unfolding parse_chunk_size_def all using chunk_size_hex [OF n, of "[]"] by simp
qed

text \<open>One chunk of a well-formed body.\<close>

lemma decode_chunk_data:
  assumes input: "input = pre @ chunk_wire c @ rest" and "c \<noteq> []" and len: "length input < usize_limit"
    and "n \<le> length out"
  shows "decode_chunk input (length pre) n out =
    (if length c \<le> length out - n then ChunkNext (length (pre @ chunk_wire c)) (n + length c) (overwrite out n c)
     else ChunkDone (Ok (length out, True)) (overwrite out n (take (length out - n) c)))"
proof -
  define h where "h = hex_of (length c)"
  have wire: "drop (length pre) input = h @ CRLF @ c @ CRLF @ rest" by (simp add: input chunk_wire_def h_def)
  have find: "find_bytes (drop (length pre) input) CRLF = Some (length h)"
    using find_sub_skip [of CRLF h] hex_of_chars [of "length c"] by (auto simp: find_bytes_def wire h_def)
  have total: "length input = length pre + length h + 2 + length c + 2 + length rest"
    by (simp add: input chunk_wire_def h_def)
  have line: "slice (length pre) (length h) input = h" by (simp add: slice_def wire)
  have data: "drop (length pre + length h + 2) input = c @ CRLF @ rest"
    using drop_drop [of "length h + 2" "length pre" input] wire by (simp add: add_ac)
  then have copy: "slice (length pre + length h + 2) k input = take k c" if "k \<le> length c" for k
    using that by (simp add: slice_def)
  have crlf: "slice (length pre + length h + 2 + length c) 2 input = CRLF"
  proof -
    have "drop (length pre + length h + 2 + length c) input = drop (length c) (drop (length pre + length h + 2) input)"
      by (simp add: add.commute)
    then show ?thesis unfolding data by (simp add: slice_def)
  qed
  have size: "parse_chunk_size h = Some (length c)" unfolding h_def using len total by (intro parse_chunk_size_hex) simp
  show ?thesis
  proof (cases "length c \<le> length out - n")
    case True
    then show ?thesis using assms(2) len total line size crlf copy [of "length c"]
      by (simp add: decode_chunk_def find usize_add_def Let_def min_absorb1 chunk_wire_def h_def)
  next
    case False
    then show ?thesis using assms(2,4) len total line size crlf copy [of "length out - n"]
      by (simp add: decode_chunk_def find usize_add_def Let_def min_absorb2)
  qed
qed

lemma hex_of_0: "hex_of 0 = [48]"
  by (simp add: hex_of.simps hex_char_def)

lemma decode_chunk_last:
  assumes "input = pre @ [48] @ CRLF @ rest"
  shows "decode_chunk input (length pre) n out = ChunkDone (Ok (n, False)) out"
proof -
  have find: "find_bytes (drop (length pre) input) CRLF = Some 1"
    using find_sub_skip [of CRLF "[48]" rest] by (simp add: find_bytes_def assms)
  have "slice (length pre) 1 input = hex_of 0" "length pre \<le> length input" by (simp_all add: assms slice_def hex_of_0)
  moreover have "parse_chunk_size (hex_of 0) = Some 0" by (rule parse_chunk_size_hex) (simp add: usize_limit_def)
  ultimately show ?thesis by (simp add: decode_chunk_def find)
qed

lemma decode_chunked_data:
  "input = pre @ chunked_wire cs trailer \<Longrightarrow> \<forall>c\<in>set cs. c \<noteq> [] \<Longrightarrow> length input < usize_limit \<Longrightarrow> n \<le> length out \<Longrightarrow>
    decode_chunked_loop input (length pre) n out =
      (let data = take (length out - n) (concat cs)
       in Some (Ok (n + length data, length out - n < length (concat cs)), overwrite out n data))"
proof (induction cs arbitrary: pre n out)
  case Nil
  then show ?case using decode_chunk_last [of input pre trailer n out]
    by (simp add: decode_chunked_loop.simps chunked_wire_def)
next
  case (Cons c cs)
  have input: "input = pre @ chunk_wire c @ chunked_wire cs trailer" using Cons.prems(1) by (simp add: chunked_wire_def)
  have c: "c \<noteq> []" using Cons.prems(2) by simp
  note step = decode_chunk_data [OF input c Cons.prems(3,4)]
  have in2: "input = (pre @ chunk_wire c) @ chunked_wire cs trailer" and tl: "\<forall>c\<in>set cs. c \<noteq> []"
    using input Cons.prems(2) by simp_all
  show ?case
  proof (cases "length c \<le> length out - n")
    case True
    then have room: "n + length c \<le> length out" using Cons.prems(4) by simp
    have "decode_chunked_loop input (length pre) n out =
        decode_chunked_loop input (length (pre @ chunk_wire c)) (n + length c) (overwrite out n c)"
      using step True by (simp add: decode_chunked_loop.simps [of input "length pre"])
    also have "\<dots> = (let data = take (length out - n - length c) (concat cs)
       in Some (Ok (n + length c + length data, length out - n - length c < length (concat cs)),
          overwrite (overwrite out n c) (n + length c) data))"
      using Cons.IH [OF in2 tl Cons.prems(3), of "n + length c" "overwrite out n c"] room by simp
    also have "\<dots> = (let data = take (length out - n) (concat (c # cs))
       in Some (Ok (n + length data, length out - n < length (concat (c # cs))), overwrite out n data))"
    proof -
      have "n + length c + length (take (length out - n - length c) (concat cs)) \<le> length out" using room by simp
      from overwrite_append [OF this] show ?thesis using True by (auto simp: Let_def)
    qed
    finally show ?thesis .
  next
    case False
    then show ?thesis using step Cons.prems(4)
      by (simp add: decode_chunked_loop.simps [of input "length pre"] Let_def)
  qed
qed

lemma decode_chunk_safe:
  assumes "offset \<le> length input" and "n \<le> length out"
  obtains (finished) r out' where "decode_chunk input offset n out = ChunkDone r out'" "length out' = length out"
      "\<And>m t. r = Ok (m, t) \<Longrightarrow> m \<le> length out"
    | (more) offset' n' out' where "decode_chunk input offset n out = ChunkNext offset' n' out'" "length out' = length out"
      "offset' \<le> length input" "n' \<le> length out"
proof (cases "decode_chunk input offset n out")
  case ChunkPanic
  then show thesis using assms(1) by (auto simp: decode_chunk_def Let_def split: option.splits if_splits)
next
  case (ChunkDone r out')
  then have "length out' = length out \<and> (\<forall>m t. r = Ok (m, t) \<longrightarrow> m \<le> length out)"
    using assms by (auto simp: decode_chunk_def Let_def overwrite_def split: option.splits if_splits)
  then show thesis using finished ChunkDone by blast
next
  case (ChunkNext offset' n' out')
  then have "length out' = length out \<and> n' \<le> length out"
    using assms by (auto simp: decode_chunk_def Let_def overwrite_def split: option.splits if_splits)
  then show thesis using more ChunkNext decode_chunk_progress(2) [OF ChunkNext] by blast
qed

lemma decode_chunked_loop_safe:
  "offset \<le> length input \<Longrightarrow> n \<le> length out \<Longrightarrow>
    \<exists>r out'. decode_chunked_loop input offset n out = Some (r, out') \<and> length out' = length out \<and>
      (\<forall>m t. r = Ok (m, t) \<longrightarrow> m \<le> length out)"
proof (induction input offset n out rule: decode_chunked_loop.induct)
  case (1 input offset n out)
  from 1(2,3) show ?case
  proof (cases rule: decode_chunk_safe [of offset input n out])
    case (finished r out')
    then show ?thesis by (auto simp: decode_chunked_loop.simps [of input offset])
  next
    case (more offset' n' out')
    then show ?thesis using 1(1) [OF more(1)] by (simp add: decode_chunked_loop.simps [of input offset])
  qed
qed

section \<open>Parsed responses\<close>

definition field_ok :: "nat \<Rightarrow> u8 \<Rightarrow> u8 list \<Rightarrow> nat \<Rightarrow> bool" where
  "field_ok capacity minimum buffer n \<longleftrightarrow> length buffer = capacity \<and> n \<le> capacity \<and> visible minimum (take n buffer)"

definition header_ok :: "header_state \<Rightarrow> bool" where
  "header_ok h \<longleftrightarrow> field_ok HTTP_LOCATION_CAPACITY 0x21 (hs_location h) (hs_location_len h) \<and>
     field_ok HTTP_CONTENT_TYPE_CAPACITY 0x20 (hs_content_type h) (hs_content_type_len h) \<and>
     field_ok HTTP_COOKIE_CAPACITY 0x20 (hs_set_cookie h) (hs_set_cookie_len h)"

definition reply_ok :: "http_response \<Rightarrow> bool" where
  "reply_ok r \<longleftrightarrow> length (hr_body_buffer r) = HTTP_BODY_CAPACITY \<and> hr_body_len r \<le> HTTP_BODY_CAPACITY \<and>
     length (hr_peer r) = 4 \<and>
     field_ok HTTP_LOCATION_CAPACITY 0x21 (hr_location_buffer r) (hr_location_len r) \<and>
     field_ok HTTP_CONTENT_TYPE_CAPACITY 0x20 (hr_content_type_buffer r) (hr_content_type_len r) \<and>
     field_ok HTTP_COOKIE_CAPACITY 0x20 (hr_set_cookie_buffer r) (hr_set_cookie_len r)"

lemma header_start_ok: "header_ok header_start"
  by (simp add: header_ok_def header_start_def field_ok_def visible_def)

lemma field_overwrite:
  assumes "field_ok capacity minimum buffer n" and "header_value raw (length buffer) minimum = Ok v"
  shows "field_ok capacity minimum (overwrite buffer 0 v) (length v)"
  using assms by (auto simp: field_ok_def header_value_def Let_def overwrite_def split: if_splits)

lemma header_line_ok: "header_line line h = Ok h' \<Longrightarrow> header_ok h \<Longrightarrow> header_ok h'"
  by (auto simp: header_line_def header_ok_def Let_def intro: field_overwrite split: option.splits if_splits sum.splits)

lemma header_loop_ok: "header_loop wire header_end cursor h = Ok h' \<Longrightarrow> header_ok h \<Longrightarrow> header_ok h'"
proof (induction wire header_end cursor h rule: header_loop.induct)
  case (1 wire header_end cursor h)
  show ?case
  proof (cases "cursor < header_end")
    case True
    then show ?thesis using 1 header_loop.simps [of wire header_end cursor h]
      by (auto simp: Let_def intro: header_line_ok split: sum.splits)
  next
    case False
    then show ?thesis using 1 header_loop.simps [of wire header_end cursor h] by simp
  qed
qed

lemma response_body_safe:
  "\<exists>r. response_body encoded wire_truncated h = Some r \<and>
    (\<forall>body n t. r = Ok (body, n, t) \<longrightarrow> length body = HTTP_BODY_CAPACITY \<and> n \<le> HTTP_BODY_CAPACITY)"
proof (cases "hs_chunked h")
  case True
  obtain r out' where *: "decode_chunked encoded (replicate HTTP_BODY_CAPACITY 0) = Some (r, out')"
    "length out' = HTTP_BODY_CAPACITY" "\<forall>m t. r = Ok (m, t) \<longrightarrow> m \<le> HTTP_BODY_CAPACITY"
    using decode_chunked_loop_safe [of 0 encoded 0 "replicate HTTP_BODY_CAPACITY 0"] by (auto simp: decode_chunked_def)
  then show ?thesis using True by (cases r) (auto simp: response_body_def)
next
  case False
  then show ?thesis by (auto simp: response_body_def Let_def overwrite_def)
qed

lemma parse_http_response_safe:
  "\<exists>r. parse_http_response peer wire wire_truncated = Some r \<and>
    (\<forall>resp. length peer = 4 \<longrightarrow> r = Ok resp \<longrightarrow> reply_ok resp \<and> hr_peer resp = peer)"
proof (cases "find_bytes wire [13, 10, 13, 10]")
  case None
  then show ?thesis by (simp add: parse_http_response_def)
next
  case (Some header_end)
  define first where "first = (case find_bytes (take header_end wire) CRLF of None \<Rightarrow> header_end | Some n \<Rightarrow> n)"
  show ?thesis
  proof (cases "parse_status (take first wire)")
    case (Inl e)
    then show ?thesis using Some by (simp add: parse_http_response_def first_def [symmetric])
  next
    case (Inr status)
    show ?thesis
    proof (cases "header_loop wire header_end (first + 2) header_start")
      case (Inl e)
      then show ?thesis using Some Inr by (simp add: parse_http_response_def first_def [symmetric])
    next
      case h: (Inr h)
      have "header_ok h" using h header_start_ok by (rule header_loop_ok)
      moreover obtain r where "response_body (drop (header_end + 4) wire) wire_truncated h = Some r"
        "\<forall>body n t. r = Ok (body, n, t) \<longrightarrow> length body = HTTP_BODY_CAPACITY \<and> n \<le> HTTP_BODY_CAPACITY"
        using response_body_safe [of "drop (header_end + 4) wire" wire_truncated h] by blast
      ultimately show ?thesis using Some Inr h
        by (cases r) (auto simp: parse_http_response_def first_def [symmetric] reply_ok_def header_ok_def)
    qed
  qed
qed

section \<open>The hand-over record\<close>

lemma overwrite_next:
  "length xs = k \<Longrightarrow> k + length ys \<le> length out \<Longrightarrow>
    overwrite (xs @ drop k out) k ys = (xs @ ys) @ drop (k + length ys) out"
  by (auto simp: overwrite_def add.commute)

lemma update_next:
  assumes "length xs = k" and "k < length out"
  shows "(xs @ drop k out)[k := v] = (xs @ [v]) @ drop (Suc k) out"
proof -
  have "drop k out = out ! k # drop (Suc k) out" using assms(2) by (simp add: Cons_nth_drop_Suc)
  then show ?thesis using assms(1) by (simp add: list_update_append)
qed

lemma write_segments_next:
  "length xs = k \<Longrightarrow> k + length (concat segments) \<le> length out \<Longrightarrow>
    write_segments segments k (xs @ drop k out) = (xs @ concat segments) @ drop (k + length (concat segments)) out"
proof (induction segments arbitrary: xs k)
  case (Cons s segments)
  have "write_segments (s # segments) k (xs @ drop k out) =
      write_segments segments (k + length s) (overwrite (xs @ drop k out) k s)"
    by (simp add: write_segments_def)
  also have "overwrite (xs @ drop k out) k s = (xs @ s) @ drop (k + length s) out"
    using Cons.prems by (intro overwrite_next) simp_all
  finally show ?case using Cons.IH [of "xs @ s" "k + length s"] Cons.prems by (simp add: add.assoc)
qed (simp add: write_segments_def)

definition reply_header :: "http_response \<Rightarrow> u8 list" where
  "reply_header r = to_le_bytes 2 (unat (hr_status r)) @ [if hr_truncated r then 1 else 0, 0] @
     to_le_bytes 2 (hr_body_len r) @ to_le_bytes 2 (hr_location_len r) @
     to_le_bytes 2 (hr_content_type_len r) @ to_le_bytes 2 (hr_set_cookie_len r) @ hr_peer r"

definition reply_wire :: "http_response \<Rightarrow> u8 list" where
  "reply_wire r = reply_header r @ concat [hr_body r, take (hr_location_len r) (hr_location_buffer r),
     take (hr_content_type_len r) (hr_content_type_buffer r), take (hr_set_cookie_len r) (hr_set_cookie_buffer r)]"

lemma segment_lengths:
  assumes "reply_ok r"
  shows "length (hr_body r) = hr_body_len r" "length (take (hr_location_len r) (hr_location_buffer r)) = hr_location_len r"
    "length (take (hr_content_type_len r) (hr_content_type_buffer r)) = hr_content_type_len r"
    "length (take (hr_set_cookie_len r) (hr_set_cookie_buffer r)) = hr_set_cookie_len r" "length (reply_header r) = 16"
  using assms by (simp_all add: reply_ok_def field_ok_def hr_body_def reply_header_def)

lemma take_front: "out' = (xs @ ys) @ zs \<Longrightarrow> n = k + length ys \<Longrightarrow> length xs = k \<Longrightarrow> take n out' = xs @ ys"
  by simp

lemma http_encode_layout:
  assumes ok: "reply_ok r" and "http_encode r out = Ok (n, out')"
  shows "take n out' = reply_wire r"
proof -
  let ?segs = "[hr_body r, take (hr_location_len r) (hr_location_buffer r),
     take (hr_content_type_len r) (hr_content_type_buffer r), take (hr_set_cookie_len r) (hr_set_cookie_buffer r)]"
  note len = segment_lengths [OF ok]
  have n: "n = 16 + length (concat ?segs)" "n \<le> length out"
    using assms(2) len by (simp_all add: http_encode_def Let_def split: if_splits)
  have room: "16 \<le> length out" using n by simp
  have peer: "length (hr_peer r) = 4" using ok by (simp add: reply_ok_def)
  have head: "overwrite (overwrite (overwrite (overwrite (overwrite
        (((overwrite out 0 (to_le_bytes 2 (unat (hr_status r))))[2 := if hr_truncated r then 1 else 0])[3 := 0])
        4 (to_le_bytes 2 (hr_body_len r))) 6 (to_le_bytes 2 (hr_location_len r)))
        8 (to_le_bytes 2 (hr_content_type_len r))) 10 (to_le_bytes 2 (hr_set_cookie_len r))) 12 (hr_peer r) =
      reply_header r @ drop 16 out"
  proof -
    define x0 where "x0 = to_le_bytes 2 (unat (hr_status r))"
    define x1 where "x1 = x0 @ [if hr_truncated r then 1 else 0]"
    define x2 where "x2 = x1 @ [0]"
    define x3 where "x3 = x2 @ to_le_bytes 2 (hr_body_len r)"
    define x4 where "x4 = x3 @ to_le_bytes 2 (hr_location_len r)"
    define x5 where "x5 = x4 @ to_le_bytes 2 (hr_content_type_len r)"
    define x6 where "x6 = x5 @ to_le_bytes 2 (hr_set_cookie_len r)"
    have lens: "length x0 = 2" "length x1 = 3" "length x2 = 4" "length x3 = 6" "length x4 = 8" "length x5 = 10" "length x6 = 12"
      by (simp_all add: x0_def x1_def x2_def x3_def x4_def x5_def x6_def)
    have 0: "overwrite out 0 x0 = x0 @ drop 2 out" unfolding overwrite_def lens(1) by (simp add: numeral_2_eq_2)
    have 1: "(x0 @ drop 2 out)[2 := if hr_truncated r then 1 else 0] = x1 @ drop 3 out"
      using update_next [OF lens(1), of out] room by (simp add: x1_def)
    have 2: "(x1 @ drop 3 out)[3 := 0] = x2 @ drop 4 out"
      using update_next [OF lens(2), of out] room by (simp add: x2_def)
    have 3: "overwrite (x2 @ drop 4 out) 4 (to_le_bytes 2 (hr_body_len r)) = x3 @ drop 6 out"
      using overwrite_next [OF lens(3), of "to_le_bytes 2 (hr_body_len r)" out] room by (simp add: x3_def)
    have 4: "overwrite (x3 @ drop 6 out) 6 (to_le_bytes 2 (hr_location_len r)) = x4 @ drop 8 out"
      using overwrite_next [OF lens(4), of "to_le_bytes 2 (hr_location_len r)" out] room by (simp add: x4_def)
    have 5: "overwrite (x4 @ drop 8 out) 8 (to_le_bytes 2 (hr_content_type_len r)) = x5 @ drop 10 out"
      using overwrite_next [OF lens(5), of "to_le_bytes 2 (hr_content_type_len r)" out] room by (simp add: x5_def)
    have 6: "overwrite (x5 @ drop 10 out) 10 (to_le_bytes 2 (hr_set_cookie_len r)) = x6 @ drop 12 out"
      using overwrite_next [OF lens(6), of "to_le_bytes 2 (hr_set_cookie_len r)" out] room by (simp add: x6_def)
    have 7: "overwrite (x6 @ drop 12 out) 12 (hr_peer r) = reply_header r @ drop 16 out"
      using overwrite_next [OF lens(7), of "hr_peer r" out] room peer
      by (simp add: reply_header_def x0_def x1_def x2_def x3_def x4_def x5_def x6_def)
    show ?thesis unfolding x0_def [symmetric] 0 1 2 3 4 5 6 7 ..
  qed
  have "out' = write_segments ?segs 16 (reply_header r @ drop 16 out)"
    using assms(2) by (simp add: http_encode_def Let_def head split: if_splits)
  also have "\<dots> = (reply_header r @ concat ?segs) @ drop (16 + length (concat ?segs)) out"
    using n by (intro write_segments_next len(5)) simp
  finally show ?thesis unfolding reply_wire_def by (rule take_front [OF _ n(1) len(5)])
qed

text \<open>What a client can see of a response.\<close>

definition response_view ::
  "http_response \<Rightarrow> u16 \<times> u8 list \<times> bool \<times> u8 list \<times> u8 list option \<times> u8 list option \<times> u8 list option" where
  "response_view r = (hr_status r, hr_body r, hr_truncated r, hr_peer r, hr_location r, hr_content_type r, hr_set_cookie r)"

lemma length_4: "length xs = 4 \<Longrightarrow> \<exists>a b c d. xs = [a, b, c, d]"
  by (auto simp: numeral_eq_Suc length_Suc_conv)

lemma reply_words:
  assumes ok: "reply_ok r"
  shows "image_word (reply_wire r) 0 = unat (hr_status r)" "image_word (reply_wire r) 4 = hr_body_len r"
    "image_word (reply_wire r) 6 = hr_location_len r" "image_word (reply_wire r) 8 = hr_content_type_len r"
    "image_word (reply_wire r) 10 = hr_set_cookie_len r" "reply_wire r ! 2 = (if hr_truncated r then 1 else 0)"
    "reply_wire r ! 3 = 0" "slice 12 4 (reply_wire r) = hr_peer r"
proof -
  obtain p0 p1 p2 p3 where peer: "hr_peer r = [p0, p1, p2, p3]"
    using ok length_4 [of "hr_peer r"] by (auto simp: reply_ok_def)
  define rest where "rest = concat [hr_body r, take (hr_location_len r) (hr_location_buffer r),
     take (hr_content_type_len r) (hr_content_type_buffer r), take (hr_set_cookie_len r) (hr_set_cookie_buffer r)]"
  have wire: "reply_wire r = [of_nat (unat (hr_status r)), of_nat (unat (hr_status r) div 256),
      if hr_truncated r then 1 else 0, 0, of_nat (hr_body_len r), of_nat (hr_body_len r div 256),
      of_nat (hr_location_len r), of_nat (hr_location_len r div 256), of_nat (hr_content_type_len r),
      of_nat (hr_content_type_len r div 256), of_nat (hr_set_cookie_len r), of_nat (hr_set_cookie_len r div 256),
      p0, p1, p2, p3] @ rest"
    unfolding reply_wire_def reply_header_def to_le_bytes_2 peer rest_def [symmetric] by simp
  have bounds: "unat (hr_status r) < 65536" "hr_body_len r < 65536" "hr_location_len r < 65536"
      "hr_content_type_len r < 65536" "hr_set_cookie_len r < 65536"
    using ok unat_bound [of "hr_status r"] by (simp_all add: reply_ok_def field_ok_def HTTP_BODY_CAPACITY_def
      HTTP_LOCATION_CAPACITY_def HTTP_CONTENT_TYPE_CAPACITY_def HTTP_COOKIE_CAPACITY_def)
  show "image_word (reply_wire r) 0 = unat (hr_status r)"
    unfolding wire image_word_def using from_to_le_bytes [OF bounds(1)] by simp
  show "image_word (reply_wire r) 4 = hr_body_len r"
    unfolding wire image_word_def using from_to_le_bytes [OF bounds(2)] by simp
  show "image_word (reply_wire r) 6 = hr_location_len r"
    unfolding wire image_word_def using from_to_le_bytes [OF bounds(3)] by simp
  show "image_word (reply_wire r) 8 = hr_content_type_len r"
    unfolding wire image_word_def using from_to_le_bytes [OF bounds(4)] by simp
  show "image_word (reply_wire r) 10 = hr_set_cookie_len r"
    unfolding wire image_word_def using from_to_le_bytes [OF bounds(5)] by simp
  show "reply_wire r ! 2 = (if hr_truncated r then 1 else 0)" "reply_wire r ! 3 = 0" "slice 12 4 (reply_wire r) = hr_peer r"
    unfolding wire peer by (simp_all add: slice_def)
qed

lemma slice_part: "slice (length xs) (length ys) (xs @ ys @ zs) = ys"
  by (simp add: slice_def)

lemma take_overwritten: "length v = n \<Longrightarrow> take n (overwrite buffer 0 v) = v"
  by (auto simp: overwrite_def)

lemma reply_decodes:
  assumes ok: "reply_ok r"
  shows "if 100 \<le> unat (hr_status r) \<and> unat (hr_status r) \<le> 599
    then \<exists>r'. http_decode (reply_wire r) = Ok r' \<and> response_view r' = response_view r
    else http_decode (reply_wire r) = Err MalformedHttp"
proof -
  define b where "b = take (hr_body_len r) (hr_body_buffer r)"
  define l where "l = take (hr_location_len r) (hr_location_buffer r)"
  define c where "c = take (hr_content_type_len r) (hr_content_type_buffer r)"
  define k where "k = take (hr_set_cookie_len r) (hr_set_cookie_buffer r)"
  note words = reply_words [OF ok]
  have len: "length b = hr_body_len r" "length l = hr_location_len r" "length c = hr_content_type_len r"
    "length k = hr_set_cookie_len r" "length (reply_header r) = 16"
    using segment_lengths [OF ok] by (simp_all add: b_def l_def c_def k_def hr_body_def)
  have wire: "reply_wire r = reply_header r @ b @ l @ c @ k" by (simp add: reply_wire_def b_def l_def c_def k_def hr_body_def)
  have slices: "slice 16 (hr_body_len r) (reply_wire r) = b"
    "slice (16 + hr_body_len r) (hr_location_len r) (reply_wire r) = l"
    "slice (16 + hr_body_len r + hr_location_len r) (hr_content_type_len r) (reply_wire r) = c"
    "slice (16 + hr_body_len r + hr_location_len r + hr_content_type_len r) (hr_set_cookie_len r) (reply_wire r) = k"
    using slice_part [of "reply_header r" b "l @ c @ k"] slice_part [of "reply_header r @ b" l "c @ k"]
      slice_part [of "reply_header r @ b @ l" c k] slice_part [of "reply_header r @ b @ l @ c" k "[]"]
    by (simp_all add: wire len add.assoc)
  have vis: "visible 0x21 l" "visible 0x20 c" "visible 0x20 k" and caps: "hr_body_len r \<le> HTTP_BODY_CAPACITY"
    "hr_location_len r \<le> HTTP_LOCATION_CAPACITY" "hr_content_type_len r \<le> HTTP_CONTENT_TYPE_CAPACITY"
    "hr_set_cookie_len r \<le> HTTP_COOKIE_CAPACITY"
    using ok by (simp_all add: reply_ok_def field_ok_def l_def c_def k_def)
  have total: "length (reply_wire r) = 16 + hr_body_len r + hr_location_len r + hr_content_type_len r + hr_set_cookie_len r"
    by (simp add: wire len)
  show ?thesis
  proof (cases "100 \<le> unat (hr_status r) \<and> unat (hr_status r) \<le> 599")
    case True
    then show ?thesis using words slices vis caps total
      by (auto simp: http_decode_def Let_def response_view_def hr_body_def hr_location_def hr_content_type_def
          hr_set_cookie_def take_overwritten len b_def [symmetric] l_def [symmetric] c_def [symmetric] k_def [symmetric])
  next
    case False
    then show ?thesis using words total by (auto simp: http_decode_def Let_def)
  qed
qed

section \<open>Properties\<close>

text \<open>
  decoding a response never panics and always returns. For every input and buffer
  \<^verbatim>\<open>decode_chunked\<close> yields a result with a length within the buffer and leaves the buffer's size alone, and
  \<^verbatim>\<open>parse_http_response\<close> yields a result.
\<close>

theorem http_parsing_total:
  "(\<exists>r out'. decode_chunked input out = Some (r, out') \<and> length out' = length out \<and>
      list_all (\<lambda>(m, t). m \<le> length out) (case r of Err _ \<Rightarrow> [] | Ok x \<Rightarrow> [x])) \<and>
   (\<exists>r. parse_http_response peer wire wire_truncated = Some r)"
proof -
  obtain r out' where "decode_chunked input out = Some (r, out')" "length out' = length out"
    "\<forall>m t. r = Ok (m, t) \<longrightarrow> m \<le> length out"
    using decode_chunked_loop_safe [of 0 input 0 out] by (auto simp: decode_chunked_def)
  then show ?thesis using parse_http_response_safe [of peer wire wire_truncated] by (cases r) auto
qed

text \<open>
  chunked decoding inverts the encoding. The wire form of any chunks, whatever follows the last one,
  decodes to their concatenation, cut to the buffer; the truncation flag says exactly whether it was cut.
\<close>

theorem decode_chunked_inverts:
  assumes "\<forall>c\<in>set cs. c \<noteq> []" and "length (chunked_wire cs trailer) < usize_limit"
  shows "decode_chunked (chunked_wire cs trailer) out =
    Some (Ok (min (length (concat cs)) (length out), length out < length (concat cs)),
      take (length out) (concat cs) @ drop (length (concat cs)) out)"
  using decode_chunked_data [of "chunked_wire cs trailer" "[]" cs trailer 0 out] assms
  by (auto simp: decode_chunked_def Let_def overwrite_def min_def)

theorem decode_chunked_inverts_witness:
  "decode_chunked (lit8 ''2'' @ [13, 10, 1, 2, 13, 10] @ lit8 ''1'' @ [13, 10, 3, 13, 10] @ lit8 ''0'' @ [13, 10, 13, 10]) [0, 0] =
    Some (Ok (2, True), [1, 2])"
  using decode_chunked_inverts [of "[[1, 2], [3]]" CRLF "[0, 0]"]
  by (simp add: chunked_wire_def chunk_wire_def hex_of.simps hex_char_def lit8_def usize_limit_def)

text \<open>
  the hand-over record round-trips. What the worker parsed and encoded, the client decodes to a
  response with the same status, body, flags, peer and headers when the status is between 100 and 599; any
  other three-digit status, which the parser accepts, is refused by the decoder.
\<close>

theorem http_reply_roundtrip:
  assumes "parse_http_response peer wire wire_truncated = Some (Ok r)" and "length peer = 4"
    and "http_encode r out = Ok (n, out')"
  shows "if 100 \<le> unat (hr_status r) \<and> unat (hr_status r) \<le> 599
    then \<exists>r'. http_decode (take n out') = Ok r' \<and> response_view r' = response_view r
    else http_decode (take n out') = Err MalformedHttp"
proof -
  have ok: "reply_ok r" using parse_http_response_safe [of peer wire wire_truncated] assms(1,2) by auto
  show ?thesis unfolding http_encode_layout [OF ok assms(3)] by (rule reply_decodes [OF ok])
qed

text \<open>The reply \<^verbatim>\<open>HTTP/1.0 200\<close> without headers and with the body \<^verbatim>\<open>hi\<close>.\<close>

definition demo_reply :: "u8 list" where
  "demo_reply = [72, 84, 84, 80, 47, 49, 46, 48, 32, 50, 48, 48, 13, 10, 13, 10, 104, 105]"

definition demo_response :: http_response where
  "demo_response = projr (the (parse_http_response [10, 0, 0, 1] demo_reply False))"

lemma demo_reply_steps:
  "find_bytes demo_reply [13, 10, 13, 10] = Some 12" "find_bytes (take 12 demo_reply) CRLF = None"
  "parse_status (take 12 demo_reply) = Ok 200" "drop 16 demo_reply = [104, 105]"
  by code_simp+

lemma demo_response_parsed:
  "parse_http_response [10, 0, 0, 1] demo_reply False = Some (Ok demo_response)"
  "hr_status demo_response = 200" "hr_body_len demo_response = 2" "hr_location_len demo_response = 0"
  "hr_content_type_len demo_response = 0" "hr_set_cookie_len demo_response = 0" "hr_truncated demo_response = False"
  "hr_peer demo_response = [10, 0, 0, 1]" "hr_body demo_response = [104, 105]"
  by (simp_all add: demo_response_def parse_http_response_def demo_reply_steps header_loop.simps [of _ 12] header_start_def
      response_body_def HTTP_BODY_CAPACITY_def hr_body_def take_overwritten)

theorem http_reply_roundtrip_witness:
  "\<exists>r out' r'. parse_http_response [10, 0, 0, 1] demo_reply False = Some (Ok r) \<and>
     http_encode r (replicate 64 0) = Ok (18, out') \<and> http_decode (take 18 out') = Ok r' \<and>
     response_view r' = (200, [104, 105], False, [10, 0, 0, 1], None, None, None)"
proof -
  obtain out' where enc: "http_encode demo_response (replicate 64 0) = Ok (18, out')"
    by (simp add: http_encode_def demo_response_parsed Let_def)
  show ?thesis
    using http_reply_roundtrip [OF demo_response_parsed(1) _ enc] demo_response_parsed enc
    by (auto simp: response_view_def hr_location_def hr_content_type_def hr_set_cookie_def)
qed

end
