(* ===== verification/Frames.thy ===== *)
theory Frames
  imports Slots
begin

text \<open>
  Physical page frames below 4 GiB (\<^verbatim>\<open>kernel/src/memory.rs\<close>). The allocator keeps two bitmaps, the frames in
  use and the frames it has leased, a rotating cursor and a count of free frames. The memory ranges that the
  firmware reports and the end of the kernel image are arguments of \<open>frames_initialize\<close>; physical memory is a
  function from addresses to bytes, because leasing and releasing a frame clear it. The bitmaps are shown to refine two sets of
  frame numbers.
\<close>

unbundle bit_operations_syntax

section \<open>Model\<close>

definition PAGE_BYTES :: u64 where
  "PAGE_BYTES = 4096"

definition MAX_PHYSICAL_BYTES :: u64 where
  "MAX_PHYSICAL_BYTES = 0x100000000"

definition FRAME_COUNT :: nat where
  "FRAME_COUNT = unat (MAX_PHYSICAL_BYTES div PAGE_BYTES)"

definition BITMAP_WORDS :: nat where
  "BITMAP_WORDS = FRAME_COUNT div 64"

record frame_allocator =
  fa_used :: "u64 list"
  fa_leased :: "u64 list"
  fa_cursor :: nat
  fa_free :: nat
  fa_initialized :: bool

record frame_state =
  fm_allocator :: frame_allocator
  fm_memory :: "nat \<Rightarrow> u8"

definition allocator_new :: frame_allocator where
  "allocator_new = \<lparr>fa_used = replicate BITMAP_WORDS (- 1), fa_leased = replicate BITMAP_WORDS 0, fa_cursor = 0,
     fa_free = 0, fa_initialized = False\<rparr>"

definition frame_bit :: "nat \<Rightarrow> u64" where
  "frame_bit frame = push_bit (frame mod 64) 1"

definition frame_mark :: "nat \<Rightarrow> bool \<Rightarrow> frame_allocator \<Rightarrow> frame_allocator" where
  "frame_mark frame use a =
     (if frame \<ge> FRAME_COUNT then a
      else
        let w = frame div 64;
            was_used = fa_used a ! w AND frame_bit frame \<noteq> 0
        in if use
           then a\<lparr>fa_used := (fa_used a)[w := fa_used a ! w OR frame_bit frame],
                  fa_free := if was_used then fa_free a else fa_free a - 1\<rparr>
           else a\<lparr>fa_used := (fa_used a)[w := fa_used a ! w AND NOT (frame_bit frame)],
                  fa_free := if was_used then min (fa_free a + 1) (usize_limit - 1) else fa_free a\<rparr>)"

definition mark_range :: "u64 \<Rightarrow> u64 \<Rightarrow> bool \<Rightarrow> frame_allocator \<Rightarrow> frame_allocator" where
  "mark_range base bytes use a =
     (let start = (if use then base div PAGE_BYTES else saturating_add base (PAGE_BYTES - 1) div PAGE_BYTES);
          end_bytes = min (saturating_add base bytes) MAX_PHYSICAL_BYTES;
          finish = (if use then saturating_add end_bytes (PAGE_BYTES - 1) div PAGE_BYTES else end_bytes div PAGE_BYTES)
      in fold (\<lambda>frame. frame_mark frame use) [unat start..<unat finish] a)"

text \<open>
  \<^verbatim>\<open>initialize\<close>: \<open>usable\<close> are the ranges \<^verbatim>\<open>boot::visit_usable_memory\<close> visits, \<open>handoff\<close> those of
  \<^verbatim>\<open>boot::visit_handoff_ranges\<close>, \<open>kernel_end\<close> the linker symbol \<^verbatim>\<open>__kernel_end\<close>.
\<close>

definition frames_initialize ::
  "(u64 \<times> u64) list \<Rightarrow> u64 \<Rightarrow> (u64 \<times> u64) list \<Rightarrow> frame_allocator \<Rightarrow> frame_allocator" where
  "frames_initialize usable kernel_end handoff a =
     (if fa_initialized a then a
      else
        let a = fold (\<lambda>(base, bytes). mark_range base bytes False) usable a;
            a = mark_range 0 kernel_end True a;
            a = fold (\<lambda>(base, bytes). mark_range base bytes True) handoff a
        in a\<lparr>fa_cursor := min (unat kernel_end div 4096 + (if unat kernel_end mod 4096 = 0 then 0 else 1)) FRAME_COUNT,
             fa_initialized := True\<rparr>)"

definition clear_page :: "u64 \<Rightarrow> (nat \<Rightarrow> u8) \<Rightarrow> (nat \<Rightarrow> u8)" where
  "clear_page physical m = (\<lambda>addr. if unat physical \<le> addr \<and> addr < unat physical + unat PAGE_BYTES then 0 else m addr)"

definition allocate_frame :: "frame_state \<Rightarrow> u64 option \<times> frame_state" where
  "allocate_frame s =
     (let a = fm_allocator s in
      if \<not> fa_initialized a \<or> fa_free a = 0 then (None, s)
      else (case find (\<lambda>frame. fa_used a ! (frame div 64) AND frame_bit frame = 0)
                   (map (\<lambda>offset. (fa_cursor a + offset) mod FRAME_COUNT) [0..<FRAME_COUNT]) of
        None \<Rightarrow> (None, s)
      | Some frame \<Rightarrow>
          let a = frame_mark frame True a;
              a = a\<lparr>fa_leased := (fa_leased a)[frame div 64 := fa_leased a ! (frame div 64) OR frame_bit frame],
                    fa_cursor := (frame + 1) mod FRAME_COUNT\<rparr>;
              physical = of_nat frame * PAGE_BYTES
          in (Some physical, \<lparr>fm_allocator = a, fm_memory = clear_page physical (fm_memory s)\<rparr>)))"

definition release_frame :: "u64 \<Rightarrow> frame_state \<Rightarrow> bool \<times> frame_state" where
  "release_frame physical s =
     (if physical = 0 \<or> physical mod PAGE_BYTES \<noteq> 0 \<or> physical \<ge> MAX_PHYSICAL_BYTES then (False, s)
      else
        let a = fm_allocator s; frame = unat (physical div PAGE_BYTES); w = frame div 64 in
        if fa_used a ! w AND frame_bit frame = 0 \<or> fa_leased a ! w AND frame_bit frame = 0 then (False, s)
        else (True, \<lparr>fm_allocator = frame_mark frame False
                (a\<lparr>fa_leased := (fa_leased a)[w := fa_leased a ! w AND NOT (frame_bit frame)]\<rparr>),
              fm_memory = clear_page physical (fm_memory s)\<rparr>))"

section \<open>Bitmaps as sets of frames\<close>

definition frames_of :: "u64 list \<Rightarrow> nat set" where
  "frames_of ws = {f. f < 64 * length ws \<and> bit (ws ! (f div 64)) (f mod 64)}"

lemma frame_bit_test: "w AND frame_bit f \<noteq> 0 \<longleftrightarrow> bit w (f mod 64)"
proof -
  have "f mod 64 < LENGTH(64)" by simp
  then show ?thesis
    unfolding frame_bit_def
    by (metis and.commute bit_iff_and_push_bit_not_eq_0)
qed

lemma frame_bit_nth: "bit (frame_bit f) n \<longleftrightarrow> n = f mod 64"
  unfolding frame_bit_def by (auto simp: bit_exp_iff)

lemma frame_index: "f < 64 * n \<Longrightarrow> f div 64 < (n :: nat)"
  by (simp add: less_mult_imp_div_less mult.commute)

lemma same_slot: "f div 64 = g div 64 \<Longrightarrow> f mod 64 = g mod 64 \<Longrightarrow> f = (g :: nat)"
  by (metis div_mult_mod_eq)

lemma frame_at_update:
  assumes "f < 64 * length ws" and "g < 64 * length ws"
  shows "bit (ws[f div 64 := w] ! (g div 64)) (g mod 64) \<longleftrightarrow>
    (if g div 64 = f div 64 then bit w (g mod 64) else bit (ws ! (g div 64)) (g mod 64))"
  using frame_index [OF assms(1)] by (simp add: nth_list_update)

lemma frames_of_iff: "g \<in> frames_of ws \<longleftrightarrow> g < 64 * length ws \<and> bit (ws ! (g div 64)) (g mod 64)"
  by (simp add: frames_of_def)

lemma frame_eq_iff: "(g :: nat) = f \<longleftrightarrow> g div 64 = f div 64 \<and> g mod 64 = f mod 64"
  using same_slot by blast

lemma frames_of_insert:
  assumes f: "f < 64 * length ws"
  shows "frames_of (ws[f div 64 := ws ! (f div 64) OR frame_bit f]) = insert f (frames_of ws)"
proof (intro set_eqI)
  fix g
  show "g \<in> frames_of (ws[f div 64 := ws ! (f div 64) OR frame_bit f]) \<longleftrightarrow> g \<in> insert f (frames_of ws)"
  proof (cases "g < 64 * length ws")
    case True
    show ?thesis
      unfolding frames_of_iff insert_iff length_list_update frame_at_update [OF f True] bit_or_iff frame_bit_nth frame_eq_iff [of g f]
      using True by (cases "g div 64 = f div 64") (simp_all add: disj_comms)
  qed (use f in \<open>auto simp: frames_of_iff\<close>)
qed

lemma frames_of_remove:
  assumes f: "f < 64 * length ws"
  shows "frames_of (ws[f div 64 := ws ! (f div 64) AND NOT (frame_bit f)]) = frames_of ws - {f}"
proof (intro set_eqI)
  fix g
  show "g \<in> frames_of (ws[f div 64 := ws ! (f div 64) AND NOT (frame_bit f)]) \<longleftrightarrow> g \<in> frames_of ws - {f}"
  proof (cases "g < 64 * length ws")
    case True
    show ?thesis
      unfolding frames_of_iff Diff_iff singleton_iff length_list_update frame_at_update [OF f True] bit_and_iff bit_not_iff
        frame_bit_nth frame_eq_iff [of g f]
      using True by (cases "g div 64 = f div 64") simp_all
  qed (auto simp: frames_of_iff)
qed

lemma frames_of_bounded: "frames_of ws \<subseteq> {..<64 * length ws}"
  by (auto simp: frames_of_def)

lemma frames_of_test:
  "f < 64 * length ws \<Longrightarrow> ws ! (f div 64) AND frame_bit f = 0 \<longleftrightarrow> f \<notin> frames_of ws"
  using frame_bit_test [of "ws ! (f div 64)" f] by (auto simp: frames_of_def)

lemma frame_constants: "FRAME_COUNT = 1048576" "BITMAP_WORDS = 16384" "unat PAGE_BYTES = 4096"
    "unat MAX_PHYSICAL_BYTES = 4294967296"
proof -
  have quotient: "MAX_PHYSICAL_BYTES div PAGE_BYTES = 0x100000" unfolding MAX_PHYSICAL_BYTES_def PAGE_BYTES_def by code_simp
  show frames: "FRAME_COUNT = 1048576" unfolding FRAME_COUNT_def quotient by simp
  show "BITMAP_WORDS = 16384" unfolding BITMAP_WORDS_def frames by simp
  show "unat PAGE_BYTES = 4096" "unat MAX_PHYSICAL_BYTES = 4294967296" unfolding PAGE_BYTES_def MAX_PHYSICAL_BYTES_def by simp_all
qed

text \<open>The set of frames in use and the set of leased frames, and what the allocator keeps of them.\<close>

abbreviation in_use :: "frame_allocator \<Rightarrow> nat set" where
  "in_use a \<equiv> frames_of (fa_used a)"

abbreviation leased :: "frame_allocator \<Rightarrow> nat set" where
  "leased a \<equiv> frames_of (fa_leased a)"

definition frames_wf :: "frame_allocator \<Rightarrow> bool" where
  "frames_wf a \<longleftrightarrow> length (fa_used a) = BITMAP_WORDS \<and> length (fa_leased a) = BITMAP_WORDS \<and>
     fa_free a + card (in_use a) = FRAME_COUNT"

lemma in_use_bound: "frames_wf a \<Longrightarrow> in_use a \<subseteq> {..<FRAME_COUNT}" "frames_wf a \<Longrightarrow> finite (in_use a)"
    "frames_wf a \<Longrightarrow> leased a \<subseteq> {..<FRAME_COUNT}"
  using frames_of_bounded [of "fa_used a"] frames_of_bounded [of "fa_leased a"]
  by (auto simp: frames_wf_def frame_constants dest: finite_subset)

lemma frame_mark_effect:
  assumes wf: "frames_wf a"
  shows "in_use (frame_mark f use a) = (if f \<ge> FRAME_COUNT then in_use a else if use then insert f (in_use a) else in_use a - {f})"
    and "frames_wf (frame_mark f use a)"
    and "fa_leased (frame_mark f use a) = fa_leased a" "fa_initialized (frame_mark f use a) = fa_initialized a"
      "fa_cursor (frame_mark f use a) = fa_cursor a"
proof -
  let ?w = "fa_used a ! (f div 64)"
  have len: "length (fa_used a) = 16384" using wf by (simp add: frames_wf_def frame_constants)
  show eff: "in_use (frame_mark f use a) = (if f \<ge> FRAME_COUNT then in_use a else if use then insert f (in_use a) else in_use a - {f})"
    using frames_of_insert [of f "fa_used a"] frames_of_remove [of f "fa_used a"] len
    by (simp add: frame_mark_def Let_def frame_constants)
  show "fa_leased (frame_mark f use a) = fa_leased a" "fa_initialized (frame_mark f use a) = fa_initialized a"
      "fa_cursor (frame_mark f use a) = fa_cursor a"
    by (simp_all add: frame_mark_def Let_def)
  have "fa_free (frame_mark f use a) + card (in_use (frame_mark f use a)) = FRAME_COUNT"
  proof (cases "f < FRAME_COUNT")
    case True
    have test: "?w AND frame_bit f = 0 \<longleftrightarrow> f \<notin> in_use a"
      using frames_of_test [of f "fa_used a"] True len by (simp add: frame_constants)
    have fin: "finite (in_use a)" and sub: "in_use a \<subseteq> {..<FRAME_COUNT}" using in_use_bound [OF wf] by simp_all
    have count: "fa_free a + card (in_use a) = FRAME_COUNT" using wf by (simp add: frames_wf_def)
    have room: "card (in_use a) < FRAME_COUNT" if "f \<notin> in_use a"
    proof -
      have "card (insert f (in_use a)) \<le> card {..<FRAME_COUNT}" using sub True by (intro card_mono) auto
      then show ?thesis using that fin by simp
    qed
    have pos: "0 < card (in_use a)" if "f \<in> in_use a" using that fin card_gt_0_iff by blast
    have "fa_free a < usize_limit - 1" using count by (simp add: frame_constants usize_limit_def)
    then show ?thesis unfolding eff
      using True count fin test room pos
      by (auto simp: frame_mark_def Let_def card_insert_if card_Diff_singleton)
  next
    case False
    then show ?thesis using wf by (simp add: eff frame_mark_def frames_wf_def)
  qed
  then show "frames_wf (frame_mark f use a)"
    using wf by (simp add: frames_wf_def frame_mark_def Let_def)
qed

lemma fold_mark_effect:
  assumes "frames_wf a"
  shows "frames_wf (fold (\<lambda>f. frame_mark f use) fs a) \<and>
    in_use (fold (\<lambda>f. frame_mark f use) fs a) =
      (if use then in_use a \<union> (set fs \<inter> {..<FRAME_COUNT}) else in_use a - set fs) \<and>
    fa_leased (fold (\<lambda>f. frame_mark f use) fs a) = fa_leased a \<and>
    fa_initialized (fold (\<lambda>f. frame_mark f use) fs a) = fa_initialized a"
  using assms
proof (induction fs arbitrary: a)
  case (Cons f fs)
  note step = frame_mark_effect [OF Cons.prems, of f use]
  show ?case using Cons.IH [OF step(2)] step in_use_bound(1) [OF Cons.prems] by (cases use; cases "f < FRAME_COUNT") auto
qed simp

text \<open>
  A range reserves every frame it touches and frees every frame that lies inside it.
\<close>

definition touched :: "u64 \<Rightarrow> u64 \<Rightarrow> nat set" where
  "touched base bytes = {f. f < FRAME_COUNT \<and> unat base < (f + 1) * 4096 \<and> f * 4096 < unat base + unat bytes}"

definition inside :: "u64 \<Rightarrow> u64 \<Rightarrow> nat set" where
  "inside base bytes = {f. f < FRAME_COUNT \<and> unat base \<le> f * 4096 \<and> (f + 1) * 4096 \<le> unat base + unat bytes}"

lemma touched_frames:
  "{unat (base div PAGE_BYTES)..<unat (saturating_add (min (saturating_add base bytes) MAX_PHYSICAL_BYTES) (PAGE_BYTES - 1) div PAGE_BYTES)}
     \<inter> {..<FRAME_COUNT} = touched base bytes"
proof -
  have page: "unat (PAGE_BYTES - 1) = 4095" unfolding PAGE_BYTES_def by simp
  have "unat (saturating_add (min (saturating_add base bytes) MAX_PHYSICAL_BYTES) (PAGE_BYTES - 1) div PAGE_BYTES) =
      (min (min (unat base + unat bytes) (2 ^ 64 - 1)) 4294967296 + 4095) div 4096"
    by (simp add: unat_div unat_saturating_add unat_min page frame_constants)
  then show ?thesis by (auto simp: touched_def unat_div frame_constants min_def)
qed

lemma inside_frames:
  "{unat (saturating_add base (PAGE_BYTES - 1) div PAGE_BYTES)..<unat (min (saturating_add base bytes) MAX_PHYSICAL_BYTES div PAGE_BYTES)} =
     inside base bytes"
proof -
  have page: "unat (PAGE_BYTES - 1) = 4095" unfolding PAGE_BYTES_def by simp
  have "unat (saturating_add base (PAGE_BYTES - 1) div PAGE_BYTES) = min (unat base + 4095) (2 ^ 64 - 1) div 4096"
    "unat (min (saturating_add base bytes) MAX_PHYSICAL_BYTES div PAGE_BYTES) =
      min (min (unat base + unat bytes) (2 ^ 64 - 1)) 4294967296 div 4096"
    by (simp_all add: unat_div unat_saturating_add unat_min page frame_constants)
  then show ?thesis by (auto simp: inside_def frame_constants min_def)
qed

lemma mark_range_effect:
  assumes "frames_wf a"
  shows "frames_wf (mark_range base bytes use a) \<and>
    in_use (mark_range base bytes use a) = (if use then in_use a \<union> touched base bytes else in_use a - inside base bytes) \<and>
    fa_leased (mark_range base bytes use a) = fa_leased a \<and> fa_initialized (mark_range base bytes use a) = fa_initialized a"
  using fold_mark_effect [OF assms, of use] touched_frames [of base bytes] inside_frames [of base bytes]
  by (cases use) (simp_all add: mark_range_def Let_def)

lemma mark_ranges_effect:
  assumes "frames_wf a"
  shows "frames_wf (fold (\<lambda>(base, bytes). mark_range base bytes use) rs a) \<and>
    in_use (fold (\<lambda>(base, bytes). mark_range base bytes use) rs a) =
      (if use then in_use a \<union> (\<Union>(base, bytes)\<in>set rs. touched base bytes)
       else in_use a - (\<Union>(base, bytes)\<in>set rs. inside base bytes)) \<and>
    fa_leased (fold (\<lambda>(base, bytes). mark_range base bytes use) rs a) = fa_leased a \<and>
    fa_initialized (fold (\<lambda>(base, bytes). mark_range base bytes use) rs a) = fa_initialized a"
  using assms
proof (induction rs arbitrary: a)
  case (Cons r rs)
  obtain base bytes where r: "r = (base, bytes)" by (cases r)
  note step = mark_range_effect [OF Cons.prems, of base bytes use]
  show ?case using Cons.IH [of "mark_range base bytes use a"] step by (cases use) (auto simp: r)
qed simp

lemma allocator_new_wf: "frames_wf allocator_new" "in_use allocator_new = {..<FRAME_COUNT}" "leased allocator_new = {}"
proof -
  show used: "in_use allocator_new = {..<FRAME_COUNT}"
    by (auto simp: frames_of_def allocator_new_def frame_constants frame_index)
  show "leased allocator_new = {}"
    by (auto simp: frames_of_def allocator_new_def frame_constants frame_index)
  show "frames_wf allocator_new" unfolding frames_wf_def used by (simp add: allocator_new_def)
qed

text \<open>The allocator that \<^verbatim>\<open>initialize\<close> leaves behind, for the ranges the firmware reported.\<close>

abbreviation booted :: "(u64 \<times> u64) list \<Rightarrow> u64 \<Rightarrow> (u64 \<times> u64) list \<Rightarrow> frame_allocator" where
  "booted usable kernel_end handoff \<equiv> frames_initialize usable kernel_end handoff allocator_new"

definition usable_frames :: "(u64 \<times> u64) list \<Rightarrow> u64 \<Rightarrow> (u64 \<times> u64) list \<Rightarrow> nat set" where
  "usable_frames usable kernel_end handoff =
     (\<Union>(base, bytes)\<in>set usable. inside base bytes) - touched 0 kernel_end - (\<Union>(base, bytes)\<in>set handoff. touched base bytes)"

lemma frames_wf_cursor [simp]: "frames_wf (a\<lparr>fa_cursor := c, fa_initialized := i\<rparr>) = frames_wf a"
    "frames_wf (a\<lparr>fa_cursor := c\<rparr>) = frames_wf a"
  by (simp_all add: frames_wf_def)

lemma booted_effect:
  "frames_wf (booted usable kernel_end handoff)" "leased (booted usable kernel_end handoff) = {}"
  "in_use (booted usable kernel_end handoff) = {..<FRAME_COUNT} - usable_frames usable kernel_end handoff"
  "fa_initialized (booted usable kernel_end handoff)"
proof -
  define a where "a = fold (\<lambda>(base, bytes). mark_range base bytes False) usable allocator_new"
  define b where "b = mark_range 0 kernel_end True a"
  define c where "c = fold (\<lambda>(base, bytes). mark_range base bytes True) handoff b"
  have init: "booted usable kernel_end handoff =
      c\<lparr>fa_cursor := min (unat kernel_end div 4096 + (if unat kernel_end mod 4096 = 0 then 0 else 1)) FRAME_COUNT, fa_initialized := True\<rparr>"
    by (simp add: frames_initialize_def allocator_new_def Let_def a_def b_def c_def)
  define U H where "U = (\<Union>(base, bytes)\<in>set usable. inside base bytes)" and "H = (\<Union>(base, bytes)\<in>set handoff. touched base bytes)"
  have a: "frames_wf a" "in_use a = {..<FRAME_COUNT} - U" "leased a = {}"
    using mark_ranges_effect [OF allocator_new_wf(1), of False usable] allocator_new_wf(2,3) by (simp_all add: a_def U_def)
  have b: "frames_wf b" "in_use b = in_use a \<union> touched 0 kernel_end" "leased b = {}"
    using mark_range_effect [OF a(1), of 0 kernel_end True] a(3) by (simp_all add: b_def)
  have c: "frames_wf c" "in_use c = in_use b \<union> H" "leased c = {}"
    using mark_ranges_effect [OF b(1), of True handoff] b(3) by (simp_all add: c_def H_def)
  have touched: "touched base bytes \<subseteq> {..<FRAME_COUNT}" for base bytes by (auto simp: touched_def)
  have sub: "H \<subseteq> {..<FRAME_COUNT}" using touched by (auto simp: H_def split: prod.splits)
  show "frames_wf (booted usable kernel_end handoff)" using c by (simp add: init)
  show "fa_initialized (booted usable kernel_end handoff)" by (simp add: init)
  show "leased (booted usable kernel_end handoff) = {}" using c by (simp add: init)
  have "in_use (booted usable kernel_end handoff) = {..<FRAME_COUNT} - U \<union> touched 0 kernel_end \<union> H" using a b c by (simp add: init)
  then show "in_use (booted usable kernel_end handoff) = {..<FRAME_COUNT} - usable_frames usable kernel_end handoff"
    unfolding usable_frames_def U_def [symmetric] H_def [symmetric] using touched [of 0 kernel_end] sub by auto
qed

section \<open>The allocator as a pair of sets\<close>

definition frame_address :: "nat \<Rightarrow> u64" where
  "frame_address f = of_nat f * PAGE_BYTES"

lemma frame_address_unat: "f < FRAME_COUNT \<Longrightarrow> unat (frame_address f) = f * 4096"
  unfolding frame_address_def PAGE_BYTES_def by (simp add: frame_constants unat_word_ariths unat_of_nat)

lemma clear_page_frame:
  assumes "f < FRAME_COUNT"
  shows "clear_page (frame_address f) m = (\<lambda>addr. if addr div 4096 = f then 0 else m addr)"
proof -
  have "f * 4096 \<le> x \<and> x < f * 4096 + 4096 \<longleftrightarrow> f \<le> x div 4096 \<and> x div 4096 < Suc f" for x
    by (simp add: less_eq_div_iff_mult_less_eq div_less_iff_less_mult add.commute)
  then have "f * 4096 \<le> x \<and> x < f * 4096 + 4096 \<longleftrightarrow> x div 4096 = f" for x by (simp only: less_Suc_eq_le eq_iff conj_commute)
  then show ?thesis by (simp add: clear_page_def frame_address_unat [OF assms] frame_constants)
qed

lemma rotation_covers:
  assumes "0 < n"
  shows "set (map (\<lambda>offset. (c + offset) mod n) [0..<n]) = {..<n}"
proof (rule card_subset_eq)
  have "inj_on (\<lambda>offset. (c + offset) mod n) {0..<n}"
    by (rule inj_onI) (use mod_shift_inject [of c _ n] in \<open>simp only: atLeastLessThan_iff\<close>)
  then show "card (set (map (\<lambda>offset. (c + offset) mod n) [0..<n])) = card {..<n}" by (simp add: card_image)
qed (use assms in auto)

lemma all_in_use:
  assumes "frames_wf a"
  shows "fa_free a = 0 \<longleftrightarrow> in_use a = {..<FRAME_COUNT}"
proof -
  have count: "fa_free a + card (in_use a) = card {..<FRAME_COUNT}" using assms by (simp add: frames_wf_def)
  then show ?thesis using card_subset_eq [OF finite_lessThan in_use_bound(1) [OF assms]] by (metis add_0 add_cancel_left_left)
qed

lemma allocate_frame_cases:
  assumes wf: "frames_wf (fm_allocator s)" and "fa_initialized (fm_allocator s)"
  shows "if in_use (fm_allocator s) = {..<FRAME_COUNT} then allocate_frame s = (None, s)
    else \<exists>f a'. f < FRAME_COUNT \<and> f \<notin> in_use (fm_allocator s) \<and>
      allocate_frame s = (Some (frame_address f),
        \<lparr>fm_allocator = a', fm_memory = clear_page (frame_address f) (fm_memory s)\<rparr>) \<and>
      frames_wf a' \<and> fa_initialized a' \<and> in_use a' = insert f (in_use (fm_allocator s)) \<and>
      leased a' = insert f (leased (fm_allocator s))"
proof (cases "in_use (fm_allocator s) = {..<FRAME_COUNT}")
  case True
  then show ?thesis using all_in_use [OF wf] by (simp add: allocate_frame_def Let_def)
next
  case False
  define a where "a = fm_allocator s"
  let ?P = "\<lambda>frame. fa_used a ! (frame div 64) AND frame_bit frame = 0"
  let ?fs = "map (\<lambda>offset. (fa_cursor a + offset) mod FRAME_COUNT) [0..<FRAME_COUNT]"
  have wfa: "frames_wf a" and len: "64 * length (fa_used a) = FRAME_COUNT" "64 * length (fa_leased a) = FRAME_COUNT"
    using wf by (simp_all add: a_def frames_wf_def frame_constants)
  have fs: "set ?fs = {..<FRAME_COUNT}" by (rule rotation_covers) (simp add: frame_constants)
  have test: "?P f \<longleftrightarrow> f \<notin> in_use a" if "f < FRAME_COUNT" for f using frames_of_test [of f "fa_used a"] that len by simp
  obtain g where "g < FRAME_COUNT" "g \<notin> in_use a" using False in_use_bound(1) [OF wf] by (auto simp: a_def)
  then have "g \<in> set ?fs \<and> ?P g" unfolding fs using test [of g] by blast
  then have "find ?P ?fs \<noteq> None" using find_None_iff [of ?P ?fs] by blast
  then obtain f where f: "find ?P ?fs = Some f" by blast
  then have free: "f < FRAME_COUNT" "f \<notin> in_use a" using find_SomeD [OF f] fs test [of f] by auto
  define a' where "a' = (frame_mark f True a)\<lparr>fa_leased := (fa_leased a)[f div 64 := fa_leased a ! (f div 64) OR frame_bit f],
      fa_cursor := (f + 1) mod FRAME_COUNT\<rparr>"
  note mark = frame_mark_effect [OF wfa, of f True]
  have "frames_wf a'" using mark(2) wfa by (simp add: a'_def frames_wf_def)
  moreover have "fa_initialized a'" using mark(4) assms(2) by (simp add: a'_def a_def)
  moreover have "in_use a' = insert f (in_use a)" using mark(1) free by (simp add: a'_def)
  moreover have "leased a' = insert f (leased a)" using frames_of_insert [of f "fa_leased a"] free len by (simp add: a'_def)
  moreover have "allocate_frame s = (Some (frame_address f),
        \<lparr>fm_allocator = a', fm_memory = clear_page (frame_address f) (fm_memory s)\<rparr>)"
    using f all_in_use [OF wf] False assms(2) mark(3)
    by (simp add: allocate_frame_def Let_def a_def [symmetric] a'_def frame_address_def)
  ultimately show ?thesis using False free by (auto simp: a_def)
qed

lemma page_address:
  "p \<noteq> 0 \<and> p mod PAGE_BYTES = 0 \<and> p < MAX_PHYSICAL_BYTES \<longleftrightarrow> (\<exists>f. 0 < f \<and> f < FRAME_COUNT \<and> p = frame_address f)"
proof
  assume "p \<noteq> 0 \<and> p mod PAGE_BYTES = 0 \<and> p < MAX_PHYSICAL_BYTES"
  then have p: "unat p mod 4096 = 0" "unat p < 4294967296" "unat p \<noteq> 0"
    using frame_constants(3,4) by (metis unat_mod unat_0, simp_all add: word_less_nat_alt unat_eq_0)
  define f where "f = unat p div 4096"
  have eq: "unat p = f * 4096" using p(1) by (simp add: f_def dvd_imp_mod_0 mod_0_imp_dvd)
  then have f: "0 < f" "f < FRAME_COUNT" using p by (simp_all add: frame_constants)
  have "p = frame_address f" using eq frame_address_unat [OF f(2)] by (metis word_unat_eq_iff)
  with f show "\<exists>f. 0 < f \<and> f < FRAME_COUNT \<and> p = frame_address f" by blast
next
  assume "\<exists>f. 0 < f \<and> f < FRAME_COUNT \<and> p = frame_address f"
  then obtain f where f: "0 < f" "f < FRAME_COUNT" "p = frame_address f" by blast
  then have u: "unat p = f * 4096" by (simp add: frame_address_unat)
  have "p \<noteq> 0" using u f(1) by (metis mult_is_0 not_gr_zero unat_0 zero_neq_numeral)
  moreover have "unat (p mod PAGE_BYTES) = 0" by (simp add: unat_mod u frame_constants)
  moreover have "p < MAX_PHYSICAL_BYTES" using u f(2) by (simp add: word_less_nat_alt frame_constants)
  ultimately show "p \<noteq> 0 \<and> p mod PAGE_BYTES = 0 \<and> p < MAX_PHYSICAL_BYTES" by (simp add: unat_eq_0)
qed

lemma frame_address_frame: "f < FRAME_COUNT \<Longrightarrow> unat (frame_address f div PAGE_BYTES) = f"
  by (simp add: unat_div frame_address_unat frame_constants)

lemma release_frame_leased:
  assumes wf: "frames_wf (fm_allocator s)" and f: "0 < f" "f \<in> leased (fm_allocator s)" "f \<in> in_use (fm_allocator s)"
  shows "\<exists>a'. release_frame (frame_address f) s =
      (True, \<lparr>fm_allocator = a', fm_memory = clear_page (frame_address f) (fm_memory s)\<rparr>) \<and>
    frames_wf a' \<and> fa_initialized a' = fa_initialized (fm_allocator s) \<and>
    in_use a' = in_use (fm_allocator s) - {f} \<and> leased a' = leased (fm_allocator s) - {f}"
proof -
  define a where "a = fm_allocator s"
  have bound: "f < FRAME_COUNT" using f(3) in_use_bound(1) [OF wf] by auto
  have len: "64 * length (fa_used a) = FRAME_COUNT" "64 * length (fa_leased a) = FRAME_COUNT"
    using wf by (simp_all add: a_def frames_wf_def frame_constants)
  have ok: "frame_address f \<noteq> 0" "frame_address f mod PAGE_BYTES = 0" "\<not> MAX_PHYSICAL_BYTES \<le> frame_address f"
    using page_address [of "frame_address f"] f(1) bound by auto
  have held: "fa_used a ! (f div 64) AND frame_bit f \<noteq> 0" "fa_leased a ! (f div 64) AND frame_bit f \<noteq> 0"
    using frames_of_test [of f "fa_used a"] frames_of_test [of f "fa_leased a"] bound len f by (simp_all add: a_def)
  define b where "b = a\<lparr>fa_leased := (fa_leased a)[f div 64 := fa_leased a ! (f div 64) AND NOT (frame_bit f)]\<rparr>"
  have wfb: "frames_wf b" using wf by (simp add: b_def a_def frames_wf_def)
  note mark = frame_mark_effect [OF wfb, of f False]
  have "release_frame (frame_address f) s =
      (True, \<lparr>fm_allocator = frame_mark f False b, fm_memory = clear_page (frame_address f) (fm_memory s)\<rparr>)"
    using ok held by (simp add: release_frame_def Let_def frame_address_frame [OF bound] a_def b_def)
  moreover have "leased b = leased a - {f}" using frames_of_remove [of f "fa_leased a"] bound len by (simp add: b_def)
  ultimately show ?thesis using mark bound by (intro exI [of _ "frame_mark f False b"]) (simp add: a_def b_def)
qed

lemma release_frame_refused:
  assumes wf: "frames_wf (fm_allocator s)" and "\<not> (\<exists>f. 0 < f \<and> f \<in> leased (fm_allocator s) \<and> p = frame_address f)"
  shows "release_frame p s = (False, s)"
proof (cases "\<exists>f. 0 < f \<and> f < FRAME_COUNT \<and> p = frame_address f")
  case True
  then obtain f where f: "0 < f" "f < FRAME_COUNT" "p = frame_address f" by blast
  have "64 * length (fa_leased (fm_allocator s)) = FRAME_COUNT" using wf by (simp add: frames_wf_def frame_constants)
  then have "fa_leased (fm_allocator s) ! (f div 64) AND frame_bit f = 0"
    using frames_of_test [of f "fa_leased (fm_allocator s)"] f assms(2) by auto
  then show ?thesis by (simp add: release_frame_def Let_def f(3) frame_address_frame [OF f(2)])
next
  case False
  then have "p = 0 \<or> p mod PAGE_BYTES \<noteq> 0 \<or> p \<ge> MAX_PHYSICAL_BYTES"
    unfolding page_address [symmetric] by (simp only: de_Morgan_conj not_not not_less)
  then show ?thesis by (simp only: release_frame_def if_True)
qed

section \<open>Reachable allocators\<close>

inductive frame_step :: "frame_state \<Rightarrow> frame_state \<Rightarrow> bool" where
  step_allocate: "allocate_frame s = (r, s') \<Longrightarrow> frame_step s s'"
| step_release: "release_frame p s = (r, s') \<Longrightarrow> frame_step s s'"

definition frames_inv :: "nat set \<Rightarrow> frame_state \<Rightarrow> bool" where
  "frames_inv usable s \<longleftrightarrow> frames_wf (fm_allocator s) \<and> fa_initialized (fm_allocator s) \<and>
     leased (fm_allocator s) \<subseteq> usable \<and> in_use (fm_allocator s) = ({..<FRAME_COUNT} - usable) \<union> leased (fm_allocator s)"

lemma usable_frames_bound: "usable_frames usable kernel_end handoff \<subseteq> {..<FRAME_COUNT}"
  by (auto simp: usable_frames_def inside_def)

text \<open>The behaviour of the two operations on the set of leased frames, for any set of usable frames.\<close>

lemma allocate_frame_spec:
  assumes inv: "frames_inv U s" and U: "U \<subseteq> {..<FRAME_COUNT}"
  obtains (exhausted) "allocate_frame s = (None, s)" "leased (fm_allocator s) = U"
  | (leases) f s' where "allocate_frame s = (Some (frame_address f), s')" "f \<in> U - leased (fm_allocator s)" "frames_inv U s'"
      "leased (fm_allocator s') = insert f (leased (fm_allocator s))" "fm_memory s' = clear_page (frame_address f) (fm_memory s)"
proof -
  have wf: "frames_wf (fm_allocator s)" "fa_initialized (fm_allocator s)" and sub: "leased (fm_allocator s) \<subseteq> U"
    and use: "in_use (fm_allocator s) = ({..<FRAME_COUNT} - U) \<union> leased (fm_allocator s)"
    using inv by (simp_all add: frames_inv_def)
  show thesis
  proof (cases "in_use (fm_allocator s) = {..<FRAME_COUNT}")
    case True
    then have "U \<subseteq> leased (fm_allocator s)" using U use by blast
    then show thesis using exhausted allocate_frame_cases [OF wf] True sub by simp
  next
    case False
    then obtain f a' where f: "f < FRAME_COUNT" "f \<notin> in_use (fm_allocator s)" "frames_wf a'" "fa_initialized a'"
        "in_use a' = insert f (in_use (fm_allocator s))" "leased a' = insert f (leased (fm_allocator s))"
        "allocate_frame s = (Some (frame_address f), \<lparr>fm_allocator = a', fm_memory = clear_page (frame_address f) (fm_memory s)\<rparr>)"
      using allocate_frame_cases [OF wf] by auto
    have "f \<in> U - leased (fm_allocator s)" using f(1,2) use by auto
    moreover have "frames_inv U \<lparr>fm_allocator = a', fm_memory = clear_page (frame_address f) (fm_memory s)\<rparr>"
      using f use sub calculation by (auto simp: frames_inv_def)
    ultimately show thesis using leases [OF f(7)] f(6) by simp
  qed
qed

lemma release_frame_spec:
  assumes inv: "frames_inv U s" and U: "U \<subseteq> {..<FRAME_COUNT}" and "0 \<notin> U"
  obtains (refused) "release_frame p s = (False, s)" "p \<notin> frame_address ` leased (fm_allocator s)"
  | (freed) f s' where "release_frame p s = (True, s')" "p = frame_address f" "f \<in> leased (fm_allocator s)" "frames_inv U s'"
      "leased (fm_allocator s') = leased (fm_allocator s) - {f}" "fm_memory s' = clear_page p (fm_memory s)"
proof -
  have wf: "frames_wf (fm_allocator s)" "fa_initialized (fm_allocator s)" and sub: "leased (fm_allocator s) \<subseteq> U"
    and use: "in_use (fm_allocator s) = ({..<FRAME_COUNT} - U) \<union> leased (fm_allocator s)"
    using inv by (simp_all add: frames_inv_def)
  have pos: "0 < f" if "f \<in> leased (fm_allocator s)" for f using that sub assms(3) by (metis gr0I subsetD)
  show thesis
  proof (cases "p \<in> frame_address ` leased (fm_allocator s)")
    case True
    then obtain f where f: "p = frame_address f" "f \<in> leased (fm_allocator s)" by blast
    obtain a' where a': "release_frame p s = (True, \<lparr>fm_allocator = a', fm_memory = clear_page p (fm_memory s)\<rparr>)" "frames_wf a'"
        "fa_initialized a' = fa_initialized (fm_allocator s)" "in_use a' = in_use (fm_allocator s) - {f}"
        "leased a' = leased (fm_allocator s) - {f}"
      using release_frame_leased [OF wf(1) pos [OF f(2)] f(2)] f use by auto
    have "frames_inv U \<lparr>fm_allocator = a', fm_memory = clear_page p (fm_memory s)\<rparr>"
      using a' use sub f(2) wf(2) by (auto simp: frames_inv_def)
    then show thesis using freed [OF a'(1) f] a'(5) by simp
  next
    case False
    then show thesis using refused release_frame_refused [OF wf(1), of p] by blast
  qed
qed

lemma frames_inv_step:
  assumes "frames_inv U s" and "U \<subseteq> {..<FRAME_COUNT}" and "0 \<notin> U" and "frame_step s s'"
  shows "frames_inv U s'"
  using assms(4)
proof cases
  case (step_allocate r)
  then show ?thesis using assms(1) by (rule_tac allocate_frame_spec [OF assms(1,2)]) auto
next
  case (step_release p r)
  then show ?thesis using assms(1) by (rule_tac release_frame_spec [OF assms(1-3), of p]) auto
qed

text \<open>A machine just after boot, with \<open>U\<close> the frames the firmware and the kernel leave to the allocator.\<close>

definition frames_boot :: "nat set \<Rightarrow> frame_state \<Rightarrow> bool" where
  "frames_boot U s \<longleftrightarrow> (\<exists>usable kernel_end handoff. 0 < kernel_end \<and> U = usable_frames usable kernel_end handoff \<and>
     fm_allocator s = frames_initialize usable kernel_end handoff allocator_new)"

definition frames_ok :: "nat set \<Rightarrow> frame_state \<Rightarrow> bool" where
  "frames_ok U s \<longleftrightarrow> U \<subseteq> {..<FRAME_COUNT} \<and> 0 \<notin> U \<and> frames_inv U s"

lemma frame_zero_reserved: "0 < kernel_end \<Longrightarrow> 0 \<notin> usable_frames usable kernel_end handoff"
  by (simp add: usable_frames_def touched_def frame_constants word_less_nat_alt)

interpretation frame_system: invariant_system "frames_boot U" frame_step "frames_ok U" for U
proof unfold_locales
  fix s
  assume "frames_boot U s"
  then obtain usable kernel_end handoff where boot: "0 < kernel_end" "U = usable_frames usable kernel_end handoff"
      "fm_allocator s = booted usable kernel_end handoff"
    by (auto simp: frames_boot_def)
  show "frames_ok U s"
    unfolding frames_ok_def frames_inv_def boot(3)
    using booted_effect [of usable kernel_end handoff] usable_frames_bound frame_zero_reserved [OF boot(1)] boot(2) by simp
next
  fix s s'
  assume "frames_ok U s" "frame_step s s'"
  then show "frames_ok U s'" using frames_inv_step [of U s s'] by (simp add: frames_ok_def)
qed

section \<open>Properties\<close>

text \<open>
  C13: after boot the free frames are exactly those that lie inside one usable range and share no byte with the kernel image, the page at
  address zero below it, or a range handed over by the firmware; every other frame below 4 GiB is reserved, and nothing is leased.
\<close>

theorem boot_frees_exactly:
  "{..<FRAME_COUNT} - frames_of (fa_used (frames_initialize usable kernel_end handoff allocator_new)) =
     {f. f < FRAME_COUNT \<and>
       (\<exists>(base, bytes)\<in>set usable. unat base \<le> f * 4096 \<and> (f + 1) * 4096 \<le> unat base + unat bytes) \<and>
       unat kernel_end \<le> f * 4096 \<and>
       \<not> (\<exists>(base, bytes)\<in>set handoff. unat base < (f + 1) * 4096 \<and> f * 4096 < unat base + unat bytes)} \<and>
   frames_of (fa_leased (frames_initialize usable kernel_end handoff allocator_new)) = {}"
proof -
  have "{..<FRAME_COUNT} - in_use (booted usable kernel_end handoff) = usable_frames usable kernel_end handoff"
    using booted_effect(3) [of usable kernel_end handoff] usable_frames_bound [of usable kernel_end handoff] by blast
  then show ?thesis using booted_effect(2) [of usable kernel_end handoff]
    by (auto simp: usable_frames_def inside_def touched_def not_less)
qed

text \<open>
  C9: leasing is exclusive and complete. In every reachable state \<^verbatim>\<open>allocate_frame\<close> returns the address of
  a usable frame that is not leased, with its page cleared and the rest of memory as before, and fails only when every usable
  frame is leased; reserved frames are never handed out.
\<close>

theorem frame_leases_exclusive:
  assumes "reachable (frames_boot U) frame_step s"
  shows "case allocate_frame s of
      (None, s') \<Rightarrow> s' = s \<and> frames_of (fa_leased (fm_allocator s)) = U
    | (Some p, s') \<Rightarrow> \<exists>f\<in>U - frames_of (fa_leased (fm_allocator s)). unat p = f * 4096 \<and>
        frames_of (fa_leased (fm_allocator s')) = insert f (frames_of (fa_leased (fm_allocator s))) \<and>
        fm_memory s' = (\<lambda>addr. if addr div 4096 = f then 0 else fm_memory s addr)"
proof -
  have ok: "U \<subseteq> {..<FRAME_COUNT}" "frames_inv U s" using frame_system.reachable_inv [OF assms] by (simp_all add: frames_ok_def)
  show ?thesis
  proof (rule allocate_frame_spec [OF ok(2,1)])
    fix f s'
    assume f: "allocate_frame s = (Some (frame_address f), s')" "f \<in> U - leased (fm_allocator s)"
      "leased (fm_allocator s') = insert f (leased (fm_allocator s))" "fm_memory s' = clear_page (frame_address f) (fm_memory s)"
    then have addr: "unat (frame_address f) = f * 4096" using ok(1) by (intro frame_address_unat) auto
    have "f < FRAME_COUNT" using f(2) ok(1) by auto
    then show ?thesis using f addr by (simp add: clear_page_frame)
  qed simp
qed

text \<open>
  only leased frames can be released. In every reachable state \<^verbatim>\<open>release_frame\<close> accepts exactly the
  addresses of leased frames, ends that lease and clears the page; any other address, reserved frames included, is refused without
  effect.
\<close>

theorem frame_release_exact:
  assumes "reachable (frames_boot U) frame_step s"
  shows "case release_frame p s of
      (False, s') \<Rightarrow> s' = s \<and> (\<forall>f. f \<in> frames_of (fa_leased (fm_allocator s)) \<longrightarrow> unat p \<noteq> f * 4096)
    | (True, s') \<Rightarrow> \<exists>f\<in>frames_of (fa_leased (fm_allocator s)). unat p = f * 4096 \<and>
        frames_of (fa_leased (fm_allocator s')) = frames_of (fa_leased (fm_allocator s)) - {f} \<and>
        fm_memory s' = (\<lambda>addr. if addr div 4096 = f then 0 else fm_memory s addr)"
proof -
  have ok: "U \<subseteq> {..<FRAME_COUNT}" "0 \<notin> U" "frames_inv U s" using frame_system.reachable_inv [OF assms] by (simp_all add: frames_ok_def)
  have addr: "unat (frame_address f) = f * 4096" if "f \<in> leased (fm_allocator s)" for f
    using that ok by (intro frame_address_unat) (auto simp: frames_inv_def)
  show ?thesis
  proof (rule release_frame_spec [OF ok(3,1,2), of p])
    fix f s'
    assume f: "release_frame p s = (True, s')" "p = frame_address f" "f \<in> leased (fm_allocator s)"
      "leased (fm_allocator s') = leased (fm_allocator s) - {f}" "fm_memory s' = clear_page p (fm_memory s)"
    have "f < FRAME_COUNT" using f(3) ok by (auto simp: frames_inv_def)
    then have "fm_memory s' = (\<lambda>addr. if addr div 4096 = f then 0 else fm_memory s addr)"
      using f(2,5) by (simp add: clear_page_frame)
    then show ?thesis using f(1,3,4) addr [OF f(3)] by (auto simp: f(2))
  next
    assume refused: "release_frame p s = (False, s)" "p \<notin> frame_address ` leased (fm_allocator s)"
    have "unat p \<noteq> f * 4096" if "f \<in> leased (fm_allocator s)" for f
      using refused(2) that addr [OF that] by (metis imageI word_unat_eq_iff)
    then show ?thesis using refused(1) by simp
  qed
qed

text \<open>A machine with two usable pages at 2 MiB above a kernel that ends at 1 MiB.\<close>

definition demo_machine :: frame_state where
  "demo_machine = \<lparr>fm_allocator = frames_initialize [(0x200000, 0x2000)] 0x100000 [] allocator_new, fm_memory = \<lambda>_. 7\<rparr>"

lemma demo_usable: "usable_frames [(0x200000, 0x2000)] 0x100000 [] = {512, 513}"
  by (auto simp: usable_frames_def inside_def touched_def frame_constants)

lemma demo_machine_reachable: "reachable (frames_boot {512, 513}) frame_step demo_machine"
  unfolding demo_usable [symmetric]
  by (rule reachable_init, unfold frames_boot_def)
    (intro exI [of _ "[(0x200000, 0x2000)]"] exI [of _ "0x100000"] exI [of _ "[]"], simp add: demo_machine_def word_less_nat_alt)

lemma demo_machine_leases: "leased (fm_allocator demo_machine) = {}"
  using booted_effect(2) [of "[(0x200000, 0x2000)]" "0x100000" "[]"] by (simp add: demo_machine_def)

theorem frame_leases_exclusive_witness:
  "\<exists>p s'. allocate_frame demo_machine = (Some p, s') \<and> unat p \<in> {512 * 4096, 513 * 4096} \<and> fm_memory s' (unat p) = 0"
  using frame_leases_exclusive [OF demo_machine_reachable] demo_machine_leases
  by (auto split: prod.splits option.splits)

theorem frame_release_exact_witness:
  "release_frame 0x100000 demo_machine = (False, demo_machine)"
  using frame_release_exact [OF demo_machine_reachable, of "0x100000"] demo_machine_leases
  by (auto split: prod.splits bool.splits)

end
