(* ===== verification/Crypto.thy ===== *)
theory Crypto
  imports Native_Image
begin

text \<open>
  The cryptographic building blocks of the kernel (\<^verbatim>\<open>kernel/src/crypto.rs\<close>): the incremental SHA-256 state, HMAC, PBKDF2, the
  comparison of secrets, and the derivation of salts, keys and nonces. The incremental interface is shown to compute the hash
  of the padded message however the input is cut into pieces. Argon2 is a third-party crate and an argument of
  \<open>storage_kek_with_params\<close>; the time stamp counter, the random instruction and the counters they are mixed with are arguments of
  the functions that read them.
\<close>

unbundle bit_operations_syntax

section \<open>Model: SHA-256\<close>

definition PASSWORD_HASH_LEN :: nat where
  "PASSWORD_HASH_LEN = 32"

definition PASSWORD_SALT_LEN :: nat where
  "PASSWORD_SALT_LEN = 16"

definition STORAGE_NONCE_LEN :: nat where
  "STORAGE_NONCE_LEN = 24"

definition STORAGE_ARGON2_MEMORY_KIB :: u32 where
  "STORAGE_ARGON2_MEMORY_KIB = 65536"

definition STORAGE_ARGON2_PASSES :: u32 where
  "STORAGE_ARGON2_PASSES = 3"

definition STORAGE_ARGON2_LANES :: u32 where
  "STORAGE_ARGON2_LANES = 1"

definition STORAGE_PARANOID_ARGON2_PASSES :: u32 where
  "STORAGE_PARANOID_ARGON2_PASSES = 6"

text \<open>The initial state and the round constants, in decimal where the source writes hexadecimal.\<close>

definition SHA256_INITIAL :: "u32 list" where
  "SHA256_INITIAL = [
    1779033703, 3144134277, 1013904242, 2773480762, 1359893119, 2600822924, 528734635, 1541459225]"

definition SHA256_K :: "u32 list" where
  "SHA256_K = [
    1116352408, 1899447441, 3049323471, 3921009573, 961987163, 1508970993, 2453635748, 2870763221,
    3624381080, 310598401, 607225278, 1426881987, 1925078388, 2162078206, 2614888103, 3248222580,
    3835390401, 4022224774, 264347078, 604807628, 770255983, 1249150122, 1555081692, 1996064986,
    2554220882, 2821834349, 2952996808, 3210313671, 3336571891, 3584528711, 113926993, 338241895,
    666307205, 773529912, 1294757372, 1396182291, 1695183700, 1986661051, 2177026350, 2456956037,
    2730485921, 2820302411, 3259730800, 3345764771, 3516065817, 3600352804, 4094571909, 275423344,
    430227734, 506948616, 659060556, 883997877, 958139571, 1322822218, 1537002063, 1747873779,
    1955562222, 2024104815, 2227730452, 2361852424, 2428436474, 2756734187, 3204031479, 3329325298]"

record sha256_state =
  sh_state :: "u32 list"
  sh_buffer :: "u8 list"
  sh_buffered :: nat
  sh_total_len :: u64

definition sha_new :: sha256_state where
  "sha_new = \<lparr>sh_state = SHA256_INITIAL, sh_buffer = replicate 64 0, sh_buffered = 0, sh_total_len = 0\<rparr>"

definition rotate_right :: "nat \<Rightarrow> u32 \<Rightarrow> u32" where
  "rotate_right n x = drop_bit n x OR push_bit (32 - n) x"

definition be_word :: "u8 list \<Rightarrow> u32" where
  "be_word bs = push_bit 24 (ucast (bs ! 0)) OR push_bit 16 (ucast (bs ! 1)) OR push_bit 8 (ucast (bs ! 2)) OR ucast (bs ! 3)"

definition be_bytes :: "nat \<Rightarrow> 'a::len word \<Rightarrow> u8 list" where
  "be_bytes n w = map (\<lambda>i. ucast (drop_bit (8 * (n - 1 - i)) w)) [0..<n]"

definition sha_schedule :: "u8 list \<Rightarrow> u32 list" where
  "sha_schedule block =
     fold (\<lambda>index schedule.
         let x = schedule ! (index - 15); y = schedule ! (index - 2);
             s0 = rotate_right 7 x XOR rotate_right 18 x XOR drop_bit 3 x;
             s1 = rotate_right 17 y XOR rotate_right 19 y XOR drop_bit 10 y
         in schedule[index := schedule ! (index - 16) + s0 + schedule ! (index - 7) + s1])
       [16..<64]
       (map (\<lambda>index. be_word (slice (index * 4) 4 block)) [0..<16] @ replicate 48 0)"

type_synonym sha_vars = "u32 \<times> u32 \<times> u32 \<times> u32 \<times> u32 \<times> u32 \<times> u32 \<times> u32"

definition sha_round :: "u32 list \<Rightarrow> nat \<Rightarrow> sha_vars \<Rightarrow> sha_vars" where
  "sha_round schedule index = (\<lambda>(a, b, c, d, e, f, g, h).
     let sum1 = rotate_right 6 e XOR rotate_right 11 e XOR rotate_right 25 e;
         choice = (e AND f) XOR (NOT e AND g);
         temp1 = h + sum1 + choice + SHA256_K ! index + schedule ! index;
         sum0 = rotate_right 2 a XOR rotate_right 13 a XOR rotate_right 22 a;
         majority = (a AND b) XOR (a AND c) XOR (b AND c);
         temp2 = sum0 + majority
     in (temp1 + temp2, a, b, c, d + temp1, e, f, g))"

definition sha_compress :: "u8 list \<Rightarrow> u32 list \<Rightarrow> u32 list" where
  "sha_compress block state =
     (let schedule = sha_schedule block;
          (a, b, c, d, e, f, g, h) = fold (sha_round schedule) [0..<64]
            (state ! 0, state ! 1, state ! 2, state ! 3, state ! 4, state ! 5, state ! 6, state ! 7)
      in map2 (+) state [a, b, c, d, e, f, g, h])"

text \<open>The loop \<^verbatim>\<open>while input.len() >= 64\<close> of \<^verbatim>\<open>update\<close>: the new state and the bytes left over.\<close>

function absorb :: "u32 list \<Rightarrow> u8 list \<Rightarrow> u32 list \<times> u8 list" where
  "absorb state input =
     (if 64 \<le> length input then absorb (sha_compress (take 64 input) state) (drop 64 input) else (state, input))"
  by pat_completeness auto
termination
  by (relation "measure (\<lambda>(_, input). length input)") auto

declare absorb.simps [simp del]

definition sha_update :: "u8 list \<Rightarrow> sha256_state \<Rightarrow> sha256_state" where
  "sha_update input d =
     (let d = d\<lparr>sh_total_len := sh_total_len d + of_nat (length input)\<rparr>;
          (d, input) =
            (if sh_buffered d \<noteq> 0 then
               let n = min (64 - sh_buffered d) (length input);
                   d = d\<lparr>sh_buffer := overwrite (sh_buffer d) (sh_buffered d) (take n input), sh_buffered := sh_buffered d + n\<rparr>;
                   d = (if sh_buffered d = 64
                        then d\<lparr>sh_state := sha_compress (sh_buffer d) (sh_state d), sh_buffered := 0\<rparr> else d)
               in (d, drop n input)
             else (d, input));
          (state, rest) = absorb (sh_state d) input;
          d = d\<lparr>sh_state := state\<rparr>
      in if rest \<noteq> [] then d\<lparr>sh_buffer := overwrite (sh_buffer d) 0 rest, sh_buffered := length rest\<rparr> else d)"

definition sha_output :: "u32 list \<Rightarrow> u8 list" where
  "sha_output state = concat (map (be_bytes 4) state)"

definition sha_finalize :: "sha256_state \<Rightarrow> u8 list" where
  "sha_finalize d =
     (let bit_len = sh_total_len d * 8;
          buffer = (sh_buffer d)[sh_buffered d := 0x80];
          buffered = sh_buffered d + 1;
          (state, buffer, buffered) =
            (if buffered > 56 then
               (sha_compress (overwrite buffer buffered (replicate (64 - buffered) 0)) (sh_state d), replicate 64 0, 0)
             else (sh_state d, buffer, buffered));
          buffer = overwrite buffer buffered (replicate (56 - buffered) 0);
          buffer = overwrite buffer 56 (be_bytes 8 bit_len)
      in sha_output (sha_compress buffer state))"

definition sha256 :: "u8 list \<Rightarrow> u8 list" where
  "sha256 input = sha_finalize (sha_update input sha_new)"

section \<open>Model: keyed hashing and key derivation\<close>

definition hmac_sha256 :: "u8 list \<Rightarrow> u8 list list \<Rightarrow> u8 list" where
  "hmac_sha256 key parts =
     (let key_block = overwrite (replicate 64 0) 0
            (if length key > 64 then sha_finalize (sha_update key sha_new) else key);
          inner_pad = map2 (XOR) (replicate 64 0x36) key_block;
          outer_pad = map2 (XOR) (replicate 64 0x5c) key_block;
          inner_hash = sha_finalize (fold sha_update parts (sha_update inner_pad sha_new))
      in sha_finalize (sha_update inner_hash (sha_update outer_pad sha_new)))"

definition pbkdf2_hmac_sha256 :: "u8 list \<Rightarrow> u8 list \<Rightarrow> u32 \<Rightarrow> u8 list" where
  "pbkdf2_hmac_sha256 password salt rounds =
     (let rounds = max rounds 1;
          u = hmac_sha256 password [salt, be_bytes 4 (1 :: u32)]
      in snd (fold (\<lambda>_ (u, result). let u = hmac_sha256 password [u] in (u, map2 (XOR) result u))
           [1..<unat rounds] (u, u)))"

definition password_hash :: "u8 list \<Rightarrow> u8 list \<Rightarrow> u32 \<Rightarrow> u8 list" where
  "password_hash password salt rounds = pbkdf2_hmac_sha256 password salt rounds"

definition constant_time_eq :: "u8 list \<Rightarrow> u8 list \<Rightarrow> bool" where
  "constant_time_eq left right \<longleftrightarrow>
     fold (\<lambda>index different. different OR unat (left ! index XOR right ! index))
       [0..<min (length left) (length right)] (length left XOR length right) = 0"

definition storage_nonce :: "u8 list \<Rightarrow> u8 list \<Rightarrow> u64 \<Rightarrow> u32 \<Rightarrow> u8 list" where
  "storage_nonce key cfc generation domain =
     take STORAGE_NONCE_LEN (hmac_sha256 key
       [map of_char ''ExpOS ExpFS nonce v1'', cfc, to_le_bytes 8 (unat generation), to_le_bytes 4 (unat domain)])"

text \<open>\<^verbatim>\<open>storage_kek_with_params_unchecked\<close> runs the Argon2 crate, here \<open>argon\<close>.\<close>

definition storage_kek_with_params ::
  "(u8 list \<Rightarrow> u8 list \<Rightarrow> u32 \<Rightarrow> u32 \<Rightarrow> u32 \<Rightarrow> (unit, u8 list) result) \<Rightarrow>
   u8 list \<Rightarrow> u8 list \<Rightarrow> u32 \<Rightarrow> u32 \<Rightarrow> u32 \<Rightarrow> (unit, u8 list) result" where
  "storage_kek_with_params argon password salt memory_kib passes lanes =
     (if memory_kib \<noteq> STORAGE_ARGON2_MEMORY_KIB
         \<or> \<not> (passes = STORAGE_ARGON2_PASSES \<or> passes = STORAGE_PARANOID_ARGON2_PASSES)
         \<or> lanes \<noteq> STORAGE_ARGON2_LANES
      then Err ()
      else argon password salt memory_kib passes lanes)"

datatype salt_entropy = Hardware | Degraded

text \<open>\<open>sequence\<close> is the value the atomic counter hands out, \<open>ticks\<close> the time stamp counter, \<open>hardware\<close> the result of \<^verbatim>\<open>rdrand\<close>.\<close>

definition entropy_block :: "u8 list \<Rightarrow> u8 list \<Rightarrow> u64 \<Rightarrow> u64 \<Rightarrow> u64 \<Rightarrow> u8 list" where
  "entropy_block label context sequence ticks random =
     sha_finalize (fold sha_update [label, context, to_le_bytes 8 (unat sequence), to_le_bytes 8 (unat ticks), to_le_bytes 8 (unat random)] sha_new)"

definition password_salt :: "u64 \<Rightarrow> u64 \<Rightarrow> u64 option \<Rightarrow> u8 list \<Rightarrow> u8 list \<times> salt_entropy" where
  "password_salt sequence ticks hardware context =
     (let random = (case hardware of None \<Rightarrow> 0 | Some r \<Rightarrow> r)
      in (take PASSWORD_SALT_LEN (entropy_block (map of_char ''ExpOS account salt v1'') context sequence ticks random),
          if hardware \<noteq> None then Hardware else Degraded))"

text \<open>
  \<^verbatim>\<open>random_material\<close>: \<open>env k\<close> is what the time stamp counter and \<^verbatim>\<open>rdrand\<close> return in pass \<open>k\<close>; the counter is returned with the
  bytes.
\<close>

function random_loop :: "(nat \<Rightarrow> u64 \<times> u64 option) \<Rightarrow> u8 list \<Rightarrow> nat \<Rightarrow> nat \<Rightarrow> nat \<Rightarrow> u64 \<Rightarrow> u8 list \<Rightarrow> u8 list \<times> u64" where
  "random_loop env context n pass offset sequence out =
     (if offset < n then
        let (ticks, hardware) = env pass;
            random = (case hardware of None \<Rightarrow> 0 | Some r \<Rightarrow> r);
            block = entropy_block (map of_char ''ExpOS CFC storage entropy v1'') context sequence ticks random;
            k = min (n - offset) 32
        in random_loop env context n (pass + 1) (offset + k) (sequence + 1) (overwrite out offset (take k block))
      else (out, sequence))"
  by pat_completeness auto
termination
  by (relation "measure (\<lambda>(_, _, n, _, offset, _, _). n - offset)") auto

declare random_loop.simps [simp del]

definition random_material :: "(nat \<Rightarrow> u64 \<times> u64 option) \<Rightarrow> nat \<Rightarrow> u8 list \<Rightarrow> u64 \<Rightarrow> u8 list \<times> u64" where
  "random_material env n context sequence = random_loop env context n 0 0 sequence (replicate n 0)"

section \<open>Absorbing blocks\<close>

lemma absorb_short: "length xs < 64 \<Longrightarrow> absorb state xs = (state, xs)"
  by (simp add: absorb.simps)

lemma absorb_block: "length b = 64 \<Longrightarrow> absorb state (b @ xs) = absorb (sha_compress b state) xs"
  by (subst absorb.simps) simp

lemma absorb_append:
  assumes "absorb state xs = (state', rest)"
  shows "absorb state (xs @ ys) = absorb state' (rest @ ys)"
  using assms
proof (induction state xs rule: absorb.induct)
  case (1 state xs)
  show ?case
  proof (cases "64 \<le> length xs")
    case True
    then have "absorb (sha_compress (take 64 xs) state) (drop 64 xs) = (state', rest)" using "1.prems" absorb.simps [of state xs] by simp
    then have "absorb (sha_compress (take 64 xs) state) (drop 64 xs @ ys) = absorb state' (rest @ ys)" using "1.IH" [OF True] by simp
    moreover have "absorb state (xs @ ys) = absorb (sha_compress (take 64 xs) state) (drop 64 xs @ ys)"
      using True absorb.simps [of state "xs @ ys"] by simp
    ultimately show ?thesis by simp
  next
    case False
    then show ?thesis using "1.prems" absorb.simps [of state xs] by simp
  qed
qed

lemma absorb_rest: "absorb state xs = (state', rest) \<Longrightarrow> length rest = length xs mod 64"
proof (induction state xs rule: absorb.induct)
  case (1 state xs)
  show ?case
  proof (cases "64 \<le> length xs")
    case True
    then have "length rest = (length xs - 64) mod 64" using 1 absorb.simps [of state xs] by simp
    then show ?thesis using True le_mod_geq [of 64 "length xs"] by simp
  next
    case False
    then show ?thesis using "1.prems" absorb.simps [of state xs] by auto
  qed
qed

section \<open>The incremental state\<close>

text \<open>A digest state stands for the bytes it has been given.\<close>

definition sha_rep :: "sha256_state \<Rightarrow> u8 list \<Rightarrow> bool" where
  "sha_rep d m \<longleftrightarrow> length (sh_buffer d) = 64 \<and> sh_buffered d < 64 \<and>
     absorb SHA256_INITIAL m = (sh_state d, take (sh_buffered d) (sh_buffer d)) \<and> sh_total_len d = of_nat (length m)"

lemma sha_rep_new: "sha_rep sha_new []"
  by (simp add: sha_rep_def sha_new_def absorb_short)

lemma take_overwrite_end:
  "at + length ys \<le> length xs \<Longrightarrow> take (at + length ys) (overwrite xs at ys) = take at xs @ ys"
  by (simp add: overwrite_def)

lemma overwrite_0: "overwrite xs 0 ys = ys @ drop (length ys) xs"
  by (simp add: overwrite_def)

lemma sha_rep_update:
  assumes rep: "sha_rep d m"
  shows "sha_rep (sha_update x d) (m @ x)"
proof -
  have buffer: "length (sh_buffer d) = 64" "sh_buffered d < 64" and total: "sh_total_len d = of_nat (length m)"
    and absorbed: "absorb SHA256_INITIAL m = (sh_state d, take (sh_buffered d) (sh_buffer d))"
    using rep by (simp_all add: sha_rep_def)
  define k where "k = sh_buffered d"
  have full: "absorb SHA256_INITIAL (m @ x) = absorb (sh_state d) (take k (sh_buffer d) @ x)"
    unfolding k_def by (rule absorb_append [OF absorbed])
  show ?thesis
  proof (cases "k = 0")
    case True
    obtain state rest where a: "absorb (sh_state d) x = (state, rest)" by fastforce
    have "length rest < 64" using absorb_rest [OF a] by simp
    then show ?thesis using True a full buffer total
      by (auto simp: sha_rep_def sha_update_def Let_def k_def overwrite_0)
  next
    case False
    show ?thesis
    proof (cases "length x < 64 - k")
      case True
      then show ?thesis using False full buffer total
        by (auto simp: sha_rep_def sha_update_def Let_def k_def min_def absorb_short take_overwrite_end)
    next
      case long: False
      define n where "n = 64 - k"
      define block where "block = overwrite (sh_buffer d) k (take n x)"
      have n: "min (64 - k) (length x) = n" "k + n = 64" "length (take n x) = n" using long buffer(2) by (simp_all add: n_def k_def)
      have block: "block = take k (sh_buffer d) @ take n x" "length block = 64"
        using n buffer by (simp_all add: block_def overwrite_def k_def)
      obtain state rest where a: "absorb (sha_compress block (sh_state d)) (drop n x) = (state, rest)" by fastforce
      have short: "length rest < 64" using absorb_rest [OF a] by simp
      have "take k (sh_buffer d) @ x = block @ drop n x" unfolding block(1) by simp
      then have "absorb SHA256_INITIAL (m @ x) = (state, rest)" using full absorb_block [OF block(2)] a by simp
      moreover have "sha_update x d = (let e = d\<lparr>sh_total_len := sh_total_len d + of_nat (length x), sh_buffer := block,
          sh_state := state, sh_buffered := 0\<rparr> in if rest \<noteq> [] then e\<lparr>sh_buffer := overwrite block 0 rest, sh_buffered := length rest\<rparr> else e)"
        using False n a by (simp add: sha_update_def Let_def k_def [symmetric] block_def)
      ultimately show ?thesis using total block short by (auto simp: sha_rep_def Let_def overwrite_0)
    qed
  qed
qed

lemma sha_rep_updates: "sha_rep d m \<Longrightarrow> sha_rep (fold sha_update parts d) (m @ concat parts)"
proof (induction parts arbitrary: d m)
  case (Cons x parts)
  then show ?case using sha_rep_update [OF Cons.prems, of x] Cons.IH by fastforce
qed simp

text \<open>The padded message and the hash as the standard defines them: no buffering, one pass over the blocks.\<close>

definition sha_pad :: "u8 list \<Rightarrow> u8 list" where
  "sha_pad m = m @ [0x80] @ replicate ((119 - length m mod 64) mod 64) 0 @ be_bytes 8 (of_nat (length m) * 8 :: u64)"

definition sha256_spec :: "u8 list \<Rightarrow> u8 list" where
  "sha256_spec m = sha_output (fst (absorb SHA256_INITIAL (sha_pad m)))"

lemma length_be_bytes [simp]: "length (be_bytes n w) = n"
  by (simp add: be_bytes_def)

lemma sha_finalize_spec:
  assumes rep: "sha_rep d m"
  shows "sha_finalize d = sha256_spec m"
proof -
  define k where "k = sh_buffered d"
  define t where "t = take k (sh_buffer d)"
  define bits where "bits = be_bytes 8 (of_nat (length m) * 8 :: u64)"
  have buffer: "length (sh_buffer d) = 64" "k < 64" and total: "sh_total_len d = of_nat (length m)"
    and absorbed: "absorb SHA256_INITIAL m = (sh_state d, t)"
    using rep by (simp_all add: sha_rep_def k_def t_def)
  have t: "length t = k" using buffer by (simp add: t_def)
  then have len: "length m mod 64 = k" using absorb_rest [OF absorbed] by simp
  have pad: "absorb SHA256_INITIAL (sha_pad m) = absorb (sh_state d) (t @ [0x80] @ replicate ((119 - k) mod 64) 0 @ bits)"
    unfolding sha_pad_def len bits_def by (rule absorb_append [OF absorbed])
  have mark: "(sh_buffer d)[k := 0x80] = t @ [0x80] @ drop (k + 1) (sh_buffer d)"
    using buffer by (simp add: t_def upd_conv_take_nth_drop)
  have bits: "length bits = 8" by (simp add: bits_def)
  show ?thesis
  proof (cases "k + 1 > 56")
    case True
    define z where "z = replicate (64 - (k + 1)) (0 :: u8)"
    have split: "replicate ((119 - k) mod 64) (0 :: u8) = z @ replicate 56 0"
      using True buffer(2) unfolding z_def replicate_add [symmetric] by simp
    have first: "overwrite ((sh_buffer d)[k := 0x80]) (k + 1) z = t @ [0x80] @ z" "length (t @ [0x80] @ z) = 64"
      unfolding mark using True buffer t by (simp_all add: overwrite_def z_def)
    have second: "overwrite (overwrite (replicate 64 0) 0 (replicate 56 0)) 56 bits = replicate 56 0 @ bits"
      using bits by (simp add: overwrite_def)
    have "absorb SHA256_INITIAL (sha_pad m) = absorb (sha_compress (t @ [0x80] @ z) (sh_state d)) (replicate 56 0 @ bits)"
      unfolding pad split using absorb_block [OF first(2), of "sh_state d" "replicate 56 0 @ bits"] by simp
    also have "\<dots> = (sha_compress (replicate 56 0 @ bits) (sha_compress (t @ [0x80] @ z) (sh_state d)), [])"
      using absorb_block [of "replicate 56 0 @ bits" _ "[]"] bits by (simp add: absorb_short)
    finally show ?thesis using True first(1) second
      by (simp add: sha256_spec_def sha_finalize_def Let_def k_def [symmetric] total bits_def [symmetric] z_def)
  next
    case False
    have zeros: "(119 - k) mod 64 = 56 - (k + 1)" using False le_mod_geq [of 64 "119 - k"] by simp
    define z where "z = replicate (56 - (k + 1)) (0 :: u8)"
    have block: "overwrite (overwrite ((sh_buffer d)[k := 0x80]) (k + 1) z) 56 bits = t @ [0x80] @ z @ bits"
      "length (t @ [0x80] @ z @ bits) = 64"
      unfolding mark using False buffer t bits Suc_diff_le [of k 55] by (simp_all add: overwrite_def z_def)
    have "absorb SHA256_INITIAL (sha_pad m) = (sha_compress (t @ [0x80] @ z @ bits) (sh_state d), [])"
      unfolding pad zeros z_def [symmetric] using absorb_block [OF block(2), of "sh_state d" "[]"] by (simp add: absorb_short)
    then show ?thesis using False block(1)
      by (simp add: sha256_spec_def sha_finalize_def Let_def k_def [symmetric] total bits_def [symmetric] z_def)
  qed
qed

lemma sha256_eq_spec: "sha256 m = sha256_spec m"
  using sha_finalize_spec [OF sha_rep_update [OF sha_rep_new, of m]] by (simp add: sha256_def)

section \<open>Lengths\<close>

lemma length_sha_compress [simp]: "length state = 8 \<Longrightarrow> length (sha_compress block state) = 8"
  by (simp add: sha_compress_def Let_def split: prod.split)

lemma length_absorb: "length state = 8 \<Longrightarrow> length (fst (absorb state m)) = 8"
proof (induction state m rule: absorb.induct)
  case (1 state m)
  then show ?case by (subst absorb.simps) simp
qed

lemma length_sha256_spec [simp]: "length (sha256_spec m) = 32"
proof -
  have "length (fst (absorb SHA256_INITIAL (sha_pad m))) = 8" by (rule length_absorb) (simp add: SHA256_INITIAL_def)
  then show ?thesis by (simp add: sha256_spec_def sha_output_def length_concat o_def sum_list_triv)
qed

section \<open>Comparing secrets\<close>

lemma xor_nat_0: "a XOR b = 0 \<longleftrightarrow> a = (b :: nat)"
  by (auto simp: bit_eq_iff bit_xor_iff)

lemma xor_word_0: "a XOR b = 0 \<longleftrightarrow> a = (b :: 'a::len word)"
  by (metis xor_self_eq xor.left_neutral xor.assoc)

lemma or_nat_0: "a OR b = 0 \<longleftrightarrow> a = 0 \<and> b = (0 :: nat)"
  by (auto simp: bit_eq_iff bit_or_iff)

lemma fold_or_0: "fold (\<lambda>i d. d OR f i) is d = (0 :: nat) \<longleftrightarrow> d = 0 \<and> (\<forall>i\<in>set is. f i = 0)"
  by (induction "is" arbitrary: d) (auto simp: or_nat_0)

section \<open>Properties\<close>

text \<open>
  C32: incremental hashing computes the hash of the padded message. However the input is cut into pieces, feeding them to
  \<^verbatim>\<open>update\<close> in turn and calling \<^verbatim>\<open>finalize\<close> gives the hash of their concatenation, and so does the one-shot \<^verbatim>\<open>sha256\<close>.
\<close>

theorem sha256_incremental:
  "sha_finalize (fold sha_update parts sha_new) = sha256_spec (concat parts) \<and>
   sha256 (concat parts) = sha256_spec (concat parts)"
  using sha_finalize_spec [OF sha_rep_updates [OF sha_rep_new, of parts]] sha_finalize_spec [OF sha_rep_update [OF sha_rep_new, of "concat parts"]]
  by (simp add: sha256_def)

text \<open>
  HMAC as RFC 2104 defines it. For every key and every cut of the message into parts, the result is the hash of the
  outer-padded key followed by the hash of the inner-padded key and the message, with a key longer than a block replaced by its hash.
\<close>

theorem hmac_spec:
  "hmac_sha256 key parts =
     (let k = resize 64 0 (if 64 < length key then sha256_spec key else key)
      in sha256_spec (map (\<lambda>b. 0x5c XOR b) k @ sha256_spec (map (\<lambda>b. 0x36 XOR b) k @ concat parts)))"
proof -
  define k where "k = (if 64 < length key then sha256_spec key else key)"
  have k: "length k \<le> 64" by (simp add: k_def)
  have block: "overwrite (replicate 64 0) 0 k = resize 64 0 k" using k by (simp add: overwrite_0 resize_def)
  have pad: "map2 (XOR) (replicate 64 c) (resize 64 0 k) = map (\<lambda>b. c XOR b) (resize 64 0 k)" for c
    by (rule nth_equalityI) simp_all
  have key: "(if length key > 64 then sha_finalize (sha_update key sha_new) else key) = k"
    using sha256_eq_spec [of key] by (simp add: k_def sha256_def)
  have hash: "sha_finalize (fold sha_update parts (sha_update x sha_new)) = sha256_spec (x @ concat parts)" for x parts
    using sha_finalize_spec [OF sha_rep_updates [OF sha_rep_new, of "x # parts"]] by simp
  have "sha_finalize (sha_update y (sha_update x sha_new)) = sha256_spec (x @ y)" for x y using hash [of "[y]" x] by simp
  then show ?thesis unfolding hmac_sha256_def Let_def key k_def [symmetric] block pad hash by simp
qed

text \<open>
  secrets compare equal exactly when they are equal; bytes past the shorter one count through the difference of the lengths.
\<close>

theorem constant_time_eq_exact: "constant_time_eq left right \<longleftrightarrow> left = right"
proof -
  have "constant_time_eq left right \<longleftrightarrow> length left = length right \<and> (\<forall>i<min (length left) (length right). left ! i = right ! i)"
    by (auto simp: constant_time_eq_def fold_or_0 xor_nat_0 unat_eq_0 xor_word_0)
  also have "\<dots> \<longleftrightarrow> left = right" by (auto simp: list_eq_iff_nth_eq)
  finally show ?thesis .
qed

end
