(* ===== verification/Known_Answers.thy ===== *)
theory Known_Answers
  imports Crypto
begin

text \<open>
  A known answer for SHA-256, evaluated in the logic: evidence that the tables and rotations of the model are those of the standard.
\<close>

section \<open>A known answer\<close>

text \<open>
  The test vector of the source, \<^verbatim>\<open>SHA-256("abc")\<close>: the one block of the padded message, its schedule, the state after the 64 rounds.
\<close>

definition abc_schedule :: "u32 list" where
  "abc_schedule = [0x61626380, 0x00000000, 0x00000000, 0x00000000, 0x00000000, 0x00000000, 0x00000000, 0x00000000, 0x00000000, 0x00000000,
    0x00000000, 0x00000000, 0x00000000, 0x00000000, 0x00000000, 0x00000018, 0x61626380, 0x000f0000, 0x7da86405, 0x600003c6,
    0x3e9d7b78, 0x0183fc00, 0x12dcbfdb, 0xe2e2c38e, 0xc8215c1a, 0xb73679a2, 0xe5bc3909, 0x32663c5b, 0x9d209d67, 0xec8726cb,
    0x702138a4, 0xd3b7973b, 0x93f5997f, 0x3b68ba73, 0xaff4ffc1, 0xf10a5c62, 0x0a8b3996, 0x72af830a, 0x9409e33e, 0x24641522,
    0x9f47bf94, 0xf0a64f5a, 0x3e246a79, 0x27333ba3, 0x0c4763f2, 0x840abf27, 0x7a290d5d, 0x065c43da, 0xfb3e89cb, 0xcc7617db,
    0xb9e66c34, 0xa9993667, 0x84badedd, 0xc21462bc, 0x1487472c, 0xb20f7a99, 0xef57b9cd, 0xebe6b238, 0x9fe3095e, 0x78bc8d4b,
    0xa43fcf15, 0x668b2ff8, 0xeeaba2cc, 0x12b1edeb]"

lemma abc_pad: "sha_pad [0x61, 0x62, 0x63] = [0x61, 0x62, 0x63, 0x80] @ replicate 59 0 @ [0x18]"
  by code_simp

lemma abc_block_schedule: "sha_schedule ([0x61, 0x62, 0x63, 0x80] @ replicate 59 0 @ [0x18]) = abc_schedule"
  by code_simp

lemma abc_rounds:
  "fold (sha_round abc_schedule) [0..<64] (SHA256_INITIAL ! 0, SHA256_INITIAL ! 1, SHA256_INITIAL ! 2, SHA256_INITIAL ! 3,
     SHA256_INITIAL ! 4, SHA256_INITIAL ! 5, SHA256_INITIAL ! 6, SHA256_INITIAL ! 7) =
   (0x506e3058, 0xd39a2165, 0x04d24d6c, 0xb85e2ce9, 0x5ef50f24, 0xfb121210, 0x948d25b6, 0x961f4894)"
  by code_simp

lemma sha256_abc:
  "sha256 [0x61, 0x62, 0x63] =
   [0xba, 0x78, 0x16, 0xbf, 0x8f, 0x01, 0xcf, 0xea, 0x41, 0x41, 0x40, 0xde, 0x5d, 0xae, 0x22, 0x23,
    0xb0, 0x03, 0x61, 0xa3, 0x96, 0x17, 0x7a, 0x9c, 0xb4, 0x10, 0xff, 0x61, 0xf2, 0x00, 0x15, 0xad]"
proof -
  let ?block = "[0x61, 0x62, 0x63, 0x80] @ replicate 59 0 @ [0x18 :: u8]"
  have "absorb SHA256_INITIAL (sha_pad [0x61, 0x62, 0x63]) = (sha_compress ?block SHA256_INITIAL, [])"
    unfolding abc_pad using absorb_block [of ?block SHA256_INITIAL "[]"] by (simp add: absorb_short)
  moreover have "sha_compress ?block SHA256_INITIAL =
      [0xba7816bf, 0x8f01cfea, 0x414140de, 0x5dae2223, 0xb00361a3, 0x96177a9c, 0xb410ff61, 0xf20015ad]"
    unfolding sha_compress_def Let_def abc_block_schedule abc_rounds by code_simp
  moreover have "sha_output [0xba7816bf, 0x8f01cfea, 0x414140de, 0x5dae2223, 0xb00361a3, 0x96177a9c, 0xb410ff61, 0xf20015ad] =
   [0xba, 0x78, 0x16, 0xbf, 0x8f, 0x01, 0xcf, 0xea, 0x41, 0x41, 0x40, 0xde, 0x5d, 0xae, 0x22, 0x23,
    0xb0, 0x03, 0x61, 0xa3, 0x96, 0x17, 0x7a, 0x9c, 0xb4, 0x10, 0xff, 0x61, 0xf2, 0x00, 0x15, 0xad]"
    by code_simp
  ultimately show ?thesis by (simp only: sha256_eq_spec sha256_spec_def fst_conv)
qed

end
