(* ===== verification/Store_Codec.thy ===== *)
theory Store_Codec
  imports Exp_Fs Capability Policy Form_Registry Relationships Crypto
begin

text \<open>
  The disk format of the ExpFS system database (\<^verbatim>\<open>kernel/src/expfs_store.rs\<close>): the snapshot of a CFC, its
  validation, the encoder with the checksums and the optional encryption, and the decoder that boot runs on whatever the disk holds.
  The output buffer of the encoder is the list of the bytes written so far, the rest of the buffer being zero; a read that leaves the
  input rejects the slot, and the assertions of \<^verbatim>\<open>Form::new\<close> and \<^verbatim>\<open>Dimension::new\<close> and the slice of a legacy record are panics. The
  AEAD (the crate \<^verbatim>\<open>chacha20poly1305\<close> behind \<^verbatim>\<open>crypto::seal_storage\<close> and \<^verbatim>\<open>open_storage\<close>) is an argument.
\<close>

unbundle bit_operations_syntax

section \<open>Model: snapshots\<close>

definition MAX_STORED_FORMS :: nat where "MAX_STORED_FORMS = 12"

definition MAX_STORED_DIMENSIONS :: nat where "MAX_STORED_DIMENSIONS = 6"

definition MAX_STORED_RELATIONSHIPS :: nat where "MAX_STORED_RELATIONSHIPS = 48"

definition MAX_STORED_HANDLES :: nat where "MAX_STORED_HANDLES = 16"

definition SETTINGS_RECORD_CAPACITY :: nat where "SETTINGS_RECORD_CAPACITY = 32"

definition ACCOUNTS_RECORD_CAPACITY :: nat where "ACCOUNTS_RECORD_CAPACITY = 12 * 80"

definition SECTOR_SIZE :: nat where "SECTOR_SIZE = 512"

definition MAGIC :: "u8 list" where "MAGIC = [0x45, 0x58, 0x50, 0x46, 0x53, 0x44, 0x42, 0x31]"

definition FORMAT_VERSION :: nat where "FORMAT_VERSION = 3"

definition HEADER_LEN :: nat where "HEADER_LEN = 64"

definition LEGACY_FORM_CONTENT_CAPACITY :: nat where "LEGACY_FORM_CONTENT_CAPACITY = 512"

definition SLOT_SECTORS :: nat where "SLOT_SECTORS = 128"

definition SLOT_LEN :: nat where "SLOT_LEN = SLOT_SECTORS * SECTOR_SIZE"

record stored_form =
  sf_form :: form
  sf_content :: chunked_blob

definition sf_content_len :: "stored_form \<Rightarrow> nat" where
  "sf_content_len f = bl_len (sf_content f)"

definition sf_bytes :: "stored_form \<Rightarrow> u8 list option" where
  "sf_bytes f = to_vec (sf_content f)"

record snapshot =
  sn_cfc :: cfc_fin
  sn_cfc_name :: text_t
  sn_primary_dimension :: fin
  sn_forms :: "stored_form slots"
  sn_dimensions :: "dimension slots"
  sn_relationships :: "relationship slots"
  sn_handles :: "form_handle slots"
  sn_next_fin :: u32
  sn_next_dimension_fin :: u32
  sn_journal_sequence :: u32
  sn_network_policy :: network_policy
  sn_form_graph_present :: bool
  sn_settings :: "u8 list option"
  sn_accounts :: "u8 list option"

definition snapshot_empty :: "cfc_fin \<Rightarrow> text_t \<Rightarrow> fin \<Rightarrow> snapshot" where
  "snapshot_empty cfc cfc_name primary_dimension =
     \<lparr>sn_cfc = cfc, sn_cfc_name = cfc_name, sn_primary_dimension = primary_dimension,
      sn_forms = empty_slots MAX_STORED_FORMS, sn_dimensions = empty_slots MAX_STORED_DIMENSIONS,
      sn_relationships = empty_slots MAX_STORED_RELATIONSHIPS, sn_handles = empty_slots MAX_STORED_HANDLES,
      sn_next_fin = 2, sn_next_dimension_fin = 2, sn_journal_sequence = 1, sn_network_policy = Restricted,
      sn_form_graph_present = False, sn_settings = None, sn_accounts = None\<rparr>"

datatype storage_device_error =
    NoDevice
  | UnsupportedDevice
  | OutOfRange
  | Timeout
  | DeviceFault u8
  | ControllerFault u32

datatype store_error =
    Unavailable
  | Full
  | WrongCfc
  | InvalidSnapshot
  | Disk storage_device_error
  | VerificationFailed
  | NoCurrentState
  | CheckpointNotFound
  | BaselineNotFound
  | BaselineDamaged
  | StreamNotFound
  | StreamMode
  | StaleStream

text \<open>\<^verbatim>\<open>validate_snapshot\<close>; the loop over the Handles looks for a later Handle with the same identifier.\<close>

fun handles_valid :: "cfc_fin \<Rightarrow> form_handle list \<Rightarrow> bool" where
  "handles_valid cfc [] = True"
| "handles_valid cfc (h # hs) =
     (\<not> (h_id h = 0 \<or> h_cfc h \<noteq> cfc \<or> is_zero (h_requester h) \<or> is_zero (h_target h) \<or> is_zero (h_dimension h)
         \<or> h_operations h = NONE \<or> list_ex (\<lambda>candidate. h_id candidate = h_id h) hs)
      \<and> handles_valid cfc hs)"

definition validate_snapshot :: "snapshot \<Rightarrow> (store_error, unit) result" where
  "validate_snapshot s =
     (if cfc_is_zero (sn_cfc s) \<or> as_str (sn_cfc_name s) = [] \<or> is_zero (sn_primary_dimension s)
         \<or> sn_journal_sequence s = 0 \<or> sn_next_fin s = 0 \<or> sn_next_dimension_fin s = 0
      then Err InvalidSnapshot
      else if list_ex (\<lambda>stored. is_zero (f_fin (sf_form stored)) \<or> as_str (f_name (sf_form stored)) = []
          \<or> f_revision (sf_form stored) = 0 \<or> sf_content_len stored > FORM_CONTENT_CAPACITY) (flatten (sn_forms s))
      then Err InvalidSnapshot
      else if sum_list (map sf_content_len (flatten (sn_forms s))) > CFC_CONTENT_CAPACITY then Err Full
      else if list_ex (\<lambda>d. is_zero (d_fin d) \<or> as_str (d_name d) = []) (flatten (sn_dimensions s)) then Err InvalidSnapshot
      else if \<not> handles_valid (sn_cfc s) (flatten (sn_handles s)) then Err InvalidSnapshot
      else Ok ())"

section \<open>Model: codes and checksums\<close>

fun encode_kind :: "form_kind \<Rightarrow> u8" where
  "encode_kind Root = 0"
| "encode_kind Service = 1"
| "encode_kind Interface = 2"
| "encode_kind Package = 3"
| "encode_kind Driver = 4"
| "encode_kind Data = 5"
| "encode_kind Policy = 6"
| "encode_kind Executable = 7"

definition decode_kind :: "u8 \<Rightarrow> form_kind option" where
  "decode_kind v = (if v = 0 then Some Root else if v = 1 then Some Service else if v = 2 then Some Interface
     else if v = 3 then Some Package else if v = 4 then Some Driver else if v = 5 then Some Data
     else if v = 6 then Some Policy else if v = 7 then Some Executable else None)"

fun encode_lifecycle :: "lifecycle \<Rightarrow> u8" where
  "encode_lifecycle Active = 0"
| "encode_lifecycle Retired = 1"
| "encode_lifecycle Recoverable = 2"
| "encode_lifecycle Removed = 3"

definition decode_lifecycle :: "u8 \<Rightarrow> lifecycle option" where
  "decode_lifecycle v = (if v = 0 then Some Active else if v = 1 then Some Retired else if v = 2 then Some Recoverable
     else if v = 3 then Some Removed else None)"

fun encode_relationship :: "relationship_kind \<Rightarrow> u8" where
  "encode_relationship DependsOn = 0"
| "encode_relationship Provides = 1"
| "encode_relationship Contains = 2"
| "encode_relationship ConfiguredBy = 3"
| "encode_relationship Revises = 4"

definition decode_relationship :: "u8 \<Rightarrow> relationship_kind option" where
  "decode_relationship v = (if v = 0 then Some DependsOn else if v = 1 then Some Provides else if v = 2 then Some Contains
     else if v = 3 then Some ConfiguredBy else if v = 4 then Some Revises else None)"

fun encode_network :: "network_policy \<Rightarrow> u8" where
  "encode_network Open = 0"
| "encode_network Restricted = 1"
| "encode_network Disabled = 2"

definition decode_network :: "u8 \<Rightarrow> network_policy option" where
  "decode_network v = (if v = 0 then Some Open else if v = 1 then Some Restricted else if v = 2 then Some Disabled else None)"

definition crc32_bit :: "u32 \<Rightarrow> u32" where
  "crc32_bit crc = drop_bit 1 crc XOR (0xEDB88320 AND (0 - (crc AND 1)))"

definition crc32 :: "u8 list \<Rightarrow> u32" where
  "crc32 bytes = NOT (fold (\<lambda>byte crc. (crc32_bit ^^ 8) (crc XOR ucast byte)) bytes 0xFFFFFFFF)"

definition get_le :: "nat \<Rightarrow> u8 list \<Rightarrow> nat \<Rightarrow> nat" where
  "get_le n input offset = from_le_bytes (slice offset n input)"

section \<open>Model: encoder\<close>

text \<open>The AEAD: sealing gives the ciphertext and the tag, opening the plaintext; both may fail.\<close>

record storage_aead =
  ae_seal :: "u8 list \<Rightarrow> u8 list \<Rightarrow> u8 list \<Rightarrow> u8 list \<Rightarrow> (unit, u8 list \<times> u8 list) result"
  ae_open :: "u8 list \<Rightarrow> u8 list \<Rightarrow> u8 list \<Rightarrow> u8 list \<Rightarrow> u8 list \<Rightarrow> (unit, u8 list) result"

definition put :: "u8 list \<Rightarrow> u8 list \<Rightarrow> (store_error, u8 list) result" where
  "put bytes out = (if length out + length bytes \<le> SLOT_LEN then Ok (out @ bytes) else Err InvalidSnapshot)"

text \<open>A sequence of \<^verbatim>\<open>put\<close> calls with early return; \<open>None\<close> among the arguments is a panic while the bytes are produced.\<close>

fun put_all :: "u8 list option list \<Rightarrow> u8 list \<Rightarrow> (store_error, u8 list) result option" where
  "put_all [] out = Some (Ok out)"
| "put_all (None # rest) out = None"
| "put_all (Some bytes # rest) out = (case put bytes out of Err e \<Rightarrow> Some (Err e) | Ok out \<Rightarrow> put_all rest out)"

definition bool_byte :: "bool \<Rightarrow> u8" where
  "bool_byte b = (if b then 1 else 0)"

definition put_text :: "text_t \<Rightarrow> u8 list list" where
  "put_text value = (let s = as_str value in [[of_nat (length s)], map of_nat s @ replicate (32 - length s) 0])"

definition encode_dimension :: "dimension option \<Rightarrow> u8 list list" where
  "encode_dimension slot = [bool_byte (slot \<noteq> None)] #
     (case slot of None \<Rightarrow> []
      | Some d \<Rightarrow> [fin_bytes (d_fin d)] @ put_text (d_name d) @ [[bool_byte (d_security_boundary d)]])"

definition encode_form :: "stored_form option \<Rightarrow> u8 list option list" where
  "encode_form slot = Some [bool_byte (slot \<noteq> None)] #
     (case slot of None \<Rightarrow> []
      | Some stored \<Rightarrow>
          map Some ([fin_bytes (f_fin (sf_form stored))] @ put_text (f_name (sf_form stored)) @
            [[encode_kind (f_kind (sf_form stored))], to_le_bytes 4 (unat (f_revision (sf_form stored))),
             [encode_lifecycle (f_lifecycle (sf_form stored))]]) @
          (case sf_bytes stored of None \<Rightarrow> [None]
           | Some content \<Rightarrow> [Some (to_le_bytes 2 (length content mod 65536)), Some content]))"

definition encode_relation :: "relationship option \<Rightarrow> u8 list list" where
  "encode_relation slot = [bool_byte (slot \<noteq> None)] #
     (case slot of None \<Rightarrow> []
      | Some r \<Rightarrow> [fin_bytes (rel_source r), fin_bytes (rel_target r), [encode_relationship (rel_kind r)],
          [bool_byte (rel_dimension r \<noteq> None)],
          fin_bytes (case rel_dimension r of None \<Rightarrow> fin_ZERO | Some d \<Rightarrow> d)])"

definition encode_handle :: "form_handle option \<Rightarrow> u8 list list" where
  "encode_handle slot = [bool_byte (slot \<noteq> None)] #
     (case slot of None \<Rightarrow> []
      | Some h \<Rightarrow> [to_le_bytes 4 (unat (h_id h)), to_le_bytes 4 (unat (h_parent_id h)), fin_bytes (h_requester h),
          fin_bytes (h_target h), fin_bytes (h_dimension h), to_le_bytes 2 (unat (h_operations h)),
          to_le_bytes 8 (unat (h_valid_until_tick h)), [bool_byte (h_revoked h)]])"

definition encode_payload :: "snapshot \<Rightarrow> u8 list option list" where
  "encode_payload s =
     map Some ([fin_bytes (sn_primary_dimension s)] @ put_text (sn_cfc_name s) @
       [to_le_bytes 4 (unat (sn_next_fin s)), to_le_bytes 4 (unat (sn_next_dimension_fin s)),
        to_le_bytes 4 (unat (sn_journal_sequence s)), [encode_network (sn_network_policy s)],
        [bool_byte (sn_form_graph_present s)], [bool_byte (sn_settings s \<noteq> None)],
        (case sn_settings s of None \<Rightarrow> replicate SETTINGS_RECORD_CAPACITY 0 | Some r \<Rightarrow> r),
        [bool_byte (sn_accounts s \<noteq> None)],
        (case sn_accounts s of None \<Rightarrow> replicate ACCOUNTS_RECORD_CAPACITY 0 | Some r \<Rightarrow> r)] @
       concat (map encode_dimension (sn_dimensions s))) @
     concat (map encode_form (sn_forms s)) @
     map Some (concat (map encode_relation (sn_relationships s)) @ concat (map encode_handle (sn_handles s)))"

definition encode_header :: "snapshot \<Rightarrow> u64 \<Rightarrow> u8 list \<Rightarrow> u8 list" where
  "encode_header s generation out =
     (let payload_len = length out - HEADER_LEN;
          out = overwrite out 0 MAGIC;
          out = overwrite out 8 (to_le_bytes 2 FORMAT_VERSION);
          out = overwrite out 10 (to_le_bytes 2 HEADER_LEN);
          out = overwrite out 12 (to_le_bytes 4 payload_len);
          out = overwrite out 16 (to_le_bytes 8 (unat generation));
          out = overwrite out 24 (cfc_fin_bytes (sn_cfc s))
      in overwrite out 40 (to_le_bytes 4 (unat (sn_journal_sequence s))))"

definition encode_slot ::
  "storage_aead \<Rightarrow> snapshot \<Rightarrow> u64 \<Rightarrow> u8 list option \<Rightarrow> u32 \<Rightarrow> (store_error, u8 list) result option" where
  "encode_slot aead s generation storage_key nonce_domain =
     (case put_all (encode_payload s) (replicate HEADER_LEN 0) of
       None \<Rightarrow> None
     | Some (Err e) \<Rightarrow> Some (Err e)
     | Some (Ok out) \<Rightarrow>
        if length out > SLOT_LEN then Some (Err InvalidSnapshot)
        else
          let out = encode_header s generation out in
          (case storage_key of
            Some key \<Rightarrow>
              let out = out[44 := 1, 45 := 1];
                  nonce = storage_nonce key (cfc_fin_bytes (sn_cfc s)) generation nonce_domain;
                  header = take HEADER_LEN out; payload = drop HEADER_LEN out
              in (case ae_seal aead key nonce (take 48 header) payload of
                   Err _ \<Rightarrow> Some (Err VerificationFailed)
                 | Ok (payload, tag) \<Rightarrow> Some (Ok (overwrite header 48 tag @ payload)))
          | None \<Rightarrow>
              let out = overwrite out 48 (to_le_bytes 4 (unat (crc32 (drop HEADER_LEN out))));
                  out = overwrite out 52 (to_le_bytes 4 (unat (crc32 (take 52 out))))
              in Some (Ok out)))"

section \<open>Model: decoder\<close>

datatype decode_stop = Reject | Panic

definition and_then :: "('e, 'a) result \<Rightarrow> ('a \<Rightarrow> ('e, 'b) result) \<Rightarrow> ('e, 'b) result" where
  "and_then r f = (case r of Err e \<Rightarrow> Err e | Ok x \<Rightarrow> f x)"

definition accept :: "'a option \<Rightarrow> decode_stop \<Rightarrow> (decode_stop, 'a) result" where
  "accept r stop = (case r of None \<Rightarrow> Err stop | Some x \<Rightarrow> Ok x)"

definition read_bytes :: "u8 list \<Rightarrow> nat \<Rightarrow> nat \<Rightarrow> (decode_stop, u8 list \<times> nat) result" where
  "read_bytes input len offset =
     (case usize_add offset len of
       None \<Rightarrow> Err Reject
     | Some stop \<Rightarrow> if stop \<le> length input then Ok (slice offset len input, stop) else Err Reject)"

definition read_byte :: "u8 list \<Rightarrow> nat \<Rightarrow> (decode_stop, u8 \<times> nat) result" where
  "read_byte input offset = and_then (read_bytes input 1 offset) (\<lambda>(bs, offset). Ok (bs ! 0, offset))"

definition read_le :: "u8 list \<Rightarrow> nat \<Rightarrow> nat \<Rightarrow> (decode_stop, 'a::len word \<times> nat) result" where
  "read_le input w offset = and_then (read_bytes input w offset) (\<lambda>(bs, offset). Ok (of_nat (from_le_bytes bs), offset))"

definition read_fin :: "u8 list \<Rightarrow> nat \<Rightarrow> (decode_stop, fin \<times> nat) result" where
  "read_fin input offset = and_then (read_bytes input 16 offset) (\<lambda>(bs, offset). Ok (Fin bs, offset))"

definition read_text :: "u8 list \<Rightarrow> nat \<Rightarrow> (decode_stop, text_t \<times> nat) result" where
  "read_text input offset =
     and_then (read_byte input offset) (\<lambda>(len, offset).
     and_then (read_bytes input 32 offset) (\<lambda>(bytes, offset).
       if len = 0 \<or> len > 32 \<or> \<not> is_ascii (map unat (take (unat len) bytes)) then Err Reject
       else (case text_new (map unat (take (unat len) bytes)) of Err _ \<Rightarrow> Err Reject | Ok t \<Rightarrow> Ok (t, offset))))"

definition read_flag :: "u8 list \<Rightarrow> nat \<Rightarrow> (decode_stop, bool \<times> nat) result" where
  "read_flag input offset =
     and_then (read_byte input offset) (\<lambda>(b, offset). if b = 0 then Ok (False, offset) else if b = 1 then Ok (True, offset) else Err Reject)"

text \<open>
  One slot: an absent record is followed by \<open>skipped\<close> bytes in the fixed-size formats 1 and 2, a present one is read by \<open>record\<close>.
\<close>

definition read_slot_with ::
  "bool \<Rightarrow> nat \<Rightarrow> (u8 list \<Rightarrow> nat \<Rightarrow> (decode_stop, 'a \<times> nat) result) \<Rightarrow> u8 list \<Rightarrow> nat \<Rightarrow> (decode_stop, 'a option \<times> nat) result" where
  "read_slot_with fixed_records skipped rd input offset =
     and_then (read_byte input offset) (\<lambda>(present, offset).
       if present = 0 then Ok (None, if fixed_records then offset + skipped else offset)
       else if present \<noteq> 1 then Err Reject
       else and_then (rd input offset) (\<lambda>(x, offset). Ok (Some x, offset)))"

fun read_slots ::
  "(u8 list \<Rightarrow> nat \<Rightarrow> (decode_stop, 'a option \<times> nat) result) \<Rightarrow> nat \<Rightarrow> u8 list \<Rightarrow> nat \<Rightarrow> (decode_stop, 'a slots \<times> nat) result" where
  "read_slots rd 0 input offset = Ok ([], offset)"
| "read_slots rd (Suc n) input offset =
     and_then (rd input offset) (\<lambda>(x, offset).
     and_then (read_slots rd n input offset) (\<lambda>(xs, offset). Ok (x # xs, offset)))"

definition read_dimension :: "u8 list \<Rightarrow> nat \<Rightarrow> (decode_stop, dimension \<times> nat) result" where
  "read_dimension input offset =
     and_then (read_fin input offset) (\<lambda>(fin, offset).
     and_then (read_text input offset) (\<lambda>(name, offset).
     and_then (read_flag input offset) (\<lambda>(security_boundary, offset).
     and_then (accept (dimension_new fin (as_str name) security_boundary) Panic) (\<lambda>d. Ok (d, offset)))))"

definition read_form :: "bool \<Rightarrow> u8 list \<Rightarrow> nat \<Rightarrow> (decode_stop, stored_form \<times> nat) result" where
  "read_form fixed_records input offset =
     and_then (read_fin input offset) (\<lambda>(fin, offset).
     and_then (read_text input offset) (\<lambda>(name, offset).
     and_then (read_byte input offset) (\<lambda>(k, offset).
     and_then (accept (decode_kind k) Reject) (\<lambda>kind.
     and_then (read_le input 4 offset) (\<lambda>(revision, offset).
     and_then (read_byte input offset) (\<lambda>(l, offset).
     and_then (accept (decode_lifecycle l) Reject) (\<lambda>lifecycle.
     and_then (read_le input 2 offset) (\<lambda>(content_len :: u16, offset).
       if unat content_len > FORM_CONTENT_CAPACITY then Err Reject
       else
     and_then (read_bytes input (if fixed_records then LEGACY_FORM_CONTENT_CAPACITY else unat content_len) offset) (\<lambda>(stored, offset).
     and_then (accept (form_new fin (as_str name) kind) Panic) (\<lambda>form.
       if unat content_len > length stored then Err Panic
       else Ok (\<lparr>sf_form = form\<lparr>f_revision := revision, f_lifecycle := lifecycle\<rparr>,
                 sf_content = from_bytes (take (unat content_len) stored)\<rparr>, offset)))))))))))"

definition read_relation :: "u8 list \<Rightarrow> nat \<Rightarrow> (decode_stop, relationship \<times> nat) result" where
  "read_relation input offset =
     and_then (read_fin input offset) (\<lambda>(source, offset).
     and_then (read_fin input offset) (\<lambda>(destination, offset).
     and_then (read_byte input offset) (\<lambda>(k, offset).
     and_then (accept (decode_relationship k) Reject) (\<lambda>kind.
     and_then (read_byte input offset) (\<lambda>(dimension_present, offset).
     and_then (read_fin input offset) (\<lambda>(dimension, offset).
     and_then (if dimension_present = 0 \<and> is_zero dimension then Ok None
               else if dimension_present = 1 \<and> \<not> is_zero dimension then Ok (Some dimension)
               else Err Reject) (\<lambda>dimension.
       Ok (\<lparr>rel_source = source, rel_target = destination, rel_kind = kind, rel_dimension = dimension\<rparr>, offset))))))))"

definition read_handle :: "cfc_fin \<Rightarrow> u8 list \<Rightarrow> nat \<Rightarrow> (decode_stop, form_handle \<times> nat) result" where
  "read_handle cfc input offset =
     and_then (read_le input 4 offset) (\<lambda>(hid, offset).
     and_then (read_le input 4 offset) (\<lambda>(parent_id, offset).
     and_then (read_fin input offset) (\<lambda>(requester, offset).
     and_then (read_fin input offset) (\<lambda>(target_fin, offset).
     and_then (read_fin input offset) (\<lambda>(dimension, offset).
     and_then (read_le input 2 offset) (\<lambda>(bits, offset).
     and_then (accept (ops_from_bits bits) Reject) (\<lambda>operations.
     and_then (read_le input 8 offset) (\<lambda>(valid_until_tick, offset).
     and_then (read_flag input offset) (\<lambda>(revoked, offset).
       Ok (\<lparr>h_id = hid, h_parent_id = parent_id, h_cfc = cfc, h_requester = requester, h_target = target_fin,
            h_dimension = dimension, h_operations = operations, h_valid_until_tick = valid_until_tick, h_revoked = revoked\<rparr>,
           offset))))))))))"

record decoded_slot =
  dc_snapshot :: snapshot
  dc_generation :: u64
  dc_slot :: u8

text \<open>The body of a slot after the header and the checksums or the AEAD have been accepted.\<close>

text \<open>The body of \<^verbatim>\<open>decode_slot\<close> behind the authenticated header, in two parts: the fields, and where they start.\<close>

definition decode_fields :: "bool \<Rightarrow> cfc_fin \<Rightarrow> u8 list \<Rightarrow> nat \<Rightarrow> (decode_stop, snapshot) result" where
  "decode_fields fixed_records cfc input offset =
     and_then (read_fin input offset) (\<lambda>(primary_dimension, offset).
     and_then (read_text input offset) (\<lambda>(cfc_name, offset).
     and_then (read_le input 4 offset) (\<lambda>(next_fin, offset).
     and_then (read_le input 4 offset) (\<lambda>(next_dimension_fin, offset).
     and_then (read_le input 4 offset) (\<lambda>(journal_sequence :: u32, offset).
       if unat journal_sequence \<noteq> get_le 4 input 40 then Err Reject
       else
     and_then (read_byte input offset) (\<lambda>(n, offset).
     and_then (accept (decode_network n) Reject) (\<lambda>network_policy.
     and_then (read_flag input offset) (\<lambda>(form_graph_present, offset).
     and_then (read_byte input offset) (\<lambda>(settings_present, offset).
     and_then (read_bytes input SETTINGS_RECORD_CAPACITY offset) (\<lambda>(settings, offset).
     and_then (read_byte input offset) (\<lambda>(accounts_present, offset).
     and_then (read_bytes input ACCOUNTS_RECORD_CAPACITY offset) (\<lambda>(accounts, offset).
       if settings_present > 1 \<or> accounts_present > 1 then Err Reject
       else
     and_then (read_slots (read_slot_with fixed_records (16 + 1 + 32 + 1) read_dimension) MAX_STORED_DIMENSIONS input offset) (\<lambda>(dimensions, offset).
     and_then (read_slots (read_slot_with fixed_records (16 + 1 + 32 + 1 + 4 + 1 + 2 + LEGACY_FORM_CONTENT_CAPACITY) (read_form fixed_records))
         MAX_STORED_FORMS input offset) (\<lambda>(forms, offset).
     and_then (read_slots (read_slot_with fixed_records (16 + 16 + 1 + 1 + 16) read_relation) MAX_STORED_RELATIONSHIPS input offset) (\<lambda>(relationships, offset).
     and_then (read_slots (read_slot_with fixed_records (4 + 4 + 16 + 16 + 16 + 2 + 8 + 1) (read_handle cfc)) MAX_STORED_HANDLES input offset) (\<lambda>(handles, offset).
       let s = \<lparr>sn_cfc = cfc, sn_cfc_name = cfc_name, sn_primary_dimension = primary_dimension, sn_forms = forms,
             sn_dimensions = dimensions, sn_relationships = relationships, sn_handles = handles, sn_next_fin = next_fin,
             sn_next_dimension_fin = next_dimension_fin, sn_journal_sequence = journal_sequence,
             sn_network_policy = network_policy, sn_form_graph_present = form_graph_present,
             sn_settings = (if settings_present = 1 then Some settings else None),
             sn_accounts = (if accounts_present = 1 then Some accounts else None)\<rparr>
       in case validate_snapshot s of Err _ \<Rightarrow> Err Reject | Ok _ \<Rightarrow> Ok s))))))))))))))))"

definition decode_payload :: "bool \<Rightarrow> u8 list \<Rightarrow> (decode_stop, snapshot) result" where
  "decode_payload fixed_records input = decode_fields fixed_records (CfcFin (slice 24 16 input)) input HEADER_LEN"

definition decode_slot ::
  "storage_aead \<Rightarrow> u8 list \<Rightarrow> u8 \<Rightarrow> u8 list option \<Rightarrow> u32 \<Rightarrow> (decode_stop, decoded_slot) result" where
  "decode_slot aead encoded slot storage_key nonce_domain =
     (if length encoded < 10 then Err Panic
      else
        let version = get_le 2 encoded 8; fixed_records = version \<le> 2 in
        if length encoded < HEADER_LEN \<or> take 8 encoded \<noteq> MAGIC \<or> \<not> (1 \<le> version \<and> version \<le> FORMAT_VERSION)
           \<or> get_le 2 encoded 10 \<noteq> HEADER_LEN \<or> get_le 4 encoded 12 \<noteq> length encoded - HEADER_LEN
        then Err Reject
        else
          let encrypted = version \<ge> 2 \<and> encoded ! 44 = 1; generation = of_nat (get_le 8 encoded 16) in
          and_then
            (if encrypted then
               if encoded ! 45 \<noteq> 1 then Err Reject
               else (case storage_key of
                 None \<Rightarrow> Err Reject
               | Some key \<Rightarrow>
                   (case ae_open aead key (storage_nonce key (slice 24 16 encoded) generation nonce_domain)
                      (take 48 encoded) (drop HEADER_LEN encoded) (slice 48 16 encoded) of
                     Err _ \<Rightarrow> Err Reject
                   | Ok payload \<Rightarrow> Ok (take HEADER_LEN encoded @ payload)))
             else if unat (crc32 (take 52 encoded)) \<noteq> get_le 4 encoded 52
                  \<or> unat (crc32 (drop HEADER_LEN encoded)) \<noteq> get_le 4 encoded 48 then Err Reject
             else Ok encoded)
            (\<lambda>input. if generation = 0 then Err Reject
              else and_then (decode_payload fixed_records input) (\<lambda>s.
                Ok \<lparr>dc_snapshot = s, dc_generation = generation, dc_slot = slot\<rparr>)))"

section \<open>Reading back what was written\<close>

text \<open>A reader undoes an encoding when it finds it anywhere in the input and stops right behind it.\<close>

definition reads :: "(u8 list \<Rightarrow> nat \<Rightarrow> (decode_stop, 'a \<times> nat) result) \<Rightarrow> u8 list \<Rightarrow> 'a \<Rightarrow> bool" where
  "reads rd enc x \<longleftrightarrow> (\<forall>pre suf. length (pre @ enc @ suf) < usize_limit \<longrightarrow>
     rd (pre @ enc @ suf) (length pre) = Ok (x, length pre + length enc))"

lemma and_then_Ok [simp]: "and_then (Ok x) f = f x" "and_then (Err e) f = Err e"
  by (simp_all add: and_then_def)

lemma accept_simps [simp]: "accept (Some x) stop = Ok x" "accept None stop = Err stop"
  by (simp_all add: accept_def)

lemma readsI:
  "(\<And>pre suf. length pre + (length enc + length suf) < usize_limit \<Longrightarrow> rd (pre @ enc @ suf) (length pre) = Ok (x, length pre + length enc)) \<Longrightarrow> reads rd enc x"
  by (simp add: reads_def)

lemma readsD:
  "reads rd enc x \<Longrightarrow> length pre + (length enc + length suf) < usize_limit \<Longrightarrow>
     rd (pre @ enc @ suf) (length pre) = Ok (x, length pre + length enc)"
  by (simp add: reads_def)

text \<open>Sequencing: a reader that continues with what another one returned.\<close>

lemma reads_seq:
  assumes first: "reads rd enc1 x" and second: "reads (\<lambda>input offset. f input (x, offset)) enc2 y"
  shows "reads (\<lambda>input offset. and_then (rd input offset) (f input)) (enc1 @ enc2) y"
proof (rule readsI)
  fix pre suf :: "u8 list"
  assume len: "length pre + (length (enc1 @ enc2) + length suf) < usize_limit"
  have "rd (pre @ enc1 @ (enc2 @ suf)) (length pre) = Ok (x, length pre + length enc1)"
    using len by (intro readsD [OF first]) simp
  moreover have "f ((pre @ enc1) @ enc2 @ suf) (x, length (pre @ enc1)) = Ok (y, length (pre @ enc1) + length enc2)"
    using len by (intro readsD [OF second]) simp
  ultimately show "and_then (rd (pre @ (enc1 @ enc2) @ suf) (length pre)) (f (pre @ (enc1 @ enc2) @ suf)) =
      Ok (y, length pre + length (enc1 @ enc2))" by (simp add: add.assoc)
qed

lemma reads_return: "reads (\<lambda>input offset. Ok (x, offset)) [] x"
  by (rule readsI) simp

lemma reads_bytes: "length bs = n \<Longrightarrow> reads (\<lambda>input. read_bytes input n) bs bs"
  by (rule readsI) (simp add: read_bytes_def usize_add_def slice_def)

lemma reads_byte: "reads read_byte [b] b"
  by (rule readsI) (simp add: read_byte_def read_bytes_def usize_add_def slice_def)

lemma reads_fin: "length (fin_bytes f) = 16 \<Longrightarrow> reads read_fin (fin_bytes f) f"
  by (rule readsI) (simp add: read_fin_def read_bytes_def usize_add_def slice_def)

lemma reads_flag: "reads read_flag [bool_byte b] b"
  by (rule readsI) (simp add: read_flag_def read_byte_def read_bytes_def usize_add_def slice_def bool_byte_def)

lemma to_le_bytes_Suc: "to_le_bytes (Suc n) v = of_nat v # to_le_bytes n (v div 256)"
  by (rule nth_equalityI) (auto simp: to_le_bytes_def nth_Cons' nth_append div_mult2_eq [symmetric] power_Suc [symmetric]
      simp del: upt_Suc power_Suc dest!: Suc_pred simp flip: power_Suc)

lemma from_le_to_le: "from_le_bytes (to_le_bytes n v) = v mod 256 ^ n"
proof (induction n arbitrary: v)
  case (Suc n)
  have "from_le_bytes (to_le_bytes (Suc n) v) = v mod 256 + 256 * (v div 256 mod 256 ^ n)"
    using Suc.IH [of "v div 256"] by (simp add: to_le_bytes_Suc from_le_bytes_def unat_of_nat)
  then show ?case by (simp add: mod_mult2_eq)
qed (simp add: to_le_bytes_def from_le_bytes_def)

lemma reads_le:
  assumes "2 ^ LENGTH('a) \<le> (256 :: nat) ^ n"
  shows "reads (\<lambda>input. read_le input n) (to_le_bytes n (unat w)) (w :: 'a::len word)"
proof (rule readsI)
  fix pre suf :: "u8 list"
  assume len: "length pre + (length (to_le_bytes n (unat w)) + length suf) < usize_limit"
  have "unat w < 256 ^ n" using unat_bound [of w] assms by linarith
  then show "read_le (pre @ to_le_bytes n (unat w) @ suf) n (length pre) = Ok (w, length pre + length (to_le_bytes n (unat w)))"
    using readsD [OF reads_bytes [of "to_le_bytes n (unat w)" n] len] by (simp add: read_le_def from_le_to_le)
qed

definition text_ok :: "text_t \<Rightarrow> bool" where
  "text_ok t \<longleftrightarrow> (\<exists>v. text_new v = Ok t)"

lemma text_okD:
  assumes "text_ok t"
  shows "text_new (as_str t) = Ok t" "as_str t \<noteq> []" "length (as_str t) \<le> 32" "\<forall>c\<in>set (as_str t). c < 128"
proof -
  obtain v where v: "text_new v = Ok t" using assms by (auto simp: text_ok_def)
  show new: "text_new (as_str t) = Ok t" using v as_str_text_new [OF v] by simp
  then show "as_str t \<noteq> []" "length (as_str t) \<le> 32" "\<forall>c\<in>set (as_str t). c < 128"
    using text_new_Ok [of "as_str t" t] by (simp_all add: TEXT_CAPACITY_def is_ascii_def list_all_iff)
qed

lemma reads_text:
  assumes ok: "text_ok t"
  shows "reads read_text (concat (put_text t)) t"
proof (rule readsI)
  fix pre suf :: "u8 list"
  let ?s = "as_str t"
  let ?bs = "map of_nat ?s @ replicate (32 - length ?s) (0 :: u8)"
  assume len: "length pre + (length (concat (put_text t)) + length suf) < usize_limit"
  have put: "concat (put_text t) = [of_nat (length ?s)] @ ?bs" by (simp add: put_text_def Let_def)
  have small: "length ?s \<le> 32" "?s \<noteq> []" using text_okD [OF ok] by simp_all
  then have bs: "length ?bs = 32" by simp
  have count: "unat (of_nat (length ?s) :: u8) = length ?s" using small by (simp add: unat_of_nat)
  have "c mod 256 = c" if "c \<in> set ?s" for c using text_okD(4) [OF ok] that by (intro mod_less) force
  then have restored: "map unat (take (length ?s) ?bs) = ?s" by (simp add: unat_of_nat o_def map_idI)
  have 1: "read_byte (pre @ concat (put_text t) @ suf) (length pre) = Ok (of_nat (length ?s), length pre + 1)"
    using readsD [OF reads_byte, where pre = pre and suf = "?bs @ suf"] len bs unfolding put by simp
  have 2: "read_bytes (pre @ concat (put_text t) @ suf) 32 (length pre + 1) = Ok (?bs, length pre + 33)"
    using readsD [OF reads_bytes [OF bs], where pre = "pre @ [of_nat (length ?s)]" and suf = suf] len bs unfolding put by simp
  have "(of_nat (length ?s) :: u8) \<noteq> 0" using count small by (metis length_0_conv unat_0)
  moreover have "\<not> (of_nat (length ?s) :: u8) > 32" using count small by (simp add: word_less_nat_alt)
  moreover have "is_ascii ?s" using text_okD(4) [OF ok] by (simp add: is_ascii_def list_all_iff)
  ultimately show "read_text (pre @ concat (put_text t) @ suf) (length pre) = Ok (t, length pre + length (concat (put_text t)))"
    using 1 2 restored count bs text_okD(1) [OF ok] by (simp add: read_text_def put)
qed

text \<open>The codes of the enumerations.\<close>

lemma code_round_trips [simp]:
  "decode_kind (encode_kind k) = Some k" "decode_lifecycle (encode_lifecycle l) = Some l"
  "decode_relationship (encode_relationship r) = Some r" "decode_network (encode_network n) = Some n"
  by (cases k, simp_all add: decode_kind_def) (cases l, simp_all add: decode_lifecycle_def, cases r, simp_all add: decode_relationship_def,
      cases n, simp_all add: decode_network_def)

lemma reads_then:
  assumes "reads rd enc1 x" and "reads (\<lambda>input offset. g input x offset) enc2 y"
  shows "reads (\<lambda>input offset. and_then (rd input offset) (\<lambda>(v, offset). g input v offset)) (enc1 @ enc2) y"
  using reads_seq [of rd enc1 x "\<lambda>input (v, offset). g input v offset" enc2 y] assms by simp

lemma reads_last:
  assumes "reads rd enc x" and "\<And>input offset. g input x offset = Ok (y, offset)"
  shows "reads (\<lambda>input offset. and_then (rd input offset) (\<lambda>(v, offset). g input v offset)) enc y"
proof -
  have "reads (\<lambda>input offset. g input x offset) [] y" unfolding assms(2) by (rule reads_return)
  then show ?thesis using reads_then [OF assms(1), of g "[]" y] by simp
qed

definition dimension_ok :: "dimension \<Rightarrow> bool" where
  "dimension_ok d \<longleftrightarrow> length (fin_bytes (d_fin d)) = 16 \<and> text_ok (d_name d)"

lemma reads_dimension:
  assumes "dimension_ok d" and "\<not> is_zero (d_fin d)"
  shows "reads read_dimension (fin_bytes (d_fin d) @ concat (put_text (d_name d)) @ [bool_byte (d_security_boundary d)]) d"
proof -
  have ok: "length (fin_bytes (d_fin d)) = 16" "text_ok (d_name d)" using assms(1) by (simp_all add: dimension_ok_def)
  have new: "dimension_new (d_fin d) (as_str (d_name d)) (d_security_boundary d) = Some d"
    using assms(2) text_okD(1) [OF ok(2)] by (simp add: dimension_new_def)
  show ?thesis unfolding read_dimension_def
    by (rule reads_then [OF reads_fin [OF ok(1)]], rule reads_then [OF reads_text [OF ok(2)]], rule reads_last [OF reads_flag])
      (simp add: new)
qed

lemma reads_accept:
  "c = Some z \<Longrightarrow> reads (\<lambda>input offset. h input z offset) enc y \<Longrightarrow>
     reads (\<lambda>input offset. and_then (accept c stop) (\<lambda>v. h input v offset)) enc y"
  by simp

lemma reads_guard: "\<not> P \<Longrightarrow> reads h enc y \<Longrightarrow> reads (\<lambda>input offset. if P then Err e else h input offset) enc y"
  by simp

text \<open>What the types of a stored Form guarantee, and the Forms whose content can be read to its length.\<close>

definition form_typed :: "stored_form \<Rightarrow> bool" where
  "form_typed f \<longleftrightarrow> length (fin_bytes (f_fin (sf_form f))) = 16 \<and> text_ok (f_name (sf_form f)) \<and>
     uniform_pieces BLOB_CHUNK_BYTES (bl_chunks (sf_content f))"

definition form_ok :: "stored_form \<Rightarrow> bool" where
  "form_ok f \<longleftrightarrow> length (fin_bytes (f_fin (sf_form f))) = 16 \<and> text_ok (f_name (sf_form f)) \<and> blob_whole (sf_content f)"

text \<open>A stored Form as it comes back: the content is the same bytes in freshly cut chunks.\<close>

definition form_reloaded :: "stored_form \<Rightarrow> stored_form" where
  "form_reloaded f = f\<lparr>sf_content := from_bytes (blob_bytes (sf_content f))\<rparr>"

definition form_wire :: "stored_form \<Rightarrow> u8 list" where
  "form_wire f = fin_bytes (f_fin (sf_form f)) @ concat (put_text (f_name (sf_form f))) @ [encode_kind (f_kind (sf_form f))] @
     to_le_bytes 4 (unat (f_revision (sf_form f))) @ [encode_lifecycle (f_lifecycle (sf_form f))] @
     to_le_bytes 2 (unat (of_nat (sf_content_len f) :: u16)) @ blob_bytes (sf_content f)"

lemma le_capacities: "2 ^ LENGTH(16) \<le> (256 :: nat) ^ 2" "2 ^ LENGTH(32) \<le> (256 :: nat) ^ 4" "2 ^ LENGTH(64) \<le> (256 :: nat) ^ 8"
  by simp_all

lemma form_capacity: "n \<le> FORM_CONTENT_CAPACITY \<Longrightarrow> unat (of_nat n :: u16) = n"
  by (simp add: FORM_CONTENT_CAPACITY_def DEFAULT_FORM_BLOB_QUOTA_def unat_of_nat)

lemma reads_form:
  assumes "form_ok f" and "\<not> is_zero (f_fin (sf_form f))" and cap: "sf_content_len f \<le> FORM_CONTENT_CAPACITY"
  shows "reads (read_form False) (form_wire f) (form_reloaded f)"
proof -
  have ok: "length (fin_bytes (f_fin (sf_form f))) = 16" "text_ok (f_name (sf_form f))" "blob_whole (sf_content f)"
    using assms(1) by (simp_all add: form_ok_def)
  have new: "form_new (f_fin (sf_form f)) (as_str (f_name (sf_form f))) (f_kind (sf_form f)) =
      Some \<lparr>f_fin = f_fin (sf_form f), f_name = f_name (sf_form f), f_kind = f_kind (sf_form f), f_revision = 1, f_lifecycle = Active\<rparr>"
    using assms(2) text_okD(1) [OF ok(2)] by (simp add: form_new_def)
  let ?n = "of_nat (sf_content_len f) :: u16"
  have n: "unat ?n = sf_content_len f" by (rule form_capacity [OF cap])
  have len: "length (blob_bytes (sf_content f)) = unat ?n" using blob_wholeD(2) [OF ok(3)] n by (simp add: sf_content_len_def blob_bytes_def)
  show ?thesis unfolding read_form_def form_wire_def if_False
    by (rule reads_then [OF reads_fin [OF ok(1)]], rule reads_then [OF reads_text [OF ok(2)]], rule reads_then [OF reads_byte],
        rule reads_accept [OF code_round_trips(1)], rule reads_then [OF reads_le [OF le_capacities(2)]], rule reads_then [OF reads_byte],
        rule reads_accept [OF code_round_trips(2)], rule reads_then [OF reads_le [OF le_capacities(1)]],
        rule reads_guard, simp add: n cap not_less, rule reads_last [OF reads_bytes [OF len]])
      (simp add: new len form_reloaded_def)
qed

definition relation_ok :: "relationship \<Rightarrow> bool" where
  "relation_ok r \<longleftrightarrow> length (fin_bytes (rel_source r)) = 16 \<and> length (fin_bytes (rel_target r)) = 16 \<and>
     (case rel_dimension r of None \<Rightarrow> True | Some d \<Rightarrow> length (fin_bytes d) = 16)"

lemma reads_relation:
  assumes "relation_ok r" and dim: "rel_dimension r \<noteq> Some fin_ZERO"
  shows "reads read_relation (fin_bytes (rel_source r) @ fin_bytes (rel_target r) @ [encode_relationship (rel_kind r)] @
     [bool_byte (rel_dimension r \<noteq> None)] @ fin_bytes (case rel_dimension r of None \<Rightarrow> fin_ZERO | Some d \<Rightarrow> d)) r"
proof -
  let ?d = "case rel_dimension r of None \<Rightarrow> fin_ZERO | Some d \<Rightarrow> d"
  have ok: "length (fin_bytes (rel_source r)) = 16" "length (fin_bytes (rel_target r)) = 16" "length (fin_bytes ?d) = 16"
    using assms(1) by (auto simp: relation_ok_def fin_ZERO_def split: option.splits)
  have "is_zero d \<longleftrightarrow> d = fin_ZERO" if "length (fin_bytes d) = 16" for d
    using that by (cases d) (simp add: is_zero_def bytes_zero_iff fin_ZERO_def)
  then have zero: "is_zero ?d \<longleftrightarrow> rel_dimension r = None" using ok(3) dim by (auto split: option.splits)
  show ?thesis unfolding read_relation_def
    by (rule reads_then [OF reads_fin [OF ok(1)]], rule reads_then [OF reads_fin [OF ok(2)]], rule reads_then [OF reads_byte],
        rule reads_accept [OF code_round_trips(3)], rule reads_then [OF reads_byte], rule reads_last [OF reads_fin [OF ok(3)]])
      (use zero in \<open>auto simp: bool_byte_def split: option.splits\<close>)
qed

definition handle_ok :: "form_handle \<Rightarrow> bool" where
  "handle_ok h \<longleftrightarrow> length (fin_bytes (h_requester h)) = 16 \<and> length (fin_bytes (h_target h)) = 16 \<and>
     length (fin_bytes (h_dimension h)) = 16 \<and> ops_from_bits (h_operations h) = Some (h_operations h)"

lemma reads_handle:
  assumes "handle_ok h" and cfc: "h_cfc h = cfc"
  shows "reads (read_handle cfc) (to_le_bytes 4 (unat (h_id h)) @ to_le_bytes 4 (unat (h_parent_id h)) @ fin_bytes (h_requester h) @
     fin_bytes (h_target h) @ fin_bytes (h_dimension h) @ to_le_bytes 2 (unat (h_operations h)) @
     to_le_bytes 8 (unat (h_valid_until_tick h)) @ [bool_byte (h_revoked h)]) h"
proof -
  have ok: "length (fin_bytes (h_requester h)) = 16" "length (fin_bytes (h_target h)) = 16" "length (fin_bytes (h_dimension h)) = 16"
      "ops_from_bits (h_operations h) = Some (h_operations h)"
    using assms(1) by (simp_all add: handle_ok_def)
  show ?thesis unfolding read_handle_def
    by (rule reads_then [OF reads_le [OF le_capacities(2)]], rule reads_then [OF reads_le [OF le_capacities(2)]],
        rule reads_then [OF reads_fin [OF ok(1)]], rule reads_then [OF reads_fin [OF ok(2)]], rule reads_then [OF reads_fin [OF ok(3)]],
        rule reads_then [OF reads_le [OF le_capacities(1)]], rule reads_accept [OF ok(4)],
        rule reads_then [OF reads_le [OF le_capacities(3)]], rule reads_last [OF reads_flag])
      (simp add: cfc [symmetric])
qed

section \<open>Slots and the whole payload\<close>

text \<open>A slot is a presence byte and, when it is occupied, the record.\<close>

definition slot_wire :: "('a \<Rightarrow> u8 list) \<Rightarrow> 'a option \<Rightarrow> u8 list" where
  "slot_wire wire slot = (case slot of None \<Rightarrow> [0] | Some x \<Rightarrow> 1 # wire x)"

lemma reads_slot:
  assumes "\<And>x. slot = Some x \<Longrightarrow> reads rd (wire x) (again x)"
  shows "reads (read_slot_with False skipped rd) (slot_wire wire slot) (map_option again slot)"
proof (cases slot)
  case None
  have "reads (read_slot_with False skipped rd) [0] None" unfolding read_slot_with_def by (rule reads_last [OF reads_byte]) simp
  then show ?thesis by (simp add: None slot_wire_def)
next
  case (Some x)
  have "reads (\<lambda>input offset. and_then (rd input offset) (\<lambda>(x, offset). Ok (Some x, offset))) (wire x) (Some (again x))"
    by (rule reads_last [OF assms [OF Some]]) simp
  then have "reads (read_slot_with False skipped rd) ([1] @ wire x) (Some (again x))"
    unfolding read_slot_with_def by (intro reads_then [OF reads_byte]) simp
  then show ?thesis by (simp add: Some slot_wire_def)
qed

lemma reads_slots:
  assumes "\<And>slot. slot \<in> set slots \<Longrightarrow> reads rd (wire slot) (again slot)"
  shows "reads (read_slots rd (length slots)) (concat (map wire slots)) (map again slots)"
  using assms
proof (induction slots)
  case Nil
  then show ?case using reads_return [of "[]"] by (simp add: reads_def)
next
  case (Cons slot slots)
  have "reads (\<lambda>input offset. and_then (read_slots rd (length slots) input offset) (\<lambda>(xs, offset). Ok (again slot # xs, offset)))
      (concat (map wire slots)) (again slot # map again slots)"
    by (rule reads_last [OF Cons.IH]) (simp_all add: Cons.prems)
  then have "reads (\<lambda>input offset. and_then (rd input offset) (\<lambda>(x, offset). and_then (read_slots rd (length slots) input offset)
      (\<lambda>(xs, offset). Ok (x # xs, offset)))) (wire slot @ concat (map wire slots)) (again slot # map again slots)"
    by (intro reads_then [OF Cons.prems [of slot]]) simp_all
  then show ?case by (simp add: reads_def)
qed

text \<open>What the types of the source and their constructors guarantee of a snapshot: the sizes of arrays and tables, and texts and
  operation sets that their constructors made.\<close>

definition snapshot_typed :: "snapshot \<Rightarrow> bool" where
  "snapshot_typed s \<longleftrightarrow> length (cfc_fin_bytes (sn_cfc s)) = 16 \<and> text_ok (sn_cfc_name s) \<and>
     length (fin_bytes (sn_primary_dimension s)) = 16 \<and>
     length (sn_forms s) = MAX_STORED_FORMS \<and> length (sn_dimensions s) = MAX_STORED_DIMENSIONS \<and>
     length (sn_relationships s) = MAX_STORED_RELATIONSHIPS \<and> length (sn_handles s) = MAX_STORED_HANDLES \<and>
     list_all form_typed (flatten (sn_forms s)) \<and> list_all dimension_ok (flatten (sn_dimensions s)) \<and>
     list_all relation_ok (flatten (sn_relationships s)) \<and> list_all handle_ok (flatten (sn_handles s)) \<and>
     list_all (\<lambda>r. length r = SETTINGS_RECORD_CAPACITY) (flatten [sn_settings s]) \<and>
     list_all (\<lambda>r. length r = ACCOUNTS_RECORD_CAPACITY) (flatten [sn_accounts s])"

text \<open>Two conditions that the validation of a snapshot does not check. The chunks of every content hold its length: a write into a blob can
  break this (\<^verbatim>\<open>ChunkedBlob::write\<close> drops the chunks after the written range and keeps the length), and the encoder panics on such a
  content. And no relationship names the zero Dimension: the encoder writes it, and the decoder refuses the slot.\<close>

definition contents_whole :: "snapshot \<Rightarrow> bool" where
  "contents_whole s \<longleftrightarrow> list_all (\<lambda>f. bl_len (sf_content f) \<le> allocated_bytes (sf_content f)) (flatten (sn_forms s))"

definition relations_storable :: "snapshot \<Rightarrow> bool" where
  "relations_storable s \<longleftrightarrow> list_all (\<lambda>r. rel_dimension r \<noteq> Some fin_ZERO) (flatten (sn_relationships s))"

definition snapshot_whole :: "snapshot \<Rightarrow> bool" where
  "snapshot_whole s \<longleftrightarrow> snapshot_typed s \<and> contents_whole s"

lemma form_ok_iff: "form_ok f \<longleftrightarrow> form_typed f \<and> bl_len (sf_content f) \<le> allocated_bytes (sf_content f)"
  by (auto simp: form_ok_def form_typed_def blob_whole_def)

lemma snapshot_whole_iff:
  "snapshot_whole s \<longleftrightarrow> length (cfc_fin_bytes (sn_cfc s)) = 16 \<and> text_ok (sn_cfc_name s) \<and>
     length (fin_bytes (sn_primary_dimension s)) = 16 \<and>
     length (sn_forms s) = MAX_STORED_FORMS \<and> length (sn_dimensions s) = MAX_STORED_DIMENSIONS \<and>
     length (sn_relationships s) = MAX_STORED_RELATIONSHIPS \<and> length (sn_handles s) = MAX_STORED_HANDLES \<and>
     list_all form_ok (flatten (sn_forms s)) \<and> list_all dimension_ok (flatten (sn_dimensions s)) \<and>
     list_all relation_ok (flatten (sn_relationships s)) \<and> list_all handle_ok (flatten (sn_handles s)) \<and>
     list_all (\<lambda>r. length r = SETTINGS_RECORD_CAPACITY) (flatten [sn_settings s]) \<and>
     list_all (\<lambda>r. length r = ACCOUNTS_RECORD_CAPACITY) (flatten [sn_accounts s])"
proof -
  have "list_all form_ok fs \<longleftrightarrow> list_all form_typed fs \<and> list_all (\<lambda>f. bl_len (sf_content f) \<le> allocated_bytes (sf_content f)) fs" for fs
    by (auto simp: list_all_iff form_ok_iff)
  then show ?thesis unfolding snapshot_whole_def snapshot_typed_def contents_whole_def by blast
qed

definition snapshot_reloaded :: "snapshot \<Rightarrow> snapshot" where
  "snapshot_reloaded s = s\<lparr>sn_forms := map (map_option form_reloaded) (sn_forms s)\<rparr>"

definition dimension_wire :: "dimension \<Rightarrow> u8 list" where
  "dimension_wire d = fin_bytes (d_fin d) @ concat (put_text (d_name d)) @ [bool_byte (d_security_boundary d)]"

definition relation_wire :: "relationship \<Rightarrow> u8 list" where
  "relation_wire r = fin_bytes (rel_source r) @ fin_bytes (rel_target r) @ [encode_relationship (rel_kind r)] @
     [bool_byte (rel_dimension r \<noteq> None)] @ fin_bytes (case rel_dimension r of None \<Rightarrow> fin_ZERO | Some d \<Rightarrow> d)"

definition handle_wire :: "form_handle \<Rightarrow> u8 list" where
  "handle_wire h = to_le_bytes 4 (unat (h_id h)) @ to_le_bytes 4 (unat (h_parent_id h)) @ fin_bytes (h_requester h) @
     fin_bytes (h_target h) @ fin_bytes (h_dimension h) @ to_le_bytes 2 (unat (h_operations h)) @
     to_le_bytes 8 (unat (h_valid_until_tick h)) @ [bool_byte (h_revoked h)]"

definition record_wire :: "nat \<Rightarrow> u8 list option \<Rightarrow> u8 list" where
  "record_wire n r = bool_byte (r \<noteq> None) # (case r of None \<Rightarrow> replicate n 0 | Some bytes \<Rightarrow> bytes)"

definition payload_wire :: "snapshot \<Rightarrow> u8 list" where
  "payload_wire s = fin_bytes (sn_primary_dimension s) @ concat (put_text (sn_cfc_name s)) @
     to_le_bytes 4 (unat (sn_next_fin s)) @ to_le_bytes 4 (unat (sn_next_dimension_fin s)) @ to_le_bytes 4 (unat (sn_journal_sequence s)) @
     [encode_network (sn_network_policy s)] @ [bool_byte (sn_form_graph_present s)] @
     record_wire SETTINGS_RECORD_CAPACITY (sn_settings s) @ record_wire ACCOUNTS_RECORD_CAPACITY (sn_accounts s) @
     concat (map (slot_wire dimension_wire) (sn_dimensions s)) @ concat (map (slot_wire form_wire) (sn_forms s)) @
     concat (map (slot_wire relation_wire) (sn_relationships s)) @ concat (map (slot_wire handle_wire) (sn_handles s))"

lemma validate_snapshot_Ok:
  "validate_snapshot s = Ok () \<longleftrightarrow>
     \<not> (cfc_is_zero (sn_cfc s) \<or> as_str (sn_cfc_name s) = [] \<or> is_zero (sn_primary_dimension s)
         \<or> sn_journal_sequence s = 0 \<or> sn_next_fin s = 0 \<or> sn_next_dimension_fin s = 0) \<and>
     list_all (\<lambda>f. \<not> is_zero (f_fin (sf_form f)) \<and> as_str (f_name (sf_form f)) \<noteq> [] \<and> f_revision (sf_form f) \<noteq> 0 \<and>
       sf_content_len f \<le> FORM_CONTENT_CAPACITY) (flatten (sn_forms s)) \<and>
     sum_list (map sf_content_len (flatten (sn_forms s))) \<le> CFC_CONTENT_CAPACITY \<and>
     list_all (\<lambda>d. \<not> is_zero (d_fin d) \<and> as_str (d_name d) \<noteq> []) (flatten (sn_dimensions s)) \<and>
     handles_valid (sn_cfc s) (flatten (sn_handles s))"
  by (auto simp: validate_snapshot_def list_ex_iff list_all_iff not_le not_less)

lemma handles_valid_cfc: "handles_valid cfc hs \<Longrightarrow> h \<in> set hs \<Longrightarrow> h_cfc h = cfc"
  by (induction hs) auto

lemma put_all_ok:
  "None \<notin> set ps \<Longrightarrow> length out + length (concat (map the ps)) \<le> SLOT_LEN \<Longrightarrow>
     put_all ps out = Some (Ok (out @ concat (map the ps)))"
  by (induction ps out rule: put_all.induct) (auto simp: put_def)

lemma set_flattenI: "Some x \<in> set slots \<Longrightarrow> x \<in> set (flatten slots)"
  by (simp add: set_flatten)

lemma encode_form_wire:
  assumes "\<And>f. slot = Some f \<Longrightarrow> form_ok f \<and> sf_content_len f \<le> FORM_CONTENT_CAPACITY"
  shows "None \<notin> set (encode_form slot)" "concat (map the (encode_form slot)) = slot_wire form_wire slot"
proof -
  have bytes: "sf_bytes f = Some (blob_bytes (sf_content f))" "length (blob_bytes (sf_content f)) = sf_content_len f"
    "unat (of_nat (sf_content_len f) :: u16) = sf_content_len f mod 65536" if "slot = Some f" for f
    using assms [OF that] blob_wholeD(2) [of "sf_content f"] by (auto simp: form_ok_def sf_bytes_def to_vec_bytes sf_content_len_def blob_bytes_def unat_of_nat)
  show "None \<notin> set (encode_form slot)" using bytes by (cases slot) (auto simp: encode_form_def)
  show "concat (map the (encode_form slot)) = slot_wire form_wire slot"
    using bytes by (cases slot) (simp_all add: encode_form_def slot_wire_def bool_byte_def form_wire_def o_def)
qed

lemma encode_slot_wires:
  "concat (encode_dimension d) = slot_wire dimension_wire d" "concat (encode_relation r) = slot_wire relation_wire r"
  "concat (encode_handle h) = slot_wire handle_wire h"
proof -
  show "concat (encode_dimension d) = slot_wire dimension_wire d"
    by (cases d) (simp_all add: encode_dimension_def slot_wire_def bool_byte_def dimension_wire_def)
  show "concat (encode_relation r) = slot_wire relation_wire r"
    by (cases r) (simp_all add: encode_relation_def slot_wire_def bool_byte_def relation_wire_def)
  show "concat (encode_handle h) = slot_wire handle_wire h"
    by (cases h) (simp_all add: encode_handle_def slot_wire_def bool_byte_def handle_wire_def)
qed

lemma concat_concat_map: "concat (concat (map f xs)) = concat (map (\<lambda>x. concat (f x)) xs)"
  by (induction xs) simp_all

lemma encode_payload_wire:
  assumes "snapshot_whole s" and "validate_snapshot s = Ok ()"
  shows "None \<notin> set (encode_payload s)" "concat (map the (encode_payload s)) = payload_wire s"
proof -
  have form: "form_ok f \<and> sf_content_len f \<le> FORM_CONTENT_CAPACITY" if "Some f \<in> set (sn_forms s)" for f
    using assms that by (auto simp: snapshot_whole_iff validate_snapshot_Ok list_all_iff set_flatten)
  have wire: "None \<notin> set (encode_form slot)" "concat (map the (encode_form slot)) = slot_wire form_wire slot"
    if "slot \<in> set (sn_forms s)" for slot
    using form that by (auto intro!: encode_form_wire)
  show "None \<notin> set (encode_payload s)" by (auto simp: encode_payload_def dest: wire(1))
  have "concat (map the (concat (map encode_form (sn_forms s)))) = concat (map (slot_wire form_wire) (sn_forms s))"
    using wire(2) by (simp add: map_concat concat_concat_map o_def cong: map_cong)
  then show "concat (map the (encode_payload s)) = payload_wire s"
    by (simp add: encode_payload_def payload_wire_def record_wire_def concat_concat_map encode_slot_wires o_def)
qed

text \<open>A valid snapshot fits its slot: the records are bounded by their number and the contents by the quota of the CFC.\<close>

lemma length_put_text: "text_ok t \<Longrightarrow> length (concat (put_text t)) = 33"
  using text_okD(3) [of t] by (simp add: put_text_def Let_def)

lemma length_slots_le:
  fixes sz :: "'a \<Rightarrow> nat"
  assumes "\<And>x. x \<in> set (flatten slots) \<Longrightarrow> length (wire x) \<le> c + sz x"
  shows "length (concat (map (slot_wire wire) slots)) \<le> (c + 1) * length slots + sum_list (map sz (flatten slots))"
  using assms
proof (induction slots rule: flatten.induct)
  case (3 x xs)
  have "length (wire x) \<le> c + sz x" using 3(2) [of x] by simp
  moreover have "length (concat (map (slot_wire wire) xs)) \<le> (c + 1) * length xs + sum_list (map sz (flatten xs))"
    using 3(2) by (intro 3(1)) simp
  moreover have "length (slot_wire wire (Some x)) = Suc (length (wire x))" by (simp add: slot_wire_def)
  ultimately show ?case by simp
qed (simp_all add: slot_wire_def [of _ None])

lemma sum_list_zero: "sum_list (map (\<lambda>_. 0) xs) = (0 :: nat)"
  by (induction xs) simp_all

lemma payload_fits:
  assumes typed: "snapshot_whole s" and valid: "validate_snapshot s = Ok ()"
  shows "HEADER_LEN + length (payload_wire s) \<le> SLOT_LEN"
proof -
  have lens: "length (sn_forms s) = 12" "length (sn_dimensions s) = 6" "length (sn_relationships s) = 48" "length (sn_handles s) = 16"
    "length (fin_bytes (sn_primary_dimension s)) = 16" "length (concat (put_text (sn_cfc_name s))) = 33"
    using typed length_put_text by (simp_all add: snapshot_whole_iff MAX_STORED_FORMS_def MAX_STORED_DIMENSIONS_def
      MAX_STORED_RELATIONSHIPS_def MAX_STORED_HANDLES_def)
  have records: "length (record_wire SETTINGS_RECORD_CAPACITY (sn_settings s)) = 33" "length (record_wire ACCOUNTS_RECORD_CAPACITY (sn_accounts s)) = 961"
    using typed by (auto simp: snapshot_whole_iff record_wire_def SETTINGS_RECORD_CAPACITY_def ACCOUNTS_RECORD_CAPACITY_def split: option.splits)
  have "length (dimension_wire d) \<le> 50 + 0" if "d \<in> set (flatten (sn_dimensions s))" for d
    using typed that length_put_text by (auto simp: snapshot_whole_iff list_all_iff dimension_ok_def dimension_wire_def)
  then have "length (concat (map (slot_wire dimension_wire) (sn_dimensions s))) \<le> (50 + 1) * length (sn_dimensions s) + sum_list (map (\<lambda>_. 0) (flatten (sn_dimensions s)))"
    by (rule length_slots_le)
  then have dims: "length (concat (map (slot_wire dimension_wire) (sn_dimensions s))) \<le> 306" by (simp add: lens sum_list_zero)
  have "length (form_wire f) \<le> 57 + sf_content_len f" if "f \<in> set (flatten (sn_forms s))" for f
  proof -
    have "form_ok f" using typed that by (simp add: snapshot_whole_iff list_all_iff)
    then show ?thesis using length_put_text [of "f_name (sf_form f)"]
      by (simp add: form_ok_def form_wire_def sf_content_len_def blob_bytes_def)
  qed
  then have "length (concat (map (slot_wire form_wire) (sn_forms s))) \<le> (57 + 1) * length (sn_forms s) + sum_list (map (sf_content_len) (flatten (sn_forms s)))"
    by (rule length_slots_le)
  then have forms: "length (concat (map (slot_wire form_wire) (sn_forms s))) \<le> 696 + 49152"
    using valid by (simp add: lens validate_snapshot_Ok CFC_CONTENT_CAPACITY_def DEFAULT_CFC_BLOB_QUOTA_def)
  have "length (relation_wire r) \<le> 50 + 0" if "r \<in> set (flatten (sn_relationships s))" for r
    using typed that by (auto simp: snapshot_whole_iff list_all_iff relation_ok_def relation_wire_def fin_ZERO_def split: option.splits)
  then have "length (concat (map (slot_wire relation_wire) (sn_relationships s))) \<le> (50 + 1) * length (sn_relationships s) + sum_list (map (\<lambda>_. 0) (flatten (sn_relationships s)))"
    by (rule length_slots_le)
  then have relations: "length (concat (map (slot_wire relation_wire) (sn_relationships s))) \<le> 2448" by (simp add: lens sum_list_zero)
  have "length (handle_wire h) \<le> 67 + 0" if "h \<in> set (flatten (sn_handles s))" for h
    using typed that by (auto simp: snapshot_whole_iff list_all_iff handle_ok_def handle_wire_def)
  then have "length (concat (map (slot_wire handle_wire) (sn_handles s))) \<le> (67 + 1) * length (sn_handles s) + sum_list (map (\<lambda>_. 0) (flatten (sn_handles s)))"
    by (rule length_slots_le)
  then have handles: "length (concat (map (slot_wire handle_wire) (sn_handles s))) \<le> 1088" by (simp add: lens sum_list_zero)
  show ?thesis using dims forms relations handles
    by (simp add: payload_wire_def lens records HEADER_LEN_def SLOT_LEN_def SLOT_SECTORS_def SECTOR_SIZE_def)
qed

text \<open>The whole payload behind its header: each reader consumes its part, and the checks look at the header in front.\<close>

definition yields :: "u8 list \<Rightarrow> (u8 list \<Rightarrow> nat \<Rightarrow> (decode_stop, 'a) result) \<Rightarrow> u8 list \<Rightarrow> 'a \<Rightarrow> bool" where
  "yields pre rd enc x \<longleftrightarrow> (length (pre @ enc) < usize_limit \<longrightarrow> rd (pre @ enc) (length pre) = Ok x)"

lemma yields_then:
  assumes "reads rd enc1 v" and "yields (pre @ enc1) (\<lambda>input offset. g input v offset) enc2 x"
  shows "yields pre (\<lambda>input offset. and_then (rd input offset) (\<lambda>(v, offset). g input v offset)) (enc1 @ enc2) x"
  unfolding yields_def
proof
  assume small: "length (pre @ enc1 @ enc2) < usize_limit"
  then have "rd (pre @ enc1 @ enc2) (length pre) = Ok (v, length pre + length enc1)" using assms(1) by (simp add: reads_def)
  moreover have "g (pre @ enc1 @ enc2) v (length pre + length enc1) = Ok x" using assms(2) small by (simp add: yields_def)
  ultimately show "and_then (rd (pre @ enc1 @ enc2) (length pre)) (\<lambda>(v, offset). g (pre @ enc1 @ enc2) v offset) = Ok x" by simp
qed

lemma yields_last:
  assumes "reads rd enc v" and "\<And>input offset. g input v offset = Ok x"
  shows "yields pre (\<lambda>input offset. and_then (rd input offset) (\<lambda>(v, offset). g input v offset)) enc x"
  using yields_then [OF assms(1), of pre g "[]" x] assms(2) by (simp add: yields_def)

lemma yields_accept:
  "c = Some z \<Longrightarrow> yields pre (\<lambda>input offset. h input z offset) enc y \<Longrightarrow>
     yields pre (\<lambda>input offset. and_then (accept c stop) (\<lambda>v. h input v offset)) enc y"
  by simp

lemma yields_guard:
  "(\<And>rest. \<not> P (pre @ rest)) \<Longrightarrow> yields pre h enc y \<Longrightarrow> yields pre (\<lambda>input offset. if P input then Err e else h input offset) enc y"
  by (simp add: yields_def)

lemma bool_byte_facts [simp]: "\<not> bool_byte b > 1" "bool_byte b = 1 \<longleftrightarrow> b"
  by (simp_all add: bool_byte_def)

lemma record_again: "(if r \<noteq> None then Some (case r of None \<Rightarrow> z | Some bytes \<Rightarrow> bytes) else None) = r"
  by (cases r) simp_all

lemma sf_content_len_reloaded [simp]: "form_ok f \<Longrightarrow> sf_content_len (form_reloaded f) = sf_content_len f"
  using blob_wholeD(2) [of "sf_content f"] by (simp add: form_reloaded_def form_ok_def sf_content_len_def blob_bytes_def)

lemma sf_form_reloaded [simp]: "sf_form (form_reloaded f) = sf_form f"
  by (simp add: form_reloaded_def)

lemma validate_snapshot_reloaded:
  assumes "snapshot_whole s" and "validate_snapshot s = Ok ()"
  shows "validate_snapshot (snapshot_reloaded s) = Ok ()"
proof -
  have ok: "\<forall>f \<in> set (flatten (sn_forms s)). form_ok f" using assms(1) by (simp add: snapshot_whole_iff list_all_iff)
  have "map sf_content_len (map form_reloaded (flatten (sn_forms s))) = map sf_content_len (flatten (sn_forms s))"
    using ok by simp
  then show ?thesis using assms(2) ok unfolding validate_snapshot_Ok
    by (simp add: snapshot_reloaded_def flatten_map_option list_all_iff del: map_map)
qed

lemma reads_table:
  assumes "length slots = n" and "\<And>x. x \<in> set (flatten slots) \<Longrightarrow> reads rd (wire x) (again x)"
  shows "reads (read_slots (read_slot_with False k rd) n) (concat (map (slot_wire wire) slots)) (map (map_option again) slots)"
  unfolding assms(1) [symmetric] by (intro reads_slots reads_slot assms(2)) (simp add: set_flatten)

lemma reads_same_table:
  assumes "length slots = n" and "\<And>x. x \<in> set (flatten slots) \<Longrightarrow> reads rd (wire x) x"
  shows "reads (read_slots (read_slot_with False k rd) n) (concat (map (slot_wire wire) slots)) slots"
proof -
  have "map (map_option (\<lambda>x. x)) slots = slots" by (rule map_idI) (simp add: option.map_ident)
  then show ?thesis using reads_table [of slots n rd wire "\<lambda>x. x" k] assms by simp
qed

lemma snapshot_tables:
  assumes typed: "snapshot_whole s" and valid: "validate_snapshot s = Ok ()"
  shows "reads (read_slots (read_slot_with False k read_dimension) MAX_STORED_DIMENSIONS)
      (concat (map (slot_wire dimension_wire) (sn_dimensions s))) (sn_dimensions s)"
    and "reads (read_slots (read_slot_with False k (read_form False)) MAX_STORED_FORMS)
      (concat (map (slot_wire form_wire) (sn_forms s))) (map (map_option form_reloaded) (sn_forms s))"
    and "relations_storable s \<Longrightarrow> reads (read_slots (read_slot_with False k read_relation) MAX_STORED_RELATIONSHIPS)
      (concat (map (slot_wire relation_wire) (sn_relationships s))) (sn_relationships s)"
    and "reads (read_slots (read_slot_with False k (read_handle (sn_cfc s))) MAX_STORED_HANDLES)
      (concat (map (slot_wire handle_wire) (sn_handles s))) (sn_handles s)"
proof -
  have len: "length (sn_forms s) = MAX_STORED_FORMS" "length (sn_dimensions s) = MAX_STORED_DIMENSIONS"
      "length (sn_relationships s) = MAX_STORED_RELATIONSHIPS" "length (sn_handles s) = MAX_STORED_HANDLES"
    and all: "\<forall>x\<in>set (flatten (sn_forms s)). form_ok x" "\<forall>x\<in>set (flatten (sn_dimensions s)). dimension_ok x"
      "\<forall>x\<in>set (flatten (sn_relationships s)). relation_ok x" "\<forall>x\<in>set (flatten (sn_handles s)). handle_ok x"
    using typed unfolding snapshot_whole_iff list_all_iff by blast+
  have ok: "\<forall>f\<in>set (flatten (sn_forms s)). \<not> is_zero (f_fin (sf_form f)) \<and> sf_content_len f \<le> FORM_CONTENT_CAPACITY"
      "\<forall>d\<in>set (flatten (sn_dimensions s)). \<not> is_zero (d_fin d)" "handles_valid (sn_cfc s) (flatten (sn_handles s))"
    using valid by (simp_all add: validate_snapshot_Ok list_all_iff)
  show "reads (read_slots (read_slot_with False k read_dimension) MAX_STORED_DIMENSIONS)
      (concat (map (slot_wire dimension_wire) (sn_dimensions s))) (sn_dimensions s)"
    by (rule reads_same_table [OF len(2)]) (simp add: dimension_wire_def reads_dimension all ok)
  show "reads (read_slots (read_slot_with False k (read_form False)) MAX_STORED_FORMS)
      (concat (map (slot_wire form_wire) (sn_forms s))) (map (map_option form_reloaded) (sn_forms s))"
    by (rule reads_table [OF len(1)]) (simp add: reads_form all ok)
  show "relations_storable s \<Longrightarrow> reads (read_slots (read_slot_with False k read_relation) MAX_STORED_RELATIONSHIPS)
      (concat (map (slot_wire relation_wire) (sn_relationships s))) (sn_relationships s)"
  proof (rule reads_same_table [OF len(3)])
    fix r assume "relations_storable s" "r \<in> set (flatten (sn_relationships s))"
    then have "rel_dimension r \<noteq> Some fin_ZERO" "relation_ok r"
      using all(3) unfolding relations_storable_def list_all_iff by blast+
    then show "reads read_relation (relation_wire r) r" unfolding relation_wire_def by (intro reads_relation)
  qed
  show "reads (read_slots (read_slot_with False k (read_handle (sn_cfc s))) MAX_STORED_HANDLES)
      (concat (map (slot_wire handle_wire) (sn_handles s))) (sn_handles s)"
    by (rule reads_same_table [OF len(4)]) (simp add: handle_wire_def reads_handle all handles_valid_cfc [OF ok(3)])
qed

lemma decode_payload_wire:
  assumes h: "length h = HEADER_LEN" "slice 24 16 h = cfc_fin_bytes (sn_cfc s)" "get_le 4 h 40 = unat (sn_journal_sequence s)"
    and typed: "snapshot_whole s" and valid: "validate_snapshot s = Ok ()" and storable: "relations_storable s"
  shows "decode_payload False (h @ payload_wire s) = Ok (snapshot_reloaded s)"
proof -
  have texts: "length (fin_bytes (sn_primary_dimension s)) = 16" "text_ok (sn_cfc_name s)"
    using typed by (simp_all add: snapshot_whole_iff)
  let ?settings = "case sn_settings s of None \<Rightarrow> replicate SETTINGS_RECORD_CAPACITY 0 | Some bytes \<Rightarrow> bytes"
  let ?accounts = "case sn_accounts s of None \<Rightarrow> replicate ACCOUNTS_RECORD_CAPACITY 0 | Some bytes \<Rightarrow> bytes"
  have records: "length ?settings = SETTINGS_RECORD_CAPACITY" "length ?accounts = ACCOUNTS_RECORD_CAPACITY"
    using typed by (auto simp: snapshot_whole_iff split: option.splits)
  have wire: "payload_wire s = fin_bytes (sn_primary_dimension s) @ concat (put_text (sn_cfc_name s)) @
     to_le_bytes 4 (unat (sn_next_fin s)) @ to_le_bytes 4 (unat (sn_next_dimension_fin s)) @ to_le_bytes 4 (unat (sn_journal_sequence s)) @
     [encode_network (sn_network_policy s)] @ [bool_byte (sn_form_graph_present s)] @
     [bool_byte (sn_settings s \<noteq> None)] @ ?settings @ [bool_byte (sn_accounts s \<noteq> None)] @ ?accounts @
     concat (map (slot_wire dimension_wire) (sn_dimensions s)) @ concat (map (slot_wire form_wire) (sn_forms s)) @
     concat (map (slot_wire relation_wire) (sn_relationships s)) @ concat (map (slot_wire handle_wire) (sn_handles s))"
    by (simp add: payload_wire_def record_wire_def)
  have again: "\<lparr>sn_cfc = sn_cfc s, sn_cfc_name = sn_cfc_name s, sn_primary_dimension = sn_primary_dimension s,
      sn_forms = map (map_option form_reloaded) (sn_forms s), sn_dimensions = sn_dimensions s, sn_relationships = sn_relationships s,
      sn_handles = sn_handles s, sn_next_fin = sn_next_fin s, sn_next_dimension_fin = sn_next_dimension_fin s,
      sn_journal_sequence = sn_journal_sequence s, sn_network_policy = sn_network_policy s, sn_form_graph_present = sn_form_graph_present s,
      sn_settings = (if bool_byte (sn_settings s \<noteq> None) = 1 then Some ?settings else None),
      sn_accounts = (if bool_byte (sn_accounts s \<noteq> None) = 1 then Some ?accounts else None)\<rparr> = snapshot_reloaded s"
    unfolding bool_byte_facts record_again by (simp add: snapshot_reloaded_def)
  have cfc: "CfcFin (slice 24 16 (h @ rest)) = sn_cfc s" for rest
    using h(1,2) by (cases "sn_cfc s") (simp add: slice_append HEADER_LEN_def)
  have journal: "get_le 4 (h @ rest) 40 = unat (sn_journal_sequence s)" for rest
    using h(1,3) by (simp add: get_le_def slice_append HEADER_LEN_def)
  have "yields h (decode_fields False (sn_cfc s)) (payload_wire s) (snapshot_reloaded s)"
    unfolding decode_fields_def wire
    by (rule yields_then [OF reads_fin [OF texts(1)]], rule yields_then [OF reads_text [OF texts(2)]],
        rule yields_then [OF reads_le [OF le_capacities(2)]], rule yields_then [OF reads_le [OF le_capacities(2)]],
        rule yields_then [OF reads_le [OF le_capacities(2)]], rule yields_guard, simp add: journal, rule yields_then [OF reads_byte],
        rule yields_accept [OF code_round_trips(4)], rule yields_then [OF reads_flag], rule yields_then [OF reads_byte],
        rule yields_then [OF reads_bytes [OF records(1)]], rule yields_then [OF reads_byte],
        rule yields_then [OF reads_bytes [OF records(2)]], rule yields_guard, simp,
        rule yields_then [OF snapshot_tables(1) [OF typed valid]], rule yields_then [OF snapshot_tables(2) [OF typed valid]],
        rule yields_then [OF snapshot_tables(3) [OF typed valid storable]], rule yields_last [OF snapshot_tables(4) [OF typed valid]])
      (simp only: again Let_def validate_snapshot_reloaded [OF typed valid] sum.case)
  then show ?thesis using payload_fits [OF typed valid] h(1)
    by (simp add: decode_payload_def cfc yields_def SLOT_LEN_def SLOT_SECTORS_def SECTOR_SIZE_def usize_limit_def)
qed

section \<open>The header, and slots that survive the disk\<close>

text \<open>The authenticated part of the header, and what the decoder reads of it.\<close>

definition header48 :: "snapshot \<Rightarrow> u64 \<Rightarrow> nat \<Rightarrow> u8 list \<Rightarrow> u8 list" where
  "header48 s generation payload_len flags = MAGIC @ to_le_bytes 2 FORMAT_VERSION @ to_le_bytes 2 HEADER_LEN @ to_le_bytes 4 payload_len @
     to_le_bytes 8 (unat generation) @ cfc_fin_bytes (sn_cfc s) @ to_le_bytes 4 (unat (sn_journal_sequence s)) @ flags"

lemma length_MAGIC [simp]: "length MAGIC = 8"
  by (simp add: MAGIC_def)

lemma overwrite_zeros:
  "length a = at \<Longrightarrow> length y + m = n \<Longrightarrow> overwrite (a @ replicate n z @ p) at y = (a @ y) @ replicate m z @ p"
  by (auto simp: overwrite_def)

lemma encode_header_layout:
  assumes "length (cfc_fin_bytes (sn_cfc s)) = 16"
  shows "encode_header s g (replicate HEADER_LEN 0 @ p) = header48 s g (length p) [0, 0, 0, 0] @ replicate 16 0 @ p"
proof -
  have step: "length a = at \<Longrightarrow> length y + m = n \<Longrightarrow> overwrite (a @ replicate n 0 @ p) at y = (a @ y) @ replicate m (0 :: u8) @ p" for a y at m n
    by (rule overwrite_zeros)
  define h1 where "h1 = [] @ MAGIC"
  define h2 where "h2 = h1 @ to_le_bytes 2 FORMAT_VERSION"
  define h3 where "h3 = h2 @ to_le_bytes 2 HEADER_LEN"
  define h4 where "h4 = h3 @ to_le_bytes 4 (length p)"
  define h5 where "h5 = h4 @ to_le_bytes 8 (unat g)"
  define h6 where "h6 = h5 @ cfc_fin_bytes (sn_cfc s)"
  define h7 where "h7 = h6 @ to_le_bytes 4 (unat (sn_journal_sequence s))"
  note defs = h1_def h2_def h3_def h4_def h5_def h6_def h7_def
  have len: "length h1 = 8" "length h2 = 10" "length h3 = 12" "length h4 = 16" "length h5 = 24" "length h6 = 40"
    using assms by (simp_all add: defs)
  have o1: "overwrite ([] @ replicate 64 0 @ p) 0 MAGIC = h1 @ replicate 56 0 @ p"
    unfolding h1_def by (rule step) (simp_all add: len assms)
  have o2: "overwrite (h1 @ replicate 56 0 @ p) 8 (to_le_bytes 2 FORMAT_VERSION) = h2 @ replicate 54 0 @ p"
    unfolding h2_def by (rule step) (simp_all add: len assms)
  have o3: "overwrite (h2 @ replicate 54 0 @ p) 10 (to_le_bytes 2 HEADER_LEN) = h3 @ replicate 52 0 @ p"
    unfolding h3_def by (rule step) (simp_all add: len assms)
  have o4: "overwrite (h3 @ replicate 52 0 @ p) 12 (to_le_bytes 4 (length p)) = h4 @ replicate 48 0 @ p"
    unfolding h4_def by (rule step) (simp_all add: len assms)
  have o5: "overwrite (h4 @ replicate 48 0 @ p) 16 (to_le_bytes 8 (unat g)) = h5 @ replicate 40 0 @ p"
    unfolding h5_def by (rule step) (simp_all add: len assms)
  have o6: "overwrite (h5 @ replicate 40 0 @ p) 24 (cfc_fin_bytes (sn_cfc s)) = h6 @ replicate 24 0 @ p"
    unfolding h6_def by (rule step) (simp_all add: len assms)
  have o7: "overwrite (h6 @ replicate 24 0 @ p) 40 (to_le_bytes 4 (unat (sn_journal_sequence s))) = h7 @ replicate 20 0 @ p"
    unfolding h7_def by (rule step) (simp_all add: len assms)
  have size: "replicate HEADER_LEN (0 :: u8) @ p = [] @ replicate 64 0 @ p" "length ([] @ replicate 64 (0 :: u8) @ p) - HEADER_LEN = length p"
    by (simp_all add: HEADER_LEN_def)
  have "encode_header s g (replicate HEADER_LEN 0 @ p) = h7 @ replicate 20 0 @ p"
    unfolding encode_header_def Let_def size o1 o2 o3 o4 o5 o6 o7 by (rule refl)
  moreover have "replicate 20 (0 :: u8) = [0, 0, 0, 0] @ replicate 16 0" by (simp add: numeral_eq_Suc)
  ultimately show ?thesis by (simp add: header48_def defs)
qed

lemma header_fields:
  fixes body :: "u8 list" and g :: u64
  assumes cfc: "length (cfc_fin_bytes (sn_cfc s)) = 16" and flags: "length flags = 4" and mac: "length mac = 16" and n: "n < 2 ^ 32"
    and encoded_def: "encoded = header48 s g n flags @ mac @ body"
  shows "length (header48 s g n flags) = 48" "take 8 encoded = MAGIC" "get_le 2 encoded 8 = FORMAT_VERSION" "get_le 2 encoded 10 = HEADER_LEN"
    "get_le 4 encoded 12 = n" "get_le 8 encoded 16 = unat g" "slice 24 16 encoded = cfc_fin_bytes (sn_cfc s)"
    "get_le 4 encoded 40 = unat (sn_journal_sequence s)" "encoded ! 44 = flags ! 0" "encoded ! 45 = flags ! 1"
    "take 48 encoded = header48 s g n flags" "slice 48 16 encoded = mac" "drop HEADER_LEN encoded = body"
    "take HEADER_LEN encoded = header48 s g n flags @ mac" "length encoded = HEADER_LEN + length body"
proof -
  have "unat g < 2 ^ LENGTH(64)" "unat (sn_journal_sequence s) < 2 ^ LENGTH(32)" by (rule unsigned_less)+
  then have g: "unat g mod 256 ^ 8 = unat g" and j: "unat (sn_journal_sequence s) mod 256 ^ 4 = unat (sn_journal_sequence s)" by simp_all
  show "length (header48 s g n flags) = 48" using cfc flags by (simp add: header48_def)
  then show "take 48 encoded = header48 s g n flags" "slice 48 16 encoded = mac" "drop HEADER_LEN encoded = body"
      "take HEADER_LEN encoded = header48 s g n flags @ mac" "length encoded = HEADER_LEN + length body"
    using mac by (simp_all add: encoded_def slice_def HEADER_LEN_def)
  show "take 8 encoded = MAGIC" "get_le 2 encoded 8 = FORMAT_VERSION" "get_le 2 encoded 10 = HEADER_LEN"
    by (simp_all add: encoded_def header48_def get_le_def slice_def from_le_to_le FORMAT_VERSION_def HEADER_LEN_def)
  show "get_le 4 encoded 12 = n" using n by (simp add: encoded_def header48_def get_le_def slice_def from_le_to_le)
  show "get_le 8 encoded 16 = unat g" using g by (simp add: encoded_def header48_def get_le_def slice_def from_le_to_le)
  show "slice 24 16 encoded = cfc_fin_bytes (sn_cfc s)" using cfc by (simp add: encoded_def header48_def slice_def)
  show "get_le 4 encoded 40 = unat (sn_journal_sequence s)"
    using cfc j by (simp add: encoded_def header48_def get_le_def slice_def from_le_to_le)
  show "encoded ! 44 = flags ! 0" "encoded ! 45 = flags ! 1"
    using cfc flags by (simp_all add: encoded_def header48_def nth_append)
qed

text \<open>The image of a snapshot in the clear: two checksums behind the fields.\<close>

definition clear_mac :: "u8 list \<Rightarrow> u8 list \<Rightarrow> u8 list" where
  "clear_mac hdr payload = (let payload_crc = to_le_bytes 4 (unat (crc32 payload))
     in payload_crc @ to_le_bytes 4 (unat (crc32 (hdr @ payload_crc))) @ replicate 8 0)"

definition clear_image :: "snapshot \<Rightarrow> u64 \<Rightarrow> u8 list" where
  "clear_image s g = (let p = payload_wire s; hdr = header48 s g (length p) [0, 0, 0, 0] in hdr @ clear_mac hdr p @ p)"

lemma encoded_payload:
  assumes typed: "snapshot_whole s" and valid: "validate_snapshot s = Ok ()"
  shows "put_all (encode_payload s) (replicate HEADER_LEN 0) = Some (Ok (replicate HEADER_LEN 0 @ payload_wire s))"
    and "\<not> SLOT_LEN < length (replicate HEADER_LEN 0 @ payload_wire s)" and "length (payload_wire s) < 2 ^ 32"
  using put_all_ok [OF encode_payload_wire(1) [OF assms], of "replicate HEADER_LEN 0"] payload_fits [OF assms] encode_payload_wire(2) [OF assms]
  by (simp_all add: SLOT_LEN_def SLOT_SECTORS_def SECTOR_SIZE_def)

lemma encode_slot_clear:
  assumes typed: "snapshot_whole s" and valid: "validate_snapshot s = Ok ()"
  shows "encode_slot aead s g None nonce_domain = Some (Ok (clear_image s g))"
proof -
  define p where "p = payload_wire s"
  have cfc: "length (cfc_fin_bytes (sn_cfc s)) = 16" using typed by (simp add: snapshot_whole_iff)
  have len: "length (header48 s g (length p) [0, 0, 0, 0]) = 48" using cfc by (simp add: header48_def)
  show ?thesis using encoded_payload [OF assms] len encode_header_layout [OF cfc, of g p]
    by (simp add: encode_slot_def clear_image_def clear_mac_def Let_def p_def [symmetric] overwrite_def HEADER_LEN_def)
qed

lemma decode_slot_clear:
  assumes typed: "snapshot_whole s" and valid: "validate_snapshot s = Ok ()" and storable: "relations_storable s" and g: "g \<noteq> 0"
  shows "decode_slot aead (clear_image s g) slot storage_key nonce_domain =
     Ok \<lparr>dc_snapshot = snapshot_reloaded s, dc_generation = g, dc_slot = slot\<rparr>"
proof -
  define p where "p = payload_wire s"
  define hdr where "hdr = header48 s g (length p) [0, 0, 0, 0]"
  define mac where "mac = clear_mac hdr p"
  have cfc: "length (cfc_fin_bytes (sn_cfc s)) = 16" using typed by (simp add: snapshot_whole_iff)
  have mac16: "length mac = 16" by (simp add: mac_def clear_mac_def Let_def)
  have small: "length p < 2 ^ 32" using encoded_payload(3) [OF typed valid] by (simp add: p_def)
  have image: "clear_image s g = hdr @ mac @ p" by (simp add: clear_image_def p_def hdr_def mac_def Let_def)
  have four: "length [0, 0, 0, 0 :: u8] = 4" by simp
  have "hdr @ mac @ p = header48 s g (length p) [0, 0, 0, 0] @ mac @ p" by (simp add: hdr_def)
  note facts = header_fields [OF cfc four mac16 small this, folded hdr_def]
  have crc_small: "unat x mod 256 ^ 4 = unat x" for x :: u32
  proof -
    have "unat x < 2 ^ LENGTH(32)" by (rule unsigned_less)
    then show ?thesis by simp
  qed
  have crcs: "get_le 4 (hdr @ mac @ p) 48 = unat (crc32 p)" "get_le 4 (hdr @ mac @ p) 52 = unat (crc32 (take 52 (hdr @ mac @ p)))"
    using facts(1) crc_small by (simp_all add: mac_def clear_mac_def Let_def get_le_def slice_def from_le_to_le)
  have payload: "decode_payload False (hdr @ mac @ p) = Ok (snapshot_reloaded s)"
    using decode_payload_wire [of "hdr @ mac" s] facts mac16 typed valid storable
    by (simp add: p_def HEADER_LEN_def get_le_def slice_append)
  show ?thesis unfolding image decode_slot_def Let_def facts(2-10) crcs
    using g facts(13,15) payload by (simp add: FORMAT_VERSION_def HEADER_LEN_def)
qed

text \<open>What the authenticated cipher promises: opening undoes sealing under the same key, nonce and associated data,
  the ciphertext is as long as the plaintext and the tag has 16 bytes.\<close>

definition aead_correct :: "storage_aead \<Rightarrow> bool" where
  "aead_correct aead \<longleftrightarrow> (\<forall>key nonce aad p ct tag. ae_seal aead key nonce aad p = Ok (ct, tag) \<longrightarrow>
     length ct = length p \<and> length tag = 16 \<and> ae_open aead key nonce aad ct tag = Ok p)"

lemma encode_slot_sealed:
  fixes g :: u64 and key :: "u8 list" and nonce_domain :: u32
  assumes typed: "snapshot_whole s" and valid: "validate_snapshot s = Ok ()" and aead: "aead_correct aead"
  defines "p \<equiv> payload_wire s"
  defines "hdr \<equiv> header48 s g (length p) [1, 1, 0, 0]"
  defines "nonce \<equiv> storage_nonce key (cfc_fin_bytes (sn_cfc s)) g nonce_domain"
  shows "encode_slot aead s g (Some key) nonce_domain =
     (case ae_seal aead key nonce hdr p of Err _ \<Rightarrow> Some (Err VerificationFailed) | Ok (ct, tag) \<Rightarrow> Some (Ok (hdr @ tag @ ct)))"
proof -
  have cfc: "length (cfc_fin_bytes (sn_cfc s)) = 16" using typed by (simp add: snapshot_whole_iff)
  have len: "length hdr = 48" "length (header48 s g (length p) [0, 0, 0, 0]) = 48" using cfc by (simp_all add: hdr_def header48_def)
  have flags: "(header48 s g (length p) [0, 0, 0, 0] @ rest)[44 := 1, 45 := 1] = hdr @ rest" for rest
    using cfc by (simp add: hdr_def header48_def list_update_append)
  have tag: "overwrite (hdr @ replicate 16 0) 48 tag = hdr @ tag" if "ae_seal aead key nonce hdr p = Ok (ct, tag)" for ct tag
    using aead that len(1) by (auto simp: aead_correct_def overwrite_def)
  show ?thesis using encoded_payload [OF typed valid, folded p_def] len encode_header_layout [OF cfc, of g p]
    by (auto simp: encode_slot_def Let_def flags nonce_def [symmetric] HEADER_LEN_def tag split: sum.splits)
qed

lemma decode_slot_sealed:
  assumes typed: "snapshot_whole s" and valid: "validate_snapshot s = Ok ()" and storable: "relations_storable s" and g: "g \<noteq> 0"
    and aead: "aead_correct aead"
  defines "p \<equiv> payload_wire s"
  defines "hdr \<equiv> header48 s g (length p) [1, 1, 0, 0]"
  assumes seal: "ae_seal aead key (storage_nonce key (cfc_fin_bytes (sn_cfc s)) g nonce_domain) hdr p = Ok (ct, tag)"
  shows "length (hdr @ tag @ ct) \<le> SLOT_LEN" and "decode_slot aead (hdr @ tag @ ct) slot (Some key) nonce_domain =
     Ok \<lparr>dc_snapshot = snapshot_reloaded s, dc_generation = g, dc_slot = slot\<rparr>"
proof -
  have sealed: "length ct = length p" "length tag = 16"
      "ae_open aead key (storage_nonce key (cfc_fin_bytes (sn_cfc s)) g nonce_domain) hdr ct tag = Ok p"
    using aead seal unfolding aead_correct_def by blast+
  have cfc: "length (cfc_fin_bytes (sn_cfc s)) = 16" using typed by (simp add: snapshot_whole_iff)
  have small: "length p < 2 ^ 32" using encoded_payload(3) [OF typed valid] by (simp add: p_def)
  have four: "length [1, 1, 0, 0 :: u8] = 4" by simp
  have "hdr @ tag @ ct = header48 s g (length p) [1, 1, 0, 0] @ tag @ ct" by (simp add: hdr_def)
  note facts = header_fields [OF cfc four sealed(2) small this, folded hdr_def]
  have payload: "decode_payload False ((hdr @ tag) @ p) = Ok (snapshot_reloaded s)"
    unfolding p_def using facts sealed(2) by (intro decode_payload_wire typed valid storable)
      (simp_all add: HEADER_LEN_def get_le_def slice_append [of _ _ "hdr @ tag" ct, simplified])
  show "length (hdr @ tag @ ct) \<le> SLOT_LEN" using payload_fits [OF typed valid] facts(15) sealed(1) by (simp add: p_def)
  show "decode_slot aead (hdr @ tag @ ct) slot (Some key) nonce_domain = Ok \<lparr>dc_snapshot = snapshot_reloaded s, dc_generation = g, dc_slot = slot\<rparr>"
    unfolding decode_slot_def Let_def facts(2-14)
    using g facts(15) payload sealed by (simp add: FORMAT_VERSION_def HEADER_LEN_def)
qed

text \<open>The three outcomes of encoding a valid snapshot.\<close>

lemma encode_slot_cases:
  assumes typed: "snapshot_whole s" and valid: "validate_snapshot s = Ok ()" and aead: "aead_correct aead"
  obtains (clear) "storage_key = None" "encode_slot aead s g storage_key nonce_domain = Some (Ok (clear_image s g))"
  | (sealed) key ct tag where "storage_key = Some key"
      "ae_seal aead key (storage_nonce key (cfc_fin_bytes (sn_cfc s)) g nonce_domain) (header48 s g (length (payload_wire s)) [1, 1, 0, 0]) (payload_wire s) = Ok (ct, tag)"
      "encode_slot aead s g storage_key nonce_domain = Some (Ok (header48 s g (length (payload_wire s)) [1, 1, 0, 0] @ tag @ ct))"
  | (failed) "storage_key \<noteq> None" "encode_slot aead s g storage_key nonce_domain = Some (Err VerificationFailed)"
proof (cases storage_key)
  case None
  then show ?thesis using clear encode_slot_clear [OF typed valid] by simp
next
  case (Some key)
  note enc = encode_slot_sealed [OF typed valid aead, of g key nonce_domain]
  show ?thesis
  proof (cases "ae_seal aead key (storage_nonce key (cfc_fin_bytes (sn_cfc s)) g nonce_domain) (header48 s g (length (payload_wire s)) [1, 1, 0, 0]) (payload_wire s)")
    case (Inl a)
    then show ?thesis using failed enc Some by simp
  next
    case (Inr r)
    obtain ct tag where "r = (ct, tag)" by (cases r)
    then show ?thesis using sealed [of key ct tag] enc Inr Some by simp
  qed
qed

lemma decode_encoded:
  assumes snap: "snapshot_whole s" "validate_snapshot s = Ok ()" "relations_storable s" and g: "g \<noteq> 0" and aead: "aead_correct aead"
    and enc: "encode_slot aead s g storage_key nonce_domain = Some (Ok bytes)"
  shows "length bytes \<le> SLOT_LEN" and "decode_slot aead bytes slot storage_key nonce_domain =
    Ok \<lparr>dc_snapshot = snapshot_reloaded s, dc_generation = g, dc_slot = slot\<rparr>"
proof -
  have "length (clear_image s g) = HEADER_LEN + length (payload_wire s)"
    using snap(1) by (simp add: clear_image_def clear_mac_def Let_def header48_def HEADER_LEN_def snapshot_whole_iff)
  then have "length (clear_image s g) \<le> SLOT_LEN" using payload_fits snap by simp
  then have "length bytes \<le> SLOT_LEN \<and> decode_slot aead bytes slot storage_key nonce_domain =
    Ok \<lparr>dc_snapshot = snapshot_reloaded s, dc_generation = g, dc_slot = slot\<rparr>"
    using enc decode_slot_clear [OF snap g] decode_slot_sealed [OF snap g aead]
    by (cases rule: encode_slot_cases [OF snap(1,2) aead, of storage_key g nonce_domain]) (auto simp del: length_append)
  then show "length bytes \<le> SLOT_LEN" and "decode_slot aead bytes slot storage_key nonce_domain =
    Ok \<lparr>dc_snapshot = snapshot_reloaded s, dc_generation = g, dc_slot = slot\<rparr>" by blast+
qed

text \<open>C8: Storing and reloading: a snapshot that passes validation, whose contents are whole (the chunks of each hold its length) and
  whose relationships never name the zero Dimension, is encoded, and decoding the slot gives it back under its generation; only
  a failing cipher stops the encoder. Validation guarantees neither of the two conditions: the encoder panics on a content that
  is not whole, and the decoder refuses a zero Dimension.\<close>

theorem store_round_trip:
  assumes "snapshot_typed s" and "validate_snapshot s = Ok ()" and "contents_whole s" and "relations_storable s" and "g \<noteq> 0"
    and "aead_correct aead"
  shows "case encode_slot aead s g storage_key nonce_domain of
      None \<Rightarrow> False
    | Some (Err e) \<Rightarrow> e = VerificationFailed \<and> storage_key \<noteq> None
    | Some (Ok bytes) \<Rightarrow> length bytes \<le> SLOT_LEN \<and> decode_slot aead bytes slot storage_key nonce_domain =
        Ok \<lparr>dc_snapshot = snapshot_reloaded s, dc_generation = g, dc_slot = slot\<rparr>"
proof -
  have whole: "snapshot_whole s" using assms(1,3) by (simp add: snapshot_whole_def)
  note again = decode_encoded [OF whole assms(2,4,5,6)]
  show ?thesis
  proof (cases rule: encode_slot_cases [OF whole assms(2,6), of storage_key g nonce_domain, case_names clear sealed failed])
    case clear
    then show ?thesis using again [OF clear(2)] by simp
  next
    case (sealed key ct tag)
    then show ?thesis using again [OF sealed(3)] by simp
  qed simp
qed

definition demo_text :: text_t where
  "demo_text = \<lparr>text_bytes = map of_nat (lit ''notes'') @ replicate 27 0, text_len = 5\<rparr>"

definition demo_snapshot :: "relationship \<Rightarrow> snapshot" where
  "demo_snapshot r = \<lparr>sn_cfc = cfc_from_u128 1, sn_cfc_name = demo_text, sn_primary_dimension = from_u128 10,
     sn_forms = Some \<lparr>sf_form = \<lparr>f_fin = from_u128 20, f_name = demo_text, f_kind = Data, f_revision = 3, f_lifecycle = Active\<rparr>,
         sf_content = from_bytes [1, 2, 3]\<rparr> # empty_slots 11,
     sn_dimensions = Some \<lparr>d_fin = from_u128 10, d_name = demo_text, d_security_boundary = True\<rparr> # empty_slots 5,
     sn_relationships = Some r # empty_slots 47,
     sn_handles = Some \<lparr>h_id = 1, h_parent_id = 0, h_cfc = cfc_from_u128 1, h_requester = from_u128 30, h_target = from_u128 20,
         h_dimension = from_u128 10, h_operations = READ, h_valid_until_tick = 100, h_revoked = False\<rparr> # empty_slots 15,
     sn_next_fin = 40, sn_next_dimension_fin = 11, sn_journal_sequence = 7, sn_network_policy = Restricted,
     sn_form_graph_present = True, sn_settings = None, sn_accounts = None\<rparr>"

definition demo_relation :: "fin option \<Rightarrow> relationship" where
  "demo_relation d = \<lparr>rel_source = from_u128 20, rel_target = from_u128 21, rel_kind = DependsOn, rel_dimension = d\<rparr>"

definition demo_aead :: storage_aead where
  "demo_aead = \<lparr>ae_seal = (\<lambda>key nonce aad p. Ok (map (\<lambda>b. b XOR 90) p, replicate 16 7)),
     ae_open = (\<lambda>key nonce aad ct tag. if tag = replicate 16 7 then Ok (map (\<lambda>b. b XOR 90) ct) else Err ())\<rparr>"

lemma demo_aead_correct: "aead_correct demo_aead"
  by (auto simp: aead_correct_def demo_aead_def o_def xor.assoc)

lemma demo_text_ok: "text_ok demo_text"
  unfolding text_ok_def by (rule exI [of _ "lit ''notes''"]) code_simp

lemma demo_snapshot_valid:
  "snapshot_whole (demo_snapshot (demo_relation d))" if "d \<in> {None, Some fin_ZERO}" for d
  using that demo_text_ok
  by (auto simp: demo_snapshot_def demo_relation_def snapshot_whole_iff blob_ok_whole MAX_STORED_FORMS_def MAX_STORED_DIMENSIONS_def
    MAX_STORED_RELATIONSHIPS_def MAX_STORED_HANDLES_def form_ok_def dimension_ok_def relation_ok_def handle_ok_def
    from_u128_def cfc_from_u128_def fin_ZERO_def ops_from_bits_def READ_def)

lemma demo_snapshot_validates: "validate_snapshot (demo_snapshot (demo_relation d)) = Ok ()"
proof -
  have "as_str demo_text \<noteq> []" using text_okD(2) [OF demo_text_ok] .
  moreover have "\<not> is_zero (from_u128 10)" "\<not> is_zero (from_u128 20)" "\<not> is_zero (from_u128 30)" "\<not> cfc_is_zero (cfc_from_u128 1)"
    by code_simp+
  ultimately show ?thesis
    by (simp add: validate_snapshot_Ok demo_snapshot_def sf_content_len_def FORM_CONTENT_CAPACITY_def DEFAULT_FORM_BLOB_QUOTA_def
      CFC_CONTENT_CAPACITY_def DEFAULT_CFC_BLOB_QUOTA_def READ_def NONE_def)
qed

theorem store_round_trip_witness:
  "\<exists>s bytes. flatten (sn_handles s) \<noteq> [] \<and> encode_slot demo_aead s 5 (Some [1, 2, 3]) 9 = Some (Ok bytes) \<and>
     decode_slot demo_aead bytes 1 (Some [1, 2, 3]) 9 = Ok \<lparr>dc_snapshot = snapshot_reloaded s, dc_generation = 5, dc_slot = 1\<rparr>"
proof -
  let ?s = "demo_snapshot (demo_relation None)"
  have whole: "snapshot_whole ?s" by (rule demo_snapshot_valid) simp
  then have typed: "snapshot_typed ?s" "contents_whole ?s" by (simp_all add: snapshot_whole_def)
  have storable: "relations_storable ?s" by (simp add: relations_storable_def demo_snapshot_def demo_relation_def)
  obtain bytes where bytes: "encode_slot demo_aead ?s 5 (Some [1, 2, 3]) 9 = Some (Ok bytes)"
    by (simp add: encode_slot_sealed [OF whole demo_snapshot_validates demo_aead_correct]) (simp add: demo_aead_def)
  have "decode_slot demo_aead bytes 1 (Some [1, 2, 3]) 9 = Ok \<lparr>dc_snapshot = snapshot_reloaded ?s, dc_generation = 5, dc_slot = 1\<rparr>"
    using store_round_trip [OF typed(1) demo_snapshot_validates typed(2) storable _ demo_aead_correct, where g = 5 and storage_key = "Some [1, 2, 3]" and
      nonce_domain = 9 and slot = 1] bytes by simp
  moreover have "flatten (sn_handles ?s) \<noteq> []" by (simp add: demo_snapshot_def)
  ultimately show ?thesis using bytes by blast
qed

text \<open>C35: The checksummed format stays readable where a storage key is configured: whatever the key, a slot without encryption
  that holds a storable snapshot (valid, its contents whole, no relationship with the zero Dimension) is accepted, so the authentication of the encrypted format does not protect against replacing a slot by one in the clear.\<close>

theorem clear_slot_accepted_under_key:
  assumes "snapshot_typed s" and "validate_snapshot s = Ok ()" and "contents_whole s" and "relations_storable s" and "g \<noteq> 0"
  shows "\<exists>bytes. encode_slot aead s g None nonce_domain = Some (Ok bytes) \<and>
     decode_slot aead bytes slot (Some key) nonce_domain = Ok \<lparr>dc_snapshot = snapshot_reloaded s, dc_generation = g, dc_slot = slot\<rparr>"
  using assms by (simp add: encode_slot_clear decode_slot_clear snapshot_whole_def)

theorem clear_slot_accepted_under_key_witness:
  "\<exists>s bytes. flatten (sn_handles s) \<noteq> [] \<and> encode_slot demo_aead s 5 None 9 = Some (Ok bytes) \<and>
     decode_slot demo_aead bytes 1 (Some [1, 2, 3]) 9 = Ok \<lparr>dc_snapshot = snapshot_reloaded s, dc_generation = 5, dc_slot = 1\<rparr>"
proof -
  let ?s = "demo_snapshot (demo_relation None)"
  have whole: "snapshot_whole ?s" by (rule demo_snapshot_valid) simp
  then have typed: "snapshot_typed ?s" "contents_whole ?s" by (simp_all add: snapshot_whole_def)
  have storable: "relations_storable ?s" by (simp add: relations_storable_def demo_snapshot_def demo_relation_def)
  have "flatten (sn_handles ?s) \<noteq> []" by (simp add: demo_snapshot_def)
  moreover have "(5 :: u64) \<noteq> 0" by simp
  note clear_slot_accepted_under_key [OF typed(1) demo_snapshot_validates typed(2) storable this, of demo_aead 9 1 "[1, 2, 3]"]
  ultimately show ?thesis by blast
qed

end
