(* ===== verification/Store.thy ===== *)
theory Store
  imports Store_Codec
begin

text \<open>
  The disk store of the ExpFS system database (\<^verbatim>\<open>kernel/src/expfs_store.rs\<close>): two snapshot slots, eight checkpoint slots and the
  protected baseline on a disk of sectors, the selection of the newest slot at boot, the commit with the header sector written
  last, checkpoints, baseline and blob streams. The disk is a function from sector numbers to sectors, with
  the sectors that can be read and a script for the device: the fate of each coming sector transfer (it is done, it fails before
  the sector reaches the disk, or the device reports an error after the sector has reached it) and of each coming cache flush.
  A write of a sector is a transfer and a flush, so that a failing flush leaves the new sector on the disk and still reports an
  error. The disk that a crash leaves is the one of a script whose transfers all fail from that point on. A sector is written
  as a whole or not at all. The drivers behind \<^verbatim>\<open>storage::Device\<close> and the heap are arguments.
\<close>

unbundle bit_operations_syntax

section \<open>Model: disk and slots\<close>

definition CHECKPOINT_CAPACITY :: nat where "CHECKPOINT_CAPACITY = 8"

definition MAX_BLOB_STREAMS :: nat where "MAX_BLOB_STREAMS = 8"

definition LEGACY_SLOT_SECTORS :: nat where "LEGACY_SLOT_SECTORS = 24"

definition LEGACY_SLOT_LEN :: nat where "LEGACY_SLOT_LEN = LEGACY_SLOT_SECTORS * SECTOR_SIZE"

definition SLOT_A_LBA :: nat where "SLOT_A_LBA = 64"

definition SLOT_B_LBA :: nat where "SLOT_B_LBA = SLOT_A_LBA + SLOT_SECTORS"

definition CHECKPOINT_LBA :: nat where "CHECKPOINT_LBA = SLOT_B_LBA + SLOT_SECTORS"

definition BASELINE_LBA :: nat where "BASELINE_LBA = CHECKPOINT_LBA + CHECKPOINT_CAPACITY * SLOT_SECTORS"

definition MINIMUM_DISK_SECTORS :: nat where "MINIMUM_DISK_SECTORS = BASELINE_LBA + SLOT_SECTORS"

definition LEGACY_SLOT_B_LBA :: nat where "LEGACY_SLOT_B_LBA = SLOT_A_LBA + LEGACY_SLOT_SECTORS"

definition LEGACY_CHECKPOINT_LBA :: nat where "LEGACY_CHECKPOINT_LBA = LEGACY_SLOT_B_LBA + LEGACY_SLOT_SECTORS"

definition LEGACY_BASELINE_LBA :: nat where
  "LEGACY_BASELINE_LBA = LEGACY_CHECKPOINT_LBA + CHECKPOINT_CAPACITY * LEGACY_SLOT_SECTORS"

datatype transfer_fate = Transferred | NotTransferred storage_device_error | TransferredLate storage_device_error

record disk =
  dk_sectors :: nat
  dk_data :: "nat \<Rightarrow> u8 list"
  dk_readable :: "nat \<Rightarrow> bool"
  dk_transfers :: "nat \<Rightarrow> transfer_fate"
  dk_flushes :: "nat \<Rightarrow> storage_device_error option"

definition read_sector :: "nat \<Rightarrow> disk \<Rightarrow> (storage_device_error, u8 list) result" where
  "read_sector lba d =
     (if lba \<ge> dk_sectors d \<or> lba > 0x0FFFFFFF then Err OutOfRange
      else if \<not> dk_readable d lba then Err Timeout
      else Ok (dk_data d lba))"

definition write_sector_unflushed :: "nat \<Rightarrow> u8 list \<Rightarrow> disk \<Rightarrow> (storage_device_error, unit) result \<times> disk" where
  "write_sector_unflushed lba sector d =
     (if lba \<ge> dk_sectors d \<or> lba > 0x0FFFFFFF then (Err OutOfRange, d)
      else
        let rest = d\<lparr>dk_transfers := dk_transfers d \<circ> Suc\<rparr>; changed = rest\<lparr>dk_data := (dk_data d)(lba := sector)\<rparr> in
        (case dk_transfers d 0 of
          Transferred \<Rightarrow> (Ok (), changed)
        | NotTransferred e \<Rightarrow> (Err e, rest)
        | TransferredLate e \<Rightarrow> (Err e, changed)))"

definition disk_flush :: "disk \<Rightarrow> (storage_device_error, unit) result \<times> disk" where
  "disk_flush d = (case dk_flushes d 0 of None \<Rightarrow> Ok () | Some e \<Rightarrow> Err e, d\<lparr>dk_flushes := dk_flushes d \<circ> Suc\<rparr>)"

definition write_sector :: "nat \<Rightarrow> u8 list \<Rightarrow> disk \<Rightarrow> (storage_device_error, unit) result \<times> disk" where
  "write_sector lba sector d =
     (case write_sector_unflushed lba sector d of
       (Err e, d) \<Rightarrow> (Err e, d)
     | (Ok _, d) \<Rightarrow> disk_flush d)"

text \<open>The buffer of a slot is the encoded bytes with zeros behind them.\<close>

definition slot_buffer :: "u8 list \<Rightarrow> u8 list" where
  "slot_buffer encoded = encoded @ replicate (SLOT_LEN - length encoded) 0"

fun write_sectors :: "nat \<Rightarrow> u8 list \<Rightarrow> nat list \<Rightarrow> disk \<Rightarrow> (store_error, unit) result \<times> disk" where
  "write_sectors base buffer [] d = (Ok (), d)"
| "write_sectors base buffer (i # is) d =
     (case write_sector (base + i) (slice (i * SECTOR_SIZE) SECTOR_SIZE buffer) d of
       (Err e, d) \<Rightarrow> (Err (Disk e), d)
     | (Ok _, d) \<Rightarrow> write_sectors base buffer is d)"

text \<open>The sectors in the order they are written: sector zero holds the header and comes last.\<close>

definition write_order :: "nat \<Rightarrow> nat list" where
  "write_order sectors = map (\<lambda>write_index. (write_index + 1) mod sectors) [0..<sectors]"

definition write_at :: "nat \<Rightarrow> u8 list \<Rightarrow> disk \<Rightarrow> (store_error, unit) result \<times> disk" where
  "write_at base encoded d =
     (let sectors = div_ceil (length encoded) SECTOR_SIZE in
      if sectors = 0 \<or> sectors > SLOT_SECTORS then (Err InvalidSnapshot, d)
      else write_sectors base (slot_buffer encoded) (write_order sectors) d)"

fun verify_sectors :: "nat \<Rightarrow> u8 list \<Rightarrow> nat list \<Rightarrow> disk \<Rightarrow> (store_error, unit) result" where
  "verify_sectors base encoded [] d = Ok ()"
| "verify_sectors base encoded (i # is) d =
     (case read_sector (base + i) d of
       Err e \<Rightarrow> Err (Disk e)
     | Ok sector \<Rightarrow>
         let start = i * SECTOR_SIZE; compared = min (length encoded - start) SECTOR_SIZE in
         if take compared sector \<noteq> slice start compared (slot_buffer encoded) then Err VerificationFailed
         else verify_sectors base encoded is d)"

definition verify_write :: "nat \<Rightarrow> u8 list \<Rightarrow> disk \<Rightarrow> (store_error, unit) result" where
  "verify_write base encoded d = verify_sectors base encoded [0..<div_ceil (length encoded) SECTOR_SIZE] d"

fun read_sectors :: "nat \<Rightarrow> nat list \<Rightarrow> disk \<Rightarrow> (store_error, u8 list) result" where
  "read_sectors base [] d = Ok []"
| "read_sectors base (i # is) d =
     (case read_sector (base + i) d of
       Err e \<Rightarrow> Err (Disk e)
     | Ok sector \<Rightarrow> (case read_sectors base is d of Err e \<Rightarrow> Err e | Ok rest \<Rightarrow> Ok (sector @ rest)))"

text \<open>What the kernel runs with: the cipher, and whether the heap has room for a slot buffer.\<close>

record store_env =
  se_aead :: storage_aead
  se_heap :: bool

text \<open>The result of decoding a slot; \<open>None\<close> is a panic of the decoder.\<close>

definition decoded_result :: "(decode_stop, decoded_slot) result \<Rightarrow> (store_error, decoded_slot) result option" where
  "decoded_result r = (case r of Err Panic \<Rightarrow> None | Err Reject \<Rightarrow> Some (Err VerificationFailed) | Ok slot \<Rightarrow> Some (Ok slot))"

definition read_legacy_at :: "store_env \<Rightarrow> disk \<Rightarrow> nat \<Rightarrow> u8 \<Rightarrow> u8 list option \<Rightarrow> (store_error, decoded_slot) result option" where
  "read_legacy_at env d base slot storage_key =
     (case read_sectors base [0..<LEGACY_SLOT_SECTORS] d of
       Err e \<Rightarrow> Some (Err e)
     | Ok encoded \<Rightarrow> decoded_result (decode_slot (se_aead env) encoded slot storage_key (of_nat base)))"

definition read_at :: "store_env \<Rightarrow> disk \<Rightarrow> nat \<Rightarrow> u8 \<Rightarrow> u8 list option \<Rightarrow> (store_error, decoded_slot) result option" where
  "read_at env d base slot storage_key =
     (if \<not> se_heap env then Some (Err Unavailable)
      else (case read_sector base d of
        Err e \<Rightarrow> Some (Err (Disk e))
      | Ok header \<Rightarrow>
          if take 8 header \<noteq> MAGIC \<or> get_le 2 header 10 \<noteq> HEADER_LEN \<or> get_le 4 header 12 > SLOT_LEN - HEADER_LEN
          then Some (Err VerificationFailed)
          else
            let encoded_len = HEADER_LEN + get_le 4 header 12; sectors = div_ceil encoded_len SECTOR_SIZE in
            (case read_sectors base [1..<sectors] d of
              Err e \<Rightarrow> Some (Err e)
            | Ok rest \<Rightarrow> decoded_result (decode_slot (se_aead env) (take encoded_len (header @ rest)) slot storage_key (of_nat base)))))"

definition region_is_blank :: "disk \<Rightarrow> nat \<Rightarrow> bool" where
  "region_is_blank d base = (case read_sector base d of Err _ \<Rightarrow> False | Ok sector \<Rightarrow> list_all (\<lambda>byte. byte = 0) sector)"

definition newest :: "decoded_slot option \<Rightarrow> decoded_slot option \<Rightarrow> decoded_slot option" where
  "newest first second =
     (case (first, second) of
       (Some f, Some s) \<Rightarrow>
         if dc_generation s \<noteq> dc_generation f \<and> dc_generation s - dc_generation f < push_bit 63 1 then Some s else Some f
     | (Some slot, None) \<Rightarrow> Some slot
     | (None, second) \<Rightarrow> second)"

definition slot_lba :: "u8 \<Rightarrow> nat" where
  "slot_lba slot = (if slot = 0 then SLOT_A_LBA else SLOT_B_LBA)"

definition checkpoint_lba :: "nat \<Rightarrow> nat" where
  "checkpoint_lba slot = CHECKPOINT_LBA + slot * SLOT_SECTORS"

definition read_slot :: "store_env \<Rightarrow> disk \<Rightarrow> u8 \<Rightarrow> u8 list option \<Rightarrow> (store_error, decoded_slot) result option" where
  "read_slot env d slot storage_key = read_at env d (slot_lba slot) slot storage_key"

definition read_legacy_slot :: "store_env \<Rightarrow> disk \<Rightarrow> u8 \<Rightarrow> u8 list option \<Rightarrow> (store_error, decoded_slot) result option" where
  "read_legacy_slot env d slot storage_key =
     read_legacy_at env d (if slot = 0 then SLOT_A_LBA else LEGACY_SLOT_B_LBA) slot storage_key"

definition or_else :: "('e, 'a) result option \<Rightarrow> ('e, 'a) result option \<Rightarrow> ('e, 'a) result option" where
  "or_else r f = (case r of Some (Err _) \<Rightarrow> f | _ \<Rightarrow> r)"

section \<open>Model: the running store\<close>

record checkpoint_info =
  ci_state_id :: u64
  ci_journal_sequence :: u32
  ci_slot :: u8
  ci_legacy :: bool

record baseline_info =
  bi_generation :: u64
  bi_journal_sequence :: u32

datatype baseline_state = Missing | Ready baseline_info | Damaged

record runtime_store =
  rs_device :: "disk option"
  rs_cfc :: cfc_fin
  rs_cfc_name :: text_t
  rs_primary_dimension :: fin
  rs_snapshot :: "snapshot option"
  rs_generation :: u64
  rs_active_slot :: u8
  rs_checkpoints :: "checkpoint_info slots"
  rs_baseline :: baseline_state
  rs_baseline_lba :: nat
  rs_storage_key :: "u8 list option"

definition runtime_store_new :: runtime_store where
  "runtime_store_new = \<lparr>rs_device = None, rs_cfc = cfc_fin_ZERO, rs_cfc_name = text_empty, rs_primary_dimension = fin_ZERO,
     rs_snapshot = None, rs_generation = 0, rs_active_slot = 1, rs_checkpoints = empty_slots CHECKPOINT_CAPACITY,
     rs_baseline = Missing, rs_baseline_lba = BASELINE_LBA, rs_storage_key = None\<rparr>"

text \<open>The two candidates of boot and the choice between them; a slot of another CFC or Dimension is no candidate.\<close>

definition read_candidate :: "store_env \<Rightarrow> disk \<Rightarrow> cfc_fin \<Rightarrow> fin \<Rightarrow> u8 list option \<Rightarrow> u8 \<Rightarrow> decoded_slot option option" where
  "read_candidate env d cfc primary_dimension storage_key slot =
     (case or_else (read_slot env d slot storage_key) (read_legacy_slot env d slot storage_key) of
       None \<Rightarrow> None
     | Some (Err _) \<Rightarrow> Some None
     | Some (Ok dec) \<Rightarrow> Some (if sn_cfc (dc_snapshot dec) = cfc \<and> sn_primary_dimension (dc_snapshot dec) = primary_dimension
         then Some dec else None))"

definition select_slot :: "store_env \<Rightarrow> disk \<Rightarrow> cfc_fin \<Rightarrow> fin \<Rightarrow> u8 list option \<Rightarrow> decoded_slot option option" where
  "select_slot env d cfc primary_dimension storage_key =
     (case read_candidate env d cfc primary_dimension storage_key 0 of
       None \<Rightarrow> None
     | Some first \<Rightarrow>
         (case read_candidate env d cfc primary_dimension storage_key 1 of
           None \<Rightarrow> None
         | Some second \<Rightarrow> Some (newest first second)))"

text \<open>One checkpoint slot and the baseline, each with its legacy place as the fallback.\<close>

definition with_legacy :: "('e, 'a) result option \<Rightarrow> ('e, 'a) result option \<Rightarrow> (('e, 'a) result \<times> bool) option" where
  "with_legacy r f = (case r of None \<Rightarrow> None | Some (Ok x) \<Rightarrow> Some (Ok x, False) | Some (Err _) \<Rightarrow> map_option (\<lambda>r. (r, True)) f)"

definition read_checkpoint ::
  "store_env \<Rightarrow> disk \<Rightarrow> cfc_fin \<Rightarrow> fin \<Rightarrow> u8 list option \<Rightarrow> nat \<Rightarrow> checkpoint_info option option" where
  "read_checkpoint env d cfc primary_dimension storage_key index =
     (case with_legacy (read_at env d (checkpoint_lba index) (of_nat index) storage_key)
         (read_legacy_at env d (LEGACY_CHECKPOINT_LBA + index * LEGACY_SLOT_SECTORS) (of_nat index) storage_key) of
       None \<Rightarrow> None
     | Some (Err _, _) \<Rightarrow> Some None
     | Some (Ok dec, legacy) \<Rightarrow> Some (if sn_cfc (dc_snapshot dec) = cfc \<and> sn_primary_dimension (dc_snapshot dec) = primary_dimension
         then Some \<lparr>ci_state_id = dc_generation dec, ci_journal_sequence = sn_journal_sequence (dc_snapshot dec),
           ci_slot = of_nat index, ci_legacy = legacy\<rparr>
         else None))"

fun read_checkpoints ::
  "store_env \<Rightarrow> disk \<Rightarrow> cfc_fin \<Rightarrow> fin \<Rightarrow> u8 list option \<Rightarrow> nat list \<Rightarrow> checkpoint_info slots option" where
  "read_checkpoints env d cfc dim key [] = Some []"
| "read_checkpoints env d cfc dim key (i # is) =
     (case read_checkpoint env d cfc dim key i of
       None \<Rightarrow> None
     | Some c \<Rightarrow> map_option ((#) c) (read_checkpoints env d cfc dim key is))"

definition read_baseline ::
  "store_env \<Rightarrow> disk \<Rightarrow> cfc_fin \<Rightarrow> fin \<Rightarrow> u8 list option \<Rightarrow> (baseline_state \<times> nat) option" where
  "read_baseline env d cfc primary_dimension storage_key =
     (case with_legacy (read_at env d BASELINE_LBA 255 storage_key) (read_legacy_at env d LEGACY_BASELINE_LBA 255 storage_key) of
       None \<Rightarrow> None
     | Some (baseline, legacy) \<Rightarrow>
         let lba = (if legacy then LEGACY_BASELINE_LBA else BASELINE_LBA);
             absent = (if region_is_blank d BASELINE_LBA then Missing else Damaged)
         in (case baseline of
           Ok dec \<Rightarrow>
             if sn_cfc (dc_snapshot dec) = cfc \<and> sn_primary_dimension (dc_snapshot dec) = primary_dimension
             then Some (Ready \<lparr>bi_generation = dc_generation dec, bi_journal_sequence = sn_journal_sequence (dc_snapshot dec)\<rparr>, lba)
             else Some (absent, lba)
         | Err _ \<Rightarrow> Some (absent, lba)))"

definition initialize ::
  "store_env \<Rightarrow> (storage_device_error, disk) result \<Rightarrow> cfc_fin \<Rightarrow> text_t \<Rightarrow> fin \<Rightarrow> u8 list option \<Rightarrow> runtime_store \<Rightarrow> runtime_store option" where
  "initialize env found cfc cfc_name primary_dimension storage_key store =
     (case found of
       Err _ \<Rightarrow> Some store
     | Ok d \<Rightarrow>
         if dk_sectors d < MINIMUM_DISK_SECTORS then Some store
         else (case select_slot env d cfc primary_dimension storage_key of
           None \<Rightarrow> None
         | Some selected \<Rightarrow>
             (case read_checkpoints env d cfc primary_dimension storage_key [0..<CHECKPOINT_CAPACITY] of
               None \<Rightarrow> None
             | Some checkpoints \<Rightarrow>
                 (case read_baseline env d cfc primary_dimension storage_key of
                   None \<Rightarrow> None
                 | Some (baseline, baseline_lba) \<Rightarrow>
                     let store = store\<lparr>rs_device := Some d, rs_cfc := cfc, rs_cfc_name := cfc_name,
                           rs_primary_dimension := primary_dimension, rs_storage_key := storage_key, rs_checkpoints := checkpoints,
                           rs_baseline_lba := baseline_lba, rs_baseline := baseline\<rparr>
                     in Some (case selected of
                       None \<Rightarrow> store
                     | Some slot \<Rightarrow> store\<lparr>rs_snapshot := Some (dc_snapshot slot), rs_generation := dc_generation slot,
                         rs_active_slot := dc_slot slot\<rparr>)))))"

definition loaded_snapshot :: "runtime_store \<Rightarrow> cfc_fin \<Rightarrow> snapshot option" where
  "loaded_snapshot store cfc =
     (case rs_snapshot store of
       None \<Rightarrow> None
     | Some s \<Rightarrow> if rs_cfc store = cfc \<and> sn_form_graph_present s then Some s else None)"

definition current_snapshot :: "runtime_store \<Rightarrow> cfc_fin \<Rightarrow> snapshot option" where
  "current_snapshot store cfc = (if rs_cfc store = cfc then rs_snapshot store else None)"

section \<open>Model: commits\<close>

text \<open>Allocate the buffer, encode and write; the disk is returned on every path. \<open>None\<close> is a panic of the encoder.\<close>

definition write_snapshot ::
  "store_env \<Rightarrow> snapshot \<Rightarrow> u64 \<Rightarrow> u8 list option \<Rightarrow> nat \<Rightarrow> disk \<Rightarrow> ((store_error, u8 list) result \<times> disk) option" where
  "write_snapshot env s generation storage_key base d =
     (if \<not> se_heap env then Some (Err Unavailable, d)
      else (case encode_slot (se_aead env) s generation storage_key (of_nat base) of
        None \<Rightarrow> None
      | Some (Err e) \<Rightarrow> Some (Err e, d)
      | Some (Ok encoded) \<Rightarrow> (case write_at base encoded d of (Err e, d) \<Rightarrow> Some (Err e, d) | (Ok _, d) \<Rightarrow> Some (Ok encoded, d))))"

definition commit_locked :: "store_env \<Rightarrow> snapshot \<Rightarrow> runtime_store \<Rightarrow> ((store_error, u64) result \<times> runtime_store) option" where
  "commit_locked env s store =
     (case rs_device store of
       None \<Rightarrow> Some (Err Unavailable, store)
     | Some d \<Rightarrow>
         let generation = next_nonzero (rs_generation store); target_slot = rs_active_slot store XOR 1; base = slot_lba target_slot in
         (case write_snapshot env s generation (rs_storage_key store) base d of
           None \<Rightarrow> None
         | Some (Err e, d) \<Rightarrow> Some (Err e, store\<lparr>rs_device := Some d\<rparr>)
         | Some (Ok encoded, d) \<Rightarrow>
             (case verify_write base encoded d of
               Err e \<Rightarrow> Some (Err e, store\<lparr>rs_device := Some d\<rparr>)
             | Ok _ \<Rightarrow> Some (Ok generation, store\<lparr>rs_device := Some d, rs_snapshot := Some s, rs_generation := generation,
                 rs_active_slot := target_slot\<rparr>))))"

definition map_committed :: "('a \<Rightarrow> 'b) \<Rightarrow> ((store_error, 'a) result \<times> runtime_store) option \<Rightarrow> ((store_error, 'b) result \<times> runtime_store) option" where
  "map_committed f r = map_option (\<lambda>(r, store). (case r of Err e \<Rightarrow> Err e | Ok x \<Rightarrow> Ok (f x), store)) r"

definition commit :: "store_env \<Rightarrow> snapshot \<Rightarrow> runtime_store \<Rightarrow> ((store_error, u32) result \<times> runtime_store) option" where
  "commit env s store =
     (let s = s\<lparr>sn_form_graph_present := True\<rparr>;
          s = (case rs_snapshot store of
            None \<Rightarrow> s
          | Some current \<Rightarrow>
              let s = s\<lparr>sn_settings := sn_settings current, sn_accounts := sn_accounts current\<rparr> in
              if sn_journal_sequence s \<le> sn_journal_sequence current
              then s\<lparr>sn_journal_sequence := next_nonzero (sn_journal_sequence current)\<rparr> else s)
      in (case validate_snapshot s of
        Err e \<Rightarrow> Some (Err e, store)
      | Ok _ \<Rightarrow>
          if sn_cfc s \<noteq> rs_cfc store then Some (Err WrongCfc, store)
          else map_committed (\<lambda>_. sn_journal_sequence s) (commit_locked env s store)))"

definition snapshot_or_empty :: "runtime_store \<Rightarrow> snapshot" where
  "snapshot_or_empty store = (case rs_snapshot store of
     None \<Rightarrow> snapshot_empty (rs_cfc store) (rs_cfc_name store) (rs_primary_dimension store) | Some s \<Rightarrow> s)"

definition validate_and_commit :: "store_env \<Rightarrow> snapshot \<Rightarrow> runtime_store \<Rightarrow> ((store_error, u64) result \<times> runtime_store) option" where
  "validate_and_commit env s store =
     (case validate_snapshot s of Err e \<Rightarrow> Some (Err e, store) | Ok _ \<Rightarrow> commit_locked env s store)"

definition commit_system_records ::
  "store_env \<Rightarrow> u8 list \<Rightarrow> u8 list option \<Rightarrow> runtime_store \<Rightarrow> ((store_error, u64) result \<times> runtime_store) option" where
  "commit_system_records env settings accounts store =
     (if cfc_is_zero (rs_cfc store) \<or> is_zero (rs_primary_dimension store) then Some (Err Unavailable, store)
      else
        let s = snapshot_or_empty store in
        validate_and_commit env (s\<lparr>sn_settings := Some settings, sn_accounts := accounts,
          sn_journal_sequence := next_nonzero (sn_journal_sequence s)\<rparr>) store)"

text \<open>Creating or revising a named Form: the first Form of that name if its kind agrees, the first free slot otherwise; a new
  Form is also linked under the Root Form, when there is one and a relationship slot is free.\<close>

definition place_form :: "nat \<Rightarrow> text_t \<Rightarrow> form_kind \<Rightarrow> u8 list \<Rightarrow> snapshot \<Rightarrow> (fin \<times> u32 \<times> snapshot) option" where
  "place_form index name kind bytes s =
     (let (fin, revision, s) = (case sn_forms s ! index of
          Some stored \<Rightarrow> (f_fin (sf_form stored), next_nonzero (f_revision (sf_form stored)), s)
        | None \<Rightarrow> (from_u128 (0x464F524D000000000000000000000000 OR ucast (sn_next_fin s)), 1,
            s\<lparr>sn_next_fin := max (sn_next_fin s + 1) 2\<rparr>))
      in map_option (\<lambda>form. (fin, revision, s\<lparr>sn_forms := (sn_forms s)[index :=
           Some \<lparr>sf_form = form\<lparr>f_revision := revision\<rparr>, sf_content = from_bytes bytes\<rparr>]\<rparr>))
         (form_new fin (as_str name) kind))"

definition link_under_root :: "fin \<Rightarrow> snapshot \<Rightarrow> snapshot" where
  "link_under_root fin s =
     (case find (\<lambda>stored. f_kind (sf_form stored) = Root) (flatten (sn_forms s)) of
       None \<Rightarrow> s
     | Some root \<Rightarrow>
         (case fill_slot \<lparr>rel_source = f_fin (sf_form root), rel_target = fin, rel_kind = Contains,
             rel_dimension = Some (sn_primary_dimension s)\<rparr> (sn_relationships s) of
           None \<Rightarrow> s
         | Some slots \<Rightarrow> s\<lparr>sn_relationships := slots\<rparr>))"

definition save_named_form ::
  "store_env \<Rightarrow> cfc_fin \<Rightarrow> str \<Rightarrow> form_kind \<Rightarrow> u8 list \<Rightarrow> runtime_store \<Rightarrow> ((store_error, fin \<times> u32) result \<times> runtime_store) option" where
  "save_named_form env cfc name kind bytes store =
     (if length bytes > FORM_CONTENT_CAPACITY then Some (Err InvalidSnapshot, store)
      else (case text_new name of
        Err _ \<Rightarrow> Some (Err InvalidSnapshot, store)
      | Ok name \<Rightarrow>
          if rs_device store = None \<or> rs_cfc store \<noteq> cfc \<or> is_zero (rs_primary_dimension store) then Some (Err Unavailable, store)
          else
            let s = snapshot_or_empty store;
                named = position (\<lambda>entry. case entry of None \<Rightarrow> False | Some stored \<Rightarrow> f_name (sf_form stored) = name) (sn_forms s) in
            if (case named of None \<Rightarrow> False | Some index \<Rightarrow>
                 (case sn_forms s ! index of None \<Rightarrow> False | Some stored \<Rightarrow> f_kind (sf_form stored) \<noteq> kind))
            then Some (Err InvalidSnapshot, store)
            else (case (case named of None \<Rightarrow> position (\<lambda>entry. entry = None) (sn_forms s) | Some index \<Rightarrow> Some index) of
              None \<Rightarrow> Some (Err Full, store)
            | Some index \<Rightarrow>
                (case place_form index name kind bytes s of
                  None \<Rightarrow> None
                | Some (fin, revision, s) \<Rightarrow>
                    let s = (if named = None then link_under_root fin s else s);
                        s = s\<lparr>sn_journal_sequence := next_nonzero (sn_journal_sequence s)\<rparr> in
                    map_committed (\<lambda>_. (fin, revision)) (validate_and_commit env s store)))))"

definition is_text_name :: "str \<Rightarrow> bool" where
  "is_text_name name \<longleftrightarrow> list_ex (\<lambda>suffix. drop (length name - length suffix) name = suffix)
     [lit ''.txt'', lit ''.sys'', lit ''.py'', lit ''.rs'', lit ''.go'', lit ''.c'', lit ''.h'']"

definition save_data_form ::
  "store_env \<Rightarrow> cfc_fin \<Rightarrow> str \<Rightarrow> u8 list \<Rightarrow> runtime_store \<Rightarrow> ((store_error, fin \<times> u32) result \<times> runtime_store) option" where
  "save_data_form env cfc name bytes store = save_named_form env cfc name Data bytes store"

definition save_text_form ::
  "store_env \<Rightarrow> cfc_fin \<Rightarrow> str \<Rightarrow> u8 list \<Rightarrow> runtime_store \<Rightarrow> ((store_error, fin \<times> u32) result \<times> runtime_store) option" where
  "save_text_form env cfc name bytes store =
     (if \<not> is_text_name name then Some (Err InvalidSnapshot, store) else save_data_form env cfc name bytes store)"

definition save_executable_form ::
  "store_env \<Rightarrow> cfc_fin \<Rightarrow> str \<Rightarrow> u8 list \<Rightarrow> runtime_store \<Rightarrow> ((store_error, fin \<times> u32) result \<times> runtime_store) option" where
  "save_executable_form env cfc name bytes store =
     (case native_parse bytes of
       Err _ \<Rightarrow> Some (Err InvalidSnapshot, store)
     | Ok _ \<Rightarrow> save_named_form env cfc name Executable bytes store)"

text \<open>Loading: the first active Data Form that fits; \<open>None\<close> outside is a panic while its bytes are collected.\<close>

definition load_form :: "(stored_form \<Rightarrow> bool) \<Rightarrow> runtime_store \<Rightarrow> cfc_fin \<Rightarrow> stored_form option" where
  "load_form P store cfc =
     (case current_snapshot store cfc of
       None \<Rightarrow> None
     | Some s \<Rightarrow> find (\<lambda>stored. f_kind (sf_form stored) = Data \<and> f_lifecycle (sf_form stored) = Active \<and> P stored) (flatten (sn_forms s)))"

definition load_text_form :: "runtime_store \<Rightarrow> cfc_fin \<Rightarrow> (text_t \<times> u8 list \<times> nat) option option" where
  "load_text_form store cfc =
     (case load_form (\<lambda>stored. is_text_name (as_str (f_name (sf_form stored)))) store cfc of
       None \<Rightarrow> Some None
     | Some stored \<Rightarrow> map_option (\<lambda>bytes. Some (f_name (sf_form stored), bytes, sf_content_len stored)) (sf_bytes stored))"

definition load_data_form :: "runtime_store \<Rightarrow> cfc_fin \<Rightarrow> str \<Rightarrow> (u8 list \<times> nat) option option" where
  "load_data_form store cfc name =
     (case load_form (\<lambda>stored. as_str (f_name (sf_form stored)) = name) store cfc of
       None \<Rightarrow> Some None
     | Some stored \<Rightarrow> map_option (\<lambda>bytes. Some (bytes, sf_content_len stored)) (sf_bytes stored))"

definition system_records :: "runtime_store \<Rightarrow> u8 list option \<times> u8 list option" where
  "system_records store = (case rs_snapshot store of None \<Rightarrow> (None, None) | Some s \<Rightarrow> (sn_settings s, sn_accounts s))"

definition store_generation :: "runtime_store \<Rightarrow> u64 option" where
  "store_generation store = map_option (\<lambda>_. rs_generation store) (rs_snapshot store)"

definition store_available :: "runtime_store \<Rightarrow> bool" where
  "store_available store \<longleftrightarrow> rs_device store \<noteq> None"

section \<open>Model: checkpoints and the baseline\<close>

definition establish_baseline :: "store_env \<Rightarrow> runtime_store \<Rightarrow> ((store_error, baseline_info) result \<times> runtime_store) option" where
  "establish_baseline env store =
     (case rs_baseline store of
       Ready info \<Rightarrow> Some (Ok info, store)
     | Damaged \<Rightarrow> Some (Err BaselineDamaged, store)
     | Missing \<Rightarrow>
         (case rs_snapshot store of
           None \<Rightarrow> Some (Err NoCurrentState, store)
         | Some s \<Rightarrow>
             (case rs_device store of
               None \<Rightarrow> Some (Err Unavailable, store)
             | Some d \<Rightarrow>
                 let generation = max (rs_generation store) 1 in
                 (case write_snapshot env s generation (rs_storage_key store) BASELINE_LBA d of
                   None \<Rightarrow> None
                 | Some (Err e, d) \<Rightarrow> Some (Err e, store\<lparr>rs_device := Some d\<rparr>)
                 | Some (Ok encoded, d) \<Rightarrow>
                     (case verify_write BASELINE_LBA encoded d of
                       Err _ \<Rightarrow> Some (Err VerificationFailed, store\<lparr>rs_device := Some d, rs_baseline := Damaged\<rparr>)
                     | Ok _ \<Rightarrow>
                         let info = \<lparr>bi_generation = generation, bi_journal_sequence = sn_journal_sequence s\<rparr> in
                         Some (Ok info, store\<lparr>rs_device := Some d, rs_baseline := Ready info, rs_baseline_lba := BASELINE_LBA\<rparr>))))))"

text \<open>Restoring commits an older snapshot under the next journal sequence.\<close>

definition resume_sequence :: "runtime_store \<Rightarrow> snapshot \<Rightarrow> snapshot" where
  "resume_sequence store s = (case rs_snapshot store of
     None \<Rightarrow> s | Some current \<Rightarrow> s\<lparr>sn_journal_sequence := next_nonzero (sn_journal_sequence current)\<rparr>)"

definition restore_from :: "store_env \<Rightarrow> (store_error, decoded_slot) result option \<Rightarrow> runtime_store \<Rightarrow> ((store_error, u64) result \<times> runtime_store) option" where
  "restore_from env r store =
     (case r of
       None \<Rightarrow> None
     | Some (Err e) \<Rightarrow> Some (Err e, store)
     | Some (Ok dec) \<Rightarrow> commit_locked env (resume_sequence store (dc_snapshot dec)) store)"

definition restore_baseline :: "store_env \<Rightarrow> runtime_store \<Rightarrow> ((store_error, u64) result \<times> runtime_store) option" where
  "restore_baseline env store =
     (case rs_baseline store of
       Missing \<Rightarrow> Some (Err BaselineNotFound, store)
     | Damaged \<Rightarrow> Some (Err BaselineDamaged, store)
     | Ready _ \<Rightarrow>
         (case rs_device store of
           None \<Rightarrow> Some (Err Unavailable, store)
         | Some d \<Rightarrow> restore_from env
             (if rs_baseline_lba store = LEGACY_BASELINE_LBA then read_legacy_at env d (rs_baseline_lba store) 255 (rs_storage_key store)
              else read_at env d (rs_baseline_lba store) 255 (rs_storage_key store)) store))"

definition next_state_id :: "checkpoint_info slots \<Rightarrow> u64" where
  "next_state_id checkpoints = next_nonzero (case max_by_key ci_state_id (flatten checkpoints) of None \<Rightarrow> 0 | Some c \<Rightarrow> ci_state_id c)"

definition checkpoint_slot :: "checkpoint_info slots \<Rightarrow> nat option" where
  "checkpoint_slot checkpoints =
     (case position (\<lambda>entry. entry = None) checkpoints of
       Some index \<Rightarrow> Some index
     | None \<Rightarrow> map_option fst (min_by_key snd
         (flatten (map (\<lambda>(index, entry). map_option (\<lambda>c. (index, ci_state_id c)) entry) (enumerate 0 checkpoints)))))"

definition store_checkpoint :: "store_env \<Rightarrow> runtime_store \<Rightarrow> ((store_error, checkpoint_info) result \<times> runtime_store) option" where
  "store_checkpoint env store =
     (case rs_snapshot store of
       None \<Rightarrow> Some (Err NoCurrentState, store)
     | Some s \<Rightarrow>
         (case rs_device store of
           None \<Rightarrow> Some (Err Unavailable, store)
         | Some d \<Rightarrow>
             let state_id = next_state_id (rs_checkpoints store) in
             (case checkpoint_slot (rs_checkpoints store) of
               None \<Rightarrow> Some (Err VerificationFailed, store)
             | Some slot \<Rightarrow>
                 (case write_snapshot env s state_id (rs_storage_key store) (checkpoint_lba slot) d of
                   None \<Rightarrow> None
                 | Some (Err e, d) \<Rightarrow> Some (Err e, store\<lparr>rs_device := Some d\<rparr>)
                 | Some (Ok encoded, d) \<Rightarrow>
                     (case verify_write (checkpoint_lba slot) encoded d of
                       Err e \<Rightarrow> Some (Err e, store\<lparr>rs_device := Some d\<rparr>)
                     | Ok _ \<Rightarrow>
                         let checkpoint = \<lparr>ci_state_id = state_id, ci_journal_sequence = sn_journal_sequence s, ci_slot = of_nat slot,
                               ci_legacy = False\<rparr> in
                         Some (Ok checkpoint, store\<lparr>rs_device := Some d,
                           rs_checkpoints := (rs_checkpoints store)[slot := Some checkpoint]\<rparr>))))))"

definition restore_checkpoint :: "store_env \<Rightarrow> u64 \<Rightarrow> runtime_store \<Rightarrow> ((store_error, u64) result \<times> runtime_store) option" where
  "restore_checkpoint env state_id store =
     (case find (\<lambda>checkpoint. ci_state_id checkpoint = state_id) (flatten (rs_checkpoints store)) of
       None \<Rightarrow> Some (Err CheckpointNotFound, store)
     | Some c \<Rightarrow>
         (case rs_device store of
           None \<Rightarrow> Some (Err Unavailable, store)
         | Some d \<Rightarrow> restore_from env
             (if ci_legacy c
              then read_legacy_at env d (LEGACY_CHECKPOINT_LBA + unat (ci_slot c) * LEGACY_SLOT_SECTORS) (ci_slot c) (rs_storage_key store)
              else read_at env d (checkpoint_lba (unat (ci_slot c))) (ci_slot c) (rs_storage_key store)) store))"

section \<open>Model: blob streams\<close>

record blob_stream =
  bst_id :: u32
  bst_cfc :: cfc_fin
  bst_form :: fin
  bst_writable :: bool
  bst_base_revision :: u32
  bst_content :: chunked_blob

text \<open>The three statics of the module: the store, the table of open streams and the next stream identifier.\<close>

record store_state =
  ss_store :: runtime_store
  ss_streams :: "blob_stream slots"
  ss_next_stream_id :: u32

definition is_stream :: "cfc_fin \<Rightarrow> fin \<Rightarrow> u32 \<Rightarrow> blob_stream \<Rightarrow> bool" where
  "is_stream cfc form i stream \<longleftrightarrow> bst_id stream = i \<and> bst_cfc stream = cfc \<and> bst_form stream = form"

definition open_blob_stream :: "cfc_fin \<Rightarrow> fin \<Rightarrow> bool \<Rightarrow> store_state \<Rightarrow> (store_error, (u32 \<times> nat) \<times> store_state) result" where
  "open_blob_stream cfc form writable st =
     (case current_snapshot (ss_store st) cfc of
       None \<Rightarrow> Err Unavailable
     | Some s \<Rightarrow>
         (case find (\<lambda>stored. f_fin (sf_form stored) = form) (flatten (sn_forms s)) of
           None \<Rightarrow> Err StreamNotFound
         | Some stored \<Rightarrow>
             let i = max (ss_next_stream_id st) 1 in
             (case fill_slot \<lparr>bst_id = i, bst_cfc = cfc, bst_form = form, bst_writable = writable,
                 bst_base_revision = f_revision (sf_form stored), bst_content = sf_content stored\<rparr> (ss_streams st) of
               None \<Rightarrow> Err Full
             | Some streams \<Rightarrow> Ok ((i, sf_content_len stored),
                 st\<lparr>ss_streams := streams, ss_next_stream_id := ss_next_stream_id st + 1\<rparr>))))"

text \<open>The caller's buffer is an argument and comes back filled; \<open>None\<close> is a panic inside the blob.\<close>

definition read_blob_stream ::
  "cfc_fin \<Rightarrow> fin \<Rightarrow> u32 \<Rightarrow> nat \<Rightarrow> u8 list \<Rightarrow> store_state \<Rightarrow> (store_error, (nat \<times> nat) \<times> u8 list) result option" where
  "read_blob_stream cfc form i offset out st =
     (case find (is_stream cfc form i) (flatten (ss_streams st)) of
       None \<Rightarrow> Some (Err StreamNotFound)
     | Some stream \<Rightarrow> map_option (\<lambda>(n, out). Ok ((n, bl_len (bst_content stream)), out)) (blob_read (bst_content stream) offset out))"

definition write_blob_stream ::
  "cfc_fin \<Rightarrow> fin \<Rightarrow> u32 \<Rightarrow> nat \<Rightarrow> u8 list \<Rightarrow> store_state \<Rightarrow> (store_error, nat \<times> store_state) result option" where
  "write_blob_stream cfc form i offset bytes st =
     (case find (is_stream cfc form i) (flatten (ss_streams st)) of
       None \<Rightarrow> Some (Err StreamNotFound)
     | Some stream \<Rightarrow>
         if \<not> bst_writable stream then Some (Err StreamMode)
         else (case usize_add offset (length bytes) of
           None \<Rightarrow> Some (Err Full)
         | Some stop \<Rightarrow>
             if stop > FORM_CONTENT_CAPACITY then Some (Err Full)
             else (case blob_write offset bytes (bst_content stream) of
               None \<Rightarrow> None
             | Some (Err _) \<Rightarrow> Some (Err InvalidSnapshot)
             | Some (Ok content) \<Rightarrow> Some (Ok (stop, st\<lparr>ss_streams :=
                 update_first (is_stream cfc form i) (\<lambda>stream. stream\<lparr>bst_content := content\<rparr>) (ss_streams st)\<rparr>)))))"

definition abort_blob_stream :: "cfc_fin \<Rightarrow> fin \<Rightarrow> u32 \<Rightarrow> store_state \<Rightarrow> (store_error, store_state) result" where
  "abort_blob_stream cfc form i st =
     (if list_ex (is_stream cfc form i) (flatten (ss_streams st))
      then Ok (st\<lparr>ss_streams := clear_first (is_stream cfc form i) (ss_streams st)\<rparr>) else Err StreamNotFound)"

definition commit_blob_stream ::
  "store_env \<Rightarrow> cfc_fin \<Rightarrow> fin \<Rightarrow> u32 \<Rightarrow> store_state \<Rightarrow> ((store_error, u32 \<times> u64) result \<times> store_state) option" where
  "commit_blob_stream env cfc form i st =
     (case find (is_stream cfc form i) (flatten (ss_streams st)) of
       None \<Rightarrow> Some (Err StreamNotFound, st)
     | Some stream \<Rightarrow>
         let st = st\<lparr>ss_streams := clear_first (is_stream cfc form i) (ss_streams st)\<rparr> in
         if \<not> bst_writable stream then Some (Err StreamMode, st)
         else (case rs_snapshot (ss_store st) of
           None \<Rightarrow> Some (Err Unavailable, st)
         | Some s \<Rightarrow>
             (case find (\<lambda>stored. f_fin (sf_form stored) = form) (flatten (sn_forms s)) of
               None \<Rightarrow> Some (Err StreamNotFound, st)
             | Some stored \<Rightarrow>
                 if f_revision (sf_form stored) \<noteq> bst_base_revision stream then Some (Err StaleStream, st)
                 else
                   let revision = next_nonzero (f_revision (sf_form stored));
                       s = s\<lparr>sn_forms := update_first (\<lambda>stored. f_fin (sf_form stored) = form)
                             (\<lambda>stored. stored\<lparr>sf_form := (sf_form stored)\<lparr>f_revision := revision\<rparr>, sf_content := bst_content stream\<rparr>)
                             (sn_forms s),
                           sn_journal_sequence := next_nonzero (sn_journal_sequence s)\<rparr>
                   in map_option (\<lambda>(r, store). (case r of Err e \<Rightarrow> Err e | Ok generation \<Rightarrow> Ok (revision, generation), st\<lparr>ss_store := store\<rparr>))
                        (validate_and_commit env s (ss_store st)))))"

section \<open>Model: seeding from the installation plan\<close>

datatype encryption_profile = Unencrypted | Easy | Paranoid

fun persisted :: "encryption_profile \<Rightarrow> u8" where
  "persisted Unencrypted = 0"
| "persisted Easy = 1"
| "persisted Paranoid = 2"

text \<open>The fields of \<^verbatim>\<open>GenesisPlan\<close> that seeding reads; the graphics and render profiles are their \<^verbatim>\<open>u8\<close> codes.\<close>

record genesis_plan =
  gp_secondary_dimensions :: "(fin \<times> text_t) slots"
  gp_initial_apps :: u32
  gp_components :: u8
  gp_sdks :: u8
  gp_drivers :: u8
  gp_encryption :: encryption_profile
  gp_graphics :: u8
  gp_display_mode :: u8
  gp_render_profile :: u8

definition DRIVER_NETWORK :: u8 where "DRIVER_NETWORK = push_bit 0 1"

definition network_allowed :: "genesis_plan \<Rightarrow> bool" where
  "network_allowed plan \<longleftrightarrow> gp_drivers plan AND DRIVER_NETWORK \<noteq> 0 \<and> gp_encryption plan \<noteq> Paranoid"

definition trailing_zeros :: "u32 \<Rightarrow> nat" where
  "trailing_zeros w = length (takeWhile (\<lambda>i. \<not> bit w i) [0..<32])"

definition PLAN_FIN :: fin where "PLAN_FIN = from_u128 0x47454E45534953504C414E0000000001"

definition APPS_FIN :: fin where "APPS_FIN = from_u128 0x41594F41505053535441544500000001"

definition plan_bytes :: "genesis_plan \<Rightarrow> u8 list" where
  "plan_bytes plan = [0x47, 0x4E, 0x50, 0x33, gp_components plan, gp_sdks plan, gp_drivers plan, persisted (gp_encryption plan)] @
     to_le_bytes 4 (unat (gp_initial_apps plan)) @ [gp_graphics plan, gp_display_mode plan, gp_render_profile plan, 0]"

definition app_bytes :: "genesis_plan \<Rightarrow> u8 list" where
  "app_bytes plan = [0x41, 0x59, 0x4F, 0x31] @ to_le_bytes 4 (unat (gp_initial_apps plan)) @
     [of_nat (min (trailing_zeros (gp_initial_apps plan)) 29)] @ replicate 13 0"

text \<open>The Dimensions in their slots: the primary one first, the secondary ones behind it; \<open>None\<close> is a panic of \<^verbatim>\<open>Dimension::new\<close>.\<close>

definition plan_dimensions :: "fin \<Rightarrow> text_t \<Rightarrow> genesis_plan \<Rightarrow> dimension slots option" where
  "plan_dimensions primary primary_name plan =
     (let dims = map (\<lambda>(fin, name). dimension_new fin (as_str name) True)
            ((primary, primary_name) # take (MAX_STORED_DIMENSIONS - 1) (flatten (gp_secondary_dimensions plan)))
      in if None \<in> set dims then None else Some (dims @ empty_slots (MAX_STORED_DIMENSIONS - length dims)))"

definition plan_forms :: "genesis_plan \<Rightarrow> stored_form slots option" where
  "plan_forms plan =
     (case (form_new PLAN_FIN (lit ''GenesisPlan.state'') Policy, form_new APPS_FIN (lit ''AyoApps.state'') Data) of
       (Some plan_form, Some apps_form) \<Rightarrow> Some (
         Some \<lparr>sf_form = plan_form\<lparr>f_revision := 1\<rparr>, sf_content = from_bytes (plan_bytes plan)\<rparr> #
         Some \<lparr>sf_form = apps_form\<lparr>f_revision := 1\<rparr>, sf_content = from_bytes (app_bytes plan)\<rparr> #
         empty_slots (MAX_STORED_FORMS - 2))
     | _ \<Rightarrow> None)"

definition seed_genesis_plan ::
  "store_env \<Rightarrow> text_t \<Rightarrow> genesis_plan \<Rightarrow> runtime_store \<Rightarrow> ((store_error, u64) result \<times> runtime_store) option" where
  "seed_genesis_plan env primary_name plan store =
     (if rs_device store = None \<or> cfc_is_zero (rs_cfc store) \<or> is_zero (rs_primary_dimension store) then Some (Err Unavailable, store)
      else if rs_snapshot store \<noteq> None then Some (Ok (rs_generation store), store)
      else (case (plan_dimensions (rs_primary_dimension store) primary_name plan, plan_forms plan) of
        (Some dimensions, Some forms) \<Rightarrow>
          validate_and_commit env ((snapshot_empty (rs_cfc store) (rs_cfc_name store) (rs_primary_dimension store))\<lparr>
            sn_dimensions := dimensions, sn_network_policy := (if network_allowed plan then Restricted else Disabled),
            sn_forms := forms, sn_journal_sequence := 2\<rparr>) store
      | _ \<Rightarrow> None))"

section \<open>Writing and reading sectors\<close>

definition disk_ok :: "disk \<Rightarrow> bool" where
  "disk_ok d \<longleftrightarrow> MINIMUM_DISK_SECTORS \<le> dk_sectors d \<and> (\<forall>lba. length (dk_data d lba) = SECTOR_SIZE \<and> dk_readable d lba)"

lemmas lba_defs = MINIMUM_DISK_SECTORS_def BASELINE_LBA_def CHECKPOINT_LBA_def SLOT_B_LBA_def SLOT_A_LBA_def LEGACY_SLOT_B_LBA_def
  LEGACY_SLOT_SECTORS_def CHECKPOINT_CAPACITY_def SLOT_SECTORS_def

lemma read_sector_ok: "disk_ok d \<Longrightarrow> lba < MINIMUM_DISK_SECTORS \<Longrightarrow> read_sector lba d = Ok (dk_data d lba)"
  by (simp add: read_sector_def disk_ok_def lba_defs)

text \<open>The contents after some sectors of a buffer were written.\<close>

definition written :: "nat \<Rightarrow> u8 list \<Rightarrow> nat list \<Rightarrow> (nat \<Rightarrow> u8 list) \<Rightarrow> nat \<Rightarrow> u8 list" where
  "written base buffer is data = (\<lambda>lba. if \<exists>i\<in>set is. lba = base + i then slice ((lba - base) * SECTOR_SIZE) SECTOR_SIZE buffer else data lba)"

lemma written_Nil [simp]: "written base buffer [] data = data"
  by (simp add: written_def)

lemma written_Cons:
  "written base buffer is (data(base + i := slice (i * SECTOR_SIZE) SECTOR_SIZE buffer)) = written base buffer (i # is) data"
  by (rule ext) (auto simp: written_def)

text \<open>A disk on which nothing fails.\<close>

definition disk_healthy :: "disk \<Rightarrow> bool" where
  "disk_healthy d \<longleftrightarrow> (\<forall>n. dk_transfers d n = Transferred \<and> dk_flushes d n = None)"

text \<open>One write: the sector is on the disk or not, and it is when the call succeeds.\<close>

lemma write_sector_outcome:
  assumes "lba < dk_sectors d \<and> lba \<le> 0x0FFFFFFF"
  shows "\<exists>b t f r. write_sector lba sector d =
      (r, d\<lparr>dk_data := (if b then (dk_data d)(lba := sector) else dk_data d), dk_transfers := t, dk_flushes := f\<rparr>)
    \<and> (r = Ok () \<longrightarrow> b) \<and> (disk_healthy d \<longrightarrow> r = Ok () \<and> (\<forall>n. t n = Transferred \<and> f n = None))"
proof (cases "dk_transfers d 0")
  case Transferred
  then show ?thesis using assms
    by (intro exI [of _ True] exI [of _ "dk_transfers d \<circ> Suc"] exI [of _ "dk_flushes d \<circ> Suc"]
      exI [of _ "case dk_flushes d 0 of None \<Rightarrow> Ok () | Some e \<Rightarrow> Err e"])
      (simp add: write_sector_def write_sector_unflushed_def disk_flush_def disk_healthy_def)
next
  case (NotTransferred e)
  then have "\<not> disk_healthy d" unfolding disk_healthy_def by (metis transfer_fate.distinct(1))
  then show ?thesis using assms NotTransferred
    by (intro exI [of _ False] exI [of _ "dk_transfers d \<circ> Suc"] exI [of _ "dk_flushes d"] exI [of _ "Err e"])
      (simp add: write_sector_def write_sector_unflushed_def)
next
  case (TransferredLate e)
  then have "\<not> disk_healthy d" unfolding disk_healthy_def by (metis transfer_fate.distinct(3))
  then show ?thesis using assms TransferredLate
    by (intro exI [of _ True] exI [of _ "dk_transfers d \<circ> Suc"] exI [of _ "dk_flushes d"] exI [of _ "Err e"])
      (simp add: write_sector_def write_sector_unflushed_def)
qed

text \<open>A run of writes: a prefix of the sectors is on the disk, all of them when the call succeeds.\<close>

lemma write_sectors_prefix:
  assumes "\<And>i. i \<in> set is \<Longrightarrow> base + i < dk_sectors d \<and> base + i \<le> 0x0FFFFFFF"
  shows "\<exists>k t f r. write_sectors base buffer is d =
      (r, d\<lparr>dk_data := written base buffer (take k is) (dk_data d), dk_transfers := t, dk_flushes := f\<rparr>)
    \<and> k \<le> length is \<and> (r = Ok () \<longrightarrow> k = length is) \<and> (disk_healthy d \<longrightarrow> r = Ok ())"
  using assms
proof (induction "is" arbitrary: d)
  case (Cons i "is")
  let ?sector = "slice (i * SECTOR_SIZE) SECTOR_SIZE buffer"
  obtain b t f r where w: "write_sector (base + i) ?sector d =
      (r, d\<lparr>dk_data := (if b then (dk_data d)(base + i := ?sector) else dk_data d), dk_transfers := t, dk_flushes := f\<rparr>)"
    and r: "r = Ok () \<longrightarrow> b" "disk_healthy d \<longrightarrow> r = Ok () \<and> (\<forall>n. t n = Transferred \<and> f n = None)"
    using write_sector_outcome [of "base + i" d ?sector] Cons.prems [of i] by auto
  show ?case
  proof (cases r)
    case (Inl e)
    then have "\<not> disk_healthy d" using r(2) by auto
    then show ?thesis using Inl w
      by (intro exI [of _ "if b then 1 else 0"] exI [of _ t] exI [of _ f] exI [of _ "Err (Disk e)"])
        (auto simp: written_Cons [of base buffer "[]", simplified])
  next
    case (Inr u)
    define d1 where "d1 = d\<lparr>dk_data := (dk_data d)(base + i := ?sector), dk_transfers := t, dk_flushes := f\<rparr>"
    have step: "write_sectors base buffer (i # is) d = write_sectors base buffer is d1" using Inr w r(1) by (simp add: d1_def)
    have healthy: "disk_healthy d \<Longrightarrow> disk_healthy d1" using r(2) by (simp add: disk_healthy_def [of d1]) (simp add: d1_def)
    have "\<And>i. i \<in> set is \<Longrightarrow> base + i < dk_sectors d1 \<and> base + i \<le> 0x0FFFFFFF" using Cons.prems by (simp add: d1_def)
    from Cons.IH [OF this] obtain k t' f' r' where "write_sectors base buffer is d1 =
        (r', d1\<lparr>dk_data := written base buffer (take k is) (dk_data d1), dk_transfers := t', dk_flushes := f'\<rparr>)"
      "k \<le> length is" "r' = Ok () \<longrightarrow> k = length is" "disk_healthy d1 \<longrightarrow> r' = Ok ()" by blast
    then show ?thesis unfolding step using healthy
      by (intro exI [of _ "Suc k"] exI [of _ t'] exI [of _ f'] exI [of _ r']) (simp add: d1_def written_Cons)
  qed
next
  case Nil
  show ?case by (intro exI [of _ 0] exI [of _ "dk_transfers d"] exI [of _ "dk_flushes d"] exI [of _ "Ok ()"]) simp
qed

lemma write_order_eq:
  assumes "0 < n"
  shows "write_order n = [1..<n] @ [0]"
proof (rule nth_equalityI)
  fix i assume "i < length (write_order n)"
  then have "i < n" by (simp add: write_order_def)
  then consider "Suc i < n" | "Suc i = n" by linarith
  then show "write_order n ! i = ([1..<n] @ [0]) ! i" by cases (auto simp: write_order_def nth_append)
qed (use assms in \<open>simp add: write_order_def\<close>)

text \<open>An interrupted write leaves the header sector alone, a finished one has written every sector, and no other sector changes.\<close>

lemma written_facts:
  assumes "0 < n" and "k \<le> n"
  shows "k < n \<Longrightarrow> written base buffer (take k (write_order n)) data base = data base"
    and "k = n \<Longrightarrow> i < n \<Longrightarrow> written base buffer (take k (write_order n)) data (base + i) = slice (i * SECTOR_SIZE) SECTOR_SIZE buffer"
    and "lba < base \<or> base + n \<le> lba \<Longrightarrow> written base buffer (take k (write_order n)) data lba = data lba"
proof -
  have "0 \<notin> set (take k (write_order n))" if "k < n" using that assms by (auto simp: write_order_eq dest: in_set_takeD)
  then show "k < n \<Longrightarrow> written base buffer (take k (write_order n)) data base = data base" by (simp add: written_def)
  have "set (write_order n) = {0..<n}" using assms(1) by (auto simp: write_order_eq)
  moreover have "length (write_order n) = n" by (simp add: write_order_def)
  ultimately show "k = n \<Longrightarrow> i < n \<Longrightarrow> written base buffer (take k (write_order n)) data (base + i) = slice (i * SECTOR_SIZE) SECTOR_SIZE buffer"
    by (simp add: written_def)
  show "lba < base \<or> base + n \<le> lba \<Longrightarrow> written base buffer (take k (write_order n)) data lba = data lba"
    using \<open>set (write_order n) = {0..<n}\<close> by (auto simp: written_def dest!: in_set_takeD)
qed

lemma read_sectors_ok:
  "disk_ok d \<Longrightarrow> (\<And>i. i \<in> set is \<Longrightarrow> base + i < MINIMUM_DISK_SECTORS) \<Longrightarrow>
     read_sectors base is d = Ok (concat (map (\<lambda>i. dk_data d (base + i)) is))"
  by (induction "is") (auto simp: read_sector_ok)

lemma read_sectors_cong:
  "(\<And>i. i \<in> set is \<Longrightarrow> read_sector (base + i) d = read_sector (base + i) d') \<Longrightarrow> read_sectors base is d = read_sectors base is d'"
  by (induction "is") (auto split: sum.splits)

lemma slot_sectors: "n \<le> SLOT_LEN \<Longrightarrow> div_ceil n SECTOR_SIZE \<le> SLOT_SECTORS"
  by (simp add: div_ceil_def SLOT_LEN_def SECTOR_SIZE_def SLOT_SECTORS_def)

lemma read_at_cong:
  assumes "\<And>i. i < SLOT_SECTORS \<Longrightarrow> read_sector (base + i) d = read_sector (base + i) d'"
  shows "read_at env d base slot key = read_at env d' base slot key"
proof -
  have "read_sector base d = read_sector base d'" using assms [of 0] by (simp add: SLOT_SECTORS_def)
  moreover have "read_sectors base [1..<div_ceil (HEADER_LEN + n) SECTOR_SIZE] d = read_sectors base [1..<div_ceil (HEADER_LEN + n) SECTOR_SIZE] d'"
    if "\<not> SLOT_LEN - HEADER_LEN < n" for n
  proof (rule read_sectors_cong)
    fix i assume "i \<in> set [1..<div_ceil (HEADER_LEN + n) SECTOR_SIZE]"
    then have "i < SLOT_SECTORS" using that slot_sectors [of "HEADER_LEN + n"]
      by (simp add: SLOT_LEN_def SECTOR_SIZE_def SLOT_SECTORS_def HEADER_LEN_def)
    then show "read_sector (base + i) d = read_sector (base + i) d'" by (rule assms)
  qed
  ultimately show ?thesis unfolding read_at_def by (auto simp: Let_def split: sum.splits)
qed

text \<open>Cutting a buffer into sectors and joining them again.\<close>

lemma concat_slices: "concat (map (\<lambda>i. slice (i * c) c xs) [0..<n]) = take (n * c) xs"
proof (induction n)
  case (Suc n)
  have "take (n * c + c) xs = take (n * c) xs @ take c (drop (n * c) xs)" by (rule take_add)
  then show ?case using Suc by (simp add: slice_def add.commute)
qed simp

lemma read_at_image:
  assumes disk: "disk_ok d" and heap: "se_heap env" and base: "base + SLOT_SECTORS \<le> MINIMUM_DISK_SECTORS"
    and len: "HEADER_LEN \<le> length encoded" "length encoded \<le> SLOT_LEN"
    and header: "take 8 encoded = MAGIC" "get_le 2 encoded 10 = HEADER_LEN" "get_le 4 encoded 12 = length encoded - HEADER_LEN"
    and data: "\<And>i. i < div_ceil (length encoded) SECTOR_SIZE \<Longrightarrow>
      dk_data d (base + i) = slice (i * SECTOR_SIZE) SECTOR_SIZE (slot_buffer encoded)"
  shows "read_at env d base slot key = decoded_result (decode_slot (se_aead env) encoded slot key (of_nat base))"
proof -
  define n where "n = div_ceil (length encoded) SECTOR_SIZE"
  have n: "n \<le> SLOT_SECTORS" "0 < n" "length encoded \<le> n * SECTOR_SIZE"
    using slot_sectors [OF len(2)] len(1) by (auto simp: n_def div_ceil_def HEADER_LEN_def SECTOR_SIZE_def)
  have head: "dk_data d base = take SECTOR_SIZE (slot_buffer encoded)" using data [of 0] n(2) by (simp add: n_def slice_def)
  have "base < MINIMUM_DISK_SECTORS" using base by (simp add: SLOT_SECTORS_def)
  then have first: "read_sector base d = Ok (dk_data d base)" using disk by (rule read_sector_ok [rotated])
  have "read_sectors base [1..<n] d = Ok (concat (map (\<lambda>i. dk_data d (base + i)) [1..<n]))"
    using base n(1) by (intro read_sectors_ok disk) simp
  also have "map (\<lambda>i. dk_data d (base + i)) [1..<n] = map (\<lambda>i. slice (i * SECTOR_SIZE) SECTOR_SIZE (slot_buffer encoded)) [1..<n]"
    using data by (simp add: n_def)
  finally have rest: "read_sectors base [1..<n] d = Ok (concat (map (\<lambda>i. slice (i * SECTOR_SIZE) SECTOR_SIZE (slot_buffer encoded)) [1..<n]))" .
  have "[0..<n] = 0 # [1..<n]" using n(2) by (simp add: upt_conv_Cons)
  then have join: "dk_data d base @ concat (map (\<lambda>i. slice (i * SECTOR_SIZE) SECTOR_SIZE (slot_buffer encoded)) [1..<n]) =
      take (n * SECTOR_SIZE) (slot_buffer encoded)"
    using concat_slices [of SECTOR_SIZE "slot_buffer encoded" n] head by (simp add: slice_def)
  have fields: "take 8 (dk_data d base) = MAGIC" "get_le 2 (dk_data d base) 10 = HEADER_LEN"
      "get_le 4 (dk_data d base) 12 = length encoded - HEADER_LEN"
    using header len(1) unfolding head slot_buffer_def get_le_def
    by (simp_all add: slice_def take_drop min_def SECTOR_SIZE_def HEADER_LEN_def)
  have total: "HEADER_LEN + (length encoded - HEADER_LEN) = length encoded" using len(1) by simp
  have cut: "take (length encoded) (take (n * SECTOR_SIZE) (slot_buffer encoded)) = encoded"
    using n(3) by (simp add: slot_buffer_def min_def)
  have small: "\<not> SLOT_LEN - HEADER_LEN < length encoded - HEADER_LEN" using len(2) by simp
  show ?thesis unfolding read_at_def first sum.case fields total Let_def n_def [symmetric] rest join cut
    using heap small by simp
qed

lemma verify_sectors_ok:
  assumes "disk_ok d" and "\<And>i. i \<in> set is \<Longrightarrow> base + i < MINIMUM_DISK_SECTORS \<and>
    dk_data d (base + i) = slice (i * SECTOR_SIZE) SECTOR_SIZE (slot_buffer encoded)"
  shows "verify_sectors base encoded is d = Ok ()"
  using assms(2) by (induction "is") (auto simp: read_sector_ok [OF assms(1)] Let_def slice_def)

text \<open>The generation of a decoded slot is the one in its header sector.\<close>

lemma decode_slot_header:
  assumes "decode_slot aead encoded slot key nd = Ok dec"
  shows "take 8 encoded = MAGIC" "dc_generation dec = of_nat (get_le 8 encoded 16)" "dc_slot dec = slot"
proof -
  have "take 8 encoded = MAGIC \<and> dc_generation dec = of_nat (get_le 8 encoded 16) \<and> dc_slot dec = slot"
    using assms unfolding decode_slot_def Let_def and_then_def
    by (auto split: if_splits sum.splits option.splits)
  then show "take 8 encoded = MAGIC" "dc_generation dec = of_nat (get_le 8 encoded 16)" "dc_slot dec = slot" by blast+
qed

lemma decoded_result_Ok: "decoded_result r = Some (Ok dec) \<longleftrightarrow> r = Ok dec"
  by (auto simp: decoded_result_def split: sum.splits decode_stop.splits)

lemma take_header:
  assumes "length h = SECTOR_SIZE" and "HEADER_LEN \<le> n"
  shows "take 8 (take n (h @ rest)) = take 8 h" and "get_le 8 (take n (h @ rest)) 16 = get_le 8 h 16"
  using assms by (simp_all add: get_le_def slice_def take_drop min_def SECTOR_SIZE_def HEADER_LEN_def)

lemma read_at_generation:
  assumes "disk_ok d" and "base < MINIMUM_DISK_SECTORS" and "read_at env d base slot key = Some (Ok dec)"
  shows "take 8 (dk_data d base) = MAGIC" "dc_generation dec = of_nat (get_le 8 (dk_data d base) 16)" "dc_slot dec = slot"
proof -
  have len: "length (dk_data d base) = SECTOR_SIZE" using assms(1) by (simp add: disk_ok_def)
  obtain rest where rest: "decode_slot (se_aead env) (take (HEADER_LEN + get_le 4 (dk_data d base) 12) (dk_data d base @ rest)) slot key (of_nat base) = Ok dec"
    using assms(3) unfolding read_at_def read_sector_ok [OF assms(1,2)]
    by (auto simp: Let_def decoded_result_Ok split: if_splits sum.splits)
  have "HEADER_LEN \<le> HEADER_LEN + get_le 4 (dk_data d base) 12" by simp
  note header = take_header [OF len this, of rest]
  show "take 8 (dk_data d base) = MAGIC" "dc_generation dec = of_nat (get_le 8 (dk_data d base) 16)" "dc_slot dec = slot"
    using decode_slot_header [OF rest] unfolding header by blast+
qed

lemma read_legacy_at_generation:
  assumes "disk_ok d" and "base + LEGACY_SLOT_SECTORS \<le> MINIMUM_DISK_SECTORS" and "read_legacy_at env d base slot key = Some (Ok dec)"
  shows "take 8 (dk_data d base) = MAGIC" "dc_generation dec = of_nat (get_le 8 (dk_data d base) 16)" "dc_slot dec = slot"
proof -
  have len: "length (dk_data d base) = SECTOR_SIZE" using assms(1) by (simp add: disk_ok_def)
  have "read_sectors base [0..<LEGACY_SLOT_SECTORS] d = Ok (concat (map (\<lambda>i. dk_data d (base + i)) [0..<LEGACY_SLOT_SECTORS]))"
    using assms(2) by (intro read_sectors_ok assms(1)) simp
  moreover have "[0..<LEGACY_SLOT_SECTORS] = 0 # [1..<LEGACY_SLOT_SECTORS]" by (simp add: LEGACY_SLOT_SECTORS_def upt_conv_Cons)
  ultimately obtain rest where "read_sectors base [0..<LEGACY_SLOT_SECTORS] d = Ok (dk_data d base @ rest)" by simp
  then have rest: "decode_slot (se_aead env) (dk_data d base @ rest) slot key (of_nat base) = Ok dec"
    using assms(3) by (simp add: read_legacy_at_def decoded_result_Ok)
  have "HEADER_LEN \<le> length (dk_data d base @ rest)" using len by (simp add: HEADER_LEN_def SECTOR_SIZE_def)
  note header = take_header [OF len this, of rest, unfolded take_all [OF order.refl]]
  show "take 8 (dk_data d base) = MAGIC" "dc_generation dec = of_nat (get_le 8 (dk_data d base) 16)" "dc_slot dec = slot"
    using decode_slot_header [OF rest] unfolding header by blast+
qed

lemma encoded_image:
  assumes typed: "snapshot_whole s" and valid: "validate_snapshot s = Ok ()" and aead: "aead_correct aead"
    and enc: "encode_slot aead s g key nd = Some (Ok encoded)"
  shows "HEADER_LEN \<le> length encoded" "length encoded \<le> SLOT_LEN" "take 8 encoded = MAGIC" "get_le 2 encoded 10 = HEADER_LEN"
    "get_le 4 encoded 12 = length encoded - HEADER_LEN" "get_le 8 encoded 16 = unat g"
proof -
  have cfc: "length (cfc_fin_bytes (sn_cfc s)) = 16" using typed by (simp add: snapshot_whole_iff)
  have small: "length (payload_wire s) < 2 ^ 32" using encoded_payload(3) [OF typed valid] .
  obtain flags mac body where image: "length flags = 4" "length mac = 16" "length body = length (payload_wire s)"
    "encoded = header48 s g (length (payload_wire s)) flags @ mac @ body"
  proof (cases rule: encode_slot_cases [OF typed valid aead, of key g nd, case_names clear sealed failed])
    case clear
    then have "encoded = clear_image s g" using enc by simp
    then show ?thesis using that [of "[0, 0, 0, 0]" "clear_mac (header48 s g (length (payload_wire s)) [0, 0, 0, 0]) (payload_wire s)" "payload_wire s"]
      by (simp add: clear_image_def Let_def) (simp add: clear_mac_def Let_def)
  next
    case (sealed k ct tag)
    have "length ct = length (payload_wire s)" "length tag = 16" using aead sealed(2) unfolding aead_correct_def by blast+
    then show ?thesis using that [of "[1, 1, 0, 0]" tag ct] sealed(3) enc by simp
  next
    case failed
    then show ?thesis using enc by simp
  qed
  note fields = header_fields [OF cfc image(1,2) small image(4)]
  show "take 8 encoded = MAGIC" "get_le 2 encoded 10 = HEADER_LEN" "get_le 8 encoded 16 = unat g" by (fact fields)+
  have len: "length encoded = HEADER_LEN + length (payload_wire s)" using fields(15) image(3) by simp
  show "HEADER_LEN \<le> length encoded" "length encoded \<le> SLOT_LEN" unfolding len using payload_fits [OF typed valid] by simp_all
  show "get_le 4 encoded 12 = length encoded - HEADER_LEN" unfolding len fields(5) by simp
qed

end
