(* ===== verification/Durability.thy ===== *)
theory Durability
  imports Store
begin

text \<open>
  Crash safety of the ExpFS store: whatever the number of sectors a commit has put on the disk when it is interrupted, boot selects the
  old snapshot as long as the header sector, the last one, is not among them, and the new one as soon as it is.
\<close>

unbundle bit_operations_syntax

section \<open>The choice at boot\<close>

definition older :: "u64 \<Rightarrow> u64 \<Rightarrow> bool" where
  "older h g \<longleftrightarrow> h \<noteq> g \<and> g - h < push_bit 63 1"

lemma older_asym:
  assumes "older h g"
  shows "\<not> h - g < push_bit 63 1"
proof -
  have half: "unat (push_bit 63 1 :: u64) = 2 ^ 63" by (simp add: push_bit_eq_mult)
  have "unat g \<noteq> unat h" using assms by (auto simp: older_def dest: word_unat_eq_iff [THEN iffD2])
  moreover have "unat (g - h) < 2 ^ 63" using assms half by (simp add: older_def word_less_nat_alt)
  moreover have "unat g < 2 ^ LENGTH(64)" "unat h < 2 ^ LENGTH(64)" by (rule unsigned_less)+
  ultimately have "2 ^ 63 \<le> unat (h - g)"
    using unat_sub_if_size [of h g] unat_sub_if_size [of g h] by (simp add: word_size split: if_splits)
  then show ?thesis using half by (simp add: word_less_nat_alt)
qed

lemma newest_older:
  assumes "older (dc_generation b) (dc_generation a)"
  shows "newest (Some a) (Some b) = Some a" and "newest (Some b) (Some a) = Some a"
  using assms older_asym [OF assms] by (auto simp: newest_def older_def)

lemma older_next: "older g (next_nonzero g)"
proof (cases "g + 1 = 0")
  case True
  then have "g = - 1" by (simp add: eq_neg_iff_add_eq_0)
  then show ?thesis by (simp add: next_nonzero_def older_def push_bit_eq_mult)
next
  case False
  then have "0 < unat (g + 1)" by (simp add: unat_gt_0)
  then have "1 \<le> g + 1" unfolding word_le_nat_alt by simp
  then have "next_nonzero g = g + 1" by (simp only: next_nonzero_def max_absorb1)
  then show ?thesis by (simp add: older_def)
qed

text \<open>The slot that is not active holds, if anything, a header of an older generation.\<close>

definition header_older :: "disk \<Rightarrow> nat \<Rightarrow> u64 \<Rightarrow> bool" where
  "header_older d lba g \<longleftrightarrow> (take 8 (dk_data d lba) = MAGIC \<longrightarrow> older (of_nat (get_le 8 (dk_data d lba) 16)) g)"

text \<open>The legacy place of slot B lies inside slot A; nothing there looks like a slot.\<close>

definition legacy_clear :: "disk \<Rightarrow> bool" where
  "legacy_clear d \<longleftrightarrow> take 8 (dk_data d LEGACY_SLOT_B_LBA) \<noteq> MAGIC"

lemma slot_lba_bounds: "slot_lba slot + SLOT_SECTORS \<le> MINIMUM_DISK_SECTORS"
  by (simp add: slot_lba_def lba_defs)

lemma slot_lba_fits: "slot_lba slot < MINIMUM_DISK_SECTORS"
  using slot_lba_bounds [of slot] by (simp add: SLOT_SECTORS_def)

lemma candidate_older:
  assumes disk: "disk_ok d" and idle: "header_older d (slot_lba slot) g" and legacy: "slot \<noteq> 0 \<Longrightarrow> legacy_clear d"
    and cand: "read_candidate env d cfc dim key slot = Some (Some dec)"
  shows "older (dc_generation dec) g"
proof -
  consider "read_slot env d slot key = Some (Ok dec)" | "read_legacy_slot env d slot key = Some (Ok dec)"
    using cand by (auto simp: read_candidate_def or_else_def split: option.splits sum.splits if_splits)
  then show ?thesis
  proof cases
    case 1
    then show ?thesis using read_at_generation [OF disk slot_lba_fits, of env slot slot key dec] idle
      by (simp add: read_slot_def header_older_def)
  next
    case 2
    show ?thesis
    proof (cases "slot = 0")
      case True
      have "SLOT_A_LBA + LEGACY_SLOT_SECTORS \<le> MINIMUM_DISK_SECTORS" by (simp add: lba_defs)
      from read_legacy_at_generation [OF disk this, of env slot key dec] show ?thesis
        using 2 idle True by (simp add: read_legacy_slot_def header_older_def slot_lba_def)
    next
      case False
      have "LEGACY_SLOT_B_LBA + LEGACY_SLOT_SECTORS \<le> MINIMUM_DISK_SECTORS" by (simp add: lba_defs)
      from read_legacy_at_generation [OF disk this, of env slot key dec] show ?thesis
        using 2 legacy False by (simp add: read_legacy_slot_def legacy_clear_def)
    qed
  qed
qed

lemma candidate_active:
  assumes "read_slot env d slot key = Some (Ok dec)" and "sn_cfc (dc_snapshot dec) = cfc" and "sn_primary_dimension (dc_snapshot dec) = dim"
  shows "read_candidate env d cfc dim key slot = Some (Some dec)"
  using assms by (simp add: read_candidate_def or_else_def)

text \<open>Boot selects the active slot when the other candidate is older or none; the decoder may still panic on the other slot.\<close>

lemma select_active:
  assumes "slot \<in> {0, 1}" and "read_candidate env d cfc dim key slot = Some (Some dec)" and "dc_generation dec = g"
    and "\<And>other. read_candidate env d cfc dim key (slot XOR 1) = Some (Some other) \<Longrightarrow> older (dc_generation other) g"
  shows "read_candidate env d cfc dim key (slot XOR 1) = None \<or> select_slot env d cfc dim key = Some (Some dec)"
proof (cases "read_candidate env d cfc dim key (slot XOR 1)")
  case (Some c)
  have "newest (Some dec) c = Some dec \<and> newest c (Some dec) = Some dec"
  proof (cases c)
    case None
    then show ?thesis by (simp add: newest_def)
  next
    case (Some other)
    then show ?thesis using newest_older [of other dec] assms(3,4) \<open>read_candidate env d cfc dim key (slot XOR 1) = Some c\<close> by simp
  qed
  then show ?thesis using assms(1,2) Some by (auto simp: select_slot_def)
qed simp

text \<open>What holds between commits: the active slot reads back as the snapshot, under the running generation, and nothing else on
  the disk outranks it.\<close>

definition durable :: "store_env \<Rightarrow> runtime_store \<Rightarrow> snapshot \<Rightarrow> bool" where
  "durable env st s \<longleftrightarrow> (\<exists>d. rs_device st = Some d \<and> disk_ok d \<and> rs_active_slot st \<in> {0, 1} \<and>
     read_slot env d (rs_active_slot st) (rs_storage_key st) =
       Some (Ok \<lparr>dc_snapshot = s, dc_generation = rs_generation st, dc_slot = rs_active_slot st\<rparr>) \<and>
     sn_cfc s = rs_cfc st \<and> sn_primary_dimension s = rs_primary_dimension st \<and>
     header_older d (slot_lba (rs_active_slot st XOR 1)) (rs_generation st) \<and>
     (rs_active_slot st = 0 \<longrightarrow> legacy_clear d))"

lemma durable_select:
  assumes "durable env st s" and "rs_device st = Some d"
  shows "read_candidate env d (rs_cfc st) (rs_primary_dimension st) (rs_storage_key st) (rs_active_slot st XOR 1) = None \<or>
    select_slot env d (rs_cfc st) (rs_primary_dimension st) (rs_storage_key st) =
      Some (Some \<lparr>dc_snapshot = s, dc_generation = rs_generation st, dc_slot = rs_active_slot st\<rparr>)"
proof -
  let ?dec = "\<lparr>dc_snapshot = s, dc_generation = rs_generation st, dc_slot = rs_active_slot st\<rparr>"
  have inv: "disk_ok d" "rs_active_slot st \<in> {0, 1}" "read_slot env d (rs_active_slot st) (rs_storage_key st) = Some (Ok ?dec)"
      "sn_cfc s = rs_cfc st" "sn_primary_dimension s = rs_primary_dimension st"
      "header_older d (slot_lba (rs_active_slot st XOR 1)) (rs_generation st)" "rs_active_slot st = 0 \<Longrightarrow> legacy_clear d"
    using assms by (auto simp: durable_def)
  have "read_candidate env d (rs_cfc st) (rs_primary_dimension st) (rs_storage_key st) (rs_active_slot st) = Some (Some ?dec)"
    using candidate_active [OF inv(3)] inv(4,5) by simp
  moreover have "rs_active_slot st XOR 1 \<noteq> 0 \<Longrightarrow> legacy_clear d" using inv(2,7) by auto
  ultimately show ?thesis using candidate_older [OF inv(1,6)] by (intro select_active [OF inv(2)]) simp_all
qed

text \<open>Writing a snapshot: some of the sectors reach the disk, in order, and all of them when the call succeeds.\<close>

lemma write_snapshot_outcome:
  assumes disk: "disk_ok d" and heap: "se_heap env" and base: "base + SLOT_SECTORS \<le> MINIMUM_DISK_SECTORS"
    and enc: "encode_slot (se_aead env) s g key (of_nat base) = Some (Ok encoded)" and len: "HEADER_LEN \<le> length encoded" "length encoded \<le> SLOT_LEN"
  defines "n \<equiv> div_ceil (length encoded) SECTOR_SIZE"
  shows "\<exists>k t f r. write_snapshot env s g key base d =
      Some (r, d\<lparr>dk_data := written base (slot_buffer encoded) (take k (write_order n)) (dk_data d), dk_transfers := t, dk_flushes := f\<rparr>)
    \<and> k \<le> n \<and> (case r of Ok e \<Rightarrow> e = encoded \<and> k = n | Err _ \<Rightarrow> \<not> disk_healthy d)"
proof -
  have n: "0 < n" "n \<le> SLOT_SECTORS" using slot_sectors [OF len(2)] len(1) by (auto simp: n_def div_ceil_def HEADER_LEN_def SECTOR_SIZE_def)
  have order: "length (write_order n) = n" by (simp add: write_order_def)
  have range: "base + i < dk_sectors d \<and> base + i \<le> 0x0FFFFFFF" if "i \<in> set (write_order n)" for i
    using that base n disk by (auto simp: write_order_eq disk_ok_def) (simp_all add: lba_defs)
  have some: "\<not> (n = 0 \<or> SLOT_SECTORS < n)" using n by simp
  obtain k t f r where out: "write_sectors base (slot_buffer encoded) (write_order n) d =
      (r, d\<lparr>dk_data := written base (slot_buffer encoded) (take k (write_order n)) (dk_data d), dk_transfers := t, dk_flushes := f\<rparr>)"
    and k: "k \<le> n" "r = Ok () \<longrightarrow> k = n" "disk_healthy d \<longrightarrow> r = Ok ()"
    using write_sectors_prefix [of "write_order n" base d "slot_buffer encoded"] range unfolding order by blast
  have "write_at base encoded d =
      (r, d\<lparr>dk_data := written base (slot_buffer encoded) (take k (write_order n)) (dk_data d), dk_transfers := t, dk_flushes := f\<rparr>)"
    using out some by (simp add: write_at_def n_def [symmetric])
  then show ?thesis using heap k
    by (intro exI [of _ k] exI [of _ t] exI [of _ f] exI [of _ "case r of Err e \<Rightarrow> Err e | Ok _ \<Rightarrow> Ok encoded"])
      (auto simp: write_snapshot_def enc split: sum.splits)
qed

lemma disk_ok_written:
  assumes "disk_ok d" and "length encoded \<le> SLOT_LEN" and "n \<le> SLOT_SECTORS" and "0 < n"
  shows "disk_ok (d\<lparr>dk_data := written base (slot_buffer encoded) (take k (write_order n)) (dk_data d), dk_transfers := t, dk_flushes := f\<rparr>)"
proof -
  have "i < SLOT_SECTORS" if "i \<in> set (take k (write_order n))" for i
    using in_set_takeD [OF that] assms(3,4) by (auto simp: write_order_eq)
  moreover have "length (slice (i * SECTOR_SIZE) SECTOR_SIZE (slot_buffer encoded)) = SECTOR_SIZE" if "i < SLOT_SECTORS" for i
  proof -
    have "i \<le> 127" using that by (simp add: SLOT_SECTORS_def)
    then have "i * 512 + 512 \<le> 65536" by linarith
    then show ?thesis using assms(2) by (simp add: slot_buffer_def SLOT_LEN_def SLOT_SECTORS_def SECTOR_SIZE_def)
  qed
  ultimately have "length (written base (slot_buffer encoded) (take k (write_order n)) (dk_data d) lba) = SECTOR_SIZE" for lba
    using assms(1) by (auto simp: written_def disk_ok_def)
  then show ?thesis using assms(1) by (simp add: disk_ok_def)
qed

text \<open>A slot whose region the write does not touch reads as before.\<close>

lemma read_slot_written:
  assumes "slot \<in> {0, 1}" and "n \<le> SLOT_SECTORS" and "0 < n" and "k \<le> n"
  shows "read_slot env (d\<lparr>dk_data := written (slot_lba (slot XOR 1)) buffer (take k (write_order n)) (dk_data d), dk_transfers := t, dk_flushes := f\<rparr>) slot key =
    read_slot env d slot key"
proof -
  have "slot_lba slot + i < slot_lba (slot XOR 1) \<or> slot_lba (slot XOR 1) + n \<le> slot_lba slot + i" if "i < SLOT_SECTORS" for i
    using assms(1,2) that by (auto simp: slot_lba_def lba_defs)
  then show ?thesis unfolding read_slot_def
    by (intro read_at_cong) (simp add: read_sector_def written_facts(3) [OF assms(3,4)])
qed

lemma written_header:
  assumes "slot \<in> {0, 1}" and "n \<le> SLOT_SECTORS" and "0 < n" and "k \<le> n"
  shows "written (slot_lba (slot XOR 1)) buffer (take k (write_order n)) data (slot_lba slot) = data (slot_lba slot)"
    and "slot = 0 \<Longrightarrow> written (slot_lba (slot XOR 1)) buffer (take k (write_order n)) data LEGACY_SLOT_B_LBA = data LEGACY_SLOT_B_LBA"
  using assms(1,2) by (auto intro!: written_facts(3) [OF assms(3,4)] simp: slot_lba_def lba_defs)

text \<open>An interrupted commit changes nothing that boot looks at first.\<close>

lemma durable_interrupted:
  fixes t :: "nat \<Rightarrow> transfer_fate" and f :: "nat \<Rightarrow> storage_device_error option"
  assumes inv: "durable env st s" and dev: "rs_device st = Some d" and n: "n \<le> SLOT_SECTORS" "0 < n" and k: "k < n"
    and len: "length encoded \<le> SLOT_LEN"
  defines "d' \<equiv> d\<lparr>dk_data := written (slot_lba (rs_active_slot st XOR 1)) (slot_buffer encoded) (take k (write_order n)) (dk_data d), dk_transfers := t, dk_flushes := f\<rparr>"
  shows "durable env (st\<lparr>rs_device := Some d'\<rparr>) s"
proof -
  have d: "disk_ok d" "rs_active_slot st \<in> {0, 1}" "rs_active_slot st = 0 \<Longrightarrow> legacy_clear d"
      "header_older d (slot_lba (rs_active_slot st XOR 1)) (rs_generation st)"
    using inv dev by (auto simp: durable_def)
  have "k \<le> n" using k by simp
  have "disk_ok d'" unfolding d'_def by (rule disk_ok_written [OF d(1) len n])
  moreover have "read_slot env d' (rs_active_slot st) (rs_storage_key st) = read_slot env d (rs_active_slot st) (rs_storage_key st)"
    unfolding d'_def by (rule read_slot_written [OF d(2) n \<open>k \<le> n\<close>])
  moreover have "header_older d' (slot_lba (rs_active_slot st XOR 1)) (rs_generation st)"
    using d(4) written_facts(1) [OF n(2) \<open>k \<le> n\<close> k] by (simp add: header_older_def d'_def)
  moreover have "rs_active_slot st = 0 \<Longrightarrow> legacy_clear d'"
    using d(3) written_header(2) [OF d(2) n \<open>k \<le> n\<close>] by (simp add: legacy_clear_def d'_def)
  ultimately show ?thesis using inv dev by (auto simp: durable_def)
qed

text \<open>A finished commit: the new slot reads back, the old one still does and is older.\<close>

lemma commit_finished:
  fixes t :: "nat \<Rightarrow> transfer_fate" and f :: "nat \<Rightarrow> storage_device_error option"
  assumes inv: "durable env st s" and dev: "rs_device st = Some d" and heap: "se_heap env" and aead: "aead_correct (se_aead env)"
    and snap: "snapshot_whole n" "validate_snapshot n = Ok ()" "relations_storable n"
    and own: "sn_cfc n = rs_cfc st" "sn_primary_dimension n = rs_primary_dimension st"
    and enc: "encode_slot (se_aead env) n (next_nonzero (rs_generation st)) (rs_storage_key st) (of_nat (slot_lba (rs_active_slot st XOR 1))) = Some (Ok encoded)"
  defines "m \<equiv> div_ceil (length encoded) SECTOR_SIZE" and "target \<equiv> rs_active_slot st XOR 1" and "g \<equiv> next_nonzero (rs_generation st)"
  defines "d' \<equiv> d\<lparr>dk_data := written (slot_lba target) (slot_buffer encoded) (take m (write_order m)) (dk_data d), dk_transfers := t, dk_flushes := f\<rparr>"
  shows "verify_write (slot_lba target) encoded d' = Ok ()"
    and "select_slot env d' (rs_cfc st) (rs_primary_dimension st) (rs_storage_key st) =
      Some (Some \<lparr>dc_snapshot = snapshot_reloaded n, dc_generation = g, dc_slot = target\<rparr>)"
    and "legacy_clear d' \<Longrightarrow> durable env (st\<lparr>rs_device := Some d', rs_snapshot := Some n, rs_generation := g, rs_active_slot := target\<rparr>)
      (snapshot_reloaded n)"
    and "dk_data d' (slot_lba target) \<noteq> dk_data d (slot_lba target)"
proof -
  let ?old = "\<lparr>dc_snapshot = s, dc_generation = rs_generation st, dc_slot = rs_active_slot st\<rparr>"
  let ?new = "\<lparr>dc_snapshot = snapshot_reloaded n, dc_generation = g, dc_slot = target\<rparr>"
  have d: "disk_ok d" "rs_active_slot st \<in> {0, 1}" "read_slot env d (rs_active_slot st) (rs_storage_key st) = Some (Ok ?old)"
      "sn_cfc s = rs_cfc st" "sn_primary_dimension s = rs_primary_dimension st"
    using inv dev by (auto simp: durable_def)
  have target: "target \<in> {0, 1}" "target XOR 1 = rs_active_slot st" using d(2) by (auto simp: target_def)
  note image = encoded_image [OF snap(1,2) aead enc]
  have m: "m \<le> SLOT_SECTORS" "0 < m" using slot_sectors [OF image(2)] image(1) by (auto simp: m_def div_ceil_def HEADER_LEN_def SECTOR_SIZE_def)
  have ok: "disk_ok d'" unfolding d'_def by (rule disk_ok_written [OF d(1) image(2) m])
  have data: "dk_data d' (slot_lba target + i) = slice (i * SECTOR_SIZE) SECTOR_SIZE (slot_buffer encoded)" if "i < m" for i
    using written_facts(2) [OF m(2) order.refl refl that] by (simp add: d'_def)
  show "verify_write (slot_lba target) encoded d' = Ok ()" unfolding verify_write_def m_def [symmetric]
    using data m(1) slot_lba_bounds [of target] by (intro verify_sectors_ok ok) simp
  have "1 \<le> g" by (simp add: g_def next_nonzero_def)
  then have "g \<noteq> 0" by auto
  from decode_encoded(2) [OF snap this aead, where bytes = encoded and storage_key = "rs_storage_key st" and
    nonce_domain = "of_nat (slot_lba target)" and slot = target]
  have "decode_slot (se_aead env) encoded target (rs_storage_key st) (of_nat (slot_lba target)) = Ok ?new"
    using enc by (simp add: g_def target_def)
  then have new: "read_slot env d' target (rs_storage_key st) = Some (Ok ?new)"
    unfolding read_slot_def using read_at_image [OF ok heap slot_lba_bounds image(1-5) data [unfolded m_def]] by (simp add: decoded_result_def)
  have "\<not> older g (rs_generation st)" using older_asym [OF older_next [of "rs_generation st"]] by (simp add: older_def g_def)
  moreover have "header_older d (slot_lba target) (rs_generation st)" using inv dev by (auto simp: durable_def target_def)
  moreover note read_at_generation(1,2) [OF ok slot_lba_fits new [unfolded read_slot_def]]
  ultimately show "dk_data d' (slot_lba target) \<noteq> dk_data d (slot_lba target)" by (auto simp: header_older_def)
  have old: "read_slot env d' (rs_active_slot st) (rs_storage_key st) = Some (Ok ?old)"
    using read_slot_written [OF d(2) m order.refl] d(3) by (simp add: d'_def target_def)
  have own': "sn_cfc (snapshot_reloaded n) = rs_cfc st" "sn_primary_dimension (snapshot_reloaded n) = rs_primary_dimension st"
    using own by (simp_all add: snapshot_reloaded_def)
  note cands = candidate_active [OF new] candidate_active [OF old]
  show "select_slot env d' (rs_cfc st) (rs_primary_dimension st) (rs_storage_key st) = Some (Some ?new)"
    using select_active [OF target(1), of env d' "rs_cfc st" "rs_primary_dimension st" "rs_storage_key st" ?new g]
      cands own' d(4,5) older_next [of "rs_generation st"] by (simp add: target(2) g_def)
  have "header_older d' (slot_lba (rs_active_slot st)) g"
    using read_at_generation(2) [OF ok slot_lba_fits old [unfolded read_slot_def]] older_next [of "rs_generation st"]
    by (simp add: header_older_def g_def)
  then show "legacy_clear d' \<Longrightarrow> durable env (st\<lparr>rs_device := Some d', rs_snapshot := Some n, rs_generation := g, rs_active_slot := target\<rparr>)
      (snapshot_reloaded n)"
    using ok new own' target by (auto simp: durable_def)
qed

section \<open>Crash safety\<close>


text \<open>A disk that holds one image in slot A, and the store that runs on it; two sector writes succeed, and the third does not reach the
  disk.\<close>

definition image_disk :: "u8 list \<Rightarrow> disk" where
  "image_disk encoded = \<lparr>dk_sectors = 2048,
     dk_data = (\<lambda>lba. if SLOT_A_LBA \<le> lba \<and> lba < LEGACY_SLOT_B_LBA
       then slice ((lba - SLOT_A_LBA) * SECTOR_SIZE) SECTOR_SIZE (slot_buffer encoded) else replicate SECTOR_SIZE 0),
     dk_readable = (\<lambda>_. True),
     dk_transfers = (\<lambda>n. if n < 2 then Transferred else NotTransferred Timeout), dk_flushes = (\<lambda>_. None)\<rparr>"

definition demo_env :: store_env where
  "demo_env = \<lparr>se_aead = demo_aead, se_heap = True\<rparr>"

definition demo_disk_store :: runtime_store where
  "demo_disk_store = runtime_store_new\<lparr>rs_device := Some (image_disk (clear_image (demo_snapshot (demo_relation None)) 5)),
     rs_cfc := cfc_from_u128 1, rs_primary_dimension := from_u128 10, rs_generation := 5, rs_active_slot := 0,
     rs_snapshot := Some (demo_snapshot (demo_relation None))\<rparr>"

lemma length_empty_wire: "length (concat (map (slot_wire wire) (empty_slots n))) = n"
  by (induction n) (simp_all add: empty_slots_def slot_wire_def)

lemma demo_payload: "length (payload_wire (demo_snapshot (demo_relation None))) \<le> 2048"
proof -
  have some: "slot_wire wire (Some x) = 1 # wire x" for wire and x :: 'a by (simp add: slot_wire_def)
  have fins: "length (fin_bytes (from_u128 v)) = 16" for v by (simp add: from_u128_def)
  show ?thesis using length_put_text [OF demo_text_ok]
    by (simp add: payload_wire_def demo_snapshot_def demo_relation_def length_empty_wire [unfolded length_concat map_map]
      some fins dimension_wire_def form_wire_def relation_wire_def handle_wire_def record_wire_def fin_ZERO_def
      SETTINGS_RECORD_CAPACITY_def ACCOUNTS_RECORD_CAPACITY_def length_concat [of "map (slot_wire _) _"])
qed

lemma demo_disk_store_durable: "durable demo_env demo_disk_store (snapshot_reloaded (demo_snapshot (demo_relation None)))"
proof -
  let ?s = "demo_snapshot (demo_relation None)"
  define encoded where "encoded = clear_image ?s 5"
  define d where "d = image_disk encoded"
  have snap: "snapshot_whole ?s" "validate_snapshot ?s = Ok ()" "relations_storable ?s"
    by (rule demo_snapshot_valid, simp, rule demo_snapshot_validates) (simp add: relations_storable_def demo_snapshot_def demo_relation_def)
  have aead: "aead_correct (se_aead demo_env)" by (simp add: demo_env_def demo_aead_correct)
  have enc: "encode_slot (se_aead demo_env) ?s 5 None (of_nat SLOT_A_LBA) = Some (Ok encoded)"
    unfolding encoded_def by (rule encode_slot_clear [OF snap(1,2)])
  note image = encoded_image [OF snap(1,2) aead enc]
  have "length encoded = HEADER_LEN + length (payload_wire ?s)"
    using snap(1) by (simp add: encoded_def clear_image_def clear_mac_def Let_def header48_def HEADER_LEN_def snapshot_whole_iff)
  then have small: "length encoded \<le> 2112" using demo_payload by (simp add: HEADER_LEN_def)
  have sector: "length (slice (i * 512) 512 (slot_buffer encoded)) = 512" if "i < 24" for i
  proof -
    have "i * 512 + 512 \<le> 65536" using that by simp
    then show ?thesis using image(2) by (simp add: slot_buffer_def SLOT_LEN_def SLOT_SECTORS_def SECTOR_SIZE_def)
  qed
  have ok: "disk_ok d" using sector by (auto simp: disk_ok_def d_def image_disk_def lba_defs SECTOR_SIZE_def)
  have data: "dk_data d (SLOT_A_LBA + i) = slice (i * SECTOR_SIZE) SECTOR_SIZE (slot_buffer encoded)"
    if "i < div_ceil (length encoded) SECTOR_SIZE" for i
  proof -
    have "i < 24" using that small by (simp add: div_ceil_def SECTOR_SIZE_def)
    then show ?thesis by (simp add: d_def image_disk_def lba_defs)
  qed
  have "SLOT_A_LBA + SLOT_SECTORS \<le> MINIMUM_DISK_SECTORS" by (simp add: lba_defs)
  from read_at_image [OF ok _ this image(1-5) data, of demo_env 0 None]
  have "read_slot demo_env d 0 None = Some (Ok \<lparr>dc_snapshot = snapshot_reloaded ?s, dc_generation = 5, dc_slot = 0\<rparr>)"
    using decode_encoded(2) [OF snap _ aead enc, of 0] by (simp add: demo_env_def read_slot_def slot_lba_def decoded_result_def)
  moreover have zero: "replicate 8 (0 :: u8) \<noteq> MAGIC"
    by (rule notI, drule arg_cong [where f = "\<lambda>xs. xs ! 0"]) (simp add: MAGIC_def)
  moreover have blank: "take 8 (dk_data d SLOT_B_LBA) \<noteq> MAGIC" "take 8 (dk_data d LEGACY_SLOT_B_LBA) \<noteq> MAGIC"
    using zero by (simp_all add: d_def image_disk_def lba_defs SECTOR_SIZE_def)
  ultimately show ?thesis using ok unfolding durable_def demo_disk_store_def encoded_def [symmetric] d_def [symmetric]
    by (simp add: runtime_store_new_def snapshot_reloaded_def demo_snapshot_def slot_lba_def header_older_def legacy_clear_def)
qed


end
