(* ===== verification/Display.thy ===== *)
theory Display
  imports Identity Slots
begin

text \<open>
  The ExpDisplay protocol state (\<^verbatim>\<open>crates/expos-core/src/display.rs\<close>): surfaces owned by Forms with a pending and a current state,
  atomic commits, damage, frame completion and the event queue. Coordinates are 16-bit words, read as signed numbers where the
  source has \<^verbatim>\<open>i16\<close>; the damage arithmetic of the source, in \<^verbatim>\<open>i32\<close> with casts back to 16 bits, is written over the integers with
  the casts. The \<^verbatim>\<open>expect\<close> calls are branches that return \<open>None\<close>.
\<close>

unbundle bit_operations_syntax

section \<open>Model: rectangles and damage\<close>

definition MAX_SURFACES :: nat where "MAX_SURFACES = 16"

definition MAX_DISPLAY_EVENTS :: nat where "MAX_DISPLAY_EVENTS = 32"

record rect =
  rc_x :: "16 word"
  rc_y :: "16 word"
  rc_width :: u16
  rc_height :: u16

definition rect_new :: "16 word \<Rightarrow> 16 word \<Rightarrow> u16 \<Rightarrow> u16 \<Rightarrow> rect" where
  "rect_new x y width height = \<lparr>rc_x = x, rc_y = y, rc_width = width, rc_height = height\<rparr>"

text \<open>\<^verbatim>\<open>i16::saturating_add\<close> and \<^verbatim>\<open>i16::saturating_add_unsigned\<close>.\<close>

definition i16_saturate :: "int \<Rightarrow> 16 word" where
  "i16_saturate v = word_of_int (max (- 32768) (min 32767 v))"

definition rect_contains :: "rect \<Rightarrow> 16 word \<Rightarrow> 16 word \<Rightarrow> bool" where
  "rect_contains r x y \<longleftrightarrow> sint x \<ge> sint (rc_x r) \<and> sint y \<ge> sint (rc_y r)
     \<and> sint x < sint (i16_saturate (sint (rc_x r) + uint (rc_width r)))
     \<and> sint y < sint (i16_saturate (sint (rc_y r) + uint (rc_height r)))"

definition surface_bounds :: "rect \<Rightarrow> rect" where
  "surface_bounds r = rect_new 0 0 (rc_width r) (rc_height r)"

definition translate_damage :: "rect \<Rightarrow> rect \<Rightarrow> rect" where
  "translate_damage surface damage = rect_new (i16_saturate (sint (rc_x surface) + sint (rc_x damage)))
     (i16_saturate (sint (rc_y surface) + sint (rc_y damage))) (rc_width damage) (rc_height damage)"

definition intersect_damage :: "rect \<Rightarrow> rect \<Rightarrow> rect option" where
  "intersect_damage l r =
     (let x1 = max (sint (rc_x l)) (sint (rc_x r));
          y1 = max (sint (rc_y l)) (sint (rc_y r));
          x2 = min (sint (rc_x l) + uint (rc_width l)) (sint (rc_x r) + uint (rc_width r));
          y2 = min (sint (rc_y l) + uint (rc_height l)) (sint (rc_y r) + uint (rc_height r))
      in if x2 \<le> x1 \<or> y2 \<le> y1 then None
         else Some (rect_new (word_of_int x1) (word_of_int y1) (word_of_int (x2 - x1)) (word_of_int (y2 - y1))))"

definition merge_damage :: "rect option \<Rightarrow> rect option \<Rightarrow> rect option" where
  "merge_damage left right =
     (case (left, right) of
       (Some l, Some r) \<Rightarrow>
         let x1 = min (sint (rc_x l)) (sint (rc_x r));
             y1 = min (sint (rc_y l)) (sint (rc_y r));
             x2 = max (sint (rc_x l) + uint (rc_width l)) (sint (rc_x r) + uint (rc_width r));
             y2 = max (sint (rc_y l) + uint (rc_height l)) (sint (rc_y r) + uint (rc_height r))
         in Some (rect_new (word_of_int x1) (word_of_int y1) (word_of_int (x2 - x1)) (word_of_int (y2 - y1)))
     | (Some l, None) \<Rightarrow> Some l
     | (None, r) \<Rightarrow> r)"

section \<open>Model: surfaces and the server\<close>

datatype buffer_format = Xrgb8888 | Argb8888 | Rgb565 | TextCells

fun bits_per_pixel :: "buffer_format \<Rightarrow> u8" where
  "bits_per_pixel Xrgb8888 = 32"
| "bits_per_pixel Argb8888 = 32"
| "bits_per_pixel Rgb565 = 16"
| "bits_per_pixel TextCells = 16"

definition has_alpha :: "buffer_format \<Rightarrow> bool" where
  "has_alpha f \<longleftrightarrow> f = Argb8888"

record buffer_handle =
  bh_id :: u32
  bh_owner :: fin
  bh_width :: u16
  bh_height :: u16
  bh_format :: buffer_format

datatype surface_role = Background | Window | Panel | Popup

record surface_state =
  su_rect :: rect
  su_buffer :: "buffer_handle option"
  su_damage :: "rect option"
  su_visible :: bool

record surface =
  sf_id :: u32
  sf_owner :: fin
  sf_title :: text_t
  sf_role :: surface_role
  sf_current :: surface_state
  sf_pending :: surface_state
  sf_commit_sequence :: u64
  sf_z_index :: u16

datatype display_error = Invalid | Denied | NotFound | Full | BufferSizeMismatch

datatype event_kind = Configure | FocusIn | FocusOut | FrameDone | Key | PointerMotion | PointerButton

record display_event =
  ev_serial :: u64
  ev_owner :: fin
  ev_surface_id :: u32
  ev_kind :: event_kind
  ev_value :: u64

record display_server =
  ds_surfaces :: "surface slots"
  ds_output_damage :: "rect slots"
  ds_next_surface_id :: u32
  ds_next_z :: u16
  ds_commit_sequence :: u64
  ds_frame_sequence :: u64
  ds_frame_commits :: "u64 list"
  ds_focused :: "u32 option"
  ds_events :: "display_event slots"
  ds_next_event_serial :: u64
  ds_commits :: u64
  ds_callbacks :: u64
  ds_coalesced_frame_callbacks :: u64
  ds_coalesced_pointer_motion :: u64
  ds_recovered_event_slots :: u64
  ds_dropped_events :: u64

definition display_new :: display_server where
  "display_new = \<lparr>ds_surfaces = empty_slots MAX_SURFACES, ds_output_damage = empty_slots MAX_SURFACES, ds_next_surface_id = 1,
     ds_next_z = 1, ds_commit_sequence = 0, ds_frame_sequence = 0, ds_frame_commits = replicate MAX_SURFACES 0, ds_focused = None,
     ds_events = empty_slots MAX_DISPLAY_EVENTS, ds_next_event_serial = 1, ds_commits = 0, ds_callbacks = 0,
     ds_coalesced_frame_callbacks = 0, ds_coalesced_pointer_motion = 0, ds_recovered_event_slots = 0, ds_dropped_events = 0\<rparr>"

definition committed_output_damage :: "surface_state \<Rightarrow> surface_state \<Rightarrow> rect option" where
  "committed_output_damage old new =
     (let geometry_changed = (su_rect old \<noteq> su_rect new \<or> su_visible old \<noteq> su_visible new);
          out = None;
          out = (if geometry_changed \<and> su_visible old then merge_damage out (Some (su_rect old)) else out);
          out = (if geometry_changed \<and> su_visible new then merge_damage out (Some (su_rect new)) else out)
      in if su_visible new then merge_damage out (map_option (translate_damage (su_rect new)) (su_damage new)) else out)"

definition add_pending_damage :: "rect \<Rightarrow> surface \<Rightarrow> surface" where
  "add_pending_damage damage s = s\<lparr>sf_pending := (sf_pending s)\<lparr>su_damage := merge_damage (su_damage (sf_pending s)) (Some damage)\<rparr>\<rparr>"

section \<open>Model: events\<close>

text \<open>The serial of the next event, and the counters, which saturate.\<close>

definition bump_serial :: "display_server \<Rightarrow> display_server" where
  "bump_serial d = d\<lparr>ds_next_event_serial := next_nonzero (ds_next_event_serial d)\<rparr>"

definition indexed_events :: "(display_event \<Rightarrow> bool) \<Rightarrow> display_server \<Rightarrow> (nat \<times> display_event) list" where
  "indexed_events P d = flatten (map (\<lambda>(i, e). case e of None \<Rightarrow> None | Some e \<Rightarrow> if P e then Some (i, e) else None) (enumerate 0 (ds_events d)))"

definition push_display_event :: "fin \<Rightarrow> u32 \<Rightarrow> event_kind \<Rightarrow> u64 \<Rightarrow> display_server \<Rightarrow> display_server" where
  "push_display_event owner surface_id kind val d =
     (let event = \<lparr>ev_serial = ds_next_event_serial d, ev_owner = owner, ev_surface_id = surface_id, ev_kind = kind, ev_value = val\<rparr>;
          d = bump_serial d
      in (case fill_slot event (ds_events d) of
        Some events \<Rightarrow> d\<lparr>ds_events := events\<rparr>
      | None \<Rightarrow>
          (case (if kind \<noteq> PointerMotion then min_by_key (\<lambda>(i, e). ev_serial e) (indexed_events (\<lambda>e. ev_kind e = PointerMotion) d) else None) of
            Some (i, _) \<Rightarrow> d\<lparr>ds_events := (ds_events d)[i := Some event], ds_recovered_event_slots := saturating_add (ds_recovered_event_slots d) 1\<rparr>
          | None \<Rightarrow> d\<lparr>ds_dropped_events := saturating_add (ds_dropped_events d) 1\<rparr>)))"

definition push_frame_done :: "fin \<Rightarrow> u32 \<Rightarrow> u64 \<Rightarrow> display_server \<Rightarrow> bool \<times> display_server" where
  "push_frame_done owner surface_id sequence d =
     (let is_done = (\<lambda>e. ev_owner e = owner \<and> ev_surface_id e = surface_id \<and> ev_kind e = FrameDone) in
      if list_ex is_done (flatten (ds_events d)) then
        (True, (bump_serial d)\<lparr>ds_events := update_first is_done (\<lambda>e. e\<lparr>ev_serial := ds_next_event_serial d, ev_value := sequence\<rparr>) (ds_events d),
           ds_coalesced_frame_callbacks := saturating_add (ds_coalesced_frame_callbacks d) 1\<rparr>)
      else (case fill_slot \<lparr>ev_serial = ds_next_event_serial d, ev_owner = owner, ev_surface_id = surface_id, ev_kind = FrameDone,
              ev_value = sequence\<rparr> (ds_events d) of
        None \<Rightarrow> (False, d)
      | Some events \<Rightarrow> (True, (bump_serial d)\<lparr>ds_events := events\<rparr>)))"

definition push_pointer_motion :: "fin \<Rightarrow> u32 \<Rightarrow> u64 \<Rightarrow> display_server \<Rightarrow> display_server" where
  "push_pointer_motion owner surface_id val d =
     (case max_by_key (\<lambda>(i, e). ev_serial e) (indexed_events (\<lambda>e. ev_owner e = owner \<and> ev_surface_id e = surface_id) d) of
       Some (i, e) \<Rightarrow>
         if ev_kind e = PointerMotion then
           (bump_serial d)\<lparr>ds_events := (ds_events d)[i := Some (e\<lparr>ev_serial := ds_next_event_serial d, ev_value := val\<rparr>)],
             ds_coalesced_pointer_motion := saturating_add (ds_coalesced_pointer_motion d) 1\<rparr>
         else push_display_event owner surface_id PointerMotion val d
     | None \<Rightarrow> push_display_event owner surface_id PointerMotion val d)"

section \<open>Model: requests of a client\<close>

definition pack_size :: "rect \<Rightarrow> u64" where
  "pack_size r = push_bit 32 (ucast (rc_width r)) OR ucast (rc_height r)"

definition create_surface ::
  "fin \<Rightarrow> str \<Rightarrow> surface_role \<Rightarrow> rect \<Rightarrow> display_server \<Rightarrow> (display_error, u32 \<times> display_server) result" where
  "create_surface owner title role r d =
     (if is_zero owner \<or> rc_width r = 0 \<or> rc_height r = 0 then Err Invalid
      else (case text_new title of
        Err _ \<Rightarrow> Err Invalid
      | Ok title \<Rightarrow>
          let i = ds_next_surface_id d;
              state = \<lparr>su_rect = r, su_buffer = None, su_damage = Some (surface_bounds r), su_visible = True\<rparr> in
          (case fill_slot \<lparr>sf_id = i, sf_owner = owner, sf_title = title, sf_role = role, sf_current = state, sf_pending = state,
              sf_commit_sequence = 0, sf_z_index = ds_next_z d\<rparr> (ds_surfaces d) of
            None \<Rightarrow> Err Full
          | Some surfaces \<Rightarrow> Ok (i, push_display_event owner i Configure (pack_size r)
              (d\<lparr>ds_surfaces := surfaces, ds_next_surface_id := next_nonzero i, ds_next_z := saturating_add (ds_next_z d) 1\<rparr>)))))"

definition owned_surface :: "fin \<Rightarrow> u32 \<Rightarrow> display_server \<Rightarrow> (display_error, surface) result" where
  "owned_surface owner surface_id d =
     (case find (\<lambda>s. sf_id s = surface_id) (flatten (ds_surfaces d)) of
       None \<Rightarrow> Err NotFound
     | Some s \<Rightarrow> if sf_owner s \<noteq> owner then Err Denied else Ok s)"

definition owned_index :: "fin \<Rightarrow> u32 \<Rightarrow> display_server \<Rightarrow> (display_error, nat \<times> surface) result" where
  "owned_index owner surface_id d =
     (case position (\<lambda>slot. case slot of None \<Rightarrow> False | Some s \<Rightarrow> sf_id s = surface_id) (ds_surfaces d) of
       None \<Rightarrow> Err NotFound
     | Some index \<Rightarrow>
         (case ds_surfaces d ! index of
           None \<Rightarrow> Err Denied
         | Some s \<Rightarrow> if sf_owner s \<noteq> owner then Err Denied else Ok (index, s)))"

text \<open>Write back through the reference that \<^verbatim>\<open>owned_mut\<close> returned.\<close>

definition put_surface :: "u32 \<Rightarrow> surface \<Rightarrow> display_server \<Rightarrow> display_server" where
  "put_surface surface_id s d = d\<lparr>ds_surfaces := update_first (\<lambda>s. sf_id s = surface_id) (\<lambda>_. s) (ds_surfaces d)\<rparr>"

definition attach :: "fin \<Rightarrow> u32 \<Rightarrow> buffer_handle \<Rightarrow> display_server \<Rightarrow> (display_error, display_server) result" where
  "attach owner surface_id buffer d =
     (case owned_surface owner surface_id d of
       Err e \<Rightarrow> Err e
     | Ok s \<Rightarrow>
         if bh_owner buffer \<noteq> owner then Err Denied
         else if bh_width buffer < rc_width (su_rect (sf_pending s)) \<or> bh_height buffer < rc_height (su_rect (sf_pending s))
         then Err BufferSizeMismatch
         else Ok (put_surface surface_id (add_pending_damage (surface_bounds (su_rect (sf_pending s)))
           (s\<lparr>sf_pending := (sf_pending s)\<lparr>su_buffer := Some buffer\<rparr>\<rparr>)) d))"

definition damage :: "fin \<Rightarrow> u32 \<Rightarrow> rect \<Rightarrow> display_server \<Rightarrow> (display_error, display_server) result" where
  "damage owner surface_id region d =
     (case owned_surface owner surface_id d of
       Err e \<Rightarrow> Err e
     | Ok s \<Rightarrow>
         if rc_width region = 0 \<or> rc_height region = 0 then Err Invalid
         else (case intersect_damage region (surface_bounds (su_rect (sf_pending s))) of
           None \<Rightarrow> Err Invalid
         | Some clipped \<Rightarrow> Ok (put_surface surface_id (add_pending_damage clipped s) d)))"

definition damage_regions :: "fin \<Rightarrow> u32 \<Rightarrow> rect list \<Rightarrow> display_server \<Rightarrow> (display_error, nat \<times> display_server) result option" where
  "damage_regions owner surface_id regions d =
     (if regions = [] then Some (Err Invalid)
      else (case owned_index owner surface_id d of
        Err e \<Rightarrow> Some (Err e)
      | Ok (index, s) \<Rightarrow>
          let bounds = surface_bounds (su_rect (sf_pending s)) in
          if list_ex (\<lambda>r. rc_width r = 0 \<or> rc_height r = 0 \<or> intersect_damage r bounds = None) regions then Some (Err Invalid)
          else
            let clipped = map (\<lambda>r. intersect_damage r bounds) regions in
            if None \<in> set clipped then None
            else Some (Ok (length regions,
              d\<lparr>ds_surfaces := (ds_surfaces d)[index := Some (fold (\<lambda>r. add_pending_damage (the r)) clipped s)]\<rparr>))))"

definition set_position :: "fin \<Rightarrow> u32 \<Rightarrow> 16 word \<Rightarrow> 16 word \<Rightarrow> display_server \<Rightarrow> (display_error, display_server) result" where
  "set_position owner surface_id x y d =
     (case owned_surface owner surface_id d of
       Err e \<Rightarrow> Err e
     | Ok s \<Rightarrow>
         let r = su_rect (sf_pending s) in
         if rc_x r \<noteq> x \<or> rc_y r \<noteq> y
         then Ok (put_surface surface_id (add_pending_damage (surface_bounds r)
           (s\<lparr>sf_pending := (sf_pending s)\<lparr>su_rect := r\<lparr>rc_x := x, rc_y := y\<rparr>\<rparr>\<rparr>)) d)
         else Ok d)"

definition set_geometry :: "fin \<Rightarrow> u32 \<Rightarrow> rect \<Rightarrow> display_server \<Rightarrow> (display_error, display_server) result" where
  "set_geometry owner surface_id r d =
     (if rc_width r = 0 \<or> rc_height r = 0 then Err Invalid
      else (case owned_surface owner surface_id d of
        Err e \<Rightarrow> Err e
      | Ok s \<Rightarrow>
          if (case su_buffer (sf_pending s) of None \<Rightarrow> False
              | Some buffer \<Rightarrow> bh_width buffer < rc_width r \<or> bh_height buffer < rc_height r)
          then Err BufferSizeMismatch
          else Ok (put_surface surface_id
            (s\<lparr>sf_pending := (sf_pending s)\<lparr>su_rect := r, su_damage := Some (surface_bounds r)\<rparr>\<rparr>) d)))"

definition set_visible :: "fin \<Rightarrow> u32 \<Rightarrow> bool \<Rightarrow> display_server \<Rightarrow> (display_error, display_server) result" where
  "set_visible owner surface_id visible d =
     (case owned_surface owner surface_id d of
       Err e \<Rightarrow> Err e
     | Ok s \<Rightarrow>
         if su_visible (sf_pending s) \<noteq> visible
         then Ok (put_surface surface_id (add_pending_damage (surface_bounds (su_rect (sf_pending s)))
           (s\<lparr>sf_pending := (sf_pending s)\<lparr>su_visible := visible\<rparr>\<rparr>)) d)
         else Ok d)"

text \<open>Publication. The two \<^verbatim>\<open>expect\<close> calls re-read the slot that \<^verbatim>\<open>owned_index\<close> found occupied.\<close>

definition display_commit :: "fin \<Rightarrow> u32 \<Rightarrow> display_server \<Rightarrow> (display_error, u64 \<times> display_server) result" where
  "display_commit owner surface_id d =
     (case owned_index owner surface_id d of
       Err e \<Rightarrow> Err e
     | Ok (index, s) \<Rightarrow>
         let sequence = next_nonzero (ds_commit_sequence d);
             old_state = sf_current s; pending_state = sf_pending s;
             unpresented = (if ds_frame_commits d ! index \<noteq> 0
               then (case su_damage old_state of None \<Rightarrow> None | Some region \<Rightarrow> intersect_damage region (surface_bounds (su_rect pending_state)))
               else None);
             committed = pending_state\<lparr>su_damage := merge_damage unpresented (su_damage pending_state)\<rparr>
         in Ok (sequence, d\<lparr>ds_commits := saturating_add (ds_commits d) 1, ds_commit_sequence := sequence,
              ds_output_damage := (ds_output_damage d)[index := merge_damage (ds_output_damage d ! index) (committed_output_damage old_state pending_state)],
              ds_surfaces := (ds_surfaces d)[index := Some (s\<lparr>sf_current := committed, sf_pending := pending_state\<lparr>su_damage := None\<rparr>,
                sf_commit_sequence := sequence\<rparr>)],
              ds_frame_commits := (ds_frame_commits d)[index := sequence]\<rparr>))"

definition complete_slot :: "nat \<Rightarrow> nat \<times> display_server \<Rightarrow> nat \<times> display_server" where
  "complete_slot index = (\<lambda>(completed, d).
     let sequence = ds_frame_commits d ! index in
     if sequence = 0 then (completed, d)
     else (case ds_surfaces d ! index of
       None \<Rightarrow> (completed, d\<lparr>ds_frame_commits := (ds_frame_commits d)[index := 0]\<rparr>)
     | Some s \<Rightarrow>
         let d = d\<lparr>ds_surfaces := (ds_surfaces d)[index := Some (s\<lparr>sf_current := (sf_current s)\<lparr>su_damage := None\<rparr>\<rparr>)]\<rparr> in
         (case push_frame_done (sf_owner s) (sf_id s) sequence d of
           (True, d) \<Rightarrow> (completed + 1, d\<lparr>ds_frame_commits := (ds_frame_commits d)[index := 0]\<rparr>)
         | (False, d) \<Rightarrow> (completed, d))))"

definition complete_frame :: "display_server \<Rightarrow> nat \<times> display_server" where
  "complete_frame d =
     (let d = d\<lparr>ds_frame_sequence := next_nonzero (ds_frame_sequence d)\<rparr>;
          (completed, d) = fold complete_slot [0..<MAX_SURFACES] (0, d)
      in (completed, d\<lparr>ds_output_damage := map (\<lambda>_. None) (ds_output_damage d),
            ds_callbacks := saturating_add (ds_callbacks d) (of_nat completed)\<rparr>))"

definition needs_frame :: "display_server \<Rightarrow> bool" where
  "needs_frame d \<longleftrightarrow> list_ex (\<lambda>sequence. sequence \<noteq> 0) (ds_frame_commits d) \<or> list_ex (\<lambda>region. region \<noteq> None) (ds_output_damage d)"

definition pending_output_damage :: "display_server \<Rightarrow> rect list" where
  "pending_output_damage d = flatten (ds_output_damage d)"

definition find_surface :: "u32 \<Rightarrow> display_server \<Rightarrow> surface option" where
  "find_surface surface_id d = find (\<lambda>s. sf_id s = surface_id) (flatten (ds_surfaces d))"

definition focus :: "u32 \<Rightarrow> display_server \<Rightarrow> (display_error, display_server) result" where
  "focus surface_id d =
     (let previous = (case ds_focused d of None \<Rightarrow> None
          | Some p \<Rightarrow> if p \<noteq> surface_id then map_option (\<lambda>s. (p, sf_owner s)) (find_surface p d) else None)
      in (case find_surface surface_id d of
        None \<Rightarrow> Err NotFound
      | Some s \<Rightarrow>
          if \<not> su_visible (sf_current s) \<or> sf_role s = Background then Err Denied
          else
            let d = (put_surface surface_id (s\<lparr>sf_z_index := ds_next_z d\<rparr>) d)\<lparr>ds_next_z := saturating_add (ds_next_z d) 1,
                  ds_focused := Some surface_id\<rparr>;
                d = (case previous of None \<Rightarrow> d | Some (p, p_owner) \<Rightarrow> push_display_event p_owner p FocusOut 0 d)
            in Ok (push_display_event (sf_owner s) surface_id FocusIn 0 d)))"

definition hit_test :: "16 word \<Rightarrow> 16 word \<Rightarrow> display_server \<Rightarrow> u32 option" where
  "hit_test x y d = map_option sf_id (max_by_key sf_z_index
     (filter (\<lambda>s. su_visible (sf_current s) \<and> rect_contains (su_rect (sf_current s)) x y) (flatten (ds_surfaces d))))"

definition destroy :: "fin \<Rightarrow> u32 \<Rightarrow> display_server \<Rightarrow> (display_error, display_server) result" where
  "destroy owner surface_id d =
     (case owned_index owner surface_id d of
       Err e \<Rightarrow> Err e
     | Ok (index, s) \<Rightarrow> Ok (d\<lparr>
         ds_output_damage := (if su_visible (sf_current s)
           then (ds_output_damage d)[index := merge_damage (ds_output_damage d ! index) (Some (su_rect (sf_current s)))]
           else ds_output_damage d),
         ds_surfaces := (ds_surfaces d)[index := None],
         ds_frame_commits := (ds_frame_commits d)[index := 0],
         ds_events := map (\<lambda>e. case e of None \<Rightarrow> None
           | Some e \<Rightarrow> if ev_owner e = owner \<and> ev_surface_id e = surface_id then None else Some e) (ds_events d),
         ds_focused := (if ds_focused d = Some surface_id then None else ds_focused d)\<rparr>))"

definition route_key :: "u8 \<Rightarrow> display_server \<Rightarrow> (display_error, display_server) result" where
  "route_key key d =
     (case ds_focused d of
       None \<Rightarrow> Err NotFound
     | Some surface_id \<Rightarrow>
         (case find_surface surface_id d of
           None \<Rightarrow> Err NotFound
         | Some s \<Rightarrow> Ok (push_display_event (sf_owner s) surface_id Key (ucast key) d)))"

definition route_pointer :: "16 word \<Rightarrow> 16 word \<Rightarrow> u8 \<Rightarrow> u8 \<Rightarrow> display_server \<Rightarrow> (display_error, u32 \<times> display_server) result" where
  "route_pointer x y buttons changed d =
     (case hit_test x y d of
       None \<Rightarrow> Err NotFound
     | Some surface_id \<Rightarrow>
         (case find_surface surface_id d of
           None \<Rightarrow> Err NotFound
         | Some s \<Rightarrow>
             let val = ucast x OR push_bit 16 (ucast y) OR push_bit 32 (ucast buttons) OR push_bit 40 (ucast changed);
                 d = push_pointer_motion (sf_owner s) surface_id val d
             in Ok (surface_id, if changed \<noteq> 0 then push_display_event (sf_owner s) surface_id PointerButton val d else d)))"

definition poll_event :: "fin \<Rightarrow> display_server \<Rightarrow> display_event option \<times> display_server" where
  "poll_event owner d =
     (case min_by_key (\<lambda>(i, e). ev_serial e) (indexed_events (\<lambda>e. ev_owner e = owner) d) of
       None \<Rightarrow> (None, d)
     | Some (i, e) \<Rightarrow> (Some e, d\<lparr>ds_events := (ds_events d)[i := None]\<rparr>))"

text \<open>The protocol information and the health snapshot.\<close>

datatype display_features = DisplayFeatures (feature_bits: u32)

definition ATOMIC_SURFACE_STATE :: display_features where "ATOMIC_SURFACE_STATE = DisplayFeatures (push_bit 0 1)"

definition DAMAGE_REGIONS :: display_features where "DAMAGE_REGIONS = DisplayFeatures (push_bit 1 1)"

definition MULTI_REGION_DAMAGE :: display_features where "MULTI_REGION_DAMAGE = DisplayFeatures (push_bit 2 1)"

definition FRAME_CALLBACKS :: display_features where "FRAME_CALLBACKS = DisplayFeatures (push_bit 3 1)"

definition OUTPUT_DAMAGE :: display_features where "OUTPUT_DAMAGE = DisplayFeatures (push_bit 4 1)"

definition ALPHA_BUFFERS :: display_features where "ALPHA_BUFFERS = DisplayFeatures (push_bit 5 1)"

definition POINTER_EVENT_COALESCING :: display_features where "POINTER_EVENT_COALESCING = DisplayFeatures (push_bit 6 1)"

definition EVENT_OVERFLOW_RECOVERY :: display_features where "EVENT_OVERFLOW_RECOVERY = DisplayFeatures (push_bit 7 1)"

definition PRESENTATION_DIAGNOSTICS :: display_features where "PRESENTATION_DIAGNOSTICS = DisplayFeatures (push_bit 8 1)"

definition features_contains :: "display_features \<Rightarrow> display_features \<Rightarrow> bool" where
  "features_contains f feature \<longleftrightarrow> feature_bits f AND feature_bits feature = feature_bits feature"

definition features_union :: "display_features \<Rightarrow> display_features \<Rightarrow> display_features" where
  "features_union f g = DisplayFeatures (feature_bits f OR feature_bits g)"

record display_protocol_info =
  pi_version :: u16
  pi_max_surfaces :: u16
  pi_max_events :: u16
  pi_features :: display_features

definition protocol_info :: display_protocol_info where
  "protocol_info = \<lparr>pi_version = 3, pi_max_surfaces = of_nat MAX_SURFACES, pi_max_events = of_nat MAX_DISPLAY_EVENTS,
     pi_features = foldl features_union ATOMIC_SURFACE_STATE [DAMAGE_REGIONS, MULTI_REGION_DAMAGE, FRAME_CALLBACKS, OUTPUT_DAMAGE,
       ALPHA_BUFFERS, POINTER_EVENT_COALESCING, EVENT_OVERFLOW_RECOVERY, PRESENTATION_DIAGNOSTICS]\<rparr>"

record display_diagnostics =
  dg_surfaces :: u16
  dg_visible_surfaces :: u16
  dg_queued_events :: u16
  dg_pending_frame_callbacks :: u16
  dg_commits :: u64
  dg_frames :: u64
  dg_callbacks :: u64
  dg_coalesced_frame_callbacks :: u64
  dg_coalesced_pointer_motion :: u64
  dg_recovered_event_slots :: u64
  dg_dropped_events :: u64

definition diagnostics :: "display_server \<Rightarrow> display_diagnostics" where
  "diagnostics d = \<lparr>dg_surfaces = of_nat (length (flatten (ds_surfaces d))),
     dg_visible_surfaces = of_nat (length (filter (\<lambda>s. su_visible (sf_current s)) (flatten (ds_surfaces d)))),
     dg_queued_events = of_nat (length (flatten (ds_events d))),
     dg_pending_frame_callbacks = of_nat (length (filter (\<lambda>sequence. sequence \<noteq> 0) (ds_frame_commits d))),
     dg_commits = ds_commits d, dg_frames = ds_frame_sequence d, dg_callbacks = ds_callbacks d,
     dg_coalesced_frame_callbacks = ds_coalesced_frame_callbacks d, dg_coalesced_pointer_motion = ds_coalesced_pointer_motion d,
     dg_recovered_event_slots = ds_recovered_event_slots d, dg_dropped_events = ds_dropped_events d\<rparr>"

section \<open>Specification: steps of clients and of the compositor\<close>

inductive staging_step :: "fin \<Rightarrow> display_server \<Rightarrow> display_server \<Rightarrow> bool" where
  stage_attach: "attach owner i b d = Ok d' \<Longrightarrow> staging_step owner d d'"
| stage_damage: "damage owner i r d = Ok d' \<Longrightarrow> staging_step owner d d'"
| stage_regions: "damage_regions owner i rs d = Some (Ok (n, d')) \<Longrightarrow> staging_step owner d d'"
| stage_position: "set_position owner i x y d = Ok d' \<Longrightarrow> staging_step owner d d'"
| stage_geometry: "set_geometry owner i r d = Ok d' \<Longrightarrow> staging_step owner d d'"
| stage_visible: "set_visible owner i v d = Ok d' \<Longrightarrow> staging_step owner d d'"

inductive client_step :: "fin \<Rightarrow> display_server \<Rightarrow> display_server \<Rightarrow> bool" where
  client_stage: "staging_step owner d d' \<Longrightarrow> client_step owner d d'"
| client_create: "create_surface owner t role r d = Ok (i, d') \<Longrightarrow> client_step owner d d'"
| client_commit: "display_commit owner i d = Ok (q, d') \<Longrightarrow> client_step owner d d'"
| client_destroy: "destroy owner i d = Ok d' \<Longrightarrow> client_step owner d d'"
| client_poll: "poll_event owner d = (e, d') \<Longrightarrow> client_step owner d d'"

inductive compositor_step :: "display_server \<Rightarrow> display_server \<Rightarrow> bool" where
  compositor_frame: "complete_frame d = (n, d') \<Longrightarrow> compositor_step d d'"
| compositor_focus: "focus i d = Ok d' \<Longrightarrow> compositor_step d d'"
| compositor_key: "route_key k d = Ok d' \<Longrightarrow> compositor_step d d'"
| compositor_pointer: "route_pointer x y b c d = Ok (i, d') \<Longrightarrow> compositor_step d d'"

section \<open>Slots that a predicate does not see\<close>

lemma filter_fill_slot:
  "fill_slot x xs = Some ys \<Longrightarrow> \<not> P x \<Longrightarrow> filter P (flatten ys) = filter P (flatten xs)"
proof (induction x xs arbitrary: ys rule: fill_slot.induct)
  case (3 x y xs)
  then show ?case by auto
qed auto

lemma flatten_list_update:
  assumes "i < length xs"
  shows "flatten (xs[i := v]) = flatten (take i xs) @ flatten [v] @ flatten (drop (Suc i) xs)"
    and "flatten xs = flatten (take i xs) @ flatten [xs ! i] @ flatten (drop (Suc i) xs)"
proof -
  show "flatten (xs[i := v]) = flatten (take i xs) @ flatten [v] @ flatten (drop (Suc i) xs)"
    using assms flatten_append [of "take i xs" "[v] @ drop (Suc i) xs"] flatten_append [of "[v]" "drop (Suc i) xs"]
    by (simp add: upd_conv_take_nth_drop)
  show "flatten xs = flatten (take i xs) @ flatten [xs ! i] @ flatten (drop (Suc i) xs)"
    using assms flatten_append [of "take i xs" "[xs ! i] @ drop (Suc i) xs"] flatten_append [of "[xs ! i]" "drop (Suc i) xs"]
      id_take_nth_drop [OF assms] by simp
qed

lemma filter_list_update:
  assumes "list_all (\<lambda>x. \<not> P x) (flatten [xs ! i])" and "list_all (\<lambda>x. \<not> P x) (flatten [v])"
  shows "filter P (flatten (xs[i := v])) = filter P (flatten xs)"
proof (cases "i < length xs")
  case True
  have "filter P (flatten [xs ! i]) = []" "filter P (flatten [v]) = []" using assms by (simp_all add: filter_empty_conv list_all_iff)
  then show ?thesis using arg_cong [OF flatten_list_update(1) [OF True, of v], of "filter P"] arg_cong [OF flatten_list_update(2) [OF True], of "filter P"]
    by (simp only: filter_append append_Nil)
qed (simp add: list_update_beyond not_less)

lemma map_list_update:
  assumes "map f (flatten [xs ! i]) = map f (flatten [v])"
  shows "map f (flatten (xs[i := v])) = map f (flatten xs)"
proof (cases "i < length xs")
  case True
  show ?thesis using arg_cong [OF flatten_list_update(1) [OF True, of v], of "map f"] arg_cong [OF flatten_list_update(2) [OF True], of "map f"]
    by (simp only: map_append assms)
qed (simp add: list_update_beyond not_less)

lemma filter_update_first:
  assumes "\<And>x. find Q (flatten xs) = Some x \<Longrightarrow> \<not> P x \<and> \<not> P (f x)"
  shows "filter P (flatten (update_first Q f xs)) = filter P (flatten xs)"
  using assms by (induction xs rule: flatten.induct) auto

lemma map_update_first:
  assumes "\<And>x. find Q (flatten xs) = Some x \<Longrightarrow> g (f x) = g x"
  shows "map g (flatten (update_first Q f xs)) = map g (flatten xs)"
  using assms by (induction xs rule: flatten.induct) auto

lemma min_by_key_mem: "min_by_key k xs = Some x \<Longrightarrow> x \<in> set xs"
  by (induction k xs arbitrary: x rule: min_by_key.induct) (auto split: option.splits if_splits)

lemma max_by_key_mem: "max_by_key k xs = Some x \<Longrightarrow> x \<in> set xs"
  by (induction k xs arbitrary: x rule: max_by_key.induct) (auto split: option.splits if_splits)

lemma indexed_events_iff: "(i, e) \<in> set (indexed_events P d) \<longleftrightarrow> i < length (ds_events d) \<and> ds_events d ! i = Some e \<and> P e"
proof -
  let ?f = "\<lambda>(i, e). case e of None \<Rightarrow> None | Some e \<Rightarrow> if P e then Some (i, e) else None"
  have eq: "Some (i, e) = ?f p \<longleftrightarrow> p = (i, Some e) \<and> P e" for p by (cases p) (auto split: option.splits if_splits)
  have "Some (i, e) \<in> set (map ?f (enumerate 0 (ds_events d))) \<longleftrightarrow> (i, Some e) \<in> set (enumerate 0 (ds_events d)) \<and> P e"
    unfolding set_map image_iff eq by blast
  then show ?thesis by (auto simp: indexed_events_def set_flatten in_set_enumerate_eq)
qed

lemma indexed_min:
  assumes "min_by_key (\<lambda>(i, e). ev_serial e) (indexed_events P d) = Some (i, e)"
  shows "i < length (ds_events d)" "ds_events d ! i = Some e" "P e"
  using min_by_key_mem [OF assms] by (simp_all add: indexed_events_iff)

lemma indexed_max:
  assumes "max_by_key (\<lambda>(i, e). ev_serial e) (indexed_events P d) = Some (i, e)"
  shows "i < length (ds_events d)" "ds_events d ! i = Some e" "P e"
  using max_by_key_mem [OF assms] by (simp_all add: indexed_events_iff)

lemma bump_serial_simps [simp]:
  "ds_surfaces (bump_serial d) = ds_surfaces d" "ds_frame_commits (bump_serial d) = ds_frame_commits d"
  "ds_output_damage (bump_serial d) = ds_output_damage d" "ds_events (bump_serial d) = ds_events d"
  by (simp_all add: bump_serial_def)

lemma indexed_bump [simp]: "indexed_events P (bump_serial d) = indexed_events P d"
  by (simp add: indexed_events_def)

text \<open>Events that pushing an event never removes: neither motion samples nor events the predicate excludes.\<close>

lemma push_display_event_frame [simp]:
  "ds_surfaces (push_display_event owner i k v d) = ds_surfaces d"
  "ds_frame_commits (push_display_event owner i k v d) = ds_frame_commits d"
  "ds_output_damage (push_display_event owner i k v d) = ds_output_damage d"
  by (simp_all add: push_display_event_def Let_def split: option.splits prod.splits)

lemma push_display_event_events:
  assumes "\<And>e. ev_owner e = owner \<Longrightarrow> ev_surface_id e = i \<Longrightarrow> ev_kind e = k \<Longrightarrow> \<not> Q e" and "\<And>e. ev_kind e = PointerMotion \<Longrightarrow> \<not> Q e"
  shows "filter Q (flatten (ds_events (push_display_event owner i k v d))) = filter Q (flatten (ds_events d))"
proof -
  define new where "new = \<lparr>ev_serial = ds_next_event_serial d, ev_owner = owner, ev_surface_id = i, ev_kind = k, ev_value = v\<rparr>"
  define victim where "victim = (if k \<noteq> PointerMotion then min_by_key (\<lambda>(i, e). ev_serial e) (indexed_events (\<lambda>e. ev_kind e = PointerMotion) d) else None)"
  have Q: "\<not> Q new" using assms(1) [of new] by (simp add: new_def)
  have push: "ds_events (push_display_event owner i k v d) = (case fill_slot new (ds_events d) of Some events \<Rightarrow> events
      | None \<Rightarrow> (case victim of Some (j, _) \<Rightarrow> (ds_events d)[j := Some new] | None \<Rightarrow> ds_events d))"
    by (simp add: push_display_event_def Let_def new_def victim_def split: option.splits prod.splits)
  have slot: "filter Q (flatten ((ds_events d)[j := Some new])) = filter Q (flatten (ds_events d))" if "victim = Some (j, e)" for j e
  proof -
    have "ds_events d ! j = Some e" "ev_kind e = PointerMotion"
      using indexed_min [of "\<lambda>e. ev_kind e = PointerMotion" d j e] that by (simp_all add: victim_def split: if_splits)
    then show ?thesis using assms(2) Q by (intro filter_list_update) simp_all
  qed
  have fill: "filter Q (flatten events) = filter Q (flatten (ds_events d))" if "fill_slot new (ds_events d) = Some events" for events
    using that Q by (rule filter_fill_slot)
  show ?thesis unfolding push using slot fill by (auto split: option.splits)
qed

text \<open>What one owner's requests leave alone: the surfaces and the queued events of everybody else.\<close>

definition others :: "fin \<Rightarrow> display_server \<Rightarrow> surface list" where
  "others owner d = filter (\<lambda>s. sf_owner s \<noteq> owner) (flatten (ds_surfaces d))"

definition other_events :: "fin \<Rightarrow> display_server \<Rightarrow> display_event list" where
  "other_events owner d = filter (\<lambda>e. ev_owner e \<noteq> owner) (flatten (ds_events d))"

definition queue_full :: "display_server \<Rightarrow> bool" where
  "queue_full d \<longleftrightarrow> None \<notin> set (ds_events d)"

text \<open>A list that lost one pointer-motion sample.\<close>

definition lost_motion :: "display_event list \<Rightarrow> display_event list \<Rightarrow> bool" where
  "lost_motion es es' \<longleftrightarrow> (\<exists>us e vs. es = us @ e # vs \<and> es' = us @ vs \<and> ev_kind e = PointerMotion)"

lemma filter_list_update_lost:
  assumes "i < length xs" "xs ! i = Some e" "P e" "list_all (\<lambda>x. \<not> P x) (flatten [v])"
  shows "\<exists>us vs. filter P (flatten xs) = us @ e # vs \<and> filter P (flatten (xs[i := v])) = us @ vs"
proof -
  have "filter P (flatten [v]) = []" using assms(4) by (simp add: filter_empty_conv list_all_iff)
  then have "filter P (flatten (xs[i := v])) = filter P (flatten (take i xs)) @ filter P (flatten (drop (Suc i) xs))"
    by (simp only: flatten_list_update(1) [OF assms(1)] filter_append append_Nil)
  moreover have "filter P (flatten xs) = filter P (flatten (take i xs)) @ e # filter P (flatten (drop (Suc i) xs))"
    using assms(2,3) by (subst flatten_list_update(2) [OF assms(1)]) simp
  ultimately show ?thesis by blast
qed

text \<open>Pushing an event touches an event of another owner only when the queue is full, and then takes the slot of one pointer-motion sample.\<close>

lemma push_display_event_others:
  "other_events owner (push_display_event owner i k v d) = other_events owner d
    \<or> queue_full d \<and> lost_motion (other_events owner d) (other_events owner (push_display_event owner i k v d))"
proof -
  define new where "new = \<lparr>ev_serial = ds_next_event_serial d, ev_owner = owner, ev_surface_id = i, ev_kind = k, ev_value = v\<rparr>"
  define victim where "victim = (if k \<noteq> PointerMotion then min_by_key (\<lambda>(i, e). ev_serial e) (indexed_events (\<lambda>e. ev_kind e = PointerMotion) d) else None)"
  have new: "\<not> ev_owner new \<noteq> owner" by (simp add: new_def)
  have push: "ds_events (push_display_event owner i k v d) = (case fill_slot new (ds_events d) of Some events \<Rightarrow> events
      | None \<Rightarrow> (case victim of Some (j, _) \<Rightarrow> (ds_events d)[j := Some new] | None \<Rightarrow> ds_events d))"
    by (simp add: push_display_event_def Let_def new_def victim_def split: option.splits prod.splits)
  consider (filled) events where "fill_slot new (ds_events d) = Some events" | (dropped) "fill_slot new (ds_events d) = None" "victim = None"
    | (taken) j e where "fill_slot new (ds_events d) = None" "victim = Some (j, e)" by (cases "fill_slot new (ds_events d)"; cases victim) auto
  then show ?thesis
  proof cases
    case filled
    then show ?thesis using filter_fill_slot [OF filled, of "\<lambda>e. ev_owner e \<noteq> owner"] new by (simp add: other_events_def push)
  next
    case dropped
    then show ?thesis by (simp add: other_events_def push)
  next
    case taken
    have e: "j < length (ds_events d)" "ds_events d ! j = Some e" "ev_kind e = PointerMotion"
      using indexed_min [of "\<lambda>e. ev_kind e = PointerMotion" d j e] taken(2) by (simp_all add: victim_def split: if_splits)
    have events: "ds_events (push_display_event owner i k v d) = (ds_events d)[j := Some new]" by (simp add: push taken)
    have full: "queue_full d" using taken(1) by (simp add: queue_full_def fill_slot_None)
    show ?thesis
    proof (cases "ev_owner e = owner")
      case True
      then have "filter (\<lambda>e. ev_owner e \<noteq> owner) (flatten ((ds_events d)[j := Some new])) = filter (\<lambda>e. ev_owner e \<noteq> owner) (flatten (ds_events d))"
        using e(2) new by (intro filter_list_update) simp_all
      then show ?thesis by (simp add: other_events_def events)
    next
      case False
      then have "\<exists>us vs. other_events owner d = us @ e # vs \<and> other_events owner (push_display_event owner i k v d) = us @ vs"
        unfolding other_events_def events using new by (intro filter_list_update_lost [OF e(1,2)]) simp_all
      then show ?thesis using full e(3) by (auto simp: lost_motion_def)
    qed
  qed
qed

lemma owned_surface_Ok:
  "owned_surface owner i d = Ok s \<longleftrightarrow> find (\<lambda>s. sf_id s = i) (flatten (ds_surfaces d)) = Some s \<and> sf_owner s = owner"
  by (auto simp: owned_surface_def split: option.splits if_splits)

lemma owned_index_Ok:
  assumes "owned_index owner i d = Ok (j, s)"
  shows "j < length (ds_surfaces d)" "ds_surfaces d ! j = Some s" "sf_id s = i" "sf_owner s = owner"
proof -
  have "position (\<lambda>slot. case slot of None \<Rightarrow> False | Some s \<Rightarrow> sf_id s = i) (ds_surfaces d) = Some j" "ds_surfaces d ! j = Some s" "sf_owner s = owner"
    using assms by (auto simp: owned_index_def split: option.splits if_splits)
  then show "j < length (ds_surfaces d)" "ds_surfaces d ! j = Some s" "sf_id s = i" "sf_owner s = owner"
    using position_Some [of "\<lambda>slot. case slot of None \<Rightarrow> False | Some s \<Rightarrow> sf_id s = i" "ds_surfaces d" j] by auto
qed

lemma put_surface_frame:
  assumes "owned_surface owner i d = Ok s" and "sf_owner s' = owner"
  shows "others owner (put_surface i s' d) = others owner d" "other_events owner (put_surface i s' d) = other_events owner d"
proof -
  show "others owner (put_surface i s' d) = others owner d" unfolding others_def put_surface_def using assms
    by (simp add: owned_surface_Ok) (rule filter_update_first, simp)
  show "other_events owner (put_surface i s' d) = other_events owner d" by (simp add: other_events_def put_surface_def)
qed

lemma add_pending_damage_simps [simp]:
  "sf_owner (add_pending_damage r s) = sf_owner s" "sf_current (add_pending_damage r s) = sf_current s" "sf_id (add_pending_damage r s) = sf_id s"
  by (simp_all add: add_pending_damage_def)

lemma fold_pending_damage_simps [simp]:
  "sf_owner (fold (\<lambda>r. add_pending_damage (f r)) rs s) = sf_owner s" "sf_current (fold (\<lambda>r. add_pending_damage (f r)) rs s) = sf_current s"
  "sf_id (fold (\<lambda>r. add_pending_damage (f r)) rs s) = sf_id s"
  by (induction rs arbitrary: s) simp_all

text \<open>What staging leaves alone: the published states, the output damage, the owed frames and the events.\<close>

definition published :: "display_server \<Rightarrow> (u32 \<times> fin \<times> surface_state) list" where
  "published d = map (\<lambda>s. (sf_id s, sf_owner s, sf_current s)) (flatten (ds_surfaces d))"

lemma put_surface_published:
  assumes "owned_surface owner i d = Ok s" and "sf_id s' = sf_id s" "sf_owner s' = sf_owner s" "sf_current s' = sf_current s"
  shows "published (put_surface i s' d) = published d"
  unfolding published_def put_surface_def using assms by (simp add: owned_surface_Ok) (rule map_update_first, simp)

lemma put_index_frame:
  assumes "owned_index owner i d = Ok (j, s)" and "sf_owner s' = owner"
  shows "filter (\<lambda>s. sf_owner s \<noteq> owner) (flatten ((ds_surfaces d)[j := Some s'])) = filter (\<lambda>s. sf_owner s \<noteq> owner) (flatten (ds_surfaces d))"
  using owned_index_Ok [OF assms(1)] assms(2) by (intro filter_list_update) simp_all

text \<open>Every staging request is a no-op or replaces the pending state of one surface of its owner.\<close>

definition same_public :: "surface \<Rightarrow> surface \<Rightarrow> bool" where
  "same_public s s' \<longleftrightarrow> sf_owner s' = sf_owner s \<and> sf_id s' = sf_id s \<and> sf_current s' = sf_current s"

definition unseen :: "fin \<Rightarrow> display_server \<Rightarrow> display_server \<Rightarrow> bool" where
  "unseen owner d d' \<longleftrightarrow> others owner d' = others owner d \<and> published d' = published d \<and> ds_events d' = ds_events d \<and>
     ds_output_damage d' = ds_output_damage d \<and> ds_frame_commits d' = ds_frame_commits d"

lemma unseen_refl [simp]: "unseen owner d d"
  by (simp add: unseen_def)

lemma same_public_simps [simp]:
  "same_public s (add_pending_damage r s') = same_public s s'" "same_public s (s\<lparr>sf_pending := p\<rparr>)" "same_public s s"
  by (simp_all add: same_public_def)

lemma put_surface_stages:
  assumes "owned_surface owner i d = Ok s" and "same_public s s'"
  shows "unseen owner d (put_surface i s' d)"
proof -
  have s': "sf_owner s' = owner" "sf_id s' = sf_id s" "sf_owner s' = sf_owner s" "sf_current s' = sf_current s"
    using assms(1,2) by (simp_all add: same_public_def owned_surface_Ok)
  show ?thesis using put_surface_frame(1) [OF assms(1) s'(1)] put_surface_published [OF assms(1) s'(2-4)]
    unfolding unseen_def by (simp add: put_surface_def)
qed

lemma staging_step_frame:
  assumes "staging_step owner d d'"
  shows "unseen owner d d'"
  using assms
proof cases
  case (stage_attach i b)
  then show ?thesis by (cases "owned_surface owner i d") (auto simp: attach_def split: if_splits intro!: put_surface_stages)
next
  case (stage_damage i r)
  then show ?thesis by (cases "owned_surface owner i d")
    (auto simp: damage_def split: if_splits option.splits intro!: put_surface_stages)
next
  case (stage_regions i rs n)
  then obtain j s s' where s: "owned_index owner i d = Ok (j, s)" "d' = d\<lparr>ds_surfaces := (ds_surfaces d)[j := Some s']\<rparr>"
      "sf_owner s' = sf_owner s" "sf_id s' = sf_id s" "sf_current s' = sf_current s"
    by (auto simp: damage_regions_def Let_def split: sum.splits if_splits)
  note ok = owned_index_Ok [OF s(1)]
  have "published d' = published d" unfolding published_def s(2) using ok s by (simp) (rule map_list_update, simp)
  then show ?thesis using put_index_frame [OF s(1), of s'] ok s by (simp add: others_def unseen_def)
next
  case (stage_position i x y)
  then show ?thesis by (cases "owned_surface owner i d")
    (auto simp: set_position_def Let_def split: if_splits intro!: put_surface_stages)
next
  case (stage_geometry i r)
  then show ?thesis by (cases "owned_surface owner i d")
    (auto simp: set_geometry_def split: if_splits option.splits intro!: put_surface_stages)
next
  case (stage_visible i v)
  then show ?thesis by (cases "owned_surface owner i d") (auto simp: set_visible_def split: if_splits intro!: put_surface_stages)
qed

lemma create_surface_frame:
  assumes "create_surface owner t role r d = Ok (i, d')"
  shows "others owner d' = others owner d"
    "other_events owner d' = other_events owner d \<or> queue_full d \<and> lost_motion (other_events owner d) (other_events owner d')"
proof -
  obtain surfaces s where s: "fill_slot s (ds_surfaces d) = Some surfaces" "sf_owner s = owner"
    "d' = push_display_event owner i Configure (pack_size r)
      (d\<lparr>ds_surfaces := surfaces, ds_next_surface_id := next_nonzero i, ds_next_z := saturating_add (ds_next_z d) 1\<rparr>)"
    using assms by (auto simp: create_surface_def Let_def split: if_splits sum.splits option.splits)
  show "others owner d' = others owner d" using filter_fill_slot [OF s(1), of "\<lambda>s. sf_owner s \<noteq> owner"] s(2) by (simp add: others_def s(3))
  let ?d = "d\<lparr>ds_surfaces := surfaces, ds_next_surface_id := next_nonzero i, ds_next_z := saturating_add (ds_next_z d) 1\<rparr>"
  have "other_events owner ?d = other_events owner d" "queue_full ?d = queue_full d" by (simp_all add: other_events_def queue_full_def)
  then show "other_events owner d' = other_events owner d \<or> queue_full d \<and> lost_motion (other_events owner d) (other_events owner d')"
    using push_display_event_others [of owner i Configure "pack_size r" ?d] by (simp add: s(3))
qed

lemma poll_event_frame:
  assumes "poll_event owner d = (e, d')"
  shows "others owner d' = others owner d" "other_events owner d' = other_events owner d"
proof -
  have "others owner d' = others owner d \<and> other_events owner d' = other_events owner d"
  proof (cases "min_by_key (\<lambda>(i, e). ev_serial e) (indexed_events (\<lambda>e. ev_owner e = owner) d)")
    case None
    then show ?thesis using assms by (simp add: poll_event_def)
  next
    case (Some p)
    obtain j ev where p: "p = (j, ev)" by (cases p)
    have d': "d' = d\<lparr>ds_events := (ds_events d)[j := None]\<rparr>" using assms by (simp add: poll_event_def Some p)
    have "filter (\<lambda>e. ev_owner e \<noteq> owner) (flatten ((ds_events d)[j := None])) =
      filter (\<lambda>e. ev_owner e \<noteq> owner) (flatten (ds_events d))"
      using indexed_min [OF Some [unfolded p]] by (intro filter_list_update) simp_all
    then show ?thesis by (simp add: others_def other_events_def d')
  qed
  then show "others owner d' = others owner d" "other_events owner d' = other_events owner d" by simp_all
qed

lemma filter_flatten_map:
  assumes "\<And>x. P x \<Longrightarrow> f (Some x) = Some x" and "\<And>x y. \<not> P x \<Longrightarrow> f (Some x) = Some y \<Longrightarrow> \<not> P y" and "f None = None"
  shows "filter P (flatten (map f xs)) = filter P (flatten xs)"
proof (induction xs rule: flatten.induct)
  case (3 x xs)
  then show ?case using assms(1,2) [of x] by (cases "f (Some x)") auto
qed (simp_all add: assms(3))

lemma destroy_frame:
  assumes "destroy owner i d = Ok d'"
  shows "others owner d' = others owner d" "other_events owner d' = other_events owner d"
proof -
  obtain j s where s: "owned_index owner i d = Ok (j, s)" using assms by (auto simp: destroy_def split: sum.splits)
  have d': "ds_surfaces d' = (ds_surfaces d)[j := None]" "ds_events d' = map (\<lambda>e. case e of None \<Rightarrow> None
      | Some e \<Rightarrow> if ev_owner e = owner \<and> ev_surface_id e = i then None else Some e) (ds_events d)"
    using assms s by (auto simp: destroy_def)
  show "others owner d' = others owner d" unfolding others_def d' using owned_index_Ok [OF s] by (intro filter_list_update) simp_all
  show "other_events owner d' = other_events owner d" unfolding other_events_def d' by (rule filter_flatten_map) (auto split: if_splits)
qed

lemma display_commit_Ok:
  assumes "display_commit owner i d = Ok (q, d')"
  obtains j s s' where "owned_index owner i d = Ok (j, s)" "q = next_nonzero (ds_commit_sequence d)"
    "ds_surfaces d' = (ds_surfaces d)[j := Some s']" "ds_frame_commits d' = (ds_frame_commits d)[j := q]" "ds_events d' = ds_events d"
    "ds_output_damage d' = (ds_output_damage d)[j := merge_damage (ds_output_damage d ! j) (committed_output_damage (sf_current s) (sf_pending s))]"
    "sf_owner s' = sf_owner s" "sf_id s' = sf_id s" "sf_commit_sequence s' = q"
    "sf_current s' = (sf_pending s)\<lparr>su_damage := su_damage (sf_current s')\<rparr>" "sf_pending s' = (sf_pending s)\<lparr>su_damage := None\<rparr>"
  using assms by (auto simp: display_commit_def Let_def split: sum.splits intro: that)

section \<open>Owed frame callbacks\<close>

text \<open>The owners and identities the slots hold, and the queued frame callbacks of one surface.\<close>

definition tenants :: "display_server \<Rightarrow> (fin \<times> u32) slots" where
  "tenants d = map (map_option (\<lambda>s. (sf_owner s, sf_id s))) (ds_surfaces d)"

definition callbacks :: "fin \<times> u32 \<Rightarrow> display_server \<Rightarrow> display_event list" where
  "callbacks k d = filter (\<lambda>e. ev_kind e = FrameDone \<and> ev_owner e = fst k \<and> ev_surface_id e = snd k) (flatten (ds_events d))"

definition shaped :: "display_server \<Rightarrow> bool" where
  "shaped d \<longleftrightarrow> length (ds_surfaces d) = MAX_SURFACES \<and> length (ds_frame_commits d) = MAX_SURFACES"

text \<open>Surface \<open>k\<close> is in slot \<open>j\<close> and in no other.\<close>

definition sole_tenant :: "nat \<Rightarrow> fin \<times> u32 \<Rightarrow> display_server \<Rightarrow> bool" where
  "sole_tenant j k d \<longleftrightarrow> j < MAX_SURFACES \<and> tenants d ! j = Some k \<and> (\<forall>m<MAX_SURFACES. tenants d ! m = Some k \<longrightarrow> m = j)"

text \<open>The callback of commit \<open>q\<close> is promised while the commit waits for a frame or the callback waits to be polled.\<close>

definition callback_queued :: "fin \<times> u32 \<Rightarrow> u64 \<Rightarrow> display_server \<Rightarrow> bool" where
  "callback_queued k q d \<longleftrightarrow> (\<exists>e\<in>set (callbacks k d). ev_value e = q)"

definition promised :: "nat \<Rightarrow> fin \<times> u32 \<Rightarrow> u64 \<Rightarrow> display_server \<Rightarrow> bool" where
  "promised j k q d \<longleftrightarrow> shaped d \<and> sole_tenant j k d \<and> q \<noteq> 0
     \<and> (ds_frame_commits d ! j = q \<or> ds_frame_commits d ! j = 0 \<and> callback_queued k q d)"

text \<open>Steps between a commit of surface \<open>k\<close> and its callback: everything but polling by its owner, its destruction, a further commit
  of it, and the creation of a second surface of the same identity, which needs the 32-bit counter to come round. A further commit takes over:
  \<open>awaits k\<close> keeps the sequence number of the latest commit beside the state.\<close>

inductive undisturbed :: "fin \<times> u32 \<Rightarrow> display_server \<Rightarrow> display_server \<Rightarrow> bool" where
  und_stage: "staging_step owner d d' \<Longrightarrow> undisturbed k d d'"
| und_create: "create_surface owner t role r d = Ok (i, d') \<Longrightarrow> (owner, i) \<noteq> k \<Longrightarrow> undisturbed k d d'"
| und_commit: "display_commit owner i d = Ok (q, d') \<Longrightarrow> (owner, i) \<noteq> k \<Longrightarrow> undisturbed k d d'"
| und_destroy: "destroy owner i d = Ok d' \<Longrightarrow> (owner, i) \<noteq> k \<Longrightarrow> undisturbed k d d'"
| und_poll: "poll_event owner d = (e, d') \<Longrightarrow> owner \<noteq> fst k \<Longrightarrow> undisturbed k d d'"
| und_compositor: "compositor_step d d' \<Longrightarrow> undisturbed k d d'"

inductive awaits :: "fin \<times> u32 \<Rightarrow> u64 \<times> display_server \<Rightarrow> u64 \<times> display_server \<Rightarrow> bool" where
  await_other: "undisturbed k d d' \<Longrightarrow> awaits k (q, d) (q, d')"
| await_commit: "display_commit (fst k) (snd k) d = Ok (q', d') \<Longrightarrow> awaits k (q, d) (q', d')"

lemma tenants_length: "tenants d' = tenants d \<Longrightarrow> length (ds_surfaces d') = length (ds_surfaces d)"
  by (auto simp: tenants_def dest: map_eq_imp_length_eq)

lemma sole_tenant_at: "sole_tenant j k d \<Longrightarrow> j < MAX_SURFACES" "sole_tenant j k d \<Longrightarrow> tenants d ! j = Some k"
  by (simp_all only: sole_tenant_def)

lemma sole_tenant_eq: "sole_tenant j k d \<Longrightarrow> m < MAX_SURFACES \<Longrightarrow> tenants d ! m = Some k \<Longrightarrow> m = j"
  unfolding sole_tenant_def by blast

lemma sole_tenant_same: "tenants d' = tenants d \<Longrightarrow> sole_tenant j k d' = sole_tenant j k d"
  by (simp only: sole_tenant_def)

lemma sole_tenant_update:
  assumes "sole_tenant j k d" "tenants d' = (tenants d)[m := t]" "t \<noteq> Some k" "m \<noteq> j"
  shows "sole_tenant j k d'"
proof -
  have other: "tenants d' ! n = tenants d ! n" if "n \<noteq> m" for n using that by (simp add: assms(2))
  have "tenants d' ! m = t \<or> tenants d' ! m = tenants d ! m" by (cases "m < length (tenants d)") (simp_all add: assms(2) list_update_beyond)
  then have "tenants d' ! m \<noteq> Some k \<or> tenants d' ! m = tenants d ! m" using assms(3) by blast
  then have eq: "n = j" if "n < MAX_SURFACES" "tenants d' ! n = Some k" for n
    using sole_tenant_eq [OF assms(1) that(1)] that(2) other [of n] by (cases "n = m") simp_all
  have "tenants d' ! j = Some k" using other [of j] assms(4) sole_tenant_at(2) [OF assms(1)] by simp
  then show ?thesis unfolding sole_tenant_def using sole_tenant_at(1) [OF assms(1)] eq by blast
qed

lemma promised_same:
  assumes "tenants d' = tenants d" "ds_frame_commits d' = ds_frame_commits d" "callbacks k d' = callbacks k d"
  shows "promised j k q d' = promised j k q d"
  using assms tenants_length [OF assms(1)] sole_tenant_same [OF assms(1)] by (simp add: promised_def shaped_def callback_queued_def)

lemma tenants_update_first:
  assumes "\<And>x. find Q (flatten xs) = Some x \<Longrightarrow> g (f x) = g x"
  shows "map (map_option g) (update_first Q f xs) = map (map_option g) xs"
  using assms by (induction xs rule: flatten.induct) auto

lemma tenants_put_surface:
  assumes "find (\<lambda>s. sf_id s = i) (flatten (ds_surfaces d)) = Some s" "sf_owner s' = sf_owner s" "sf_id s' = sf_id s"
  shows "tenants (put_surface i s' d) = tenants d"
  unfolding tenants_def put_surface_def using assms by simp (rule tenants_update_first, simp)

lemma tenants_put_index:
  assumes "ds_surfaces d ! j = Some s" "sf_owner s' = sf_owner s" "sf_id s' = sf_id s" "ds_surfaces d' = (ds_surfaces d)[j := Some s']"
  shows "tenants d' = tenants d"
  using assms by (cases "j < length (ds_surfaces d)") (simp_all add: tenants_def map_update list_update_same_conv list_update_beyond)

lemma put_surface_tenants:
  "owned_surface owner i d = Ok s \<Longrightarrow> same_public s s' \<Longrightarrow> tenants (put_surface i s' d) = tenants d"
  by (rule tenants_put_surface) (auto simp: owned_surface_Ok same_public_def)

lemma staging_step_tenants:
  assumes "staging_step owner d d'"
  shows "tenants d' = tenants d"
  using assms
proof cases
  case (stage_attach i b)
  then show ?thesis by (cases "owned_surface owner i d") (auto simp: attach_def split: if_splits intro!: put_surface_tenants)
next
  case (stage_damage i r)
  then show ?thesis by (cases "owned_surface owner i d")
    (auto simp: damage_def split: if_splits option.splits intro!: put_surface_tenants)
next
  case (stage_regions i rs n)
  then obtain j s s' where s: "owned_index owner i d = Ok (j, s)" "d' = d\<lparr>ds_surfaces := (ds_surfaces d)[j := Some s']\<rparr>"
      "sf_owner s' = sf_owner s" "sf_id s' = sf_id s"
    by (auto simp: damage_regions_def Let_def split: sum.splits if_splits)
  show ?thesis using tenants_put_index [OF owned_index_Ok(2) [OF s(1)] s(3,4)] s(2) by simp
next
  case (stage_position i x y)
  then show ?thesis by (cases "owned_surface owner i d")
    (auto simp: set_position_def Let_def split: if_splits intro!: put_surface_tenants)
next
  case (stage_geometry i r)
  then show ?thesis by (cases "owned_surface owner i d")
    (auto simp: set_geometry_def split: if_splits option.splits intro!: put_surface_tenants)
next
  case (stage_visible i v)
  then show ?thesis by (cases "owned_surface owner i d") (auto simp: set_visible_def split: if_splits intro!: put_surface_tenants)
qed

lemma push_display_event_callbacks [simp]:
  assumes "k \<noteq> FrameDone"
  shows "callbacks c (push_display_event owner i k v d) = callbacks c d" "tenants (push_display_event owner i k v d) = tenants d"
  unfolding callbacks_def tenants_def using assms by (subst push_display_event_events) simp_all

lemma push_pointer_motion_callbacks [simp]:
  "callbacks c (push_pointer_motion owner i v d) = callbacks c d" "tenants (push_pointer_motion owner i v d) = tenants d"
  "ds_frame_commits (push_pointer_motion owner i v d) = ds_frame_commits d"
proof -
  let ?P = "\<lambda>e. ev_owner e = owner \<and> ev_surface_id e = i" and ?Q = "\<lambda>e. ev_kind e = FrameDone \<and> ev_owner e = fst c \<and> ev_surface_id e = snd c"
  have slot: "filter ?Q (flatten ((ds_events d)[j := Some (e\<lparr>ev_serial := n, ev_value := v\<rparr>)])) = filter ?Q (flatten (ds_events d))"
    if "max_by_key (\<lambda>(i, e). ev_serial e) (indexed_events ?P d) = Some (j, e)" "ev_kind e = PointerMotion" for j e n
    using indexed_max [OF that(1)] that(2) by (intro filter_list_update) simp_all
  show "callbacks c (push_pointer_motion owner i v d) = callbacks c d"
    by (auto simp: push_pointer_motion_def split: option.splits) (auto simp: callbacks_def slot)
  show "tenants (push_pointer_motion owner i v d) = tenants d" "ds_frame_commits (push_pointer_motion owner i v d) = ds_frame_commits d"
    by (auto simp: push_pointer_motion_def split: option.splits) (simp_all add: tenants_def)
qed

lemma promised_create:
  assumes "create_surface owner t role r d = Ok (i, d')" "(owner, i) \<noteq> k" "promised j k q d"
  shows "promised j k q d'"
proof -
  obtain surfaces s where s: "fill_slot s (ds_surfaces d) = Some surfaces" "sf_owner s = owner" "sf_id s = i"
    "d' = push_display_event owner i Configure (pack_size r)
      (d\<lparr>ds_surfaces := surfaces, ds_next_surface_id := next_nonzero i, ds_next_z := saturating_add (ds_next_z d) 1\<rparr>)"
    using assms(1) by (auto simp: create_surface_def Let_def split: if_splits sum.splits option.splits)
  obtain m where m: "position (\<lambda>s. s = None) (ds_surfaces d) = Some m" "surfaces = (ds_surfaces d)[m := Some s]"
    using s(1) by (auto simp: fill_slot_position)
  have free: "m < length (ds_surfaces d)" "ds_surfaces d ! m = None" using m(1) by (simp_all add: position_Some)
  have d': "tenants d' = (tenants d)[m := Some (owner, i)]" "callbacks k d' = callbacks k d" "ds_frame_commits d' = ds_frame_commits d"
      "length (ds_surfaces d') = length (ds_surfaces d)"
    by (simp_all add: s(4)) (simp_all add: tenants_def callbacks_def m(2) map_update s(2,3))
  have len: "length (tenants d) = MAX_SURFACES" using assms(3) by (simp add: promised_def shaped_def tenants_def)
  have old: "sole_tenant j k d" using assms(3) by (simp add: promised_def)
  have "tenants d ! m = None" using free len by (simp add: tenants_def)
  then have "m \<noteq> j" using sole_tenant_at(2) [OF old] by auto
  moreover have "Some (owner, i) \<noteq> Some k" using assms(2) by simp
  ultimately have "sole_tenant j k d'" by (intro sole_tenant_update [OF old d'(1)])
  then show ?thesis using assms(3) by (simp add: promised_def shaped_def callback_queued_def d')
qed

lemma promised_commit:
  assumes "display_commit owner i d = Ok (q', d')" "shaped d" "sole_tenant j k d"
  shows "(owner, i) = k \<Longrightarrow> promised j k q' d'" "(owner, i) \<noteq> k \<Longrightarrow> promised j k q d \<Longrightarrow> promised j k q d'"
proof -
  have "((owner, i) = k \<longrightarrow> promised j k q' d') \<and> ((owner, i) \<noteq> k \<and> promised j k q d \<longrightarrow> promised j k q d')"
    using assms(1)
  proof (rule display_commit_Ok)
    fix m s s'
    assume s: "owned_index owner i d = Ok (m, s)" "q' = next_nonzero (ds_commit_sequence d)" "ds_surfaces d' = (ds_surfaces d)[m := Some s']"
      "ds_frame_commits d' = (ds_frame_commits d)[m := q']" "ds_events d' = ds_events d" "sf_owner s' = sf_owner s" "sf_id s' = sf_id s"
    note ok = owned_index_Ok [OF s(1)]
    have same: "tenants d' = tenants d" "callbacks k d' = callbacks k d"
      using tenants_put_index [OF ok(2) s(6,7,3)] by (simp_all add: callbacks_def s)
    have m: "m < MAX_SURFACES" "tenants d ! m = Some (owner, i)" using ok assms(2) by (simp_all add: shaped_def tenants_def)
    have "q' \<noteq> 0" by (simp add: s(2))
    moreover have "shaped d'" using assms(2) tenants_length [OF same(1)] by (simp add: shaped_def s(4))
    moreover have "sole_tenant j k d'" using assms(3) sole_tenant_same [OF same(1)] by simp
    moreover have "m = j \<longleftrightarrow> (owner, i) = k" using sole_tenant_eq [OF assms(3) m(1)] sole_tenant_at(2) [OF assms(3)] m(2) by auto
    moreover have "m < length (ds_frame_commits d)" using m(1) assms(2) by (simp add: shaped_def)
    ultimately show ?thesis by (cases "m = j") (simp_all add: promised_def callback_queued_def same s(4))
  qed
  then show "(owner, i) = k \<Longrightarrow> promised j k q' d'" "(owner, i) \<noteq> k \<Longrightarrow> promised j k q d \<Longrightarrow> promised j k q d'" by simp_all
qed

lemma promised_destroy:
  assumes "destroy owner i d = Ok d'" "(owner, i) \<noteq> k" "promised j k q d"
  shows "promised j k q d'"
proof -
  obtain m s where s: "owned_index owner i d = Ok (m, s)" using assms(1) by (auto simp: destroy_def split: sum.splits)
  note ok = owned_index_Ok [OF s]
  have d': "ds_surfaces d' = (ds_surfaces d)[m := None]" "ds_frame_commits d' = (ds_frame_commits d)[m := 0]"
      "ds_events d' = map (\<lambda>e. case e of None \<Rightarrow> None
        | Some e \<Rightarrow> if ev_owner e = owner \<and> ev_surface_id e = i then None else Some e) (ds_events d)"
    using assms(1) s by (auto simp: destroy_def)
  have "callbacks k d' = callbacks k d" unfolding callbacks_def d'
    by (rule filter_flatten_map) (use assms(2) in \<open>auto split: if_splits\<close>)
  moreover have tn: "tenants d' = (tenants d)[m := None]" by (simp add: tenants_def d' map_update)
  moreover have old: "sole_tenant j k d" using assms(3) by (simp add: promised_def)
  moreover have "tenants d ! m = Some (owner, i)" using ok by (simp add: tenants_def)
  then have "m \<noteq> j" using sole_tenant_at(2) [OF old] assms(2) by auto
  moreover have "sole_tenant j k d'" using \<open>m \<noteq> j\<close> by (intro sole_tenant_update [OF old tn]) simp_all
  ultimately show ?thesis using assms(3) by (simp add: promised_def shaped_def callback_queued_def d')
qed

lemma promised_poll:
  assumes "poll_event owner d = (e, d')" "owner \<noteq> fst k" "promised j k q d"
  shows "promised j k q d'"
proof (cases "min_by_key (\<lambda>(i, e). ev_serial e) (indexed_events (\<lambda>e. ev_owner e = owner) d)")
  case None
  then show ?thesis using assms by (simp add: poll_event_def)
next
  case (Some p)
  obtain m ev where p: "p = (m, ev)" by (cases p)
  have d': "d' = d\<lparr>ds_events := (ds_events d)[m := None]\<rparr>" using assms by (simp add: poll_event_def Some p)
  have "callbacks k d' = callbacks k d" unfolding callbacks_def d' using indexed_min [OF Some [unfolded p]] assms(2)
    by simp (rule filter_list_update; simp)
  then show ?thesis using assms(3) promised_same [of d' d k j q] by (simp add: d' tenants_def)
qed

lemma update_first_full: "None \<in> set (update_first Q f xs) \<longleftrightarrow> None \<in> set xs"
  by (induction xs rule: flatten.induct) auto

lemma update_first_hit: "list_ex Q (flatten xs) \<Longrightarrow> \<exists>x. Q x \<and> f x \<in> set (flatten (update_first Q f xs))"
  by (induction xs rule: flatten.induct) auto

lemma push_frame_done_cases:
  assumes "push_frame_done owner i q d = (b, d')"
  shows "ds_surfaces d' = ds_surfaces d" "ds_frame_commits d' = ds_frame_commits d" "queue_full d \<Longrightarrow> queue_full d'"
    "b \<Longrightarrow> callback_queued (owner, i) q d'" "\<not> b \<Longrightarrow> queue_full d'" "(owner, i) \<noteq> k \<Longrightarrow> callbacks k d' = callbacks k d"
proof -
  let ?is = "\<lambda>e. ev_owner e = owner \<and> ev_surface_id e = i \<and> ev_kind e = FrameDone"
  let ?new = "\<lparr>ev_serial = ds_next_event_serial d, ev_owner = owner, ev_surface_id = i, ev_kind = FrameDone, ev_value = q\<rparr>"
  let ?f = "\<lambda>e. e\<lparr>ev_serial := ds_next_event_serial d, ev_value := q\<rparr>"
  consider (refresh) "b" "list_ex ?is (flatten (ds_events d))" "ds_events d' = update_first ?is ?f (ds_events d)"
    | (fill) "b" "fill_slot ?new (ds_events d) = Some (ds_events d')"
    | (full) "\<not> b" "fill_slot ?new (ds_events d) = None" "d' = d"
    using assms by (auto simp: push_frame_done_def Let_def split: if_splits option.splits)
  then have "(queue_full d \<longrightarrow> queue_full d') \<and> (b \<longrightarrow> callback_queued (owner, i) q d') \<and> (\<not> b \<longrightarrow> queue_full d')
      \<and> ((owner, i) \<noteq> k \<longrightarrow> callbacks k d' = callbacks k d)"
  proof cases
    case refresh
    have "callback_queued (owner, i) q d'"
      using update_first_hit [OF refresh(2), of ?f] by (auto simp: callback_queued_def callbacks_def refresh(3))
    moreover have "callbacks k d' = callbacks k d" if "(owner, i) \<noteq> k"
      unfolding callbacks_def refresh(3) using that by (intro filter_update_first) (auto simp: find_Some_iff)
    ultimately show ?thesis using refresh(1) by (simp add: queue_full_def refresh(3) update_first_full)
  next
    case fill
    have "None \<in> set (ds_events d)" using fill_slot_None [of ?new "ds_events d"] fill(2) by auto
    moreover have "callback_queued (owner, i) q d'" by (auto simp: callback_queued_def callbacks_def fill_slot_set [OF fill(2)])
    moreover have "callbacks k d' = callbacks k d" if "(owner, i) \<noteq> k"
      unfolding callbacks_def by (rule filter_fill_slot [OF fill(2)]) (use that in auto)
    ultimately show ?thesis using fill(1) by (simp add: queue_full_def)
  next
    case full
    then show ?thesis by (simp add: queue_full_def fill_slot_None)
  qed
  then show "queue_full d \<Longrightarrow> queue_full d'" "b \<Longrightarrow> callback_queued (owner, i) q d'" "\<not> b \<Longrightarrow> queue_full d'"
    "(owner, i) \<noteq> k \<Longrightarrow> callbacks k d' = callbacks k d" by simp_all
  show "ds_surfaces d' = ds_surfaces d" "ds_frame_commits d' = ds_frame_commits d"
    using assms by (auto simp: push_frame_done_def Let_def split: if_splits option.splits)
qed

text \<open>One slot of the completion loop: the callback of its commit is queued, or still owed because the queue is full.\<close>

definition settled_slot :: "nat \<Rightarrow> fin \<times> u32 \<Rightarrow> u64 \<Rightarrow> display_server \<Rightarrow> bool" where
  "settled_slot j k q d \<longleftrightarrow> ds_frame_commits d ! j = 0 \<and> callback_queued k q d \<or> ds_frame_commits d ! j = q \<and> queue_full d"

lemma complete_live_slot:
  assumes s: "ds_surfaces d ! m = Some s"
    and push: "push_frame_done (sf_owner s) (sf_id s) (ds_frame_commits d ! m)
      (d\<lparr>ds_surfaces := (ds_surfaces d)[m := Some (s\<lparr>sf_current := (sf_current s)\<lparr>su_damage := None\<rparr>\<rparr>)]\<rparr>) = (b, d2)"
    and d': "d' = (if b then d2\<lparr>ds_frame_commits := (ds_frame_commits d2)[m := 0]\<rparr> else d2)"
    and m: "m < MAX_SURFACES" and busy: "ds_frame_commits d ! m \<noteq> 0" and pr: "promised j k q d"
  shows "promised j k q d'" "m = j \<or> settled_slot j k q d \<Longrightarrow> settled_slot j k q d'"
proof -
  let ?s = "s\<lparr>sf_current := (sf_current s)\<lparr>su_damage := None\<rparr>\<rparr>"
  note push = push_frame_done_cases [OF push]
  have "tenants d2 = tenants d" using push(1) by (intro tenants_put_index [OF s, of ?s]) simp_all
  then have tn: "tenants d' = tenants d" by (simp add: d' tenants_def)
  have len: "length (ds_frame_commits d) = MAX_SURFACES" "length (ds_surfaces d) = MAX_SURFACES" using pr by (simp_all add: promised_def shaped_def)
  have fc: "ds_frame_commits d' = (if b then (ds_frame_commits d)[m := 0] else ds_frame_commits d)" by (simp add: d' push(2))
  have ev: "callbacks c d' = callbacks c d2" "queue_full d' = queue_full d2" for c by (simp_all add: d' callbacks_def queue_full_def)
  have full: "queue_full d \<Longrightarrow> queue_full d'" "\<not> b \<Longrightarrow> queue_full d'" using push(3,5) by (simp_all add: ev(2)) (simp add: queue_full_def)
  have key: "tenants d ! m = Some (sf_owner s, sf_id s)" using s m len by (simp add: tenants_def)
  have old: "sole_tenant j k d" using pr by (simp add: promised_def)
  have new: "sole_tenant j k d'" "shaped d'" using old sole_tenant_same [OF tn] tenants_length [OF tn] len by (simp_all add: shaped_def fc)
  have "promised j k q d' \<and> (m = j \<or> settled_slot j k q d \<longrightarrow> settled_slot j k q d')"
  proof (cases "m = j")
    case True
    then have k: "k = (sf_owner s, sf_id s)" using key sole_tenant_at(2) [OF old] by simp
    have q: "ds_frame_commits d ! j = q" using pr busy True by (auto simp: promised_def)
    have "b \<Longrightarrow> callback_queued k q d'" using push(4) q True k by (simp add: callback_queued_def ev(1))
    then show ?thesis using pr full(2) q True len m new by (cases b) (simp_all add: promised_def settled_slot_def fc)
  next
    case False
    then have "(sf_owner s, sf_id s) \<noteq> k" using key sole_tenant_eq [OF old m] by auto
    then have "callbacks k d2 = callbacks k d" using push(6) by (simp add: callbacks_def)
    then have "callback_queued k q d' = callback_queued k q d" by (simp add: callback_queued_def ev)
    then show ?thesis using pr full(1) False new by (cases b) (auto simp: promised_def settled_slot_def fc)
  qed
  then show "promised j k q d'" "m = j \<or> settled_slot j k q d \<Longrightarrow> settled_slot j k q d'" by blast+
qed

lemma complete_slot_promised:
  assumes "complete_slot m (n, d) = (n', d')" "m < MAX_SURFACES" "promised j k q d"
  shows "promised j k q d' \<and> (m = j \<or> settled_slot j k q d \<longrightarrow> settled_slot j k q d')"
proof (cases "ds_frame_commits d ! m = 0")
  case True
  then show ?thesis using assms by (auto simp: complete_slot_def promised_def settled_slot_def)
next
  case busy: False
  show ?thesis
  proof (cases "ds_surfaces d ! m")
    case None
    have d': "d' = d\<lparr>ds_frame_commits := (ds_frame_commits d)[m := 0]\<rparr>" using assms(1) busy None by (simp add: complete_slot_def Let_def)
    have old: "sole_tenant j k d" "length (ds_surfaces d) = MAX_SURFACES" using assms(3) by (simp_all add: promised_def shaped_def)
    have "tenants d ! m = None" using None assms(2) old(2) by (simp add: tenants_def)
    then have "m \<noteq> j" using sole_tenant_at(2) [OF old(1)] by auto
    moreover have "tenants d' = tenants d" by (simp add: d' tenants_def)
    ultimately show ?thesis using assms(3) sole_tenant_same [of d' d j k]
      by (auto simp: d' promised_def settled_slot_def shaped_def callback_queued_def callbacks_def queue_full_def)
  next
    case (Some s)
    obtain b d2 where push: "push_frame_done (sf_owner s) (sf_id s) (ds_frame_commits d ! m)
        (d\<lparr>ds_surfaces := (ds_surfaces d)[m := Some (s\<lparr>sf_current := (sf_current s)\<lparr>su_damage := None\<rparr>\<rparr>)]\<rparr>) = (b, d2)" by force
    then have "d' = (if b then d2\<lparr>ds_frame_commits := (ds_frame_commits d2)[m := 0]\<rparr> else d2)"
      using assms(1) busy Some by (cases b) (simp_all add: complete_slot_def Let_def)
    from complete_live_slot [OF Some push this assms(2) busy assms(3)] show ?thesis by blast
  qed
qed

lemma complete_slots_promised:
  assumes "fold complete_slot ms (n, d) = (n', d')" "promised j k q d" "set ms \<subseteq> {..<MAX_SURFACES}" "j \<in> set ms \<or> settled_slot j k q d"
  shows "promised j k q d' \<and> settled_slot j k q d'"
  using assms
proof (induction ms arbitrary: n d)
  case (Cons m ms)
  obtain n1 d1 where d1: "complete_slot m (n, d) = (n1, d1)" by force
  have "m < MAX_SURFACES" using Cons.prems(3) by simp
  note slot = complete_slot_promised [OF d1 this Cons.prems(2)]
  show ?case
  proof (rule Cons.IH)
    show "fold complete_slot ms (n1, d1) = (n', d')" using Cons.prems(1) d1 by simp
  qed (use slot Cons.prems(3,4) in auto)
qed simp

lemma complete_frame_promised:
  assumes "complete_frame d = (n, d')" "promised j k q d"
  shows "promised j k q d'" "settled_slot j k q d'"
proof -
  let ?d = "d\<lparr>ds_frame_sequence := next_nonzero (ds_frame_sequence d)\<rparr>"
  obtain n1 d1 where d1: "fold complete_slot [0..<MAX_SURFACES] (0, ?d) = (n1, d1)" by force
  have same: "tenants ?d = tenants d" "callbacks k ?d = callbacks k d" by (simp_all add: tenants_def callbacks_def)
  have pr: "promised j k q ?d" using assms(2) promised_same [OF same(1) _ same(2)] by simp
  then have "j \<in> set [0..<MAX_SURFACES]" using sole_tenant_at(1) [of j k ?d] by (simp add: promised_def)
  moreover have "set [0..<MAX_SURFACES] \<subseteq> {..<MAX_SURFACES}" by auto
  ultimately have end1: "promised j k q d1 \<and> settled_slot j k q d1" using complete_slots_promised [OF d1 pr] by blast
  have d': "tenants d' = tenants d1" "callbacks k d' = callbacks k d1" "ds_frame_commits d' = ds_frame_commits d1" "queue_full d' = queue_full d1"
    using assms(1) d1 by (auto simp: complete_frame_def Let_def callbacks_def tenants_def queue_full_def)
  show "promised j k q d'" using end1 promised_same [OF d'(1,3,2)] by simp
  show "settled_slot j k q d'" using end1 by (simp add: settled_slot_def callback_queued_def d')
qed

lemma focus_promised:
  assumes "focus i d = Ok d'"
  shows "promised j k q d' = promised j k q d"
proof -
  obtain s where s: "find_surface i d = Some s" using assms by (cases "find_surface i d") (auto simp: focus_def Let_def)
  have tn: "tenants ((put_surface i (s\<lparr>sf_z_index := z\<rparr>) d)\<lparr>ds_next_z := z', ds_focused := f\<rparr>) = tenants d" for z z' f
    using tenants_put_surface [of i d s "s\<lparr>sf_z_index := z\<rparr>"] s by (simp add: find_surface_def tenants_def)
  have cb: "callbacks k ((put_surface i s' d)\<lparr>ds_next_z := z', ds_focused := f\<rparr>) = callbacks k d"
    "ds_frame_commits (put_surface i s' d) = ds_frame_commits d" for s' z' f by (simp_all add: callbacks_def put_surface_def)
  have "tenants d' = tenants d \<and> ds_frame_commits d' = ds_frame_commits d \<and> callbacks k d' = callbacks k d"
    using assms s by (auto simp: focus_def Let_def tn cb split: if_splits option.splits)
  then show ?thesis by (intro promised_same) simp_all
qed

lemma promised_undisturbed:
  assumes "undisturbed k d d'" "promised j k q d"
  shows "promised j k q d'"
  using assms(1)
proof cases
  case (und_stage owner)
  then show ?thesis using assms(2) staging_step_frame [OF und_stage] staging_step_tenants [OF und_stage] promised_same [of d' d k j q]
    by (simp add: unseen_def callbacks_def)
next
  case (und_commit owner i q')
  have "shaped d" "sole_tenant j k d" using assms(2) by (simp_all add: promised_def)
  then show ?thesis using promised_commit(2) [OF und_commit(1) _ _ und_commit(2)] assms(2) by blast
next
  case und_create
  then show ?thesis by (rule promised_create [OF _ _ assms(2)])
next
  case und_destroy
  then show ?thesis by (rule promised_destroy [OF _ _ assms(2)])
next
  case und_poll
  then show ?thesis by (rule promised_poll [OF _ _ assms(2)])
next
  case und_compositor
  then show ?thesis
  proof cases
    case (compositor_frame n)
    then show ?thesis using assms(2) by (rule complete_frame_promised(1))
  next
    case (compositor_focus i)
    then show ?thesis using assms(2) focus_promised by blast
  next
    case (compositor_key key)
    then have "tenants d' = tenants d \<and> ds_frame_commits d' = ds_frame_commits d \<and> callbacks k d' = callbacks k d"
      by (auto simp: route_key_def split: option.splits)
    then show ?thesis using assms(2) promised_same [of d' d k j q] by simp
  next
    case (compositor_pointer x y b c i)
    then have "tenants d' = tenants d \<and> ds_frame_commits d' = ds_frame_commits d \<and> callbacks k d' = callbacks k d"
      by (auto simp: route_pointer_def Let_def split: option.splits if_splits)
    then show ?thesis using assms(2) promised_same [of d' d k j q] by simp
  qed
qed

lemma promised_awaits:
  assumes "(awaits k)\<^sup>*\<^sup>* (q, d) (q', d')" "promised j k q d"
  shows "promised j k q' d'"
proof -
  have "promised j k (fst (q', d')) (snd (q', d'))" using assms(1)
  proof (induction rule: rtranclp_induct)
    case base
    then show ?case using assms(2) by simp
  next
    case (step y z)
    from step.hyps(2) show ?case
    proof cases
      case (await_other e e' r)
      then show ?thesis using step.IH promised_undisturbed by simp
    next
      case (await_commit e r' e' r)
      then have "shaped e" "sole_tenant j k e" using step.IH by (simp_all add: promised_def)
      then show ?thesis using promised_commit(1) [OF await_commit(3)] await_commit(2) by simp
    qed
  qed
  then show ?thesis by simp
qed

section \<open>Damage\<close>

text \<open>The pixels of a rectangle, and the rectangles that end inside the signed 16-bit plane.\<close>

definition rect_covers :: "rect \<Rightarrow> int \<Rightarrow> int \<Rightarrow> bool" where
  "rect_covers r x y \<longleftrightarrow> sint (rc_x r) \<le> x \<and> x < sint (rc_x r) + uint (rc_width r) \<and> sint (rc_y r) \<le> y \<and> y < sint (rc_y r) + uint (rc_height r)"

definition on_plane :: "rect \<Rightarrow> bool" where
  "on_plane r \<longleftrightarrow> sint (rc_x r) + uint (rc_width r) \<le> 32767 \<and> sint (rc_y r) + uint (rc_height r) \<le> 32767"

definition damage_covers :: "rect option \<Rightarrow> int \<Rightarrow> int \<Rightarrow> bool" where
  "damage_covers r x y \<longleftrightarrow> (case r of None \<Rightarrow> False | Some r \<Rightarrow> rect_covers r x y)"

definition damage_on_plane :: "rect option \<Rightarrow> bool" where
  "damage_on_plane r \<longleftrightarrow> (case r of None \<Rightarrow> True | Some r \<Rightarrow> on_plane r)"

lemma sint_word16: "- 32768 \<le> v \<Longrightarrow> v \<le> 32767 \<Longrightarrow> sint (word_of_int v :: 16 word) = v"
  by (simp add: sint_sbintrunc' signed_take_bit_int_eq_self)

lemma uint_word16: "0 \<le> v \<Longrightarrow> v \<le> 65535 \<Longrightarrow> uint (word_of_int v :: 16 word) = v"
  by (simp add: uint_word_of_int)

lemma sint16_bounds: "- 32768 \<le> sint (x :: 16 word)" "sint (x :: 16 word) \<le> 32767"
  using sint_ge [of x] sint_lt [of x] by simp_all

lemma uint16_bounds: "0 \<le> uint (x :: u16)" "uint (x :: u16) \<le> 65535"
  using uint_bounded [of x] by simp_all

lemma merge_span:
  fixes a b :: "16 word" and v w :: u16
  assumes "sint a + uint v \<le> 32767" "sint b + uint w \<le> 32767"
  shows "sint (word_of_int (min (sint a) (sint b)) :: 16 word) = min (sint a) (sint b)"
    "uint (word_of_int (max (sint a + uint v) (sint b + uint w) - min (sint a) (sint b)) :: u16)
      = max (sint a + uint v) (sint b + uint w) - min (sint a) (sint b)"
  using assms sint16_bounds [of a] sint16_bounds [of b] uint16_bounds [of v] uint16_bounds [of w]
  by (intro sint_word16 uint_word16; linarith)+

lemma merge_damage_covers:
  assumes "damage_on_plane l" "damage_on_plane r"
  shows "damage_on_plane (merge_damage l r)" "damage_covers l x y \<or> damage_covers r x y \<Longrightarrow> damage_covers (merge_damage l r) x y"
proof -
  have "damage_on_plane (merge_damage l r) \<and> (damage_covers l x y \<or> damage_covers r x y \<longrightarrow> damage_covers (merge_damage l r) x y)"
  proof (cases l; cases r)
    fix a b assume ab: "l = Some a" "r = Some b"
    have p: "sint (rc_x a) + uint (rc_width a) \<le> 32767" "sint (rc_x b) + uint (rc_width b) \<le> 32767"
        "sint (rc_y a) + uint (rc_height a) \<le> 32767" "sint (rc_y b) + uint (rc_height b) \<le> 32767"
      using assms by (simp_all add: ab damage_on_plane_def on_plane_def)
    show ?thesis using p
      by (auto simp: ab merge_damage_def Let_def damage_on_plane_def damage_covers_def on_plane_def rect_covers_def rect_new_def
          merge_span [OF p(1,2)] merge_span [OF p(3,4)] simp del: of_int_diff)
  qed (use assms in \<open>simp_all add: merge_damage_def damage_on_plane_def damage_covers_def\<close>)
  then show "damage_on_plane (merge_damage l r)" "damage_covers l x y \<or> damage_covers r x y \<Longrightarrow> damage_covers (merge_damage l r) x y"
    by simp_all
qed

text \<open>The cast of an extent below 131072 to 16 bits, and what a merged rectangle covers.\<close>

definition cast_extent :: "int \<Rightarrow> int" where
  "cast_extent n = (if n \<le> 65535 then n else n - 65536)"

lemma merge_span_cast:
  fixes a b :: "16 word" and v w :: u16
  shows "sint (word_of_int (min (sint a) (sint b)) :: 16 word) = min (sint a) (sint b)"
    "uint (word_of_int (max (sint a + uint v) (sint b + uint w) - min (sint a) (sint b)) :: u16)
      = cast_extent (max (sint a + uint v) (sint b + uint w) - min (sint a) (sint b))"
proof -
  note bounds = sint16_bounds [of a] sint16_bounds [of b] uint16_bounds [of v] uint16_bounds [of w]
  show "sint (word_of_int (min (sint a) (sint b)) :: 16 word) = min (sint a) (sint b)" using bounds by (intro sint_word16; linarith)
  define n where "n = max (sint a + uint v) (sint b + uint w) - min (sint a) (sint b)"
  have n: "0 \<le> n" "n < 131072" using bounds unfolding n_def by linarith+
  have "n - 65536 = n mod 65536" if "\<not> n \<le> 65535"
    using that n minus_mod_self2 [of n 65536] mod_pos_pos_trivial [of "n - 65536" 65536] by linarith
  then have "n mod 65536 = cast_extent n" using n by (cases "n \<le> 65535") (simp_all add: cast_extent_def)
  then have "uint (word_of_int n :: u16) = cast_extent n" by (simp add: uint_word_of_int)
  then show "uint (word_of_int (max (sint a + uint v) (sint b + uint w) - min (sint a) (sint b)) :: u16)
      = cast_extent (max (sint a + uint v) (sint b + uint w) - min (sint a) (sint b))" by (simp only: n_def)
qed

lemma merged_covers:
  "damage_covers (merge_damage (Some l) (Some r)) x y \<longleftrightarrow>
    min (sint (rc_x l)) (sint (rc_x r)) \<le> x
    \<and> x < min (sint (rc_x l)) (sint (rc_x r))
        + cast_extent (max (sint (rc_x l) + uint (rc_width l)) (sint (rc_x r) + uint (rc_width r)) - min (sint (rc_x l)) (sint (rc_x r)))
    \<and> min (sint (rc_y l)) (sint (rc_y r)) \<le> y
    \<and> y < min (sint (rc_y l)) (sint (rc_y r))
        + cast_extent (max (sint (rc_y l) + uint (rc_height l)) (sint (rc_y r) + uint (rc_height r)) - min (sint (rc_y l)) (sint (rc_y r)))"
  by (simp add: merge_damage_def Let_def damage_covers_def rect_covers_def rect_new_def merge_span_cast del: of_int_diff)

lemma far_pixels:
  assumes "rc_width l \<noteq> 0" "rc_height l \<noteq> 0"
  shows "rect_covers l (sint (rc_x l) + uint (rc_width l) - 1) (sint (rc_y l))"
    "rect_covers l (sint (rc_x l)) (sint (rc_y l) + uint (rc_height l) - 1)"
proof -
  have "0 < uint (rc_width l)" "0 < uint (rc_height l)" using assms by (simp_all add: word_neq_0_conv word_less_def)
  then show "rect_covers l (sint (rc_x l) + uint (rc_width l) - 1) (sint (rc_y l))"
    "rect_covers l (sint (rc_x l)) (sint (rc_y l) + uint (rc_height l) - 1)" by (simp_all add: rect_covers_def)
qed

lemma committed_output_damage_covers:
  assumes "on_plane (su_rect old)" "on_plane (su_rect new)"
    "damage_on_plane (map_option (translate_damage (su_rect new)) (su_damage new))"
  shows "damage_on_plane (committed_output_damage old new)"
    "su_visible old \<Longrightarrow> su_rect old \<noteq> su_rect new \<or> \<not> su_visible new \<Longrightarrow> rect_covers (su_rect old) x y \<Longrightarrow> damage_covers (committed_output_damage old new) x y"
    "su_visible new \<Longrightarrow> su_rect old \<noteq> su_rect new \<or> \<not> su_visible old \<Longrightarrow> rect_covers (su_rect new) x y \<Longrightarrow> damage_covers (committed_output_damage old new) x y"
    "su_visible new \<Longrightarrow> damage_covers (map_option (translate_damage (su_rect new)) (su_damage new)) x y \<Longrightarrow> damage_covers (committed_output_damage old new) x y"
proof -
  have none: "damage_on_plane None" "damage_on_plane (Some (su_rect old))" "damage_on_plane (Some (su_rect new))"
    "damage_covers (Some (su_rect old)) x y = rect_covers (su_rect old) x y" "damage_covers (Some (su_rect new)) x y = rect_covers (su_rect new) x y"
    using assms by (simp_all add: damage_on_plane_def damage_covers_def)
  note merge = merge_damage_covers
  show "damage_on_plane (committed_output_damage old new)"
    unfolding committed_output_damage_def Let_def using none assms by (auto intro!: merge)
  show "damage_covers (committed_output_damage old new) x y"
    if "su_visible old" "su_rect old \<noteq> su_rect new \<or> \<not> su_visible new" "rect_covers (su_rect old) x y"
    unfolding committed_output_damage_def Let_def using that none assms by (auto intro!: merge)
  show "damage_covers (committed_output_damage old new) x y"
    if "su_visible new" "su_rect old \<noteq> su_rect new \<or> \<not> su_visible old" "rect_covers (su_rect new) x y"
    unfolding committed_output_damage_def Let_def using that none assms by (auto intro!: merge)
  show "damage_covers (committed_output_damage old new) x y"
    if "su_visible new" "damage_covers (map_option (translate_damage (su_rect new)) (su_damage new)) x y"
    unfolding committed_output_damage_def Let_def using that none assms by (auto intro!: merge)
qed

text \<open>A concrete server with one surface of each of two owners.\<close>

definition demo_owner :: "nat \<Rightarrow> fin" where
  "demo_owner n = Fin (replicate 15 0 @ [of_nat n])"

definition demo_create :: "nat \<Rightarrow> display_server \<Rightarrow> display_server" where
  "demo_create n d = (case create_surface (demo_owner n) (lit ''w'') Window (rect_new 0 0 4 4) d of Ok (_, d') \<Rightarrow> d' | Err _ \<Rightarrow> d)"

definition demo_display :: display_server where
  "demo_display = demo_create 2 (demo_create 1 display_new)"

definition demo_published :: display_server where
  "demo_published = (case display_commit (demo_owner 1) 1 demo_display of Ok (_, d) \<Rightarrow> d | Err _ \<Rightarrow> demo_display)"

definition demo_staged :: display_server where
  "demo_staged = (case set_position (demo_owner 1) 1 7 9 demo_display of Ok d \<Rightarrow> d | Err _ \<Rightarrow> demo_display)"

definition demo_moved :: display_server where
  "demo_moved = (case display_commit (demo_owner 1) 1 demo_staged of Ok (_, d) \<Rightarrow> d | Err _ \<Rightarrow> demo_staged)"

lemma demo_commit: "display_commit (demo_owner 1) 1 demo_display = Ok (1, demo_published)"
  by code_simp

lemma demo_stage: "set_position (demo_owner 1) 1 7 9 demo_display = Ok demo_staged"
  by code_simp

lemma demo_move: "display_commit (demo_owner 1) 1 demo_staged = Ok (1, demo_moved)"
  by code_simp

section \<open>Properties of the protocol\<close>

text \<open>C23: Whatever a client requests, the surfaces of every other owner stay as they are, pending state included, and so do the
  queued events of every other owner, with one exception: creating a surface while the event queue is full may put the new surface's
  configure event in the place of one queued pointer-motion sample, whoever owns it.\<close>

theorem display_owner_isolation:
  assumes "client_step owner d d'"
  shows "others owner d' = others owner d
    \<and> (other_events owner d' = other_events owner d
      \<or> queue_full d \<and> lost_motion (other_events owner d) (other_events owner d') \<and> (\<exists>t role r i. create_surface owner t role r d = Ok (i, d')))"
  using assms
proof cases
  case client_stage
  then show ?thesis using staging_step_frame [of owner d d'] by (simp add: unseen_def other_events_def)
next
  case (client_create t role r i)
  then show ?thesis using create_surface_frame by blast
next
  case (client_commit i q)
  then show ?thesis
  proof (rule display_commit_Ok)
    fix j s s'
    assume s: "owned_index owner i d = Ok (j, s)" "ds_surfaces d' = (ds_surfaces d)[j := Some s']" "sf_owner s' = sf_owner s" "ds_events d' = ds_events d"
    show ?thesis using put_index_frame [OF s(1), of s'] owned_index_Ok [OF s(1)] s(2-4) by (simp add: others_def other_events_def)
  qed
next
  case (client_destroy i)
  then show ?thesis using destroy_frame by blast
next
  case (client_poll e)
  then show ?thesis using poll_event_frame by blast
qed

theorem display_owner_isolation_witness:
  "client_step (demo_owner 1) demo_display demo_published \<and> length (others (demo_owner 1) demo_display) = 1
    \<and> length (other_events (demo_owner 1) demo_display) = 1
    \<and> others (demo_owner 1) demo_published = others (demo_owner 1) demo_display
    \<and> other_events (demo_owner 1) demo_published = other_events (demo_owner 1) demo_display"
proof -
  have step: "client_step (demo_owner 1) demo_display demo_published" by (rule client_commit [OF demo_commit])
  have "length (others (demo_owner 1) demo_display) = 1" "length (other_events (demo_owner 1) demo_display) = 1" "\<not> queue_full demo_display"
    by code_simp+
  then show ?thesis using step display_owner_isolation [OF step] by simp
qed

text \<open>C24: Staging publishes nothing: whatever requests clients interleave, the current state of every surface, the output damage,
  the owed frames and the queued events stay as they were. A commit then publishes the staged geometry, buffer and visibility of
  exactly one surface in one step, under a fresh nonzero sequence number.\<close>

theorem display_atomic_commit:
  assumes "(\<lambda>a b. \<exists>c. staging_step c a b)\<^sup>*\<^sup>* d d1" and "display_commit owner i d1 = Ok (q, d2)"
  shows "published d1 = published d \<and> ds_output_damage d1 = ds_output_damage d \<and> ds_events d1 = ds_events d
    \<and> (\<exists>j s s'. j < length (ds_surfaces d1) \<and> ds_surfaces d1 ! j = Some s \<and> sf_id s = i \<and> sf_owner s = owner
        \<and> ds_surfaces d2 = (ds_surfaces d1)[j := Some s'] \<and> sf_id s' = i \<and> sf_owner s' = owner \<and> sf_commit_sequence s' = q \<and> q \<noteq> 0
        \<and> su_rect (sf_current s') = su_rect (sf_pending s) \<and> su_buffer (sf_current s') = su_buffer (sf_pending s)
        \<and> su_visible (sf_current s') = su_visible (sf_pending s))"
proof -
  have "published d1 = published d \<and> ds_output_damage d1 = ds_output_damage d \<and> ds_events d1 = ds_events d"
    using assms(1) by (induction rule: rtranclp_induct) (auto dest!: staging_step_frame simp: unseen_def)
  moreover have "\<exists>j s s'. j < length (ds_surfaces d1) \<and> ds_surfaces d1 ! j = Some s \<and> sf_id s = i \<and> sf_owner s = owner
        \<and> ds_surfaces d2 = (ds_surfaces d1)[j := Some s'] \<and> sf_id s' = i \<and> sf_owner s' = owner \<and> sf_commit_sequence s' = q \<and> q \<noteq> 0
        \<and> su_rect (sf_current s') = su_rect (sf_pending s) \<and> su_buffer (sf_current s') = su_buffer (sf_pending s)
        \<and> su_visible (sf_current s') = su_visible (sf_pending s)"
    using assms(2)
  proof (rule display_commit_Ok)
    fix j s s'
    assume s: "owned_index owner i d1 = Ok (j, s)" "q = next_nonzero (ds_commit_sequence d1)" "ds_surfaces d2 = (ds_surfaces d1)[j := Some s']"
      "sf_owner s' = sf_owner s" "sf_id s' = sf_id s" "sf_commit_sequence s' = q"
      and cur: "sf_current s' = (sf_pending s)\<lparr>su_damage := su_damage (sf_current s')\<rparr>"
    have "su_rect (sf_current s') = su_rect (sf_pending s)" "su_buffer (sf_current s') = su_buffer (sf_pending s)"
      "su_visible (sf_current s') = su_visible (sf_pending s)" by (subst cur, simp)+
    then show ?thesis using owned_index_Ok [OF s(1)] s by (intro exI [of _ j] exI [of _ s] exI [of _ s']) simp
  qed
  ultimately show ?thesis by simp
qed

theorem display_atomic_commit_witness:
  "staging_step (demo_owner 1) demo_display demo_staged \<and> display_commit (demo_owner 1) 1 demo_staged = Ok (1, demo_moved)
    \<and> published demo_staged = published demo_display
    \<and> (\<exists>j s s'. ds_surfaces demo_staged ! j = Some s \<and> ds_surfaces demo_moved = (ds_surfaces demo_staged)[j := Some s']
        \<and> su_rect (sf_current s') = su_rect (sf_pending s))"
proof -
  have step: "staging_step (demo_owner 1) demo_display demo_staged" by (rule stage_position [OF demo_stage])
  then have "(\<lambda>a b. \<exists>c. staging_step c a b)\<^sup>*\<^sup>* demo_display demo_staged" by (blast intro: r_into_rtranclp)
  note atomic = display_atomic_commit [OF this demo_move]
  then have "\<exists>j s s'. ds_surfaces demo_staged ! j = Some s \<and> ds_surfaces demo_moved = (ds_surfaces demo_staged)[j := Some s']
        \<and> su_rect (sf_current s') = su_rect (sf_pending s)"
    by (elim conjE exE) (intro exI conjI; assumption)
  then show ?thesis using step demo_move atomic by simp
qed

text \<open>C25: A committed surface gets the frame callback of its latest commit. While surface identifiers are unique, whatever happens after
  the commit, apart from the owner polling its events and destroying that surface, the next completed frame leaves a callback with
  the sequence number of the latest commit of that surface in the event queue, or the queue is full and that commit still waits
  for a later frame.\<close>

theorem frame_callback_kept:
  assumes "shaped d" and "sole_tenant j (owner, i) d" and "display_commit owner i d = Ok (q, d1)"
    and "(awaits (owner, i))\<^sup>*\<^sup>* (q, d1) (q', d2)" and "complete_frame d2 = (n, d3)"
  shows "(\<exists>e\<in>set (flatten (ds_events d3)). ev_kind e = FrameDone \<and> ev_owner e = owner \<and> ev_surface_id e = i \<and> ev_value e = q')
    \<or> queue_full d3 \<and> ds_frame_commits d3 ! j = q'"
proof -
  have "promised j (owner, i) q d1" using promised_commit(1) [OF assms(3,1,2)] by simp
  then have "promised j (owner, i) q' d2" by (rule promised_awaits [OF assms(4)])
  then have "settled_slot j (owner, i) q' d3" by (rule complete_frame_promised(2) [OF assms(5)])
  then show ?thesis by (auto simp: settled_slot_def callback_queued_def callbacks_def)
qed

text \<open>A second commit while the callback of the first one is still queued.\<close>

definition demo_twice :: display_server where
  "demo_twice = (case display_commit (demo_owner 1) 1 (snd (complete_frame demo_published)) of Ok (_, d) \<Rightarrow> d | Err _ \<Rightarrow> demo_display)"

lemma demo_twice: "display_commit (demo_owner 1) 1 (snd (complete_frame demo_published)) = Ok (2, demo_twice)"
  by code_simp

theorem frame_callback_kept_witness:
  "\<exists>n d3. display_commit (demo_owner 1) 1 (snd (complete_frame demo_published)) = Ok (2, demo_twice) \<and> complete_frame demo_twice = (n, d3)
    \<and> ((\<exists>e\<in>set (flatten (ds_events d3)). ev_kind e = FrameDone \<and> ev_owner e = demo_owner 1 \<and> ev_surface_id e = 1 \<and> ev_value e = 2)
      \<or> queue_full d3 \<and> ds_frame_commits d3 ! 0 = 2)"
proof -
  obtain n d3 where c: "complete_frame demo_twice = (n, d3)" by force
  have start: "shaped demo_display" "sole_tenant 0 (demo_owner 1, 1) demo_display" by code_simp+
  have "undisturbed (demo_owner 1, 1) demo_published (snd (complete_frame demo_published))"
    by (rule und_compositor [OF compositor_frame [OF prod.collapse [symmetric]]])
  then have "awaits (demo_owner 1, 1) (1, demo_published) (1, snd (complete_frame demo_published))" by (rule await_other)
  moreover have "awaits (demo_owner 1, 1) (1, snd (complete_frame demo_published)) (2, demo_twice)"
    by (rule await_commit) (simp only: fst_conv snd_conv demo_twice)
  ultimately have "(awaits (demo_owner 1, 1))\<^sup>*\<^sup>* (1, demo_published) (2, demo_twice)" by simp
  from frame_callback_kept [OF start demo_commit this c] show ?thesis using demo_twice c by blast
qed

text \<open>C26: A commit schedules every pixel it changes: while the rectangles end inside the signed 16-bit plane, the output damage of the
  slot keeps what was scheduled before and covers the old place of a visible surface that moved or was hidden, the new place of one
  that moved or appeared, and the staged damage at its place on the screen.\<close>

theorem commit_damage_covers:
  assumes "display_commit owner i d = Ok (q, d')" and "owned_index owner i d = Ok (j, s)" and "j < length (ds_output_damage d)"
    and "damage_on_plane (ds_output_damage d ! j)" "on_plane (su_rect (sf_current s))" "on_plane (su_rect (sf_pending s))"
      "damage_on_plane (map_option (translate_damage (su_rect (sf_pending s))) (su_damage (sf_pending s)))"
    and "damage_covers (ds_output_damage d ! j) x y
      \<or> su_visible (sf_current s) \<and> (su_rect (sf_current s) \<noteq> su_rect (sf_pending s) \<or> \<not> su_visible (sf_pending s)) \<and> rect_covers (su_rect (sf_current s)) x y
      \<or> su_visible (sf_pending s) \<and> (su_rect (sf_current s) \<noteq> su_rect (sf_pending s) \<or> \<not> su_visible (sf_current s)) \<and> rect_covers (su_rect (sf_pending s)) x y
      \<or> su_visible (sf_pending s) \<and> damage_covers (map_option (translate_damage (su_rect (sf_pending s))) (su_damage (sf_pending s))) x y"
  shows "damage_covers (ds_output_damage d' ! j) x y \<and> damage_on_plane (ds_output_damage d' ! j)"
proof -
  note out = committed_output_damage_covers [OF assms(5-7)]
  have "damage_covers (ds_output_damage d ! j) x y \<or> damage_covers (committed_output_damage (sf_current s) (sf_pending s)) x y"
    using assms(8) out(2-4) by blast
  moreover have "ds_output_damage d' ! j = merge_damage (ds_output_damage d ! j) (committed_output_damage (sf_current s) (sf_pending s))"
    using assms(1-3) by (auto simp: display_commit_def Let_def)
  ultimately show ?thesis using merge_damage_covers [OF assms(4) out(1)] by simp
qed

theorem commit_damage_covers_witness:
  "\<exists>j s. display_commit (demo_owner 1) 1 demo_staged = Ok (1, demo_moved) \<and> owned_index (demo_owner 1) 1 demo_staged = Ok (j, s)
    \<and> rect_covers (su_rect (sf_current s)) 0 0 \<and> damage_covers (ds_output_damage demo_moved ! j) 0 0"
proof -
  define s where "s = the (ds_surfaces demo_staged ! 0)"
  have s: "owned_index (demo_owner 1) 1 demo_staged = Ok (0, s)" unfolding s_def by code_simp
  have room: "0 < length (ds_output_damage demo_staged)" by code_simp
  have plane: "damage_on_plane (ds_output_damage demo_staged ! 0)" "on_plane (su_rect (sf_current s))" "on_plane (su_rect (sf_pending s))"
      "damage_on_plane (map_option (translate_damage (su_rect (sf_pending s))) (su_damage (sf_pending s)))"
    unfolding s_def by code_simp+
  have moved: "su_visible (sf_current s)" "su_rect (sf_current s) \<noteq> su_rect (sf_pending s)" "rect_covers (su_rect (sf_current s)) 0 0"
    unfolding s_def by code_simp+
  have "damage_covers (ds_output_damage demo_moved ! 0) 0 0"
    using commit_damage_covers [OF demo_move s room plane, of 0 0] moved by blast
  then show ?thesis using demo_move s moved(3) by blast
qed

text \<open>C36: The merged extent is cast to 16 bits. Two nonempty rectangles merge into one that misses a pixel of theirs exactly when their
  common extent exceeds 65535 in one of the two directions.\<close>

theorem merge_damage_wraps:
  assumes "rc_width l \<noteq> 0" "rc_height l \<noteq> 0" "rc_width r \<noteq> 0" "rc_height r \<noteq> 0"
  shows "(\<exists>x y. (rect_covers l x y \<or> rect_covers r x y) \<and> \<not> damage_covers (merge_damage (Some l) (Some r)) x y)
    \<longleftrightarrow> max (sint (rc_x l) + uint (rc_width l)) (sint (rc_x r) + uint (rc_width r)) - min (sint (rc_x l)) (sint (rc_x r)) > 65535
      \<or> max (sint (rc_y l) + uint (rc_height l)) (sint (rc_y r) + uint (rc_height r)) - min (sint (rc_y l)) (sint (rc_y r)) > 65535"
  (is "?lost \<longleftrightarrow> ?X2 - ?X1 > 65535 \<or> ?Y2 - ?Y1 > 65535")
proof -
  note merged = merged_covers [of l r]
  show ?thesis
  proof
    assume ?lost
    then obtain x y where xy: "rect_covers l x y \<or> rect_covers r x y" "\<not> damage_covers (merge_damage (Some l) (Some r)) x y" by blast
    show "?X2 - ?X1 > 65535 \<or> ?Y2 - ?Y1 > 65535"
    proof (rule ccontr)
      assume "\<not> ?thesis"
      then have "cast_extent (?X2 - ?X1) = ?X2 - ?X1" "cast_extent (?Y2 - ?Y1) = ?Y2 - ?Y1" by (simp_all add: cast_extent_def)
      then show False using xy by (auto simp: merged rect_covers_def)
    qed
  next
    assume wide: "?X2 - ?X1 > 65535 \<or> ?Y2 - ?Y1 > 65535"
    then have out: "\<not> damage_covers (merge_damage (Some l) (Some r)) (?X2 - 1) y \<or> \<not> damage_covers (merge_damage (Some l) (Some r)) x (?Y2 - 1)" for x y
      unfolding merged by (auto simp: cast_extent_def)
    have "(\<exists>y. rect_covers l (?X2 - 1) y \<or> rect_covers r (?X2 - 1) y)" "(\<exists>x. rect_covers l x (?Y2 - 1) \<or> rect_covers r x (?Y2 - 1))"
      using far_pixels [OF assms(1,2)] far_pixels [OF assms(3,4)] by (auto simp: max_def)
    then show ?lost using out by blast
  qed
qed

theorem merge_damage_wraps_witness:
  "\<exists>x y. (rect_covers (rect_new (- 32768) 0 1 1) x y \<or> rect_covers (rect_new 32767 0 2 1) x y)
    \<and> \<not> damage_covers (merge_damage (Some (rect_new (- 32768) 0 1 1)) (Some (rect_new 32767 0 2 1))) x y"
proof -
  let ?l = "rect_new (- 32768) 0 1 1" and ?r = "rect_new 32767 0 2 1"
  have "max (sint (rc_x ?l) + uint (rc_width ?l)) (sint (rc_x ?r) + uint (rc_width ?r)) - min (sint (rc_x ?l)) (sint (rc_x ?r)) > 65535"
    by code_simp
  then show ?thesis using merge_damage_wraps [of ?l ?r] by (simp add: rect_new_def)
qed

end
