(* ===== verification/Pacing.thy ===== *)
theory Pacing
  imports Prelude
begin

text \<open>
  Frame pacing of the compositor (\<^verbatim>\<open>kernel/src/display_timing.rs\<close>): exact rational frame deadlines on a monotonic 64-bit
  clock, and the decision to wait, to idle or to present. The 128-bit products of the source are natural numbers; that they fit in
  128 bits is the lemma \<open>product_fits\<close>. The \<^verbatim>\<open>expect\<close> call of \<^verbatim>\<open>decide\<close> is the result \<open>None\<close>.
\<close>

section \<open>Model: rates and periods\<close>

datatype refresh_rate = Hz60 | Hz75 | Hz120 | Hz144

fun hz :: "refresh_rate \<Rightarrow> u16" where
  "hz Hz60 = 60"
| "hz Hz75 = 75"
| "hz Hz120 = 120"
| "hz Hz144 = 144"

definition from_hz :: "u16 \<Rightarrow> refresh_rate option" where
  "from_hz v = (if v = 60 then Some Hz60 else if v = 75 then Some Hz75 else if v = 120 then Some Hz120
     else if v = 144 then Some Hz144 else None)"

definition rate_from_persisted :: "u8 \<Rightarrow> refresh_rate option" where
  "rate_from_persisted v = (if v = 0 then Some Hz60 else if v = 1 then Some Hz75 else if v = 2 then Some Hz120
     else if v = 3 then Some Hz144 else None)"

fun rate_persisted :: "refresh_rate \<Rightarrow> u8" where
  "rate_persisted Hz60 = 0"
| "rate_persisted Hz75 = 1"
| "rate_persisted Hz120 = 2"
| "rate_persisted Hz144 = 3"

datatype vsync_policy = VsyncOff | VsyncOn

definition from_enabled :: "bool \<Rightarrow> vsync_policy" where
  "from_enabled enabled = (if enabled then VsyncOn else VsyncOff)"

record frame_period =
  fp_numerator_ticks :: u64
  fp_denominator :: u16

text \<open>The denominator of a period is never zero (\<open>period_exact\<close>), so the divisions below do not trap.\<close>

definition whole_ticks :: "frame_period \<Rightarrow> u64" where
  "whole_ticks p = fp_numerator_ticks p div ucast (fp_denominator p)"

definition period_fraction :: "frame_period \<Rightarrow> u16" where
  "period_fraction p = ucast (fp_numerator_ticks p mod ucast (fp_denominator p))"

definition ceiling_ticks :: "frame_period \<Rightarrow> u64" where
  "ceiling_ticks p = saturating_add (whole_ticks p) (if period_fraction p \<noteq> 0 then 1 else 0)"

record frame_deadline =
  fd_frame_index :: u64
  fd_whole_tick :: u64
  fd_fractional_numerator :: u16
  fd_fractional_denominator :: u16

definition not_before_tick :: "frame_deadline \<Rightarrow> u64" where
  "not_before_tick d = saturating_add (fd_whole_tick d) (if fd_fractional_numerator d \<noteq> 0 then 1 else 0)"

definition is_due :: "frame_deadline \<Rightarrow> u64 \<Rightarrow> bool" where
  "is_due d now_tick \<longleftrightarrow> now_tick \<ge> not_before_tick d"

datatype timing_error = ZeroClockFrequency | ClockTooCoarse

record timing_config =
  tc_refresh_rate :: refresh_rate
  tc_vsync :: vsync_policy
  tc_clock_ticks_per_second :: u64

definition timing_new :: "refresh_rate \<Rightarrow> vsync_policy \<Rightarrow> u64 \<Rightarrow> (timing_error, timing_config) result" where
  "timing_new rate vsync clock =
     (if clock = 0 then Err ZeroClockFrequency
      else if clock < ucast (hz rate) then Err ClockTooCoarse
      else Ok \<lparr>tc_refresh_rate = rate, tc_vsync = vsync, tc_clock_ticks_per_second = clock\<rparr>)"

function timing_gcd :: "u64 \<Rightarrow> u64 \<Rightarrow> u64" where
  "timing_gcd left right = (if right \<noteq> 0 then timing_gcd right (left mod right) else left)"
  by pat_completeness auto
termination
  by (relation "measure (\<lambda>(left, right). unat right)") (auto simp: unat_mod word_neq_0_conv unat_gt_0)

declare timing_gcd.simps [simp del]

definition period :: "timing_config \<Rightarrow> frame_period" where
  "period c = (let divisor = timing_gcd (tc_clock_ticks_per_second c) (ucast (hz (tc_refresh_rate c))) in
     \<lparr>fp_numerator_ticks = tc_clock_ticks_per_second c div divisor,
      fp_denominator = ucast ((ucast (hz (tc_refresh_rate c)) :: u64) div divisor)\<rparr>)"

definition deadline_from :: "u64 \<Rightarrow> frame_period \<Rightarrow> u64 \<Rightarrow> frame_deadline option" where
  "deadline_from epoch_tick p frame_index =
     (let product = unat frame_index * unat (fp_numerator_ticks p);
          denominator = unat (fp_denominator p);
          offset = product div denominator;
          fractional_numerator = of_nat (product mod denominator)
      in if offset > unat (- 1 - epoch_tick) then None
         else
           let whole_tick = epoch_tick + of_nat offset in
           if whole_tick = - 1 \<and> fractional_numerator \<noteq> 0 then None
           else Some \<lparr>fd_frame_index = frame_index, fd_whole_tick = whole_tick, fd_fractional_numerator = fractional_numerator,
             fd_fractional_denominator = fp_denominator p\<rparr>)"

section \<open>Model: the pacer\<close>

datatype frame_release = Unsynchronized frame_deadline | Synchronized frame_deadline

datatype frame_decision =
  Idle "frame_deadline option"
| WaitUntil frame_deadline
| PresentNow frame_release u64
| ClockExhausted

fun should_present :: "frame_decision \<Rightarrow> bool" where
  "should_present (PresentNow _ _) = True"
| "should_present _ = False"

fun wake_tick :: "frame_decision \<Rightarrow> u64 option" where
  "wake_tick (WaitUntil d) = Some (not_before_tick d)"
| "wake_tick _ = None"

record pacing_stats =
  ps_frame_releases :: u64
  ps_missed_frames :: u64
  ps_idle_frames :: u64
  ps_clock_discontinuities :: u64

definition stats_default :: pacing_stats where
  "stats_default = \<lparr>ps_frame_releases = 0, ps_missed_frames = 0, ps_idle_frames = 0, ps_clock_discontinuities = 0\<rparr>"

record frame_pacer =
  pc_config :: timing_config
  pc_epoch_tick :: u64
  pc_next_frame_index :: "u64 option"
  pc_last_observed_tick :: u64
  pc_stats :: pacing_stats

definition pacer_new :: "timing_config \<Rightarrow> u64 \<Rightarrow> frame_pacer" where
  "pacer_new c start_tick = \<lparr>pc_config = c, pc_epoch_tick = start_tick, pc_next_frame_index = Some 0,
     pc_last_observed_tick = start_tick, pc_stats = stats_default\<rparr>"

definition deadline_for :: "frame_pacer \<Rightarrow> u64 \<Rightarrow> frame_deadline option" where
  "deadline_for p frame_index = deadline_from (pc_epoch_tick p) (period (pc_config p)) frame_index"

definition reset_phase :: "u64 \<Rightarrow> frame_pacer \<Rightarrow> frame_pacer" where
  "reset_phase now_tick p = p\<lparr>pc_epoch_tick := now_tick, pc_next_frame_index := Some 0, pc_last_observed_tick := now_tick\<rparr>"

definition reconfigure :: "timing_config \<Rightarrow> u64 \<Rightarrow> frame_pacer \<Rightarrow> frame_pacer" where
  "reconfigure c now_tick p = reset_phase now_tick (p\<lparr>pc_config := c\<rparr>)"

definition reset_stats :: "frame_pacer \<Rightarrow> frame_pacer" where
  "reset_stats p = p\<lparr>pc_stats := stats_default\<rparr>"

definition observe_clock :: "u64 \<Rightarrow> frame_pacer \<Rightarrow> frame_pacer" where
  "observe_clock now_tick p =
     (if now_tick < pc_last_observed_tick p
      then reset_phase now_tick (p\<lparr>pc_stats := (pc_stats p)\<lparr>ps_clock_discontinuities := saturating_add (ps_clock_discontinuities (pc_stats p)) 1\<rparr>\<rparr>)
      else p\<lparr>pc_last_observed_tick := now_tick\<rparr>)"

definition latest_due_index :: "u64 \<Rightarrow> frame_pacer \<Rightarrow> u64" where
  "latest_due_index now_tick p =
     (let elapsed = saturating_sub now_tick (pc_epoch_tick p);
          scaled = unat elapsed * unat (hz (tc_refresh_rate (pc_config p)))
      in of_nat (scaled div unat (tc_clock_ticks_per_second (pc_config p))))"

definition decide :: "u64 \<Rightarrow> bool \<Rightarrow> frame_pacer \<Rightarrow> (frame_decision \<times> frame_pacer) option" where
  "decide now_tick frame_pending p =
     (let p = observe_clock now_tick p in
      case pc_next_frame_index p of
        None \<Rightarrow> Some (ClockExhausted, p)
      | Some next_index \<Rightarrow>
         (case deadline_for p next_index of
           None \<Rightarrow> Some (ClockExhausted, p\<lparr>pc_next_frame_index := None\<rparr>)
         | Some next_deadline \<Rightarrow>
            if \<not> frame_pending then
              if \<not> is_due next_deadline now_tick then Some (Idle (Some next_deadline), p)
              else
                let latest_due = latest_due_index now_tick p;
                    idle = saturating_add (saturating_sub latest_due next_index) 1;
                    p = p\<lparr>pc_stats := (pc_stats p)\<lparr>ps_idle_frames := saturating_add (ps_idle_frames (pc_stats p)) idle\<rparr>,
                      pc_next_frame_index := checked_add latest_due 1\<rparr>
                in Some (Idle (case pc_next_frame_index p of None \<Rightarrow> None | Some index \<Rightarrow> deadline_for p index), p)
            else if \<not> is_due next_deadline now_tick then Some (WaitUntil next_deadline, p)
            else
              let latest_due = latest_due_index now_tick p;
                  missed_frames = saturating_sub latest_due next_index
              in (case deadline_for p latest_due of
                None \<Rightarrow> None
              | Some deadline \<Rightarrow>
                  Some (PresentNow (if tc_vsync (pc_config p) = VsyncOn then Synchronized deadline else Unsynchronized deadline) missed_frames,
                    p\<lparr>pc_stats := (pc_stats p)\<lparr>ps_frame_releases := saturating_add (ps_frame_releases (pc_stats p)) 1,
                        ps_missed_frames := saturating_add (ps_missed_frames (pc_stats p)) missed_frames\<rparr>,
                      pc_next_frame_index := checked_add latest_due 1\<rparr>))))"

fun missed_frames :: "frame_decision \<Rightarrow> u64" where
  "missed_frames (PresentNow _ missed) = missed"
| "missed_frames _ = 0"

section \<open>Exact arithmetic of periods and deadlines\<close>

lemma timing_gcd_unat: "unat (timing_gcd a b) = gcd (unat a) (unat b)"
proof (induction a b rule: timing_gcd.induct)
  case (1 a b)
  then show ?case by (subst timing_gcd.simps) (simp add: unat_mod gcd_red_nat [symmetric] gcd.commute)
qed

definition clock_of :: "timing_config \<Rightarrow> nat" where
  "clock_of c = unat (tc_clock_ticks_per_second c)"

definition rate_of :: "timing_config \<Rightarrow> nat" where
  "rate_of c = unat (hz (tc_refresh_rate c))"

definition config_ok :: "timing_config \<Rightarrow> bool" where
  "config_ok c \<longleftrightarrow> rate_of c \<le> clock_of c"

lemma hz_bounds: "0 < unat (hz r)" "unat (hz r) \<le> 144"
  by (cases r; simp)+

lemma rate_bounds: "0 < rate_of c" "rate_of c \<le> 144"
  by (simp_all add: rate_of_def hz_bounds del: hz.simps)

lemma hz_wide: "unat (ucast (hz r) :: u64) = unat (hz r)"
  by (cases r; simp)

lemma timing_new_ok: "timing_new r v clock = Ok c \<Longrightarrow> config_ok c"
  by (auto simp: timing_new_def config_ok_def clock_of_def rate_of_def word_less_nat_alt hz_wide split: if_splits)

lemma period_exact:
  assumes "config_ok c"
  shows "0 < unat (fp_denominator (period c))"
    and "unat (fp_numerator_ticks (period c)) * rate_of c = clock_of c * unat (fp_denominator (period c))"
proof -
  define g where "g = gcd (clock_of c) (rate_of c)"
  have g: "0 < g" "g dvd clock_of c" "g dvd rate_of c" using rate_bounds(1) [of c] by (simp_all add: g_def)
  have "rate_of c div g \<le> 144" using rate_bounds(2) [of c] by (meson div_le_dividend le_trans)
  moreover define x where "x = (ucast (hz (tc_refresh_rate c)) :: u64) div timing_gcd (tc_clock_ticks_per_second c) (ucast (hz (tc_refresh_rate c)))"
  moreover have x: "unat x = rate_of c div g"
    unfolding x_def g_def clock_of_def rate_of_def unat_div timing_gcd_unat hz_wide by (rule refl)
  ultimately have "unat (ucast x :: u16) = rate_of c div g" by (simp add: unsigned_ucast_eq take_bit_nat_eq_self_iff)
  then have d: "unat (fp_denominator (period c)) = rate_of c div g" by (simp add: period_def Let_def x_def)
  have n: "unat (fp_numerator_ticks (period c)) = clock_of c div g"
    unfolding period_def Let_def g_def clock_of_def rate_of_def by (simp only: frame_period.simps unat_div timing_gcd_unat hz_wide)
  show "0 < unat (fp_denominator (period c))" using d g rate_bounds(1) [of c] by (simp add: dvd_imp_le div_greater_zero_iff)
  show "unat (fp_numerator_ticks (period c)) * rate_of c = clock_of c * unat (fp_denominator (period c))"
    using g by (simp add: d n div_mult_swap dvd_div_mult)
qed

text \<open>The products of the source fit in 128 bits.\<close>

lemma product_fits: "unat (x :: u64) * unat (y :: u64) < 2 ^ 128"
proof -
  have "unat x * unat y < 2 ^ 64 * 2 ^ 64" using unat_bound [of x] unat_bound [of y] by (intro mult_strict_mono') simp_all
  then show ?thesis by simp
qed

definition round_up :: "nat \<Rightarrow> nat \<Rightarrow> nat" where
  "round_up m d = m div d + (if m mod d \<noteq> 0 then 1 else 0)"

lemma round_up_le: "0 < d \<Longrightarrow> round_up m d \<le> t \<longleftrightarrow> m \<le> t * d"
proof -
  assume d: "0 < d"
  have m: "m = m div d * d + m mod d" "m mod d < d" using d by simp_all
  show ?thesis
  proof (cases "m mod d = 0")
    case True
    then show ?thesis using d by (simp add: round_up_def) (metis div_le_mono div_mult_self_is_m mult_le_mono1 mod_0_imp_dvd dvd_div_mult_self)
  next
    case False
    then have "round_up m d \<le> t \<longleftrightarrow> m div d < t" by (simp add: round_up_def Suc_le_eq)
    also have "\<dots> \<longleftrightarrow> m < t * d" using d by (simp add: div_less_iff_less_mult)
    also have "\<dots> \<longleftrightarrow> m \<le> t * d" using False by (metis le_neq_implies_less less_imp_le mod_mult_self2_is_0)
    finally show ?thesis .
  qed
qed

lemma deadline_from_spec:
  fixes e k :: u64 and p :: frame_period
  assumes "0 < unat (fp_denominator p)"
  defines "tick \<equiv> unat e + round_up (unat k * unat (fp_numerator_ticks p)) (unat (fp_denominator p))"
  shows "case deadline_from e p k of None \<Rightarrow> 2 ^ 64 \<le> tick
    | Some d \<Rightarrow> tick < 2 ^ 64 \<and> unat (not_before_tick d) = tick \<and> fd_frame_index d = k"
proof -
  define m where "m = unat k * unat (fp_numerator_ticks p)"
  define d where "d = unat (fp_denominator p)"
  have d: "0 < d" "d < 2 ^ 16" using assms(1) unat_bound [of "fp_denominator p"] by (simp_all add: d_def)
  have "m mod d < 2 ^ 16" using d mod_less_divisor [of d m] by linarith
  then have "unat (of_nat (m mod d) :: u16) = m mod d" by (simp add: unat_of_nat)
  then have frac: "(of_nat (m mod d) :: u16) \<noteq> 0 \<longleftrightarrow> m mod d \<noteq> 0" by (metis unat_eq_0)
  have top: "unat (- 1 - e) = 2 ^ 64 - 1 - unat e" by (simp add: unat_sub unat_minus_one)
  have e: "unat e < 2 ^ 64" using unat_bound [of e] by simp
  show ?thesis
  proof (cases "m div d > 2 ^ 64 - 1 - unat e")
    case True
    then have "deadline_from e p k = None" unfolding deadline_from_def Let_def top m_def d_def by simp
    then show ?thesis using True e by (simp add: tick_def round_up_def m_def d_def)
  next
    case False
    define w where "w = e + of_nat (m div d)"
    have w: "unat w = unat e + m div d" using False e by (simp add: w_def unat_word_ariths unat_of_nat)
    have full: "w = - 1 \<longleftrightarrow> unat e + m div d = 2 ^ 64 - 1" by (simp add: word_unat_eq_iff w unat_minus_one)
    have "deadline_from e p k = (if w = - 1 \<and> m mod d \<noteq> 0 then None else
        Some \<lparr>fd_frame_index = k, fd_whole_tick = w, fd_fractional_numerator = of_nat (m mod d), fd_fractional_denominator = fp_denominator p\<rparr>)"
      using False frac unfolding deadline_from_def Let_def top m_def [symmetric] d_def [symmetric] w_def [symmetric] by simp
    moreover have "tick = unat w + (if m mod d \<noteq> 0 then 1 else 0)" by (simp add: tick_def round_up_def w m_def [symmetric] d_def [symmetric])
    moreover have "unat w < 2 ^ 64" using unat_bound [of w] by simp
    ultimately show ?thesis using frac full w by (auto simp: not_before_tick_def unat_saturating_add)
  qed
qed

section \<open>The pacer over a monotonic clock\<close>

text \<open>The clock time since the epoch, scaled by the refresh rate: slot \<open>k\<close> is due when \<open>k * clock\<close> is at most this number.\<close>

definition progress :: "u64 \<Rightarrow> frame_pacer \<Rightarrow> nat" where
  "progress now p = (unat now - unat (pc_epoch_tick p)) * rate_of (pc_config p)"

definition pacer_ok :: "frame_pacer \<Rightarrow> bool" where
  "pacer_ok p \<longleftrightarrow> config_ok (pc_config p) \<and> pc_epoch_tick p \<le> pc_last_observed_tick p"

lemma due_iff:
  assumes "config_ok (pc_config p)" "pc_epoch_tick p \<le> now"
  shows "(\<exists>d. deadline_for p k = Some d \<and> is_due d now) \<longleftrightarrow> unat k * clock_of (pc_config p) \<le> progress now p"
    and "deadline_for p k = Some d \<Longrightarrow> fd_frame_index d = k"
    and "deadline_for p k = Some d \<Longrightarrow> is_due d now \<longleftrightarrow> unat k * clock_of (pc_config p) \<le> progress now p"
proof -
  let ?c = "pc_config p" let ?q = "period ?c"
  let ?n = "unat (fp_numerator_ticks ?q)" and ?d = "unat (fp_denominator ?q)" and ?t = "unat now - unat (pc_epoch_tick p)"
  note ex = period_exact [OF assms(1)]
  have e: "unat (pc_epoch_tick p) \<le> unat now" "unat now < 2 ^ 64" using assms(2) unat_bound [of now] by (simp_all add: word_le_nat_alt)
  have "round_up (unat k * ?n) ?d \<le> ?t \<longleftrightarrow> unat k * ?n \<le> ?t * ?d" using ex(1) by (rule round_up_le)
  also have "\<dots> \<longleftrightarrow> unat k * ?n * rate_of ?c \<le> ?t * ?d * rate_of ?c" using rate_bounds(1) [of ?c] by simp
  also have "\<dots> \<longleftrightarrow> unat k * clock_of ?c * ?d \<le> ?t * rate_of ?c * ?d" using ex(2) by (simp add: ac_simps)
  also have "\<dots> \<longleftrightarrow> unat k * clock_of ?c \<le> progress now p" using ex(1) by (simp add: progress_def)
  finally have due: "round_up (unat k * ?n) ?d \<le> ?t \<longleftrightarrow> unat k * clock_of ?c \<le> progress now p" .
  note spec = deadline_from_spec [OF ex(1), of "pc_epoch_tick p" k, folded deadline_for_def]
  show at: "is_due d now \<longleftrightarrow> unat k * clock_of ?c \<le> progress now p" if "deadline_for p k = Some d" for d
    using spec that e unfolding due [symmetric] by (auto simp: is_due_def word_le_nat_alt)
  show "fd_frame_index d = k" if "deadline_for p k = Some d" for d using spec that by simp
  show "(\<exists>d. deadline_for p k = Some d \<and> is_due d now) \<longleftrightarrow> unat k * clock_of ?c \<le> progress now p"
  proof (cases "deadline_for p k")
    case None
    then have "\<not> round_up (unat k * ?n) ?d \<le> ?t" using spec e by simp
    then show ?thesis using None due by simp
  next
    case (Some d)
    then show ?thesis using at by simp
  qed
qed

lemma latest_due_spec:
  fixes k :: u64
  assumes "config_ok (pc_config p)" "pc_epoch_tick p \<le> now"
  shows "unat (latest_due_index now p) = progress now p div clock_of (pc_config p)"
    and "unat k \<le> unat (latest_due_index now p) \<longleftrightarrow> unat k * clock_of (pc_config p) \<le> progress now p"
proof -
  let ?c = "pc_config p" let ?t = "unat now - unat (pc_epoch_tick p)"
  have C: "0 < clock_of ?c" "rate_of ?c \<le> clock_of ?c" using assms(1) rate_bounds(1) [of ?c] by (simp_all add: config_ok_def)
  have "progress now p \<le> ?t * clock_of ?c" using C(2) by (simp add: progress_def)
  then have "progress now p div clock_of ?c \<le> ?t" using C(1) by (simp add: div_le_mono [THEN order_trans])
  then have "progress now p div clock_of ?c < 2 ^ 64" using unat_bound [of now] by simp
  moreover have "unat (saturating_sub now (pc_epoch_tick p)) = ?t" using assms(2) by (simp add: saturating_sub_def unat_sub)
  ultimately show L: "unat (latest_due_index now p) = progress now p div clock_of ?c"
    by (simp add: latest_due_index_def Let_def progress_def rate_of_def clock_of_def unat_of_nat)
  show "unat k \<le> unat (latest_due_index now p) \<longleftrightarrow> unat k * clock_of ?c \<le> progress now p"
    using C(1) by (simp add: L less_eq_div_iff_mult_less_eq)
qed

text \<open>The slots a pacer has settled: released, missed or idle.\<close>

definition settled :: "pacing_stats \<Rightarrow> nat" where
  "settled st = unat (ps_frame_releases st) + unat (ps_missed_frames st) + unat (ps_idle_frames st)"

fun released :: "frame_decision \<Rightarrow> frame_deadline list" where
  "released (PresentNow (Synchronized d) _) = [d]"
| "released (PresentNow (Unsynchronized d) _) = [d]"
| "released _ = []"

text \<open>One decision at a time that is not before the last one.\<close>

definition paced :: "u64 \<Rightarrow> frame_pacer \<Rightarrow> frame_decision \<Rightarrow> frame_pacer \<Rightarrow> bool" where
  "paced now p dec p' \<longleftrightarrow> pacer_ok p' \<and> pc_last_observed_tick p' = now \<and> pc_epoch_tick p' = pc_epoch_tick p \<and> pc_config p' = pc_config p
     \<and> (\<forall>d\<in>set (released dec). \<exists>n. pc_next_frame_index p = Some n \<and> n \<le> fd_frame_index d \<and> is_due d now
           \<and> unat (fd_frame_index d) = progress now p div clock_of (pc_config p))
     \<and> (\<forall>m. pc_next_frame_index p' = Some m \<longrightarrow> (\<exists>n. pc_next_frame_index p = Some n \<and> n \<le> m
           \<and> (\<forall>d\<in>set (released dec). fd_frame_index d < m)
           \<and> (settled (pc_stats p) = unat n \<longrightarrow> settled (pc_stats p') = unat m)))"

lemma checked_succ: "checked_add (x :: u64) 1 = Some m \<Longrightarrow> unat m = Suc (unat x) \<and> Suc (unat x) < 2 ^ 64"
  using checked_add_unat [of x 1 m] unat_bound [of m] by simp

lemma saturating_sub_unat: "unat (saturating_sub a b) = unat a - unat b"
  by (simp add: saturating_sub_def unat_sub word_le_nat_alt)

lemma settled_release:
  assumes "settled st = unat n" "unat n \<le> unat L" "Suc (unat L) < 2 ^ 64"
  shows "settled (st\<lparr>ps_frame_releases := saturating_add (ps_frame_releases st) 1,
    ps_missed_frames := saturating_add (ps_missed_frames st) (saturating_sub L n)\<rparr>) = Suc (unat L)"
  using assms by (simp add: settled_def unat_saturating_add saturating_sub_unat)

lemma settled_idle:
  assumes "settled st = unat n" "unat n \<le> unat L" "Suc (unat L) < 2 ^ 64"
  shows "settled (st\<lparr>ps_idle_frames := saturating_add (ps_idle_frames st) (saturating_add (saturating_sub L n) 1)\<rparr>) = Suc (unat L)"
  using assms by (simp add: settled_def unat_saturating_add saturating_sub_unat)

lemma decide_paced:
  assumes "pacer_ok p" "pc_last_observed_tick p \<le> now"
  obtains dec p' where "decide now pending p = Some (dec, p')" "paced now p dec p'"
proof -
  define o' where "o' = p\<lparr>pc_last_observed_tick := now\<rparr>"
  have obs: "observe_clock now p = o'" using assms(2) by (simp add: observe_clock_def o'_def)
  have o: "config_ok (pc_config p)" "pc_epoch_tick p \<le> now" using assms by (auto simp: pacer_ok_def)
  have o'': "config_ok (pc_config o')" "pc_epoch_tick o' \<le> now" "progress now o' = progress now p" using o by (simp_all add: o'_def progress_def)
  have keep: "pacer_ok o'" using o by (simp add: o'_def pacer_ok_def)
  define L where "L = latest_due_index now o'"
  show ?thesis
  proof (cases "pc_next_frame_index p")
    case None
    then have "decide now pending p = Some (ClockExhausted, o')" by (simp add: decide_def obs Let_def o'_def)
    moreover have "paced now p ClockExhausted o'" using keep None by (simp add: paced_def o'_def)
    ultimately show ?thesis by (rule that)
  next
    case (Some n)
    then have n: "pc_next_frame_index o' = Some n" by (simp add: o'_def)
    show ?thesis
    proof (cases "deadline_for o' n")
      case None
      then have "decide now pending p = Some (ClockExhausted, o'\<lparr>pc_next_frame_index := None\<rparr>)" by (simp add: decide_def obs Let_def n)
      moreover have "paced now p ClockExhausted (o'\<lparr>pc_next_frame_index := None\<rparr>)" using keep by (simp add: paced_def o'_def pacer_ok_def)
      ultimately show ?thesis by (rule that)
    next
      case d: (Some d)
      show ?thesis
      proof (cases "is_due d now")
        case False
        then have "decide now pending p = Some (if pending then WaitUntil d else Idle (Some d), o')" by (simp add: decide_def obs Let_def n d)
        moreover have "paced now p (if pending then WaitUntil d else Idle (Some d)) o'" using keep Some by (simp add: paced_def o'_def)
        ultimately show ?thesis by (rule that)
      next
        case True
        have "unat n * clock_of (pc_config o') \<le> progress now o'" using due_iff(3) [OF o''(1,2) d] True by simp
        then have nL: "unat n \<le> unat L" using latest_due_spec(2) [OF o''(1,2)] by (simp add: L_def)
        obtain dL where dL: "deadline_for o' L = Some dL" "is_due dL now"
          using due_iff(1) [OF o''(1,2), of L] latest_due_spec(2) [OF o''(1,2), of L] by (auto simp: L_def)
        have L: "unat L = progress now p div clock_of (pc_config p)" using latest_due_spec(1) [OF o''(1,2)] o''(3) by (simp add: L_def o'_def)
        have idx: "fd_frame_index dL = L" using due_iff(2) [OF o''(1,2) dL(1)] .
        have succ: "unat m = Suc (unat L) \<and> Suc (unat L) < 2 ^ 64" if "checked_add L 1 = Some m" for m using that by (rule checked_succ)
        show ?thesis
        proof (cases pending)
          case pend: True
          let ?dec = "PresentNow (if tc_vsync (pc_config o') = VsyncOn then Synchronized dL else Unsynchronized dL) (saturating_sub L n)"
          let ?p = "o'\<lparr>pc_stats := (pc_stats o')\<lparr>ps_frame_releases := saturating_add (ps_frame_releases (pc_stats o')) 1,
              ps_missed_frames := saturating_add (ps_missed_frames (pc_stats o')) (saturating_sub L n)\<rparr>, pc_next_frame_index := checked_add L 1\<rparr>"
          have "decide now pending p = Some (?dec, ?p)" using pend True by (simp add: decide_def obs Let_def n d L_def [symmetric] dL)
          moreover have "released ?dec = [dL]" by simp
          then have "paced now p ?dec ?p" using keep nL idx dL(2) L Some succ settled_release [of "pc_stats p" n L]
            by (auto simp: paced_def pacer_ok_def o'_def word_le_nat_alt word_less_nat_alt)
          ultimately show ?thesis by (rule that)
        next
          case idle: False
          let ?p = "o'\<lparr>pc_stats := (pc_stats o')\<lparr>ps_idle_frames := saturating_add (ps_idle_frames (pc_stats o')) (saturating_add (saturating_sub L n) 1)\<rparr>,
              pc_next_frame_index := checked_add L 1\<rparr>"
          let ?dec = "Idle (case pc_next_frame_index ?p of None \<Rightarrow> None | Some index \<Rightarrow> deadline_for ?p index)"
          have "decide now pending p = Some (?dec, ?p)" using idle True by (simp add: decide_def obs Let_def n d L_def [symmetric])
          moreover have "paced now p ?dec ?p" using keep nL L Some succ settled_idle [of "pc_stats p" n L]
            by (auto simp: paced_def pacer_ok_def o'_def word_le_nat_alt word_less_nat_alt)
          ultimately show ?thesis by (rule that)
        qed
      qed
    qed
  qed
qed

text \<open>A run of decisions, and what it promises of every release: it happens in the refresh slot that contains the present time.\<close>

fun pace :: "(u64 \<times> bool) list \<Rightarrow> frame_pacer \<Rightarrow> (frame_decision list \<times> frame_pacer) option" where
  "pace [] p = Some ([], p)"
| "pace ((now, pending) # es) p =
     (case decide now pending p of
       None \<Rightarrow> None
     | Some (dec, p') \<Rightarrow> map_option (\<lambda>(ds, q). (dec # ds, q)) (pace es p'))"

definition in_slot :: "u64 \<Rightarrow> nat \<Rightarrow> nat \<Rightarrow> u64 \<Rightarrow> frame_decision \<Rightarrow> bool" where
  "in_slot epoch rate clock now dec \<longleftrightarrow> (\<forall>d\<in>set (released dec). is_due d now
     \<and> unat (fd_frame_index d) = (unat now - unat epoch) * rate div clock)"

lemma pace_paced:
  assumes "pacer_ok p" "sorted (pc_last_observed_tick p # map fst es)"
  shows "\<exists>ds p'. pace es p = Some (ds, p') \<and> sorted_wrt (<) (map fd_frame_index (concat (map released ds)))
    \<and> list_all2 (\<lambda>e. in_slot (pc_epoch_tick p) (rate_of (pc_config p)) (clock_of (pc_config p)) (fst e)) es ds
    \<and> (\<forall>d\<in>set (concat (map released ds)). \<exists>n. pc_next_frame_index p = Some n \<and> n \<le> fd_frame_index d)
    \<and> (\<forall>m. pc_next_frame_index p' = Some m \<longrightarrow> (\<exists>n. pc_next_frame_index p = Some n
        \<and> (settled (pc_stats p) = unat n \<longrightarrow> settled (pc_stats p') = unat m)))"
  using assms
proof (induction es arbitrary: p)
  case (Cons e es)
  obtain now pending where e: "e = (now, pending)" by (cases e)
  have "pc_last_observed_tick p \<le> now" using Cons.prems(2) by (simp add: e)
  then obtain dec p1 where d: "decide now pending p = Some (dec, p1)" and s: "paced now p dec p1" by (rule decide_paced [OF Cons.prems(1)])
  have p1: "pacer_ok p1" "pc_last_observed_tick p1 = now" "pc_epoch_tick p1 = pc_epoch_tick p" "pc_config p1 = pc_config p"
    using s by (simp_all add: paced_def)
  have rel: "\<exists>n. pc_next_frame_index p = Some n \<and> n \<le> fd_frame_index x" "is_due x now"
      "unat (fd_frame_index x) = progress now p div clock_of (pc_config p)" if "x \<in> set (released dec)" for x
    using s that by (auto simp: paced_def)
  have nx: "\<exists>n. pc_next_frame_index p = Some n \<and> n \<le> m \<and> (\<forall>d\<in>set (released dec). fd_frame_index d < m)
      \<and> (settled (pc_stats p) = unat n \<longrightarrow> settled (pc_stats p1) = unat m)" if "pc_next_frame_index p1 = Some m" for m
    using s that by (simp add: paced_def)
  have "sorted (pc_last_observed_tick p1 # map fst es)" using Cons.prems(2) p1(2) by (simp add: e)
  from Cons.IH [OF p1(1) this] obtain ds p' where r: "pace es p1 = Some (ds, p')"
      "sorted_wrt (<) (map fd_frame_index (concat (map released ds)))"
      "list_all2 (\<lambda>e. in_slot (pc_epoch_tick p1) (rate_of (pc_config p1)) (clock_of (pc_config p1)) (fst e)) es ds"
      "\<forall>d\<in>set (concat (map released ds)). \<exists>n. pc_next_frame_index p1 = Some n \<and> n \<le> fd_frame_index d"
      "\<forall>m. pc_next_frame_index p' = Some m \<longrightarrow> (\<exists>n. pc_next_frame_index p1 = Some n \<and> (settled (pc_stats p1) = unat n \<longrightarrow> settled (pc_stats p') = unat m))"
    by (elim exE conjE) blast
  have less: "fd_frame_index x < fd_frame_index y" if "x \<in> set (released dec)" "y \<in> set (concat (map released ds))" for x y
    using r(4) nx that by (meson order_less_le_trans)
  have one: "sorted_wrt (<) (map fd_frame_index (released dec))" by (cases dec rule: released.cases) simp_all
  show ?case
  proof (intro exI conjI)
    show "pace (e # es) p = Some (dec # ds, p')" by (simp add: e d r(1))
    show "sorted_wrt (<) (map fd_frame_index (concat (map released (dec # ds))))"
      using r(2) one less by (auto simp: sorted_wrt_append)
    show "list_all2 (\<lambda>e. in_slot (pc_epoch_tick p) (rate_of (pc_config p)) (clock_of (pc_config p)) (fst e)) (e # es) (dec # ds)"
      using r(3) rel by (auto simp: e p1 in_slot_def progress_def)
    show "\<forall>d\<in>set (concat (map released (dec # ds))). \<exists>n. pc_next_frame_index p = Some n \<and> n \<le> fd_frame_index d"
      using rel(1) r(4) nx by (auto dest: order_trans) (meson order_trans)
    show "\<forall>m. pc_next_frame_index p' = Some m \<longrightarrow> (\<exists>n. pc_next_frame_index p = Some n
        \<and> (settled (pc_stats p) = unat n \<longrightarrow> settled (pc_stats p') = unat m))"
      using r(5) nx by blast
  qed
qed simp

text \<open>C22: Over any run of a monotonic clock the pacer never panics; it releases frames in strictly increasing slots, never before their
  exact rational deadline and always in the slot that contains the present time; and every slot passed is counted exactly once, as
  released, missed or idle.\<close>

theorem pacer_exact:
  assumes "timing_new rate vsync clock = Ok c" and "sorted (start # map fst es)"
  shows "\<exists>ds p. pace es (pacer_new c start) = Some (ds, p) \<and> sorted_wrt (<) (map fd_frame_index (concat (map released ds)))
    \<and> list_all2 (\<lambda>e. in_slot start (unat (hz rate)) (unat clock) (fst e)) es ds
    \<and> (\<forall>m. pc_next_frame_index p = Some m \<longrightarrow> settled (pc_stats p) = unat m)"
proof -
  have c: "rate_of c = unat (hz rate)" "clock_of c = unat clock" using assms(1) by (auto simp: timing_new_def rate_of_def clock_of_def split: if_splits)
  have "pacer_ok (pacer_new c start)" using timing_new_ok [OF assms(1)] by (simp add: pacer_ok_def pacer_new_def)
  moreover have "sorted (pc_last_observed_tick (pacer_new c start) # map fst es)" using assms(2) by (simp add: pacer_new_def)
  ultimately have "\<exists>ds p'. pace es (pacer_new c start) = Some (ds, p') \<and> sorted_wrt (<) (map fd_frame_index (concat (map released ds)))
    \<and> list_all2 (\<lambda>e. in_slot start (unat (hz rate)) (unat clock) (fst e)) es ds
    \<and> (\<forall>m. pc_next_frame_index p' = Some m \<longrightarrow> (\<exists>n. pc_next_frame_index (pacer_new c start) = Some n
        \<and> (settled (pc_stats (pacer_new c start)) = unat n \<longrightarrow> settled (pc_stats p') = unat m)))"
    using pace_paced [of "pacer_new c start" es] by (simp add: c pacer_new_def)
  then show ?thesis by (simp add: pacer_new_def stats_default_def settled_def)
qed

lemmas pacer_eval = decide_def observe_clock_def deadline_for_def deadline_from_def latest_due_index_def is_due_def not_before_tick_def
  saturating_add_def saturating_sub_def checked_add_def unat_minus_one stats_default_def pacer_new_def

theorem pacer_exact_witness:
  "\<exists>c ds p. timing_new Hz60 VsyncOn 1000 = Ok c \<and> pace [(5, True), (40, False), (70, True)] (pacer_new c 5) = Some (ds, p)
    \<and> map should_present ds = [True, False, True] \<and> sorted_wrt (<) (map fd_frame_index (concat (map released ds)))"
proof -
  define c where "c = \<lparr>tc_refresh_rate = Hz60, tc_vsync = VsyncOn, tc_clock_ticks_per_second = 1000\<rparr>"
  have c: "timing_new Hz60 VsyncOn 1000 = Ok c" unfolding c_def by (simp add: timing_new_def)
  have "sorted (5 # map fst [(5 :: u64, True), (40, False), (70, True)])" by simp
  from pacer_exact [OF c this] obtain ds p where r: "pace [(5, True), (40, False), (70, True)] (pacer_new c 5) = Some (ds, p)"
    "sorted_wrt (<) (map fd_frame_index (concat (map released ds)))" by blast
  have "timing_gcd 1000 60 = 20" by (simp add: timing_gcd.simps)
  then have period: "period c = \<lparr>fp_numerator_ticks = 50, fp_denominator = 3\<rparr>" by (simp add: period_def c_def)
  have "map_option (\<lambda>(ds, p). map should_present ds) (pace [(5, True), (40, False), (70, True)] (pacer_new c 5)) = Some [True, False, True]"
    unfolding c_def by (simp add: pacer_eval Let_def period [unfolded c_def])
  then show ?thesis using c r by auto
qed

end
