(* ===== verification/Controls.thy ===== *)
theory Controls
  imports Ring
begin

text \<open>
  Kernel controls (\<^verbatim>\<open>kernel/src/kernel_controls.rs\<close>): typed tunables, event watches with a ring of ready events and
  timers, resource limits, and their composition \<^verbatim>\<open>KernelControls\<close>. The static tables have the lengths and the
  contents of \<^verbatim>\<open>new\<close>. The \<^verbatim>\<open>expect\<close> call of \<^verbatim>\<open>poll\<close> is the result \<open>None\<close>; the slice that \<^verbatim>\<open>poll\<close> fills is given by its length,
  and the events written to it are the result.
\<close>

section \<open>Model: tunables\<close>

definition MAX_TUNABLES :: nat where "MAX_TUNABLES = 9"

definition MAX_WATCHES :: nat where "MAX_WATCHES = 16"

definition MAX_READY_EVENTS :: nat where "MAX_READY_EVENTS = 16"

definition NODE_EVENT_BATCH :: nat where "NODE_EVENT_BATCH = 2"

definition NODE_EVENT_COALESCE :: nat where "NODE_EVENT_COALESCE = 3"

definition NODE_EVENT_TRACE :: nat where "NODE_EVENT_TRACE = 4"

definition NODE_EVENT_DROPPED :: nat where "NODE_EVENT_DROPPED = 5"

definition NODE_EVENT_COALESCED :: nat where "NODE_EVENT_COALESCED = 6"

definition NODE_EXPBUDGET_DENIALS :: nat where "NODE_EXPBUDGET_DENIALS = 7"

datatype tunable_value = TunableBool bool | TunableUnsigned u64 | TunableText str

datatype tunable_access = ReadOnly | OperatorWrite

record tunable_node =
  tn_name :: str
  tn_value :: tunable_value
  tn_access :: tunable_access
  tn_minimum :: u64
  tn_maximum :: u64

definition node_read_only :: "str \<Rightarrow> tunable_value \<Rightarrow> tunable_node" where
  "node_read_only name v = \<lparr>tn_name = name, tn_value = v, tn_access = ReadOnly, tn_minimum = 0, tn_maximum = - 1\<rparr>"

definition node_unsigned :: "str \<Rightarrow> u64 \<Rightarrow> u64 \<Rightarrow> u64 \<Rightarrow> tunable_node" where
  "node_unsigned name v minimum maximum = \<lparr>tn_name = name, tn_value = TunableUnsigned v, tn_access = OperatorWrite,
     tn_minimum = minimum, tn_maximum = maximum\<rparr>"

definition node_boolean :: "str \<Rightarrow> bool \<Rightarrow> tunable_node" where
  "node_boolean name v = \<lparr>tn_name = name, tn_value = TunableBool v, tn_access = OperatorWrite, tn_minimum = 0, tn_maximum = 1\<rparr>"

datatype control_error = UnknownNode | ErrReadOnly | InvalidType | OutOfRange | DuplicateWatch | WatchTableFull | WatchNotFound
  | ReadyQueueFull | InvalidLimit | ResourceExhausted | ManagedResource | ReleaseExceedsUsage

type_synonym tunable_registry = "tunable_node list"

definition tunables_new :: tunable_registry where
  "tunables_new =
     [node_read_only (lit ''kern.control.abi'') (TunableText (lit ''Form-native-v1'')),
      node_read_only (lit ''security.capability.enforced'') (TunableBool True),
      node_unsigned (lit ''kern.event.batch'') 4 1 16,
      node_boolean (lit ''kern.event.coalesce'') True,
      node_boolean (lit ''kern.event.trace'') False,
      node_read_only (lit ''kern.event.dropped'') (TunableUnsigned 0),
      node_read_only (lit ''kern.event.coalesced'') (TunableUnsigned 0),
      node_read_only (lit ''kern.expbudget.denials'') (TunableUnsigned 0),
      node_read_only (lit ''kern.event.capacity'') (TunableUnsigned (of_nat MAX_WATCHES))]"

definition tunable_get :: "str \<Rightarrow> tunable_registry \<Rightarrow> (control_error, tunable_node) result" where
  "tunable_get name nodes = (case find (\<lambda>n. tn_name n = name) nodes of None \<Rightarrow> Err UnknownNode | Some n \<Rightarrow> Ok n)"

definition parse_bool :: "str \<Rightarrow> (control_error, bool) result" where
  "parse_bool raw =
     (if raw \<in> {lit ''1'', lit ''true'', lit ''on'', lit ''yes''} then Ok True
      else if raw \<in> {lit ''0'', lit ''false'', lit ''off'', lit ''no''} then Ok False
      else Err InvalidType)"

text \<open>\<^verbatim>\<open>str::parse::<u64>\<close>: an optional plus sign and at least one decimal digit, within 64 bits.\<close>

definition parse_u64 :: "str \<Rightarrow> u64 option" where
  "parse_u64 raw =
     (let digits = (case raw of c # rest \<Rightarrow> if c = 43 then rest else raw | [] \<Rightarrow> []);
          v = foldl (\<lambda>v c. v * 10 + (c - 48)) 0 digits
      in if digits = [] \<or> \<not> list_all (\<lambda>c. 48 \<le> c \<and> c \<le> 57) digits \<or> v \<ge> 2 ^ 64 then None else Some (of_nat v))"

definition set_text :: "str \<Rightarrow> str \<Rightarrow> tunable_registry \<Rightarrow> (control_error, tunable_node) result \<times> tunable_registry" where
  "set_text name raw nodes =
     (case position (\<lambda>n. tn_name n = name) nodes of
       None \<Rightarrow> (Err UnknownNode, nodes)
     | Some index \<Rightarrow>
         let node = nodes ! index;
             put = (\<lambda>v. (Ok (node\<lparr>tn_value := v\<rparr>), nodes[index := node\<lparr>tn_value := v\<rparr>]))
         in if tn_access node = ReadOnly then (Err ErrReadOnly, nodes)
            else (case tn_value node of
              TunableBool _ \<Rightarrow> (case parse_bool raw of Err e \<Rightarrow> (Err e, nodes) | Ok b \<Rightarrow> put (TunableBool b))
            | TunableUnsigned _ \<Rightarrow>
                (case parse_u64 raw of
                  None \<Rightarrow> (Err InvalidType, nodes)
                | Some v \<Rightarrow> if v < tn_minimum node \<or> v > tn_maximum node then (Err OutOfRange, nodes) else put (TunableUnsigned v))
            | TunableText _ \<Rightarrow> (Err ErrReadOnly, nodes)))"

definition tunable_unsigned :: "nat \<Rightarrow> tunable_registry \<Rightarrow> u64" where
  "tunable_unsigned index nodes = (case tn_value (nodes ! index) of TunableUnsigned v \<Rightarrow> v | _ \<Rightarrow> 0)"

definition tunable_boolean :: "nat \<Rightarrow> tunable_registry \<Rightarrow> bool" where
  "tunable_boolean index nodes \<longleftrightarrow> tn_value (nodes ! index) = TunableBool True"

definition set_counter :: "nat \<Rightarrow> u64 \<Rightarrow> tunable_registry \<Rightarrow> tunable_registry" where
  "set_counter index v nodes = nodes[index := (nodes ! index)\<lparr>tn_value := TunableUnsigned v\<rparr>]"

section \<open>Model: events\<close>

datatype event_filter = FilterSignal | FilterTimer | FilterResource

record event_watch =
  ew_identifier :: u32
  ew_filter :: event_filter
  ew_deadline :: u64
  ew_interval :: u64
  ew_enabled :: bool

record ready_event =
  re_identifier :: u32
  re_filter :: event_filter
  re_data :: u64
  re_sequence :: u64

datatype signal_outcome = Queued | Coalesced

record event_queue =
  eq_watches :: "event_watch slots"
  eq_ready :: "ready_event slots"
  eq_ready_head :: nat
  eq_ready_count :: nat
  eq_next_sequence :: u64
  eq_delivered :: u64
  eq_dropped :: u64
  eq_coalesced :: u64

definition watch_signal :: "u32 \<Rightarrow> event_watch" where
  "watch_signal i = \<lparr>ew_identifier = i, ew_filter = FilterSignal, ew_deadline = 0, ew_interval = 0, ew_enabled = True\<rparr>"

definition watch_timer :: "u32 \<Rightarrow> u64 \<Rightarrow> u64 \<Rightarrow> event_watch" where
  "watch_timer i deadline interval = \<lparr>ew_identifier = i, ew_filter = FilterTimer, ew_deadline = deadline, ew_interval = interval, ew_enabled = True\<rparr>"

definition event_queue_new :: event_queue where
  "event_queue_new = \<lparr>eq_watches = empty_slots MAX_WATCHES, eq_ready = empty_slots MAX_READY_EVENTS, eq_ready_head = 0, eq_ready_count = 0,
     eq_next_sequence = 1, eq_delivered = 0, eq_dropped = 0, eq_coalesced = 0\<rparr>"

definition same_event_key :: "event_watch \<Rightarrow> u32 \<Rightarrow> event_filter \<Rightarrow> bool" where
  "same_event_key w i f \<longleftrightarrow> ew_identifier w = i \<and> ew_filter w = f"

definition event_register :: "event_watch \<Rightarrow> event_queue \<Rightarrow> (control_error, event_queue) result" where
  "event_register w q =
     (if list_ex (\<lambda>current. same_event_key current (ew_identifier w) (ew_filter w)) (flatten (eq_watches q)) then Err DuplicateWatch
      else (case fill_slot w (eq_watches q) of
        None \<Rightarrow> Err WatchTableFull
      | Some watches \<Rightarrow> Ok (q\<lparr>eq_watches := watches\<rparr>)))"

text \<open>The loop of \<^verbatim>\<open>remove_ready\<close> over the occupied part of the ring; the retained events are packed from slot 0.\<close>

definition remove_ready :: "u32 \<Rightarrow> event_filter \<Rightarrow> event_queue \<Rightarrow> event_queue" where
  "remove_ready i f q =
     (let offered = flatten (map (\<lambda>offset. eq_ready q ! ((eq_ready_head q + offset) mod MAX_READY_EVENTS)) [0..<eq_ready_count q]);
          retained = filter (\<lambda>e. re_identifier e \<noteq> i \<or> re_filter e \<noteq> f) offered
      in q\<lparr>eq_ready := map Some retained @ empty_slots (MAX_READY_EVENTS - length retained),
           eq_ready_head := 0, eq_ready_count := length retained\<rparr>)"

definition event_unregister :: "u32 \<Rightarrow> event_filter \<Rightarrow> event_queue \<Rightarrow> (control_error, event_queue) result" where
  "event_unregister i f q =
     (if \<not> list_ex (\<lambda>w. same_event_key w i f) (flatten (eq_watches q)) then Err WatchNotFound
      else Ok (remove_ready i f (q\<lparr>eq_watches := clear_first (\<lambda>w. same_event_key w i f) (eq_watches q)\<rparr>)))"

text \<open>The offset of the first queued event with the given key, as the coalescing loop of \<^verbatim>\<open>signal\<close> finds it.\<close>

definition queued_at :: "u32 \<Rightarrow> event_filter \<Rightarrow> event_queue \<Rightarrow> nat option" where
  "queued_at i f q = find (\<lambda>offset. case eq_ready q ! ((eq_ready_head q + offset) mod MAX_READY_EVENTS) of
     None \<Rightarrow> False | Some e \<Rightarrow> re_identifier e = i \<and> re_filter e = f) [0..<eq_ready_count q]"

definition event_signal :: "u32 \<Rightarrow> event_filter \<Rightarrow> u64 \<Rightarrow> bool \<Rightarrow> event_queue \<Rightarrow> (control_error, signal_outcome) result \<times> event_queue" where
  "event_signal i f data coalesce q =
     (if \<not> list_ex (\<lambda>w. ew_enabled w \<and> same_event_key w i f) (flatten (eq_watches q)) then (Err WatchNotFound, q)
      else (case (if coalesce then queued_at i f q else None) of
        Some offset \<Rightarrow>
          let index = (eq_ready_head q + offset) mod MAX_READY_EVENTS;
              e = the (eq_ready q ! index);
              e = e\<lparr>re_data := (if f = FilterTimer then saturating_add (re_data e) data else data)\<rparr>
          in (Ok Coalesced, q\<lparr>eq_ready := (eq_ready q)[index := Some e], eq_coalesced := saturating_add (eq_coalesced q) 1\<rparr>)
      | None \<Rightarrow>
          if eq_ready_count q = MAX_READY_EVENTS then (Err ReadyQueueFull, q\<lparr>eq_dropped := saturating_add (eq_dropped q) 1\<rparr>)
          else
            let tail = (eq_ready_head q + eq_ready_count q) mod MAX_READY_EVENTS in
            (Ok Queued, q\<lparr>eq_ready := (eq_ready q)[tail := Some \<lparr>re_identifier = i, re_filter = f, re_data = data,
                re_sequence = eq_next_sequence q\<rparr>],
              eq_next_sequence := saturating_add (eq_next_sequence q) 1, eq_ready_count := eq_ready_count q + 1\<rparr>)))"

definition checked_mul :: "'a::len word \<Rightarrow> 'a word \<Rightarrow> 'a word option" where
  "checked_mul a b = (if unat a * unat b < 2 ^ LENGTH('a) then Some (a * b) else None)"

lemma checked_mul_code [code]: "checked_mul a b = (if a = 0 \<or> a * b div a = b then Some (a * b) else None)" for a b :: "'a::len word"
proof -
  have "unat a * unat b < 2 ^ LENGTH('a) \<longleftrightarrow> a = 0 \<or> a * b div a = b"
  proof
    assume "unat a * unat b < 2 ^ LENGTH('a)"
    then have "unat (a * b) = unat a * unat b" by (simp add: unat_word_ariths)
    then show "a = 0 \<or> a * b div a = b" by (cases "a = 0") (simp_all add: word_unat_eq_iff unat_div)
  next
    assume "a = 0 \<or> a * b div a = b"
    then show "unat a * unat b < 2 ^ LENGTH('a)"
    proof
      assume "a * b div a = b"
      then have "unat (a * b) div unat a = unat b" by (metis unat_div)
      then have "unat a * unat b \<le> unat (a * b)" using times_div_less_eq_dividend [of "unat a" "unat (a * b)"] by simp
      then show ?thesis using unat_bound [of "a * b"] by linarith
    qed simp
  qed
  then show ?thesis by (simp add: checked_mul_def)
qed

text \<open>The expirations of a due timer and its next deadline.\<close>

definition timer_expiry :: "u64 \<Rightarrow> event_watch \<Rightarrow> u64 \<times> u64 option" where
  "timer_expiry now w =
     (let elapsed = saturating_sub now (ew_deadline w) in
      if ew_interval w = 0 then (1, None)
      else (case checked_add (elapsed div ew_interval w) 1 of
        Some expirations \<Rightarrow>
          (expirations, (case checked_mul (ew_interval w) expirations of None \<Rightarrow> None | Some delta \<Rightarrow> checked_add (ew_deadline w) delta))
      | None \<Rightarrow> (- 1, None)))"

definition rearm :: "u64 option \<Rightarrow> event_watch \<Rightarrow> event_watch" where
  "rearm next_deadline w = (case next_deadline of Some deadline \<Rightarrow> w\<lparr>ew_deadline := deadline\<rparr> | None \<Rightarrow> w\<lparr>ew_enabled := False\<rparr>)"

definition timer_due :: "u64 \<Rightarrow> event_watch \<Rightarrow> bool" where
  "timer_due now w \<longleftrightarrow> ew_enabled w \<and> ew_filter w = FilterTimer \<and> ew_deadline w \<le> now"

definition advance_timer :: "u64 \<Rightarrow> bool \<Rightarrow> nat \<Rightarrow> event_queue \<Rightarrow> event_queue" where
  "advance_timer now coalesce index q =
     (case eq_watches q ! index of
       None \<Rightarrow> q
     | Some w \<Rightarrow>
         if \<not> timer_due now w then q
         else
           let (expirations, next_deadline) = timer_expiry now w in
           (case event_signal (ew_identifier w) FilterTimer expirations coalesce q of
             (Ok _, q) \<Rightarrow> q\<lparr>eq_watches := (eq_watches q)[index := Some (rearm next_deadline w)]\<rparr>
           | (Err _, q) \<Rightarrow> q))"

definition advance_timers :: "u64 \<Rightarrow> bool \<Rightarrow> event_queue \<Rightarrow> event_queue" where
  "advance_timers now coalesce q = fold (advance_timer now coalesce) [0..<MAX_WATCHES] q"

fun take_ready :: "nat \<Rightarrow> event_queue \<Rightarrow> (ready_event list \<times> event_queue) option" where
  "take_ready 0 q = Some ([], q)"
| "take_ready (Suc n) q =
     (case eq_ready q ! eq_ready_head q of
       None \<Rightarrow> None
     | Some e \<Rightarrow>
         map_option (\<lambda>(es, q). (e # es, q))
           (take_ready n (q\<lparr>eq_ready := (eq_ready q)[eq_ready_head q := None], eq_ready_head := (eq_ready_head q + 1) mod MAX_READY_EVENTS,
              eq_ready_count := eq_ready_count q - 1\<rparr>)))"

definition event_poll :: "nat \<Rightarrow> nat \<Rightarrow> event_queue \<Rightarrow> (ready_event list \<times> event_queue) option" where
  "event_poll output_len budget q =
     (let amount = min (min output_len budget) (eq_ready_count q) in
      map_option (\<lambda>(es, q). (es, q\<lparr>eq_delivered := saturating_add (eq_delivered q) (of_nat amount)\<rparr>)) (take_ready amount q))"

section \<open>Model: resources\<close>

datatype resource = EventWatches | IpcBytes | ScratchPages | FormOperations | FormBytes

fun resource_index :: "resource \<Rightarrow> nat" where
  "resource_index EventWatches = 0"
| "resource_index IpcBytes = 1"
| "resource_index ScratchPages = 2"
| "resource_index FormOperations = 3"
| "resource_index FormBytes = 4"

definition ALL_RESOURCES :: "resource list" where
  "ALL_RESOURCES = [EventWatches, IpcBytes, ScratchPages, FormOperations, FormBytes]"

fun resource_name :: "resource \<Rightarrow> str" where
  "resource_name EventWatches = lit ''event-watches''"
| "resource_name IpcBytes = lit ''ipc-bytes''"
| "resource_name ScratchPages = lit ''scratch-pages''"
| "resource_name FormOperations = lit ''form-operations''"
| "resource_name FormBytes = lit ''form-bytes''"

definition resource_parse :: "str \<Rightarrow> resource option" where
  "resource_parse raw = find (\<lambda>r. resource_name r = raw) ALL_RESOURCES"

definition watch_resource :: "resource \<Rightarrow> event_watch" where
  "watch_resource r = \<lparr>ew_identifier = of_nat (resource_index r), ew_filter = FilterResource, ew_deadline = 0, ew_interval = 0, ew_enabled = True\<rparr>"

record resource_limit =
  rl_resource :: resource
  rl_used :: u64
  rl_soft :: u64
  rl_hard :: u64
  rl_ceiling :: u64
  rl_denials :: u64

definition limit_new :: "resource \<Rightarrow> u64 \<Rightarrow> u64 \<Rightarrow> u64 \<Rightarrow> resource_limit" where
  "limit_new r soft hard ceiling' = \<lparr>rl_resource = r, rl_used = 0, rl_soft = soft, rl_hard = hard, rl_ceiling = ceiling', rl_denials = 0\<rparr>"

record control_budget =
  cb_limits :: "resource_limit list"
  cb_total_denials :: u64

definition control_budget_new :: control_budget where
  "control_budget_new = \<lparr>cb_limits = [limit_new EventWatches 8 16 (of_nat MAX_WATCHES), limit_new IpcBytes 4096 16384 65536,
     limit_new ScratchPages 16 64 256, limit_new FormOperations 64 256 4096, limit_new FormBytes 49152 49152 49152], cb_total_denials = 0\<rparr>"

definition limit_of :: "resource \<Rightarrow> control_budget \<Rightarrow> resource_limit" where
  "limit_of r b = cb_limits b ! resource_index r"

definition put_limit :: "resource \<Rightarrow> resource_limit \<Rightarrow> control_budget \<Rightarrow> control_budget" where
  "put_limit r l b = b\<lparr>cb_limits := (cb_limits b)[resource_index r := l]\<rparr>"

definition budget_set :: "resource \<Rightarrow> u64 \<Rightarrow> u64 \<Rightarrow> control_budget \<Rightarrow> (control_error, resource_limit \<times> control_budget) result" where
  "budget_set r soft hard b =
     (let l = limit_of r b in
      if rl_used l > soft \<or> soft > hard \<or> hard > rl_ceiling l then Err InvalidLimit
      else let l = l\<lparr>rl_soft := soft, rl_hard := hard\<rparr> in Ok (l, put_limit r l b))"

definition budget_charge :: "resource \<Rightarrow> u64 \<Rightarrow> control_budget \<Rightarrow> (control_error, u64) result \<times> control_budget" where
  "budget_charge r amount b =
     (let l = limit_of r b;
          deny = (put_limit r (l\<lparr>rl_denials := saturating_add (rl_denials l) 1\<rparr>) b)\<lparr>cb_total_denials := saturating_add (cb_total_denials b) 1\<rparr>
      in (case checked_add (rl_used l) amount of
        None \<Rightarrow> (Err ResourceExhausted, deny)
      | Some next_used \<Rightarrow>
          if next_used > rl_soft l then (Err ResourceExhausted, deny)
          else (Ok next_used, put_limit r (l\<lparr>rl_used := next_used\<rparr>) b)))"

definition budget_release :: "resource \<Rightarrow> u64 \<Rightarrow> control_budget \<Rightarrow> (control_error, u64 \<times> control_budget) result" where
  "budget_release r amount b =
     (let l = limit_of r b in
      if amount > rl_used l then Err ReleaseExceedsUsage
      else Ok (rl_used l - amount, put_limit r (l\<lparr>rl_used := rl_used l - amount\<rparr>) b))"

section \<open>Model: the composition\<close>

record kernel_controls =
  kc_tunables :: tunable_registry
  kc_events :: event_queue
  kc_resources :: control_budget

definition controls_new :: kernel_controls where
  "controls_new = \<lparr>kc_tunables = tunables_new, kc_events = event_queue_new, kc_resources = control_budget_new\<rparr>"

definition sync_counters :: "kernel_controls \<Rightarrow> kernel_controls" where
  "sync_counters k = k\<lparr>kc_tunables := set_counter NODE_EXPBUDGET_DENIALS (cb_total_denials (kc_resources k))
     (set_counter NODE_EVENT_COALESCED (eq_coalesced (kc_events k))
       (set_counter NODE_EVENT_DROPPED (eq_dropped (kc_events k)) (kc_tunables k)))\<rparr>"

definition set_tunable :: "str \<Rightarrow> str \<Rightarrow> kernel_controls \<Rightarrow> (control_error, tunable_node) result \<times> kernel_controls" where
  "set_tunable name v k = (case set_text name v (kc_tunables k) of (r, nodes) \<Rightarrow> (r, k\<lparr>kc_tunables := nodes\<rparr>))"

definition charge_internal :: "resource \<Rightarrow> u64 \<Rightarrow> kernel_controls \<Rightarrow> (control_error, u64) result \<times> kernel_controls" where
  "charge_internal r amount k =
     (case budget_charge r amount (kc_resources k) of
       (Ok u, b) \<Rightarrow> (Ok u, k\<lparr>kc_resources := b\<rparr>)
     | (Err e, b) \<Rightarrow>
         let coalesce = tunable_boolean NODE_EVENT_COALESCE (kc_tunables k);
             q = snd (event_signal (of_nat (resource_index r)) FilterResource amount coalesce (kc_events k))
         in (Err e, sync_counters (k\<lparr>kc_resources := b, kc_events := q\<rparr>)))"

definition register_watch :: "event_watch \<Rightarrow> kernel_controls \<Rightarrow> (control_error, unit) result \<times> kernel_controls" where
  "register_watch w k =
     (case charge_internal EventWatches 1 k of
       (Err e, k) \<Rightarrow> (Err e, k)
     | (Ok _, k) \<Rightarrow>
         (case event_register w (kc_events k) of
           Err e \<Rightarrow> (Err e, (case budget_release EventWatches 1 (kc_resources k) of Err _ \<Rightarrow> k | Ok (_, b) \<Rightarrow> k\<lparr>kc_resources := b\<rparr>))
         | Ok q \<Rightarrow> (Ok (), k\<lparr>kc_events := q\<rparr>)))"

definition unregister_watch :: "u32 \<Rightarrow> event_filter \<Rightarrow> kernel_controls \<Rightarrow> (control_error, unit) result \<times> kernel_controls" where
  "unregister_watch i f k =
     (case event_unregister i f (kc_events k) of
       Err e \<Rightarrow> (Err e, k)
     | Ok q \<Rightarrow>
         let k = k\<lparr>kc_events := q\<rparr> in
         (case budget_release EventWatches 1 (kc_resources k) of Err e \<Rightarrow> (Err e, k) | Ok (_, b) \<Rightarrow> (Ok (), k\<lparr>kc_resources := b\<rparr>)))"

definition controls_signal :: "u32 \<Rightarrow> u64 \<Rightarrow> kernel_controls \<Rightarrow> (control_error, unit) result \<times> kernel_controls" where
  "controls_signal i data k =
     (let coalesce = tunable_boolean NODE_EVENT_COALESCE (kc_tunables k) in
      case event_signal i FilterSignal data coalesce (kc_events k) of
        (r, q) \<Rightarrow> (case r of Err e \<Rightarrow> Err e | Ok _ \<Rightarrow> Ok (), sync_counters (k\<lparr>kc_events := q\<rparr>)))"

definition controls_poll :: "u64 \<Rightarrow> nat \<Rightarrow> kernel_controls \<Rightarrow> (ready_event list \<times> kernel_controls) option" where
  "controls_poll now output_len k =
     (let coalesce = tunable_boolean NODE_EVENT_COALESCE (kc_tunables k);
          q = advance_timers now coalesce (kc_events k);
          budget = unat (tunable_unsigned NODE_EVENT_BATCH (kc_tunables k))
      in map_option (\<lambda>(es, q). (es, sync_counters (k\<lparr>kc_events := q\<rparr>))) (event_poll output_len budget q))"

definition set_limit :: "resource \<Rightarrow> u64 \<Rightarrow> u64 \<Rightarrow> kernel_controls \<Rightarrow> (control_error, resource_limit \<times> kernel_controls) result" where
  "set_limit r soft hard k =
     (case budget_set r soft hard (kc_resources k) of Err e \<Rightarrow> Err e | Ok (l, b) \<Rightarrow> Ok (l, k\<lparr>kc_resources := b\<rparr>))"

definition managed :: "resource \<Rightarrow> bool" where
  "managed r \<longleftrightarrow> r \<in> {EventWatches, FormOperations, FormBytes}"

definition controls_charge :: "resource \<Rightarrow> u64 \<Rightarrow> kernel_controls \<Rightarrow> (control_error, u64) result \<times> kernel_controls" where
  "controls_charge r amount k = (if managed r then (Err ManagedResource, k) else charge_internal r amount k)"

definition controls_release :: "resource \<Rightarrow> u64 \<Rightarrow> kernel_controls \<Rightarrow> (control_error, u64 \<times> kernel_controls) result" where
  "controls_release r amount k =
     (if managed r then Err ManagedResource
      else (case budget_release r amount (kc_resources k) of Err e \<Rightarrow> Err e | Ok (u, b) \<Rightarrow> Ok (u, k\<lparr>kc_resources := b\<rparr>)))"

definition charge_form_operation :: "kernel_controls \<Rightarrow> (control_error, u64) result \<times> kernel_controls" where
  "charge_form_operation k = charge_internal FormOperations 1 k"

definition resize_form_content :: "nat \<Rightarrow> nat \<Rightarrow> kernel_controls \<Rightarrow> (control_error, u64) result \<times> kernel_controls" where
  "resize_form_content old new k =
     (if new \<ge> old then charge_internal FormBytes (of_nat (new - old)) k
      else (case budget_release FormBytes (of_nat (old - new)) (kc_resources k) of
        Err e \<Rightarrow> (Err e, k) | Ok (u, b) \<Rightarrow> (Ok u, k\<lparr>kc_resources := b\<rparr>)))"

definition tracing_enabled :: "kernel_controls \<Rightarrow> bool" where
  "tracing_enabled k = tunable_boolean NODE_EVENT_TRACE (kc_tunables k)"

section \<open>The ready ring as a list\<close>

definition pending :: "event_queue \<Rightarrow> ready_event list" where
  "pending q = ring_entries (eq_ready q) (eq_ready_head q) (eq_ready_count q)"

definition watch_key :: "event_watch \<Rightarrow> u32 \<times> event_filter" where
  "watch_key w = (ew_identifier w, ew_filter w)"

definition ready_key :: "ready_event \<Rightarrow> u32 \<times> event_filter" where
  "ready_key e = (re_identifier e, re_filter e)"

definition watch_keys :: "event_queue \<Rightarrow> (u32 \<times> event_filter) list" where
  "watch_keys q = map watch_key (flatten (eq_watches q))"

definition ring_ok :: "event_queue \<Rightarrow> bool" where
  "ring_ok q \<longleftrightarrow> ring_wf MAX_READY_EVENTS (eq_ready q) (eq_ready_head q) (eq_ready_count q)"

definition queue_inv :: "event_queue \<Rightarrow> bool" where
  "queue_inv q \<longleftrightarrow> ring_ok q \<and> length (eq_watches q) = MAX_WATCHES \<and> distinct (watch_keys q) \<and> ready_key ` set (pending q) \<subseteq> set (watch_keys q)"

lemma length_pending: "length (pending q) = eq_ready_count q"
  by (simp add: pending_def)

lemma ready_at:
  assumes "ring_ok q" "i < eq_ready_count q"
  shows "eq_ready q ! ((eq_ready_head q + i) mod MAX_READY_EVENTS) = Some (pending q ! i)"
  using ring_nth [of MAX_READY_EVENTS "eq_ready q" "eq_ready_head q" "eq_ready_count q" i] assms by (simp add: ring_ok_def pending_def)

lemma take_ready_spec:
  assumes "ring_ok q" "n \<le> eq_ready_count q"
  shows "\<exists>q'. take_ready n q = Some (take n (pending q), q') \<and> ring_ok q' \<and> pending q' = drop n (pending q) \<and> eq_watches q' = eq_watches q"
  using assms
proof (induction n arbitrary: q)
  case (Suc n)
  let ?q = "q\<lparr>eq_ready := (eq_ready q)[eq_ready_head q := None], eq_ready_head := (eq_ready_head q + 1) mod MAX_READY_EVENTS,
      eq_ready_count := eq_ready_count q - 1\<rparr>"
  have wf: "ring_wf MAX_READY_EVENTS (eq_ready q) (eq_ready_head q) (eq_ready_count q)" "0 < eq_ready_count q"
    using Suc.prems by (simp_all add: ring_ok_def)
  have hd: "eq_ready q ! eq_ready_head q = Some (hd (pending q))" using ring_first [OF wf] by (simp add: pending_def)
  have q: "ring_ok ?q" "pending ?q = tl (pending q)" "eq_watches ?q = eq_watches q" "n \<le> eq_ready_count ?q"
    using ring_pop [OF wf] Suc.prems by (simp_all add: ring_ok_def pending_def)
  have ne: "pending q \<noteq> []" using wf(2) length_pending [of q] by auto
  from Suc.IH [OF q(1,4)] q hd ne show ?case by (auto simp: take_Suc drop_Suc)
qed simp

lemma remove_ready_spec:
  assumes "ring_ok q"
  shows "ring_ok (remove_ready i f q)" "pending (remove_ready i f q) = filter (\<lambda>e. ready_key e \<noteq> (i, f)) (pending q)"
    "eq_watches (remove_ready i f q) = eq_watches q"
proof -
  let ?xs = "filter (\<lambda>e. re_identifier e \<noteq> i \<or> re_filter e \<noteq> f) (pending q)"
  have "map (\<lambda>offset. eq_ready q ! ((eq_ready_head q + offset) mod MAX_READY_EVENTS)) [0..<eq_ready_count q] = map Some (pending q)"
    using ready_at [OF assms] by (intro nth_equalityI) (simp_all add: length_pending)
  then have r: "remove_ready i f q = q\<lparr>eq_ready := map Some ?xs @ empty_slots (MAX_READY_EVENTS - length ?xs), eq_ready_head := 0, eq_ready_count := length ?xs\<rparr>"
    by (simp add: remove_ready_def Let_def)
  have len: "length ?xs \<le> MAX_READY_EVENTS" "0 < MAX_READY_EVENTS"
    using assms length_filter_le [of _ "pending q"] le_trans by (fastforce simp: ring_ok_def ring_wf_def length_pending MAX_READY_EVENTS_def)+
  show "ring_ok (remove_ready i f q)" "eq_watches (remove_ready i f q) = eq_watches q"
    using ring_packed(1) [OF len] by (simp_all add: r ring_ok_def)
  have "?xs = filter (\<lambda>e. ready_key e \<noteq> (i, f)) (pending q)" by (simp add: ready_key_def)
  then show "pending (remove_ready i f q) = filter (\<lambda>e. ready_key e \<noteq> (i, f)) (pending q)"
    using ring_packed(2) [OF len] by (simp add: r pending_def)
qed

text \<open>What a signal does to the list of pending events: merge with the first pending event of its key, or append.\<close>

definition signal_spec :: "u32 \<times> event_filter \<Rightarrow> u64 \<Rightarrow> bool \<Rightarrow> u64 \<Rightarrow> ready_event list \<Rightarrow> (control_error, signal_outcome) result \<times> ready_event list" where
  "signal_spec k data coalesce sequence es =
     (case (if coalesce then position (\<lambda>e. ready_key e = k) es else None) of
       Some n \<Rightarrow> (Ok Coalesced, es[n := (es ! n)\<lparr>re_data := (if snd k = FilterTimer then saturating_add (re_data (es ! n)) data else data)\<rparr>])
     | None \<Rightarrow>
         if length es = MAX_READY_EVENTS then (Err ReadyQueueFull, es)
         else (Ok Queued, es @ [\<lparr>re_identifier = fst k, re_filter = snd k, re_data = data, re_sequence = sequence\<rparr>]))"

definition watched :: "u32 \<times> event_filter \<Rightarrow> event_queue \<Rightarrow> bool" where
  "watched k q \<longleftrightarrow> (\<exists>w\<in>set (flatten (eq_watches q)). ew_enabled w \<and> watch_key w = k)"

lemma find_upt_position:
  assumes "\<And>i. i < length xs \<Longrightarrow> P i = Q (xs ! i)"
  shows "find P [0..<length xs] = position Q xs"
proof (cases "position Q xs")
  case None
  then have "\<not> Q (xs ! i)" if "i < length xs" for i using that by (simp add: position_None)
  then show ?thesis using None assms by (simp add: find_None_iff)
next
  case (Some n)
  then have "n < length xs" "Q (xs ! n)" "\<forall>j<n. \<not> Q (xs ! j)" by (simp_all add: position_Some)
  then show ?thesis using Some assms by (auto simp: find_Some_iff intro!: exI [of _ n])
qed

lemma queued_at_pending:
  assumes "ring_ok q"
  shows "queued_at i f q = position (\<lambda>e. ready_key e = (i, f)) (pending q)"
  unfolding queued_at_def length_pending [symmetric]
  using ready_at [OF assms] by (intro find_upt_position) (simp add: length_pending ready_key_def)

lemma event_signal_spec:
  assumes "ring_ok q" and "event_signal i f data c q = (r, q')"
  shows "ring_ok q'" "eq_watches q' = eq_watches q"
    and "watched (i, f) q \<Longrightarrow> (r, pending q') = signal_spec (i, f) data c (eq_next_sequence q) (pending q)"
    and "\<not> watched (i, f) q \<Longrightarrow> r = Err WatchNotFound \<and> q' = q"
proof -
  have wf: "ring_wf MAX_READY_EVENTS (eq_ready q) (eq_ready_head q) (eq_ready_count q)" using assms(1) by (simp add: ring_ok_def)
  have watch: "list_ex (\<lambda>w. ew_enabled w \<and> same_event_key w i f) (flatten (eq_watches q)) = watched (i, f) q"
    by (auto simp: watched_def list_ex_iff same_event_key_def watch_key_def)
  have "ring_ok q' \<and> eq_watches q' = eq_watches q
      \<and> (watched (i, f) q \<longrightarrow> (r, pending q') = signal_spec (i, f) data c (eq_next_sequence q) (pending q))
      \<and> (\<not> watched (i, f) q \<longrightarrow> r = Err WatchNotFound \<and> q' = q)"
  proof (cases "watched (i, f) q")
    case False
    then show ?thesis using assms by (simp add: event_signal_def watch)
  next
    case True
    show ?thesis
    proof (cases "if c then queued_at i f q else None")
      case None
      then have n: "(if c then position (\<lambda>e. ready_key e = (i, f)) (pending q) else None) = None" by (simp only: queued_at_pending [OF assms(1)])
      have spec: "signal_spec (i, f) data c (eq_next_sequence q) (pending q) = (if eq_ready_count q = MAX_READY_EVENTS then (Err ReadyQueueFull, pending q)
          else (Ok Queued, pending q @ [\<lparr>re_identifier = i, re_filter = f, re_data = data, re_sequence = eq_next_sequence q\<rparr>]))"
        unfolding signal_spec_def n by (simp add: length_pending)
      show ?thesis
      proof (cases "eq_ready_count q = MAX_READY_EVENTS")
        case full: True
        then have "r = Err ReadyQueueFull" "q' = q\<lparr>eq_dropped := saturating_add (eq_dropped q) 1\<rparr>"
          using assms(2) True None by (simp_all add: event_signal_def watch)
        moreover have "pending q' = pending q" "ring_ok q'" using calculation(2) assms(1) by (simp_all add: pending_def ring_ok_def)
        ultimately show ?thesis using True full by (simp add: spec)
      next
        case room: False
        then have lt: "eq_ready_count q < MAX_READY_EVENTS" using wf by (simp add: ring_wf_def)
        let ?e = "\<lparr>re_identifier = i, re_filter = f, re_data = data, re_sequence = eq_next_sequence q\<rparr>"
        have q': "r = Ok Queued" "q' = q\<lparr>eq_ready := (eq_ready q)[(eq_ready_head q + eq_ready_count q) mod MAX_READY_EVENTS := Some ?e],
              eq_next_sequence := saturating_add (eq_next_sequence q) 1, eq_ready_count := eq_ready_count q + 1\<rparr>"
          using assms(2) True None room by (simp_all add: event_signal_def watch Let_def)
        have "pending q' = pending q @ [?e]" "ring_ok q'" using ring_push [OF wf lt, of ?e] by (simp_all add: q' pending_def ring_ok_def)
        then show ?thesis using True room q' by (simp add: spec)
      qed
    next
      case (Some n)
      then have n: "c" "position (\<lambda>e. ready_key e = (i, f)) (pending q) = Some n"
        using queued_at_pending [OF assms(1)] by (simp_all split: if_splits)
      then have lt: "n < eq_ready_count q" by (simp add: position_Some length_pending)
      let ?e = "(pending q ! n)\<lparr>re_data := (if f = FilterTimer then saturating_add (re_data (pending q ! n)) data else data)\<rparr>"
      have "queued_at i f q = Some n" using Some n(1) by simp
      then have "event_signal i f data c q = (Ok Coalesced, q\<lparr>eq_ready := (eq_ready q)[(eq_ready_head q + n) mod MAX_READY_EVENTS := Some ?e],
            eq_coalesced := saturating_add (eq_coalesced q) 1\<rparr>)"
        using True by (simp add: event_signal_def watch Let_def n(1) ready_at [OF assms(1) lt])
      then have q': "r = Ok Coalesced" "q' = q\<lparr>eq_ready := (eq_ready q)[(eq_ready_head q + n) mod MAX_READY_EVENTS := Some ?e],
            eq_coalesced := saturating_add (eq_coalesced q) 1\<rparr>" using assms(2) by simp_all
      have "pending q' = (pending q)[n := ?e]" "ring_ok q'" using ring_update [OF wf lt, of ?e] by (simp_all add: q' pending_def ring_ok_def)
      then show ?thesis using True q' by (simp add: signal_spec_def n)
    qed
  qed
  then show "ring_ok q'" "eq_watches q' = eq_watches q"
    "watched (i, f) q \<Longrightarrow> (r, pending q') = signal_spec (i, f) data c (eq_next_sequence q) (pending q)"
    "\<not> watched (i, f) q \<Longrightarrow> r = Err WatchNotFound \<and> q' = q" by simp_all
qed

lemma signal_spec_keys:
  assumes "signal_spec k data c n es = (r, es')"
  shows "ready_key ` set es' \<subseteq> insert k (ready_key ` set es)"
proof (cases "if c then position (\<lambda>e. ready_key e = k) es else None")
  case None
  then show ?thesis using assms by (auto simp: signal_spec_def ready_key_def split: if_splits)
next
  case (Some m)
  let ?e = "(es ! m)\<lparr>re_data := (if snd k = FilterTimer then saturating_add (re_data (es ! m)) data else data)\<rparr>"
  have m: "m < length es" "es' = es[m := ?e]" using Some assms by (auto simp: signal_spec_def position_Some split: if_splits)
  then have "ready_key ?e = ready_key (es ! m)" by (simp add: ready_key_def)
  then show ?thesis using m set_update_subset_insert [of es m ?e] by auto
qed

lemma event_signal_inv:
  assumes "queue_inv q" and "event_signal i f data c q = (r, q')"
  shows "queue_inv q'" "watch_keys q' = watch_keys q"
proof -
  have ok: "ring_ok q" using assms(1) by (simp add: queue_inv_def)
  note sp = event_signal_spec [OF ok assms(2)]
  show keys: "watch_keys q' = watch_keys q" using sp(2) by (simp add: watch_keys_def)
  have "ready_key ` set (pending q') \<subseteq> set (watch_keys q)"
  proof (cases "watched (i, f) q")
    case True
    then have "(i, f) \<in> set (watch_keys q)" unfolding watched_def watch_keys_def by (metis image_eqI set_map)
    moreover have "ready_key ` set (pending q') \<subseteq> insert (i, f) (ready_key ` set (pending q))"
      by (rule signal_spec_keys [OF sp(3) [OF True, symmetric]])
    ultimately show ?thesis using assms(1) by (auto simp: queue_inv_def)
  next
    case False
    then show ?thesis using sp(4) assms(1) by (simp add: queue_inv_def)
  qed
  then show "queue_inv q'" using assms(1) sp(1,2) keys by (simp add: queue_inv_def)
qed

section \<open>Watches, limits and tunables\<close>

lemma clear_first_watch_keys:
  assumes "distinct (map watch_key (flatten ws))" and "list_ex (\<lambda>w. same_event_key w i f) (flatten ws)"
  shows "set (map watch_key (flatten (clear_first (\<lambda>w. same_event_key w i f) ws))) = set (map watch_key (flatten ws)) - {(i, f)}"
    "distinct (map watch_key (flatten (clear_first (\<lambda>w. same_event_key w i f) ws)))"
    "Suc (length (flatten (clear_first (\<lambda>w. same_event_key w i f) ws))) = length (flatten ws)"
proof -
  have key: "same_event_key w i f \<longleftrightarrow> watch_key w = (i, f)" for w by (auto simp: same_event_key_def watch_key_def)
  have "set (map watch_key (flatten (clear_first (\<lambda>w. same_event_key w i f) ws))) = set (map watch_key (flatten ws)) - {(i, f)}
    \<and> distinct (map watch_key (flatten (clear_first (\<lambda>w. same_event_key w i f) ws)))
    \<and> Suc (length (flatten (clear_first (\<lambda>w. same_event_key w i f) ws))) = length (flatten ws)"
    using assms unfolding key
  proof (induction ws rule: flatten.induct)
    case (3 w ws)
    show ?case
    proof (cases "watch_key w = (i, f)")
      case True
      then have "(i, f) \<notin> set (map watch_key (flatten ws))" using 3(2) by auto
      then show ?thesis using True 3(2) by simp
    next
      case False
      then have ex: "list_ex (\<lambda>w. watch_key w = (i, f)) (flatten ws)" and d: "distinct (map watch_key (flatten ws))" using 3(2,3) by simp_all
      note IH = 3(1) [OF d ex]
      have "watch_key w \<notin> set (map watch_key (flatten ws))" using 3(2) by simp
      then have "watch_key w \<notin> set (map watch_key (flatten (clear_first (\<lambda>w. watch_key w = (i, f)) ws)))" using IH by blast
      then show ?thesis using False IH by auto
    qed
  qed simp_all
  then show "set (map watch_key (flatten (clear_first (\<lambda>w. same_event_key w i f) ws))) = set (map watch_key (flatten ws)) - {(i, f)}"
    "distinct (map watch_key (flatten (clear_first (\<lambda>w. same_event_key w i f) ws)))"
    "Suc (length (flatten (clear_first (\<lambda>w. same_event_key w i f) ws))) = length (flatten ws)" by simp_all
qed

lemma event_register_inv:
  assumes "queue_inv q" "event_register w q = Ok q'"
  shows "queue_inv q'" "set (watch_keys q') = insert (watch_key w) (set (watch_keys q))" "length (watch_keys q') = Suc (length (watch_keys q))"
    "pending q' = pending q"
proof -
  obtain ws where ws: "fill_slot w (eq_watches q) = Some ws" "q' = q\<lparr>eq_watches := ws\<rparr>"
      and new: "\<not> list_ex (\<lambda>current. same_event_key current (ew_identifier w) (ew_filter w)) (flatten (eq_watches q))"
    using assms(2) by (auto simp: event_register_def split: if_splits option.splits)
  have fresh: "watch_key w \<notin> set (watch_keys q)" using new by (auto simp: same_event_key_def watch_key_def watch_keys_def list_ex_iff)
  have m: "mset (watch_keys q') = add_mset (watch_key w) (mset (watch_keys q))"
    using fill_slot_mset [OF ws(1)] by (simp add: watch_keys_def ws(2))
  show k: "set (watch_keys q') = insert (watch_key w) (set (watch_keys q))" using arg_cong [OF m, of set_mset] by simp
  show len: "length (watch_keys q') = Suc (length (watch_keys q))" using arg_cong [OF m, of size] by simp
  have "distinct (watch_keys q')" using assms(1) fresh k len by (simp add: queue_inv_def card_distinct distinct_card)
  moreover show "pending q' = pending q" by (simp add: ws(2) pending_def)
  ultimately show "queue_inv q'" using assms(1) k fill_slot_length [OF ws(1)] by (auto simp: queue_inv_def ws(2) ring_ok_def)
qed

lemma event_unregister_inv:
  assumes "queue_inv q" "event_unregister i f q = Ok q'"
  shows "queue_inv q'" "set (watch_keys q') = set (watch_keys q) - {(i, f)}" "Suc (length (watch_keys q')) = length (watch_keys q)"
    "pending q' = filter (\<lambda>e. ready_key e \<noteq> (i, f)) (pending q)"
proof -
  let ?q = "q\<lparr>eq_watches := clear_first (\<lambda>w. same_event_key w i f) (eq_watches q)\<rparr>"
  have ex: "list_ex (\<lambda>w. same_event_key w i f) (flatten (eq_watches q))" and q': "q' = remove_ready i f ?q"
    using assms(2) by (auto simp: event_unregister_def split: if_splits)
  have ok: "ring_ok ?q" "pending ?q = pending q" using assms(1) by (simp_all add: queue_inv_def ring_ok_def pending_def)
  note rm = remove_ready_spec [OF ok(1), of i f]
  have d: "distinct (map watch_key (flatten (eq_watches q)))" using assms(1) by (simp add: queue_inv_def watch_keys_def)
  note cl = clear_first_watch_keys [OF d ex]
  show k: "set (watch_keys q') = set (watch_keys q) - {(i, f)}" "Suc (length (watch_keys q')) = length (watch_keys q)"
    using cl(1,3) by (simp_all add: watch_keys_def q' rm(3))
  show p: "pending q' = filter (\<lambda>e. ready_key e \<noteq> (i, f)) (pending q)" using rm(2) ok(2) by (simp add: q')
  show "queue_inv q'" using assms(1) k p rm(1,3) cl(2) by (auto simp: queue_inv_def q' watch_keys_def)
qed

section \<open>Timers\<close>

text \<open>The expirations that are reported and not yet polled.\<close>

definition expired :: "u32 \<times> event_filter \<Rightarrow> ready_event list \<Rightarrow> nat" where
  "expired k es = sum_list (map (\<lambda>e. unat (re_data e)) (filter (\<lambda>e. ready_key e = k) es))"

lemma expired_simps [simp]:
  "expired k [] = 0" "expired k (e # es) = (if ready_key e = k then unat (re_data e) else 0) + expired k es"
  "expired k (xs @ ys) = expired k xs + expired k ys"
  by (simp_all add: expired_def)

lemma expired_at:
  assumes "n < length es"
  shows "expired k es = expired k (take n es) + (if ready_key (es ! n) = k then unat (re_data (es ! n)) else 0) + expired k (drop (Suc n) es)"
    "expired k (es[n := e]) = expired k (take n es) + (if ready_key e = k then unat (re_data e) else 0) + expired k (drop (Suc n) es)"
proof -
  have "expired k (take n es @ es ! n # drop (Suc n) es)
      = expired k (take n es) + (if ready_key (es ! n) = k then unat (re_data (es ! n)) else 0) + expired k (drop (Suc n) es)" by simp
  then show "expired k es = expired k (take n es) + (if ready_key (es ! n) = k then unat (re_data (es ! n)) else 0) + expired k (drop (Suc n) es)"
    unfolding id_take_nth_drop [OF assms, symmetric] .
  show "expired k (es[n := e]) = expired k (take n es) + (if ready_key e = k then unat (re_data e) else 0) + expired k (drop (Suc n) es)"
    using assms by (simp add: upd_conv_take_nth_drop)
qed

lemma signal_spec_timer:
  assumes "signal_spec k data c s es = (r, es')" and "snd k = FilterTimer"
  shows "is_ok r \<Longrightarrow> expired k es + unat data < 2 ^ 64 \<Longrightarrow> expired k es' = expired k es + unat data"
    "\<not> is_ok r \<Longrightarrow> es' = es \<and> length es = MAX_READY_EVENTS"
    "k' \<noteq> k \<Longrightarrow> expired k' es' = expired k' es" "length es \<le> length es'"
proof -
  have "(is_ok r \<longrightarrow> expired k es + unat data < 2 ^ 64 \<longrightarrow> expired k es' = expired k es + unat data)
    \<and> (\<not> is_ok r \<longrightarrow> es' = es \<and> length es = MAX_READY_EVENTS) \<and> (k' \<noteq> k \<longrightarrow> expired k' es' = expired k' es) \<and> length es \<le> length es'"
  proof (cases "if c then position (\<lambda>e. ready_key e = k) es else None")
    case None
    then show ?thesis using assms(1) by (auto simp: signal_spec_def is_ok_def expired_def ready_key_def split: if_splits)
  next
    case (Some n)
    define e where "e = (es ! n)\<lparr>re_data := saturating_add (re_data (es ! n)) data\<rparr>"
    have n: "n < length es" "ready_key (es ! n) = k" using Some by (auto simp: position_Some split: if_splits)
    have es': "es' = es[n := e]" "is_ok r" using Some assms by (auto simp: signal_spec_def is_ok_def e_def split: if_splits)
    have e: "ready_key e = k" using n(2) by (simp add: e_def ready_key_def)
    have "expired k es' = expired k es + unat data" if "expired k es + unat data < 2 ^ 64"
    proof -
      have "unat (re_data e) = unat (re_data (es ! n)) + unat data" using that expired_at(1) [OF n(1), of k] n(2) by (simp add: e_def unat_saturating_add)
      then show ?thesis using expired_at [OF n(1), of k] n(2) e by (simp add: es')
    qed
    moreover have "k' \<noteq> k \<Longrightarrow> expired k' es' = expired k' es" using expired_at [OF n(1), of k'] n(2) e by (simp add: es')
    ultimately show ?thesis using es' by simp
  qed
  then show "is_ok r \<Longrightarrow> expired k es + unat data < 2 ^ 64 \<Longrightarrow> expired k es' = expired k es + unat data"
    "\<not> is_ok r \<Longrightarrow> es' = es \<and> length es = MAX_READY_EVENTS"
    "k' \<noteq> k \<Longrightarrow> expired k' es' = expired k' es" "length es \<le> length es'" by simp_all
qed

text \<open>The expirations of a due periodic timer are exact, and so is its next deadline.\<close>

lemma timer_expiry_exact:
  assumes "timer_due now w" "ew_interval w \<noteq> 0" "(unat now - unat (ew_deadline w)) div unat (ew_interval w) + 1 < 2 ^ 64"
    and "timer_expiry now w = (n, nd)"
  shows "unat n = (unat now - unat (ew_deadline w)) div unat (ew_interval w) + 1"
    and "case nd of None \<Rightarrow> 2 ^ 64 \<le> unat (ew_deadline w) + unat (ew_interval w) * unat n
      | Some d \<Rightarrow> unat d = unat (ew_deadline w) + unat (ew_interval w) * unat n \<and> now < d"
proof -
  let ?I = "unat (ew_interval w)" and ?D = "unat (ew_deadline w)"
  have D: "?D \<le> unat now" using assms(1) by (simp add: timer_due_def word_le_nat_alt)
  have I: "0 < ?I" using assms(2) by (simp add: unat_gt_0)
  have q: "unat (saturating_sub now (ew_deadline w) div ew_interval w) = (unat now - ?D) div ?I"
    using D by (simp add: unat_div saturating_sub_def word_le_nat_alt unat_sub)
  have add: "checked_add (saturating_sub now (ew_deadline w) div ew_interval w) 1 = Some (saturating_sub now (ew_deadline w) div ew_interval w + 1)"
    using assms(3) by (simp add: checked_add_def q)
  then show n: "unat n = (unat now - ?D) div ?I + 1"
    using assms(2,4) checked_add_unat [OF add] by (auto simp: timer_expiry_def Let_def q)
  have nd: "nd = (case checked_mul (ew_interval w) n of None \<Rightarrow> None | Some delta \<Rightarrow> checked_add (ew_deadline w) delta)"
    using assms(2,4) add by (auto simp: timer_expiry_def Let_def)
  have "unat now - ?D < ?I * unat n" using I n div_less_iff_less_mult [of ?I "unat now - ?D" "unat n"] by (simp add: mult.commute)
  then have late: "unat now < ?D + ?I * unat n" using D by simp
  show "case nd of None \<Rightarrow> 2 ^ 64 \<le> ?D + ?I * unat n | Some d \<Rightarrow> unat d = ?D + ?I * unat n \<and> now < d"
  proof (cases "?I * unat n < 2 ^ 64")
    case True
    then have m: "checked_mul (ew_interval w) n = Some (ew_interval w * n)" "unat (ew_interval w * n) = ?I * unat n"
      by (simp_all add: checked_mul_def unat_word_ariths)
    show ?thesis
    proof (cases "?D + ?I * unat n < 2 ^ 64")
      case True
      then have "nd = Some (ew_deadline w + ew_interval w * n)" "unat (ew_deadline w + ew_interval w * n) = ?D + ?I * unat n"
        using m by (simp_all add: nd checked_add_def unat_word_ariths)
      then show ?thesis using late by (simp add: word_less_nat_alt)
    next
      case False
      then show ?thesis using m by (simp add: nd checked_add_def)
    qed
  next
    case False
    then show ?thesis by (simp add: nd checked_mul_def)
  qed
qed

lemma distinct_slot_keys:
  assumes "distinct (map key (flatten xs))" "i < length xs" "j < length xs" "i \<noteq> j" "xs ! i = Some a" "xs ! j = Some b"
  shows "key a \<noteq> key b"
proof -
  have two: "key a \<noteq> key b" if "distinct (map key (flatten xs))" "i < j" "j < length xs" "xs ! i = Some a" "xs ! j = Some b" for i j a b
  proof -
    have "flatten xs = flatten (take j xs) @ b # flatten (drop (Suc j) xs)"
      using id_take_nth_drop [OF that(3)] that(5) flatten_append [of "take j xs" "Some b # drop (Suc j) xs"] by simp
    moreover have "i < length (take j xs)" "take j xs ! i = Some a" using that(2-4) by simp_all
    then have "Some a \<in> set (take j xs)" by (metis nth_mem)
    then have "key a \<in> key ` set (flatten (take j xs))" by (simp add: set_flatten)
    ultimately show ?thesis using that(1) by auto
  qed
  show ?thesis
  proof (cases "i < j")
    case True
    then show ?thesis using two assms by blast
  next
    case False
    then have "j < i" using assms(4) by simp
    then show ?thesis using two [of j i b a] assms by metis
  qed
qed

lemma rearm_key [simp]: "watch_key (rearm nd w) = watch_key w"
  by (simp add: rearm_def watch_key_def split: option.splits)

text \<open>One iteration of \<^verbatim>\<open>advance_timers\<close>: nothing, or one signal for the watch in its slot.\<close>

lemma advance_timer_cases:
  assumes "i < length (eq_watches q)"
  obtains (idle) "advance_timer now c i q = q" "\<And>w. eq_watches q ! i = Some w \<Longrightarrow> \<not> timer_due now w"
  | (fire) w n nd r q1 where "eq_watches q ! i = Some w" "timer_due now w" "timer_expiry now w = (n, nd)"
      "event_signal (ew_identifier w) FilterTimer n c q = (r, q1)" "watch_key w = (ew_identifier w, FilterTimer)" "watched (watch_key w) q"
      "advance_timer now c i q = (if is_ok r then q1\<lparr>eq_watches := (eq_watches q1)[i := Some (rearm nd w)]\<rparr> else q1)"
proof (cases "eq_watches q ! i")
  case None
  then show ?thesis by (intro idle) (simp_all add: advance_timer_def)
next
  case (Some w)
  show ?thesis
  proof (cases "timer_due now w")
    case False
    then show ?thesis using Some by (intro idle) (simp_all add: advance_timer_def)
  next
    case True
    obtain n nd where e: "timer_expiry now w = (n, nd)" by force
    obtain r q1 where sg: "event_signal (ew_identifier w) FilterTimer n c q = (r, q1)" by force
    have k: "watch_key w = (ew_identifier w, FilterTimer)" using True by (simp add: timer_due_def watch_key_def)
    have "Some w \<in> set (eq_watches q)" using assms Some by (metis nth_mem)
    then have "watched (watch_key w) q" using True by (auto simp: watched_def set_flatten timer_due_def)
    moreover have "advance_timer now c i q = (if is_ok r then q1\<lparr>eq_watches := (eq_watches q1)[i := Some (rearm nd w)]\<rparr> else q1)"
      using Some True e sg by (auto simp: advance_timer_def is_ok_def split: sum.splits)
    ultimately show ?thesis using fire Some True e sg k by blast
  qed
qed

lemma advance_timer_inv:
  assumes "queue_inv q" "i < MAX_WATCHES"
  shows "queue_inv (advance_timer now c i q) \<and> watch_keys (advance_timer now c i q) = watch_keys q"
proof -
  have i: "i < length (eq_watches q)" using assms by (simp add: queue_inv_def)
  show ?thesis
  proof (cases rule: advance_timer_cases [OF i, of now c, case_names idle fire])
    case idle
    then show ?thesis using assms(1) by simp
  next
    case (fire w n nd r q1)
    note sg = event_signal_inv [OF assms(1) fire(4)]
    have ws: "eq_watches q1 = eq_watches q" using event_signal_spec(2) [OF _ fire(4)] assms(1) by (simp add: queue_inv_def)
    let ?q = "q1\<lparr>eq_watches := (eq_watches q1)[i := Some (rearm nd w)]\<rparr>"
    have "map watch_key (flatten ((eq_watches q)[i := Some (rearm nd w)])) = map watch_key (flatten (eq_watches q))"
      by (rule map_key_replace [OF i fire(1)]) simp
    then have "watch_keys ?q = watch_keys q" by (simp add: watch_keys_def ws)
    moreover have "pending ?q = pending q1" "ring_ok ?q = ring_ok q1" by (simp_all add: pending_def ring_ok_def)
    ultimately have "queue_inv ?q" using sg by (simp add: queue_inv_def)
    then show ?thesis using sg fire(7) \<open>watch_keys ?q = watch_keys q\<close> by simp
  qed
qed

lemma advance_timer_other:
  assumes "queue_inv q" "i < MAX_WATCHES" "j < MAX_WATCHES" "i \<noteq> j" "eq_watches q ! j = Some w"
  shows "eq_watches (advance_timer now c i q) ! j = Some w \<and> expired (watch_key w) (pending (advance_timer now c i q)) = expired (watch_key w) (pending q)
    \<and> length (pending q) \<le> length (pending (advance_timer now c i q))"
proof -
  have ok: "ring_ok q" "length (eq_watches q) = MAX_WATCHES" "distinct (map watch_key (flatten (eq_watches q)))"
    using assms(1) by (simp_all add: queue_inv_def watch_keys_def)
  then have i: "i < length (eq_watches q)" "j < length (eq_watches q)" using assms(2,3) by simp_all
  show ?thesis
  proof (cases rule: advance_timer_cases [OF i(1), of now c, case_names idle fire])
    case idle
    then show ?thesis using assms(5) by simp
  next
    case (fire v n nd r q1)
    note sp = event_signal_spec [OF ok(1) fire(4)]
    have k: "watch_key w \<noteq> watch_key v" using distinct_slot_keys [OF ok(3) i(2,1) _ assms(5) fire(1)] assms(4) by simp
    have "(r, pending q1) = signal_spec (watch_key v) n c (eq_next_sequence q) (pending q)" using sp(3) fire(5,6) by simp
    note t = signal_spec_timer [OF this [symmetric]]
    have "pending (advance_timer now c i q) = pending q1" "eq_watches (advance_timer now c i q) ! j = Some w"
      using fire(7) sp(2) assms(4,5) by (simp_all add: pending_def)
    then show ?thesis using t(3,4) k fire(5) by simp
  qed
qed

lemma advance_others:
  fixes q :: event_queue and "is" :: "nat list" and now :: u64 and c :: bool
  assumes "queue_inv q" "set is \<subseteq> {..<MAX_WATCHES}" "j \<notin> set is" "j < MAX_WATCHES" "eq_watches q ! j = Some w"
  defines "q' \<equiv> fold (advance_timer now c) is q"
  shows "queue_inv q' \<and> watch_keys q' = watch_keys q \<and> eq_watches q' ! j = Some w
    \<and> expired (watch_key w) (pending q') = expired (watch_key w) (pending q) \<and> length (pending q) \<le> length (pending q')"
  unfolding q'_def using assms(1-3,5)
proof (induction "is" arbitrary: q)
  case (Cons i "is")
  have i: "i < MAX_WATCHES" "i \<noteq> j" using Cons.prems(2,3) by auto
  note one = advance_timer_inv [OF Cons.prems(1) i(1), of now c] advance_timer_other [OF Cons.prems(1) i(1) assms(4) i(2) Cons.prems(4), of now c]
  have "queue_inv (advance_timer now c i q)" "eq_watches (advance_timer now c i q) ! j = Some w" using one by simp_all
  from Cons.IH [OF this(1) _ _ this(2)] Cons.prems(2,3) one show ?case by simp
qed simp

section \<open>Limits\<close>

definition within :: "resource_limit \<Rightarrow> bool" where
  "within l \<longleftrightarrow> rl_used l \<le> rl_soft l \<and> rl_soft l \<le> rl_hard l \<and> rl_hard l \<le> rl_ceiling l"

definition budget_inv :: "control_budget \<Rightarrow> bool" where
  "budget_inv b \<longleftrightarrow> length (cb_limits b) = 5 \<and> (\<forall>r. within (limit_of r b) \<and> rl_ceiling (limit_of r b) = rl_ceiling (limit_of r control_budget_new))"

lemma resource_index_bound: "resource_index r < 5"
  by (cases r) simp_all

lemma resource_index_inject: "resource_index r = resource_index r' \<longleftrightarrow> r = r'"
  by (cases r; cases r') simp_all

lemma limit_of_put: "length (cb_limits b) = 5 \<Longrightarrow> limit_of r (put_limit r' l b) = (if r = r' then l else limit_of r b)"
  using resource_index_bound [of r'] by (simp add: limit_of_def put_limit_def nth_list_update resource_index_inject)

lemma length_put [simp]: "length (cb_limits (put_limit r l b)) = length (cb_limits b)"
  by (simp add: put_limit_def)

lemma limit_of_denials [simp]: "limit_of r (b\<lparr>cb_total_denials := n\<rparr>) = limit_of r b"
  by (simp add: limit_of_def)

lemma budget_inv_put:
  assumes "budget_inv b" "within l" "rl_ceiling l = rl_ceiling (limit_of r b)"
  shows "budget_inv (put_limit r l b)" "budget_inv ((put_limit r l b)\<lparr>cb_total_denials := n\<rparr>)"
  using assms by (auto simp: budget_inv_def limit_of_put)

lemma budget_charge_inv:
  assumes "budget_inv b" "budget_charge r amount b = (res, b')"
  shows "budget_inv b'" "unat (rl_used (limit_of r' b')) = unat (rl_used (limit_of r' b)) + (if r' = r \<and> is_ok res then unat amount else 0)"
proof -
  let ?l = "limit_of r b"
  have l: "within ?l" "length (cb_limits b) = 5" using assms(1) by (simp_all add: budget_inv_def)
  consider (ok) u where "checked_add (rl_used ?l) amount = Some u" "u \<le> rl_soft ?l" "res = Ok u" "b' = put_limit r (?l\<lparr>rl_used := u\<rparr>) b"
    | (deny) "\<not> is_ok res" "b' = (put_limit r (?l\<lparr>rl_denials := saturating_add (rl_denials ?l) 1\<rparr>) b)\<lparr>cb_total_denials := saturating_add (cb_total_denials b) 1\<rparr>"
    using assms(2) by (auto simp: budget_charge_def Let_def is_ok_def not_less split: option.splits if_splits)
  then have "budget_inv b' \<and> unat (rl_used (limit_of r' b')) = unat (rl_used (limit_of r' b)) + (if r' = r \<and> is_ok res then unat amount else 0)"
  proof cases
    case ok
    have "within (?l\<lparr>rl_used := u\<rparr>)" using l ok(2) by (simp add: within_def)
    then show ?thesis using budget_inv_put(1) [OF assms(1)] ok checked_add_unat [OF ok(1)] l(2) by (simp add: limit_of_put is_ok_def)
  next
    case deny
    have "within (?l\<lparr>rl_denials := saturating_add (rl_denials ?l) 1\<rparr>)" using l by (simp add: within_def)
    then show ?thesis using budget_inv_put(2) [OF assms(1)] deny l(2) by (simp add: limit_of_put)
  qed
  then show "budget_inv b'" "unat (rl_used (limit_of r' b')) = unat (rl_used (limit_of r' b)) + (if r' = r \<and> is_ok res then unat amount else 0)" by simp_all
qed

lemma budget_release_ok: "amount \<le> rl_used (limit_of r b) \<Longrightarrow> \<exists>u b'. budget_release r amount b = Ok (u, b')"
  by (auto simp: budget_release_def Let_def)

lemma budget_release_inv:
  assumes "budget_inv b" "budget_release r amount b = Ok (u, b')"
  shows "budget_inv b'" "unat (rl_used (limit_of r' b')) + (if r' = r then unat amount else 0) = unat (rl_used (limit_of r' b))"
proof -
  let ?l = "limit_of r b"
  have l: "within ?l" "length (cb_limits b) = 5" using assms(1) by (simp_all add: budget_inv_def)
  have a: "amount \<le> rl_used ?l" and b': "b' = put_limit r (?l\<lparr>rl_used := rl_used ?l - amount\<rparr>) b"
    using assms(2) by (auto simp: budget_release_def Let_def split: if_splits)
  have "rl_used ?l - amount \<le> rl_used ?l" using a by (simp add: word_sub_le)
  then have "within (?l\<lparr>rl_used := rl_used ?l - amount\<rparr>)" using l(1) by (auto simp: within_def)
  then show "budget_inv b'" using budget_inv_put(1) [OF assms(1)] by (simp add: b')
  show "unat (rl_used (limit_of r' b')) + (if r' = r then unat amount else 0) = unat (rl_used (limit_of r' b))"
    using a l(2) by (simp add: b' limit_of_put unat_sub word_le_nat_alt)
qed

lemma budget_set_inv:
  assumes "budget_inv b" "budget_set r soft hard b = Ok (l, b')"
  shows "budget_inv b'" "rl_used (limit_of r' b') = rl_used (limit_of r' b)"
proof -
  let ?l = "limit_of r b"
  have ok: "rl_used ?l \<le> soft" "soft \<le> hard" "hard \<le> rl_ceiling ?l" and b': "b' = put_limit r (?l\<lparr>rl_soft := soft, rl_hard := hard\<rparr>) b"
    using assms(2) by (auto simp: budget_set_def Let_def not_less split: if_splits)
  have "within (?l\<lparr>rl_soft := soft, rl_hard := hard\<rparr>)" using ok by (simp add: within_def)
  then show "budget_inv b'" using budget_inv_put(1) [OF assms(1)] by (simp add: b')
  show "rl_used (limit_of r' b') = rl_used (limit_of r' b)" using assms(1) by (simp add: b' limit_of_put budget_inv_def)
qed

section \<open>Tunables\<close>

text \<open>A node keeps its name, its access and its range; a read-only node that is no counter keeps its value; the others keep their type.\<close>

definition node_ok :: "nat \<Rightarrow> tunable_node \<Rightarrow> bool" where
  "node_ok i n \<longleftrightarrow> tn_name n = tn_name (tunables_new ! i) \<and> tn_access n = tn_access (tunables_new ! i)
     \<and> tn_minimum n = tn_minimum (tunables_new ! i) \<and> tn_maximum n = tn_maximum (tunables_new ! i)
     \<and> (i \<in> {0, 1, 8} \<longrightarrow> n = tunables_new ! i)
     \<and> (i = NODE_EVENT_BATCH \<longrightarrow> (\<exists>v. tn_value n = TunableUnsigned v \<and> 1 \<le> v \<and> v \<le> 16))
     \<and> (i \<in> {NODE_EVENT_COALESCE, NODE_EVENT_TRACE} \<longrightarrow> (\<exists>b. tn_value n = TunableBool b))"

definition tunables_ok :: "tunable_registry \<Rightarrow> bool" where
  "tunables_ok nodes \<longleftrightarrow> length nodes = MAX_TUNABLES \<and> (\<forall>i<MAX_TUNABLES. node_ok i (nodes ! i))"

lemmas node_defs = node_read_only_def node_unsigned_def node_boolean_def NODE_EVENT_BATCH_def NODE_EVENT_COALESCE_def NODE_EVENT_TRACE_def
  NODE_EVENT_DROPPED_def NODE_EVENT_COALESCED_def NODE_EXPBUDGET_DENIALS_def MAX_TUNABLES_def

lemma below_nine: "i < 9 \<longleftrightarrow> i \<in> {0, 1, 2, 3, 4, 5, 6, 7, 8 :: nat}"
  by auto

lemma tunables_ok_new: "tunables_ok tunables_new"
  by (auto simp: tunables_ok_def node_ok_def below_nine node_defs tunables_new_def)

lemma tunables_ok_update:
  "tunables_ok nodes \<Longrightarrow> node_ok i n \<Longrightarrow> tunables_ok (nodes[i := n])"
  by (cases "i < length nodes") (auto simp: tunables_ok_def nth_list_update list_update_beyond not_less)

lemma node_ok_access:
  assumes "node_ok i n" "i < 9" "tn_access n \<noteq> ReadOnly"
  shows "i \<in> {2, 3, 4}"
proof -
  have "tn_access (tunables_new ! i) \<noteq> ReadOnly" using assms(1,3) by (simp add: node_ok_def)
  then show ?thesis using assms(2) by (auto simp: below_nine tunables_new_def node_defs)
qed

lemma node_ok_bool:
  assumes "node_ok i n" "i < 9" "tn_access n \<noteq> ReadOnly" "tn_value n = TunableBool c"
  shows "node_ok i (n\<lparr>tn_value := TunableBool b\<rparr>)"
  using node_ok_access [OF assms(1-3)] assms(1,4) by (auto simp: node_ok_def node_defs)

lemma node_ok_unsigned:
  assumes "node_ok i n" "i < 9" "tn_access n \<noteq> ReadOnly" "tn_value n = TunableUnsigned c" "tn_minimum n \<le> v" "v \<le> tn_maximum n"
  shows "node_ok i (n\<lparr>tn_value := TunableUnsigned v\<rparr>)"
proof -
  have "i = 2" using node_ok_access [OF assms(1-3)] assms(1,4) by (auto simp: node_ok_def node_defs)
  then show ?thesis using assms(1,5,6) by (simp add: node_ok_def node_defs tunables_new_def)
qed

lemma set_text_ok:
  assumes "tunables_ok nodes" "set_text name raw nodes = (r, nodes')"
  shows "tunables_ok nodes'"
proof (cases "position (\<lambda>n. tn_name n = name) nodes")
  case None
  then show ?thesis using assms by (simp add: set_text_def)
next
  case (Some i)
  then have i: "i < 9" using assms(1) by (simp add: position_Some tunables_ok_def MAX_TUNABLES_def)
  have n: "node_ok i (nodes ! i)" using assms(1) i by (simp add: tunables_ok_def MAX_TUNABLES_def)
  show ?thesis
  proof (cases "tn_access (nodes ! i) = ReadOnly")
    case True
    then show ?thesis using assms Some by (simp add: set_text_def Let_def)
  next
    case rw: False
    show ?thesis
    proof (cases "tn_value (nodes ! i)")
      case (TunableBool c)
      show ?thesis
      proof (cases "parse_bool raw")
        case (Inl e)
        then show ?thesis using assms Some rw TunableBool by (simp add: set_text_def Let_def)
      next
        case (Inr b)
        then have "nodes' = nodes[i := (nodes ! i)\<lparr>tn_value := TunableBool b\<rparr>]"
          using assms(2) Some rw TunableBool by (simp add: set_text_def Let_def)
        then show ?thesis using tunables_ok_update [OF assms(1) node_ok_bool [OF n i rw TunableBool]] by simp
      qed
    next
      case (TunableUnsigned c)
      show ?thesis
      proof (cases "\<exists>v. parse_u64 raw = Some v \<and> tn_minimum (nodes ! i) \<le> v \<and> v \<le> tn_maximum (nodes ! i)")
        case True
        then obtain v where v: "parse_u64 raw = Some v" "tn_minimum (nodes ! i) \<le> v" "v \<le> tn_maximum (nodes ! i)" by blast
        then have "nodes' = nodes[i := (nodes ! i)\<lparr>tn_value := TunableUnsigned v\<rparr>]"
          using assms(2) Some rw TunableUnsigned by (auto simp: set_text_def Let_def split: if_splits)
        then show ?thesis using tunables_ok_update [OF assms(1) node_ok_unsigned [OF n i rw TunableUnsigned v(2,3)]] by simp
      next
        case False
        then have "nodes' = nodes" using assms(2) Some rw TunableUnsigned
          by (cases "parse_u64 raw") (auto simp: set_text_def Let_def not_less split: if_splits)
        then show ?thesis using assms(1) by simp
      qed
    next
      case (TunableText t)
      then show ?thesis using assms Some rw by (simp add: set_text_def Let_def)
    qed
  qed
qed

section \<open>The composition\<close>

definition controls_inv :: "kernel_controls \<Rightarrow> bool" where
  "controls_inv k \<longleftrightarrow> queue_inv (kc_events k) \<and> budget_inv (kc_resources k) \<and> tunables_ok (kc_tunables k)
     \<and> unat (rl_used (limit_of EventWatches (kc_resources k))) = length (watch_keys (kc_events k))"

inductive control_step :: "kernel_controls \<Rightarrow> kernel_controls \<Rightarrow> bool" where
  step_tunable: "set_tunable name v k = (tn, k') \<Longrightarrow> control_step k k'"
| step_register: "register_watch w k = (un, k') \<Longrightarrow> control_step k k'"
| step_unregister: "unregister_watch i f k = (un, k') \<Longrightarrow> control_step k k'"
| step_signal: "controls_signal i data k = (un, k') \<Longrightarrow> control_step k k'"
| step_poll: "controls_poll now n k = Some (es, k') \<Longrightarrow> control_step k k'"
| step_limit: "set_limit r soft hard k = Ok (l, k') \<Longrightarrow> control_step k k'"
| step_charge: "controls_charge r amount k = (u, k') \<Longrightarrow> control_step k k'"
| step_release: "controls_release r amount k = Ok (v, k') \<Longrightarrow> control_step k k'"
| step_operation: "charge_form_operation k = (u, k') \<Longrightarrow> control_step k k'"
| step_resize: "resize_form_content old new k = (u, k') \<Longrightarrow> control_step k k'"

lemma set_counter_ok:
  assumes "tunables_ok nodes" "i \<in> {5, 6, 7}"
  shows "tunables_ok (set_counter i v nodes)"
  unfolding set_counter_def using assms by (intro tunables_ok_update) (auto simp: tunables_ok_def node_ok_def node_defs)

lemma sync_counters_inv: "controls_inv k \<Longrightarrow> controls_inv (sync_counters k)"
  by (simp add: controls_inv_def sync_counters_def set_counter_ok node_defs)

lemma sync_counters_simps [simp]: "kc_events (sync_counters k) = kc_events k" "kc_resources (sync_counters k) = kc_resources k"
  by (simp_all add: sync_counters_def)

lemma charge_internal_inv:
  assumes "queue_inv (kc_events k)" "budget_inv (kc_resources k)" "tunables_ok (kc_tunables k)" "charge_internal r amount k = (res, k')"
  shows "queue_inv (kc_events k')" "budget_inv (kc_resources k')" "tunables_ok (kc_tunables k')" "watch_keys (kc_events k') = watch_keys (kc_events k)"
    "unat (rl_used (limit_of r' (kc_resources k'))) = unat (rl_used (limit_of r' (kc_resources k))) + (if r' = r \<and> is_ok res then unat amount else 0)"
proof -
  obtain c b where c: "budget_charge r amount (kc_resources k) = (c, b)" by force
  note bud = budget_charge_inv [OF assms(2) c]
  obtain e q where sg: "event_signal (of_nat (resource_index r)) FilterResource amount (tunable_boolean NODE_EVENT_COALESCE (kc_tunables k)) (kc_events k) = (e, q)" by force
  note ev = event_signal_inv [OF assms(1) sg]
  have k': "(is_ok c \<longrightarrow> k' = k\<lparr>kc_resources := b\<rparr>) \<and> (\<not> is_ok c \<longrightarrow> k' = sync_counters (k\<lparr>kc_resources := b, kc_events := q\<rparr>)) \<and> is_ok res = is_ok c"
    using assms(4) c sg by (auto simp: charge_internal_def Let_def is_ok_def split: sum.splits)
  show "queue_inv (kc_events k')" "budget_inv (kc_resources k')" "watch_keys (kc_events k') = watch_keys (kc_events k)"
    "unat (rl_used (limit_of r' (kc_resources k'))) = unat (rl_used (limit_of r' (kc_resources k))) + (if r' = r \<and> is_ok res then unat amount else 0)"
    using k' bud(1) bud(2) [of r'] ev assms(1) by (cases "is_ok c"; simp)+
  show "tunables_ok (kc_tunables k')" using k' assms(3) by (cases "is_ok c") (simp_all add: sync_counters_def set_counter_ok node_defs)
qed

lemma register_watch_inv:
  assumes "controls_inv k" "register_watch w k = (res, k')"
  shows "controls_inv k'"
proof -
  have k: "queue_inv (kc_events k)" "budget_inv (kc_resources k)" "tunables_ok (kc_tunables k)"
      "unat (rl_used (limit_of EventWatches (kc_resources k))) = length (watch_keys (kc_events k))" using assms(1) by (simp_all add: controls_inv_def)
  obtain c k1 where c: "charge_internal EventWatches 1 k = (c, k1)" by force
  note ci = charge_internal_inv [OF k(1-3) c]
  show ?thesis
  proof (cases c)
    case (Inl e)
    then show ?thesis using assms(2) c ci k(4) by (auto simp: register_watch_def controls_inv_def is_ok_def)
  next
    case (Inr u)
    then have used: "unat (rl_used (limit_of EventWatches (kc_resources k1))) = Suc (length (watch_keys (kc_events k)))"
      using ci(5) [of EventWatches] k(4) by (simp add: is_ok_def)
    show ?thesis
    proof (cases "event_register w (kc_events k1)")
      case err: (Inl e)
      have "1 \<le> rl_used (limit_of EventWatches (kc_resources k1))" using used by (simp add: word_le_nat_alt)
      then obtain v b where b: "budget_release EventWatches 1 (kc_resources k1) = Ok (v, b)" using budget_release_ok by blast
      note rel = budget_release_inv [OF ci(2) b]
      have "k' = k1\<lparr>kc_resources := b\<rparr>" using assms(2) c Inr err b by (simp add: register_watch_def)
      then show ?thesis using rel(1) rel(2) [of EventWatches] used ci by (simp add: controls_inv_def)
    next
      case (Inr q)
      note reg = event_register_inv [OF ci(1) Inr]
      have "k' = k1\<lparr>kc_events := q\<rparr>" using assms(2) c \<open>c = Inr u\<close> Inr by (simp add: register_watch_def)
      then show ?thesis using reg used ci by (simp add: controls_inv_def)
    qed
  qed
qed

lemma unregister_watch_inv:
  assumes "controls_inv k" "unregister_watch i f k = (res, k')"
  shows "controls_inv k'"
proof (cases "event_unregister i f (kc_events k)")
  case (Inl e)
  then show ?thesis using assms by (simp add: unregister_watch_def)
next
  case (Inr q)
  have k: "queue_inv (kc_events k)" "budget_inv (kc_resources k)" "tunables_ok (kc_tunables k)"
      "unat (rl_used (limit_of EventWatches (kc_resources k))) = length (watch_keys (kc_events k))" using assms(1) by (simp_all add: controls_inv_def)
  note un = event_unregister_inv [OF k(1) Inr]
  have used: "unat (rl_used (limit_of EventWatches (kc_resources k))) = Suc (length (watch_keys q))" using k(4) un(3) by simp
  then have "1 \<le> rl_used (limit_of EventWatches (kc_resources k))" by (simp add: word_le_nat_alt)
  then obtain v b where b: "budget_release EventWatches 1 (kc_resources k) = Ok (v, b)" using budget_release_ok by blast
  note rel = budget_release_inv [OF k(2) b]
  have "k' = k\<lparr>kc_events := q, kc_resources := b\<rparr>" using assms(2) Inr b by (simp add: unregister_watch_def)
  then show ?thesis using rel(1) rel(2) [of EventWatches] used un(1) k(3) by (simp add: controls_inv_def)
qed

lemma advance_timers_inv: "queue_inv q \<Longrightarrow> queue_inv (advance_timers now c q) \<and> watch_keys (advance_timers now c q) = watch_keys q"
proof -
  have "queue_inv (fold (advance_timer now c) is q) \<and> watch_keys (fold (advance_timer now c) is q) = watch_keys q"
    if "queue_inv q" "set is \<subseteq> {..<MAX_WATCHES}" for "is" q
    using that
  proof (induction "is" arbitrary: q)
    case (Cons i "is")
    then show ?case using advance_timer_inv [of q i now c] by simp
  qed simp
  then show "queue_inv q \<Longrightarrow> queue_inv (advance_timers now c q) \<and> watch_keys (advance_timers now c q) = watch_keys q"
    by (simp add: advance_timers_def lessThan_atLeast0)
qed

lemma controls_poll_spec:
  assumes "controls_inv k"
    and q_def: "q = advance_timers now (tunable_boolean NODE_EVENT_COALESCE (kc_tunables k)) (kc_events k)"
    and amount_def: "amount = min (min n (unat (tunable_unsigned NODE_EVENT_BATCH (kc_tunables k)))) (length (pending q))"
  shows "\<exists>k'. controls_poll now n k = Some (take amount (pending q), k') \<and> pending (kc_events k') = drop amount (pending q) \<and> controls_inv k'"
proof -
  have adv: "queue_inv q" "watch_keys q = watch_keys (kc_events k)" using advance_timers_inv assms(1) by (simp_all add: controls_inv_def q_def)
  have "amount \<le> eq_ready_count q" "ring_ok q" using adv(1) by (simp_all add: amount_def length_pending queue_inv_def)
  from take_ready_spec [OF this(2,1)] obtain q1 where t: "take_ready amount q = Some (take amount (pending q), q1)" "ring_ok q1"
    "pending q1 = drop amount (pending q)" "eq_watches q1 = eq_watches q" by blast
  let ?q = "q1\<lparr>eq_delivered := saturating_add (eq_delivered q1) (of_nat amount)\<rparr>"
  have poll: "controls_poll now n k = Some (take amount (pending q), sync_counters (k\<lparr>kc_events := ?q\<rparr>))"
    using t(1) by (simp add: controls_poll_def event_poll_def Let_def q_def [symmetric] length_pending [symmetric] amount_def [symmetric])
  have p: "pending ?q = drop amount (pending q)" using t(3) by (simp add: pending_def)
  have "set (pending ?q) \<subseteq> set (pending q)" unfolding p by (rule set_drop_subset)
  then have "queue_inv ?q" "watch_keys ?q = watch_keys q" using adv(1) t(2,4) by (auto simp: queue_inv_def ring_ok_def watch_keys_def)
  then have "controls_inv (sync_counters (k\<lparr>kc_events := ?q\<rparr>))" using assms(1) adv(2) by (intro sync_counters_inv) (simp add: controls_inv_def)
  then show ?thesis using poll p by simp
qed

lemma charge_controls_inv:
  assumes "controls_inv k" "charge_internal r amount k = (u, k')" "r \<noteq> EventWatches"
  shows "controls_inv k'"
  using charge_internal_inv [OF _ _ _ assms(2)] assms(1,3) by (simp add: controls_inv_def)

lemma release_controls_inv:
  assumes "controls_inv k" "budget_release r amount (kc_resources k) = Ok (v, b)" "r \<noteq> EventWatches"
  shows "controls_inv (k\<lparr>kc_resources := b\<rparr>)"
proof -
  have "budget_inv (kc_resources k)" using assms(1) by (simp add: controls_inv_def)
  from budget_release_inv [OF this assms(2)] show ?thesis using assms(1,3) by (simp add: controls_inv_def) (metis add.right_neutral)
qed

lemma control_step_inv:
  assumes "control_step k k'" "controls_inv k"
  shows "controls_inv k'"
  using assms(1)
proof cases
  case (step_tunable name v tn)
  then show ?thesis using assms(2) set_text_ok by (auto simp: set_tunable_def controls_inv_def split: prod.splits)
next
  case step_register
  then show ?thesis using register_watch_inv assms(2) by blast
next
  case step_unregister
  then show ?thesis using unregister_watch_inv assms(2) by blast
next
  case (step_signal i data un)
  obtain r q where sg: "event_signal i FilterSignal data (tunable_boolean NODE_EVENT_COALESCE (kc_tunables k)) (kc_events k) = (r, q)" by force
  have k': "k' = sync_counters (k\<lparr>kc_events := q\<rparr>)" using step_signal sg by (simp add: controls_signal_def)
  show ?thesis unfolding k' using event_signal_inv [OF _ sg] assms(2) by (intro sync_counters_inv) (simp add: controls_inv_def)
next
  case (step_poll now n es)
  then show ?thesis using controls_poll_spec [OF assms(2) refl refl, of now n] by auto
next
  case (step_limit r soft hard l)
  then show ?thesis using assms(2) budget_set_inv by (auto simp: set_limit_def controls_inv_def split: sum.splits)
next
  case (step_charge r amount u)
  show ?thesis
  proof (cases "managed r")
    case False
    then have "charge_internal r amount k = (u, k')" using step_charge by (simp add: controls_charge_def)
    then show ?thesis using charge_controls_inv [OF assms(2)] False by (auto simp: managed_def)
  qed (use step_charge assms(2) in \<open>simp add: controls_charge_def\<close>)
next
  case (step_release r amount v)
  then obtain b where "\<not> managed r" "budget_release r amount (kc_resources k) = Ok (v, b)" "k' = k\<lparr>kc_resources := b\<rparr>"
    by (auto simp: controls_release_def split: if_splits sum.splits)
  then show ?thesis using release_controls_inv [OF assms(2)] by (auto simp: managed_def)
next
  case (step_operation u)
  then have "charge_internal FormOperations 1 k = (u, k')" by (simp add: charge_form_operation_def)
  then show ?thesis using charge_controls_inv [OF assms(2)] by simp
next
  case (step_resize old new u)
  show ?thesis
  proof (cases "old \<le> new")
    case True
    then have "charge_internal FormBytes (of_nat (new - old)) k = (u, k')" using step_resize by (simp add: resize_form_content_def)
    then show ?thesis using charge_controls_inv [OF assms(2)] by simp
  next
    case False
    then consider "k' = k" | v b where "budget_release FormBytes (of_nat (old - new)) (kc_resources k) = Ok (v, b)" "k' = k\<lparr>kc_resources := b\<rparr>"
      using step_resize by (auto simp: resize_form_content_def split: sum.splits)
    then show ?thesis
    proof cases
      case (2 v b)
      then show ?thesis using release_controls_inv [OF assms(2) 2(1)] by simp
    qed (simp add: assms(2))
  qed
qed

lemma controls_inv_new: "controls_inv controls_new"
proof -
  have "ring_ok event_queue_new" by (simp add: ring_ok_def event_queue_new_def ring_wf_empty MAX_READY_EVENTS_def)
  then have "queue_inv event_queue_new" by (simp add: queue_inv_def event_queue_new_def watch_keys_def pending_def)
  moreover have "within (limit_of r control_budget_new)" for r
    by (cases r) (simp_all add: within_def limit_of_def control_budget_new_def limit_new_def MAX_WATCHES_def)
  then have "budget_inv control_budget_new" by (simp add: budget_inv_def control_budget_new_def)
  ultimately show ?thesis using tunables_ok_new
    by (simp add: controls_inv_def controls_new_def limit_of_def control_budget_new_def limit_new_def watch_keys_def event_queue_new_def)
qed

text \<open>Controls with one watched signal, and with one periodic timer.\<close>

definition demo_controls :: kernel_controls where
  "demo_controls = snd (register_watch (watch_signal 7) controls_new)"

definition demo_timer :: event_watch where
  "demo_timer = watch_timer 5 10 3"

definition demo_timers :: kernel_controls where
  "demo_timers = snd (register_watch demo_timer controls_new)"

lemma demo_controls_reachable: "control_step\<^sup>*\<^sup>* controls_new demo_controls" "controls_inv demo_controls" "controls_inv demo_timers"
proof -
  have "control_step controls_new (snd (register_watch w controls_new))" for w
    by (rule step_register [of w controls_new "fst (register_watch w controls_new)"]) simp
  then have step: "control_step controls_new demo_controls" "control_step controls_new demo_timers"
    by (simp_all add: demo_controls_def demo_timers_def)
  show "control_step\<^sup>*\<^sup>* controls_new demo_controls" "controls_inv demo_controls" "controls_inv demo_timers"
    using step control_step_inv controls_inv_new by blast+
qed

text \<open>C19: Whatever requests reach the kernel controls, the watches have distinct keys and are exactly what their resource account says,
  every account is within its soft, hard and ceiling limits, every pending event has a registered watch, the operator switch
  for capability enforcement cannot be turned off, and a poll never panics and returns at most sixteen events.\<close>

theorem controls_consistent:
  assumes "control_step\<^sup>*\<^sup>* controls_new k"
  shows "distinct (watch_keys (kc_events k)) \<and> unat (rl_used (limit_of EventWatches (kc_resources k))) = length (watch_keys (kc_events k))
    \<and> (\<forall>r. within (limit_of r (kc_resources k))) \<and> ready_key ` set (pending (kc_events k)) \<subseteq> set (watch_keys (kc_events k))
    \<and> kc_tunables k ! 1 = tunables_new ! 1 \<and> (\<exists>es k'. controls_poll now n k = Some (es, k') \<and> length es \<le> min n 16)"
proof -
  have inv: "controls_inv k" using assms by (induction rule: rtranclp_induct) (auto intro: controls_inv_new control_step_inv)
  have ok: "node_ok i (kc_tunables k ! i)" if "i < 9" for i using inv that by (simp add: controls_inv_def tunables_ok_def MAX_TUNABLES_def)
  then have "kc_tunables k ! 1 = tunables_new ! 1" using ok [of 1] by (simp add: node_ok_def)
  moreover obtain v where "tn_value (kc_tunables k ! 2) = TunableUnsigned v" "v \<le> 16" using ok [of 2] by (auto simp: node_ok_def node_defs)
  then have "unat (tunable_unsigned NODE_EVENT_BATCH (kc_tunables k)) \<le> 16" by (simp add: tunable_unsigned_def node_defs word_le_nat_alt)
  then have "\<exists>es k'. controls_poll now n k = Some (es, k') \<and> length es \<le> min n 16" using controls_poll_spec [OF inv refl refl, of now n] by auto
  ultimately show ?thesis using inv by (simp add: controls_inv_def queue_inv_def budget_inv_def)
qed

theorem controls_consistent_witness:
  "control_step\<^sup>*\<^sup>* controls_new demo_controls \<and> watch_keys (kc_events demo_controls) = [(7, FilterSignal)]
    \<and> rl_used (limit_of EventWatches (kc_resources demo_controls)) = 1 \<and> (\<exists>es k'. controls_poll 0 4 demo_controls = Some (es, k') \<and> length es \<le> 4)"
proof -
  have w: "watch_keys (kc_events demo_controls) = [(7, FilterSignal)]" by code_simp
  have c: "unat (rl_used (limit_of EventWatches (kc_resources demo_controls))) = 1" "\<exists>es k'. controls_poll 0 4 demo_controls = Some (es, k') \<and> length es \<le> 4"
    using controls_consistent [OF demo_controls_reachable(1), of 0 4] w by auto
  have "rl_used (limit_of EventWatches (kc_resources demo_controls)) = 1" using c(1) by (metis unat_1 word_unat_eq_iff)
  then show ?thesis using demo_controls_reachable(1) w c(2) by blast
qed

text \<open>C20: The ready ring refines a list of at most sixteen pending events: a signal to a watched key merges with the first pending event of its
  key or goes to the end, a poll takes the oldest events in order, and unregistering removes exactly the events of that key.\<close>

theorem events_refine_list:
  assumes "controls_inv k"
  shows "(watched (i, f) (kc_events k) \<longrightarrow>
      (fst (event_signal i f data c (kc_events k)), pending (snd (event_signal i f data c (kc_events k))))
        = signal_spec (i, f) data c (eq_next_sequence (kc_events k)) (pending (kc_events k)))
    \<and> (\<exists>q'. event_poll n batch (kc_events k) = Some (take (min n batch) (pending (kc_events k)), q')
        \<and> pending q' = drop (min n batch) (pending (kc_events k)))
    \<and> (\<forall>q'. event_unregister i f (kc_events k) = Ok q' \<longrightarrow> pending q' = filter (\<lambda>e. ready_key e \<noteq> (i, f)) (pending (kc_events k)))"
proof -
  let ?q = "kc_events k"
  have inv: "queue_inv ?q" "ring_ok ?q" using assms by (simp_all add: controls_inv_def queue_inv_def)
  have "(fst (event_signal i f data c ?q), pending (snd (event_signal i f data c ?q))) = signal_spec (i, f) data c (eq_next_sequence ?q) (pending ?q)"
    if "watched (i, f) ?q"
    using event_signal_spec(3) [OF inv(2) prod.collapse [symmetric] that] .
  moreover have "pending q' = filter (\<lambda>e. ready_key e \<noteq> (i, f)) (pending ?q)" if "event_unregister i f ?q = Ok q'" for q'
    using event_unregister_inv(4) [OF inv(1) that] .
  moreover have "\<exists>q'. event_poll n batch ?q = Some (take (min n batch) (pending ?q), q') \<and> pending q' = drop (min n batch) (pending ?q)"
  proof -
    define a where "a = min (min n batch) (eq_ready_count ?q)"
    have same: "take a (pending ?q) = take (min n batch) (pending ?q)" "drop a (pending ?q) = drop (min n batch) (pending ?q)"
      unfolding a_def length_pending [symmetric] by (auto simp: min_def)
    have "a \<le> eq_ready_count ?q" by (simp add: a_def)
    from take_ready_spec [OF inv(2) this] obtain q1 where "take_ready a ?q = Some (take a (pending ?q), q1)" "pending q1 = drop a (pending ?q)" by blast
    then show ?thesis unfolding same by (simp add: event_poll_def a_def [symmetric] pending_def)
  qed
  ultimately show ?thesis by blast
qed

theorem events_refine_list_witness:
  "controls_inv demo_controls \<and> watched (7, FilterSignal) (kc_events demo_controls)
    \<and> pending (snd (event_signal 7 FilterSignal 42 True (kc_events demo_controls)))
      = [\<lparr>re_identifier = 7, re_filter = FilterSignal, re_data = 42, re_sequence = 1\<rparr>]"
proof -
  have w: "watched (7, FilterSignal) (kc_events demo_controls)" by code_simp
  have s: "signal_spec (7, FilterSignal) 42 True (eq_next_sequence (kc_events demo_controls)) (pending (kc_events demo_controls))
      = (Ok Queued, [\<lparr>re_identifier = 7, re_filter = FilterSignal, re_data = 42, re_sequence = 1\<rparr>])" by code_simp
  show ?thesis using events_refine_list [OF demo_controls_reachable(2), of 7 FilterSignal 42 True 0 0] w s demo_controls_reachable(2) by simp
qed

text \<open>C21: No expiration of a periodic timer is lost, as long as the count of its expirations stays below \<open>2 ^ 64\<close>: whatever else is queued,
  advancing the timers leaves the sum of the deadline and of the expirations still to be polled, in intervals, on the same grid.
  Either the deadline is after the present time, or the queue is full and the timer is left as it was, to be reported later.
  A timer that was disarmed, because its next deadline would not fit in 64 bits, has reported at least every expiration up to the
  end of the clock.\<close>

theorem timer_ledger:
  assumes "queue_inv q" and "j < MAX_WATCHES" and "eq_watches q ! j = Some w" and "ew_enabled w" "ew_filter w = FilterTimer" "ew_interval w \<noteq> 0"
    and "expired (watch_key w) (pending q) + (unat now - unat (ew_deadline w)) div unat (ew_interval w) + 1 < 2 ^ 64"
    and "q' = advance_timers now coalesce q"
  shows "\<exists>w'. eq_watches q' ! j = Some w' \<and> watch_key w' = watch_key w \<and> ew_interval w' = ew_interval w
    \<and> (if ew_enabled w'
       then unat (ew_deadline w') + unat (ew_interval w) * expired (watch_key w) (pending q)
            = unat (ew_deadline w) + unat (ew_interval w) * expired (watch_key w) (pending q')
          \<and> (now < ew_deadline w' \<or> w' = w \<and> length (pending q') = MAX_READY_EVENTS)
       else 2 ^ 64 + unat (ew_interval w) * expired (watch_key w) (pending q)
            \<le> unat (ew_deadline w) + unat (ew_interval w) * expired (watch_key w) (pending q'))"
proof -
  let ?k = "watch_key w"
  define q1 where "q1 = fold (advance_timer now coalesce) [0..<j] q"
  define q2 where "q2 = advance_timer now coalesce j q1"
  have "[0..<MAX_WATCHES] = [0..<j] @ j # [Suc j..<MAX_WATCHES]" using assms(2) upt_conv_Cons upt_add_eq_append [of 0 j "MAX_WATCHES - j"] by simp
  then have q': "q' = fold (advance_timer now coalesce) [Suc j..<MAX_WATCHES] q2" by (simp add: assms(8) advance_timers_def q1_def q2_def)
  have "set [0..<j] \<subseteq> {..<MAX_WATCHES}" "j \<notin> set [0..<j]" using assms(2) by auto
  from advance_others [OF assms(1) this assms(2,3), of now coalesce]
  have q1: "queue_inv q1" "eq_watches q1 ! j = Some w" "expired ?k (pending q1) = expired ?k (pending q)" by (simp_all add: q1_def)
  have inv2: "queue_inv q2" using advance_timer_inv [OF q1(1) assms(2)] by (simp add: q2_def)
  have up: "set [Suc j..<MAX_WATCHES] \<subseteq> {..<MAX_WATCHES}" "j \<notin> set [Suc j..<MAX_WATCHES]" by auto
  have last: "queue_inv q'" "eq_watches q' ! j = Some v" "expired (watch_key v) (pending q') = expired (watch_key v) (pending q2)"
      "length (pending q2) \<le> length (pending q')" if "eq_watches q2 ! j = Some v" for v
    using advance_others [OF inv2 up assms(2) that, of now coalesce] by (simp_all add: q')
  have j: "j < length (eq_watches q1)" "ring_ok q1" using q1(1) assms(2) by (simp_all add: queue_inv_def)
  show ?thesis
  proof (cases rule: advance_timer_cases [OF j(1), of now coalesce, case_names idle fire])
    case idle
    then have q2: "q2 = q1" "now < ew_deadline w" using q1(2) assms(4,5) by (auto simp: q2_def timer_due_def)
    then show ?thesis using last [of w] q1 assms(4) by (intro exI [of _ w]) simp
  next
    case (fire v n nd r qs)
    have v: "v = w" using fire(1) q1(2) by simp
    note fire = fire [unfolded v]
    note sp = event_signal_spec [OF j(2) fire(4)]
    have sg: "signal_spec ?k n coalesce (eq_next_sequence q1) (pending q1) = (r, pending qs)" using sp(3) fire(5,6) by simp
    have small: "(unat now - unat (ew_deadline w)) div unat (ew_interval w) + 1 < 2 ^ 64" using assms(7) by simp
    note ex = timer_expiry_exact [OF fire(2) assms(6) small fire(3)]
    have k: "snd ?k = FilterTimer" using fire(5) by simp
    note t = signal_spec_timer [OF sg k]
    show ?thesis
    proof (cases "is_ok r")
      case True
      have pend: "pending q2 = pending qs" using fire(7) True by (simp add: q2_def pending_def)
      have w2: "eq_watches q2 ! j = Some (rearm nd w)" using fire(7) True sp(2) j(1) by (simp add: q2_def)
      have e: "expired ?k (pending q') = expired ?k (pending q) + unat n"
        using last(3) [OF w2] t(1) True assms(7) ex(1) q1(3) by (simp add: pend)
      show ?thesis using last(2) [OF w2] e ex(2) assms(4)
        by (intro exI [of _ "rearm nd w"]) (auto simp: rearm_def watch_key_def algebra_simps split: option.splits)
    next
      case False
      have w2: "eq_watches q2 ! j = Some w" "pending q2 = pending q1" "length (pending q1) = MAX_READY_EVENTS"
        using fire(7) False sp(2) q1(2) t(2) by (simp_all add: q2_def)
      have "length (pending q') \<le> MAX_READY_EVENTS"
        using last(1) [OF w2(1)] by (simp add: queue_inv_def ring_ok_def ring_wf_def length_pending)
      then have "length (pending q') = MAX_READY_EVENTS" using last(4) [OF w2(1)] w2(2,3) by simp
      then show ?thesis using last(2,3) [OF w2(1)] w2(2) q1(3) assms(4) by (intro exI [of _ w]) simp
    qed
  qed
qed

theorem timer_ledger_witness:
  "\<exists>w'. eq_watches (advance_timers 20 True (kc_events demo_timers)) ! 0 = Some w' \<and> ew_deadline w' = 22
    \<and> 22 = 10 + 3 * expired (5, FilterTimer) (pending (advance_timers 20 True (kc_events demo_timers)))"
proof -
  have inv: "queue_inv (kc_events demo_timers)" using demo_controls_reachable(3) by (simp add: controls_inv_def)
  have w: "eq_watches (kc_events demo_timers) ! 0 = Some demo_timer" by code_simp
  have e: "expired (watch_key demo_timer) (pending (kc_events demo_timers)) = 0" by code_simp
  have t: "ew_enabled demo_timer" "ew_filter demo_timer = FilterTimer" "ew_interval demo_timer \<noteq> 0" "unat (ew_deadline demo_timer) = 10"
      "unat (ew_interval demo_timer) = 3" "watch_key demo_timer = (5, FilterTimer)" by (simp_all add: demo_timer_def watch_timer_def watch_key_def)
  have d: "map_option (\<lambda>w. (ew_enabled w, ew_deadline w)) (eq_watches (advance_timers 20 True (kc_events demo_timers)) ! 0) = Some (True, 22)" by code_simp
  have "expired (watch_key demo_timer) (pending (kc_events demo_timers)) + (unat (20 :: u64) - unat (ew_deadline demo_timer)) div unat (ew_interval demo_timer) + 1 < 2 ^ 64"
    by (simp add: e [unfolded t(6)] t)
  from timer_ledger [OF inv _ w t(1-3) this refl, of True] d show ?thesis by (auto simp: e [unfolded t(6)] t MAX_WATCHES_def)
qed

end
