(* ===== verification/Paging.thy ===== *)
theory Paging
  imports Prelude
begin

text \<open>
  Permissions of the supervisor identity map (\<^verbatim>\<open>kernel/src/paging.rs\<close>). Physical memory is a function from the addresses of
  8-byte cells to their contents, as the volatile reads and writes of the source see it. The tables the bootstrap code built are
  reached from the root register as in the source; the addresses of the two static table pools and of the kernel sections are
  arguments, because the linker chooses them. The flushes of the translation cache and the log line are left out. A failed
  assertion is the result \<open>None\<close>.
\<close>

unbundle bit_operations_syntax

section \<open>Model\<close>

type_synonym memory = "u64 \<Rightarrow> u64"

definition PAGE :: u64 where "PAGE = 4096"

definition HUGE :: u64 where "HUGE = 2 * 1024 * 1024"

definition PRESENT :: u64 where "PRESENT = 1"

definition WRITE :: u64 where "WRITE = 2"

definition LARGE :: u64 where "LARGE = push_bit 7 1"

definition NX :: u64 where "NX = push_bit 63 1"

definition ADDRESS :: u64 where "ADDRESS = 0x000FFFFFFFFFF000"

definition SPLIT_CAPACITY :: nat where "SPLIT_CAPACITY = 64"

definition DYNAMIC_SPLIT_CAPACITY :: nat where "DYNAMIC_SPLIT_CAPACITY = 64"

record kernel_layout =
  text_start :: u64
  text_end :: u64
  rodata_start :: u64
  rodata_end :: u64

definition layout_flags :: "kernel_layout \<Rightarrow> u64 \<Rightarrow> u64 \<Rightarrow> u64" where
  "layout_flags l address nx =
     (if address = 0 then 0
      else if text_start l \<le> address \<and> address < text_end l then PRESENT
      else if rodata_start l \<le> address \<and> address < rodata_end l then PRESENT OR nx
      else PRESENT OR WRITE OR nx)"

definition layout_split :: "kernel_layout \<Rightarrow> u64 \<Rightarrow> bool" where
  "layout_split l base \<longleftrightarrow> base = 0 \<or> (base < text_end l \<and> base + HUGE > text_start l) \<or> (base < rodata_end l \<and> base + HUGE > rodata_start l)"

text \<open>The address of entry \<open>i\<close> of the table at \<open>p\<close>, and \<^verbatim>\<open>nx_page_flag\<close> of \<^verbatim>\<open>security.rs\<close>.\<close>

definition cell :: "u64 \<Rightarrow> nat \<Rightarrow> u64" where
  "cell p i = p + 8 * of_nat i"

definition nx_page_flag :: "bool \<Rightarrow> u64" where
  "nx_page_flag nx_active = (if nx_active then push_bit 63 1 else 0)"

definition fill_table :: "u64 \<Rightarrow> (nat \<Rightarrow> u64) \<Rightarrow> memory \<Rightarrow> memory" where
  "fill_table table f mem = fold (\<lambda>page mem. mem(cell table page := f page)) [0..<512] mem"

definition map_region :: "kernel_layout \<Rightarrow> u64 \<Rightarrow> u64 \<Rightarrow> u64 \<Rightarrow> nat \<Rightarrow> nat \<times> memory \<Rightarrow> (nat \<times> memory) option" where
  "map_region l nx pdpt tables index = (\<lambda>(used, mem).
     let base = of_nat index * HUGE;
         directory = mem (cell pdpt (index div 512)) AND ADDRESS;
         entry = cell directory (index mod 512)
     in if layout_split l base then
          if used \<ge> SPLIT_CAPACITY then None
          else
            let table = tables + of_nat used * PAGE;
                mem = fill_table table (\<lambda>page. let address = base + of_nat page * PAGE in address OR layout_flags l address nx) mem
            in Some (used + 1, mem(entry := table OR PRESENT OR WRITE))
        else Some (used, mem(entry := base OR PRESENT OR WRITE OR LARGE OR nx)))"

fun map_regions :: "kernel_layout \<Rightarrow> u64 \<Rightarrow> u64 \<Rightarrow> u64 \<Rightarrow> nat list \<Rightarrow> nat \<times> memory \<Rightarrow> (nat \<times> memory) option" where
  "map_regions l nx pdpt tables [] s = Some s"
| "map_regions l nx pdpt tables (i # is) s =
     (case map_region l nx pdpt tables i s of None \<Rightarrow> None | Some s \<Rightarrow> map_regions l nx pdpt tables is s)"

definition layout_ok :: "kernel_layout \<Rightarrow> bool" where
  "layout_ok l \<longleftrightarrow> text_start l > 0 \<and> text_start l < text_end l \<and> text_end l \<le> rodata_start l \<and> rodata_start l < rodata_end l
     \<and> rodata_end l < push_bit 32 1 \<and> list_all (\<lambda>boundary. boundary mod PAGE = 0) [text_start l, text_end l, rodata_start l, rodata_end l]"

definition paging_initialize :: "kernel_layout \<Rightarrow> bool \<Rightarrow> u64 \<Rightarrow> u64 \<Rightarrow> memory \<Rightarrow> (nat \<times> memory) option" where
  "paging_initialize l nx_active root tables mem =
     (if \<not> layout_ok l then None
      else map_regions l (nx_page_flag nx_active) (mem root AND ADDRESS) tables [0..<2048] (0, mem))"

definition seal_ap_trampoline :: "u64 \<Rightarrow> memory \<Rightarrow> memory" where
  "seal_ap_trampoline root mem =
     (let pdpt = mem root AND ADDRESS; pd = mem pdpt AND ADDRESS; pt = mem pd AND ADDRESS
      in mem(cell pt 8 := 0x8000 OR PRESENT))"

text \<open>The state of the dynamic pool is the number of its tables in use.\<close>

definition set_identity_frame :: "u64 \<Rightarrow> u64 \<Rightarrow> u64 \<Rightarrow> u64 \<Rightarrow> nat \<times> memory \<Rightarrow> bool \<times> nat \<times> memory" where
  "set_identity_frame root dynamic physical flags = (\<lambda>(used, mem).
     if physical = 0 \<or> physical \<ge> push_bit 32 1 \<or> physical mod PAGE \<noteq> 0 then (False, used, mem)
     else
       let pdpt = mem root AND ADDRESS;
           directory_entry = mem (cell pdpt (unat (physical div (512 * HUGE))))
       in if directory_entry AND PRESENT = 0 then (False, used, mem)
          else
            let directory = directory_entry AND ADDRESS;
                entry = cell directory (unat ((physical div HUGE) mod 512));
                val = mem entry;
                page_index = unat ((physical div PAGE) mod 512)
            in if val AND LARGE \<noteq> 0 then
                 if used \<ge> DYNAMIC_SPLIT_CAPACITY then (False, used, mem)
                 else
                   let table = dynamic + of_nat used * PAGE;
                       base = val AND ADDRESS;
                       inherited = val AND (PRESENT OR WRITE OR NX);
                       mem = fill_table table (\<lambda>page. (base + of_nat page * PAGE) OR inherited) mem;
                       mem = mem(entry := table OR PRESENT OR WRITE)
                   in (True, used + 1, mem(cell table page_index := physical OR flags))
               else (True, used, mem(cell (val AND ADDRESS) page_index := physical OR flags)))"

definition seal_form_code_frame :: "bool \<Rightarrow> u64 \<Rightarrow> u64 \<Rightarrow> u64 \<Rightarrow> nat \<times> memory \<Rightarrow> bool \<times> nat \<times> memory" where
  "seal_form_code_frame nx_active root dynamic physical = set_identity_frame root dynamic physical (PRESENT OR nx_page_flag nx_active)"

definition unseal_form_frame :: "bool \<Rightarrow> u64 \<Rightarrow> u64 \<Rightarrow> u64 \<Rightarrow> nat \<times> memory \<Rightarrow> bool \<times> nat \<times> memory" where
  "unseal_form_frame nx_active root dynamic physical = set_identity_frame root dynamic physical (PRESENT OR WRITE OR nx_page_flag nx_active)"

section \<open>Specification: the walk of the processor\<close>

text \<open>The address and the flags with which the processor maps the page of number \<open>n\<close> below 4 GiB.\<close>

definition page :: "nat \<Rightarrow> u64" where
  "page n = push_bit 12 (of_nat n)"

definition leaf :: "u64 \<Rightarrow> memory \<Rightarrow> nat \<Rightarrow> u64 \<times> u64" where
  "leaf root mem n =
     (let pdpt = mem root AND ADDRESS;
          directory = mem (cell pdpt (n div 512 div 512)) AND ADDRESS;
          e = mem (cell directory (n div 512 mod 512));
          rights = PRESENT OR WRITE OR NX
      in if e AND LARGE \<noteq> 0 then ((e AND ADDRESS) + page (n mod 512), e AND rights)
         else let t = mem (cell (e AND ADDRESS) (n mod 512)) in (t AND ADDRESS, t AND rights))"

section \<open>Pages, cells and flags\<close>

lemma page_of_nat: "page n = of_nat (4096 * n)"
  by (simp add: page_def push_bit_eq_mult mult.commute)

lemma unat_small: "m < 2 ^ 64 \<Longrightarrow> unat (of_nat m :: u64) = m"
  by (simp add: unat_of_nat)

lemma unat_page: "n < 2 ^ 40 \<Longrightarrow> unat (page n) = 4096 * n"
  unfolding page_of_nat by (rule unat_small) simp

lemma page_0 [simp]: "page 0 = 0"
  by (simp add: page_def)

lemma page_add: "page m + page n = page (m + n)"
  by (simp add: page_of_nat algebra_simps)

lemma page_offset: "of_nat n * PAGE = page n" "of_nat n * HUGE = page (512 * n)"
proof -
  have n: "4096 * n = n * 4096" "4096 * (512 * n) = n * 2097152" by simp_all
  have HUGE: "HUGE = 2097152" unfolding HUGE_def by simp
  show "of_nat n * PAGE = page n" "of_nat n * HUGE = page (512 * n)"
    unfolding page_of_nat n HUGE PAGE_def by (simp_all only: of_nat_mult of_nat_numeral)
qed

lemma page_inject: "m < 2 ^ 40 \<Longrightarrow> n < 2 ^ 40 \<Longrightarrow> page m = page n \<longleftrightarrow> m = n"
  using unat_page [of m] unat_page [of n] by (metis mult_cancel1 zero_neq_numeral)

lemma ADDRESS_mask: "ADDRESS = push_bit 12 (mask 40)"
  unfolding ADDRESS_def by (simp add: push_bit_eq_mult mask_eq_exp_minus_1)

lemma page_and_ADDRESS [simp]: "n < 2 ^ 40 \<Longrightarrow> page n AND ADDRESS = page n"
proof -
  assume "n < 2 ^ 40"
  then have "of_nat n AND mask 40 = (of_nat n :: u64)"
    by (simp add: take_bit_eq_mask [symmetric] word_unat_eq_iff unsigned_take_bit_eq unat_of_nat take_bit_nat_eq_self)
  then show ?thesis by (simp add: page_def ADDRESS_mask push_bit_and [symmetric])
qed

definition rights :: u64 where "rights = PRESENT OR WRITE OR NX"

lemmas flag_defs = PRESENT_def WRITE_def LARGE_def NX_def rights_def

lemma ADDRESS_flags [simp]: "ADDRESS AND PRESENT = 0" "ADDRESS AND WRITE = 0" "ADDRESS AND LARGE = 0" "ADDRESS AND NX = 0" "ADDRESS AND rights = 0"
  unfolding ADDRESS_def flag_defs by code_simp+

lemma page_flags [simp]:
  assumes "n < 2 ^ 40"
  shows "page n AND PRESENT = 0" "page n AND WRITE = 0" "page n AND LARGE = 0" "page n AND NX = 0" "page n AND rights = 0"
proof -
  have e: "page n AND x = page n AND (ADDRESS AND x)" for x by (simp only: and.assoc [symmetric] page_and_ADDRESS [OF assms])
  show "page n AND PRESENT = 0" "page n AND WRITE = 0" "page n AND LARGE = 0" "page n AND NX = 0" "page n AND rights = 0" by (subst e, simp)+
qed

lemma page_or:
  assumes "n < 2 ^ 40" "f AND ADDRESS = 0"
  shows "(page n OR f) AND ADDRESS = page n" "(page n OR f) AND LARGE = f AND LARGE" "(page n OR f) AND rights = f AND rights"
    "(page n OR f) AND PRESENT = f AND PRESENT"
  using assms by (simp_all add: bit.conj_disj_distrib2)

lemma unat_cell: "n < 2 ^ 40 \<Longrightarrow> i < 512 \<Longrightarrow> unat (cell (page n) i) = 4096 * n + 8 * i"
  using unat_page [of n] by (simp add: cell_def unat_word_ariths unat_of_nat)

lemma cell_inject:
  assumes "m < 2 ^ 40" "n < 2 ^ 40" "i < 512" "j < 512"
  shows "cell (page m) i = cell (page n) j \<longleftrightarrow> m = n \<and> i = j"
proof
  assume "cell (page m) i = cell (page n) j"
  then have e: "4096 * m + 8 * i = 4096 * n + 8 * j" using unat_cell assms by metis
  then have "(4096 * m + 8 * i) div 4096 = (4096 * n + 8 * j) div 4096" by simp
  then have "m = n" using assms(3,4) by simp
  then show "m = n \<and> i = j" using e by simp
qed simp

lemma cell_0 [simp]: "cell p 0 = p"
  by (simp add: cell_def)

lemma fill_table_at:
  assumes "T < 2 ^ 40"
  shows "i < 512 \<Longrightarrow> fill_table (page T) f mem (cell (page T) i) = f i"
    "(\<And>i. i < 512 \<Longrightarrow> x \<noteq> cell (page T) i) \<Longrightarrow> fill_table (page T) f mem x = mem x"
proof -
  let ?fill = "\<lambda>k. fold (\<lambda>pg mem. mem(cell (page T) pg := f pg)) [0..<k] mem"
  have "k \<le> 512 \<Longrightarrow> i < k \<Longrightarrow> ?fill k (cell (page T) i) = f i" for k i
    by (induction k) (auto simp: cell_inject [OF assms assms] less_Suc_eq)
  then show "i < 512 \<Longrightarrow> fill_table (page T) f mem (cell (page T) i) = f i" by (simp add: fill_table_def)
  have "k \<le> 512 \<Longrightarrow> (\<And>i. i < 512 \<Longrightarrow> x \<noteq> cell (page T) i) \<Longrightarrow> ?fill k x = mem x" for k
    by (induction k) auto
  then show "(\<And>i. i < 512 \<Longrightarrow> x \<noteq> cell (page T) i) \<Longrightarrow> fill_table (page T) f mem x = mem x" by (simp add: fill_table_def)
qed

text \<open>Filling a table leaves the entries of every other page.\<close>

lemma fill_table_other:
  "T < 2 ^ 40 \<Longrightarrow> n < 2 ^ 40 \<Longrightarrow> n \<noteq> T \<Longrightarrow> j < 512 \<Longrightarrow> fill_table (page T) f mem (cell (page n) j) = mem (cell (page n) j)"
  by (rule fill_table_at(2)) (simp_all add: cell_inject)

section \<open>The tables behind the identity map\<close>

text \<open>What the bootstrap code leaves: one table of directories, four directories, and the two pools, on different pages.\<close>

definition table_pages :: "nat \<Rightarrow> nat \<Rightarrow> (nat \<Rightarrow> nat) \<Rightarrow> nat \<Rightarrow> nat \<Rightarrow> nat list" where
  "table_pages r p ds t y = [r, p] @ map ds [0..<4] @ [t..<t + SPLIT_CAPACITY] @ [y..<y + DYNAMIC_SPLIT_CAPACITY]"

definition linked :: "nat \<Rightarrow> nat \<Rightarrow> (nat \<Rightarrow> nat) \<Rightarrow> memory \<Rightarrow> bool" where
  "linked r p ds mem \<longleftrightarrow> mem (page r) AND ADDRESS = page p
     \<and> (\<forall>i<4. mem (cell (page p) i) AND ADDRESS = page (ds i) \<and> mem (cell (page p) i) AND PRESENT \<noteq> 0)"

definition disjoint_tables :: "nat \<Rightarrow> nat \<Rightarrow> (nat \<Rightarrow> nat) \<Rightarrow> nat \<Rightarrow> nat \<Rightarrow> bool" where
  "disjoint_tables r p ds t y \<longleftrightarrow> distinct (table_pages r p ds t y) \<and> (\<forall>x\<in>set (table_pages r p ds t y). x < 2 ^ 40)"

text \<open>The directory entry of a 2 MiB region, and the invariant: the entry maps the region itself, or names a table of its own; either way
  page \<open>n\<close> is mapped to itself with the rights \<open>F n\<close>.\<close>

definition slot :: "(nat \<Rightarrow> nat) \<Rightarrow> nat \<Rightarrow> u64" where
  "slot ds k = cell (page (ds (k div 512))) (k mod 512)"

definition region_ok :: "(nat \<Rightarrow> nat) \<Rightarrow> (nat \<Rightarrow> nat option) \<Rightarrow> (nat \<Rightarrow> u64) \<Rightarrow> memory \<Rightarrow> nat \<Rightarrow> bool" where
  "region_ok ds own F mem k \<longleftrightarrow> (case own k of
     None \<Rightarrow> \<exists>f. f AND ADDRESS = 0 \<and> f AND LARGE \<noteq> 0 \<and> mem (slot ds k) = page (512 * k) OR f \<and> (\<forall>i<512. F (512 * k + i) = f AND rights)
   | Some T \<Rightarrow> mem (slot ds k) = page T OR PRESENT OR WRITE
       \<and> (\<forall>i<512. \<exists>f. f AND ADDRESS = 0 \<and> mem (cell (page T) i) = page (512 * k + i) OR f \<and> F (512 * k + i) = f AND rights))"

definition owns :: "nat \<Rightarrow> nat \<Rightarrow> nat \<Rightarrow> nat \<Rightarrow> (nat \<Rightarrow> nat option) \<Rightarrow> bool" where
  "owns t u y v own \<longleftrightarrow> ran own \<subseteq> {t..<t + u} \<union> {y..<y + v} \<and> (\<forall>k k' T. own k = Some T \<longrightarrow> own k' = Some T \<longrightarrow> k = k')
     \<and> u \<le> SPLIT_CAPACITY \<and> v \<le> DYNAMIC_SPLIT_CAPACITY"

lemma owns_pool: "owns t u y v own \<Longrightarrow> own k = Some T \<Longrightarrow> T \<in> {t..<t + SPLIT_CAPACITY} \<union> {y..<y + DYNAMIC_SPLIT_CAPACITY}"
  by (fastforce simp: owns_def intro: ranI)

lemma slot_directory: "k < 2048 \<Longrightarrow> k div 512 < (4 :: nat)"
  by linarith

lemma page_numbers:
  assumes "disjoint_tables r p ds t y"
  shows "r < 2 ^ 40" "p < 2 ^ 40" "i < 4 \<Longrightarrow> ds i < 2 ^ 40" "T \<in> {t..<t + SPLIT_CAPACITY} \<union> {y..<y + DYNAMIC_SPLIT_CAPACITY} \<Longrightarrow> T < 2 ^ 40"
    "r \<noteq> p" "i < 4 \<Longrightarrow> ds i \<noteq> r \<and> ds i \<noteq> p" "i < 4 \<Longrightarrow> j < 4 \<Longrightarrow> ds i = ds j \<longleftrightarrow> i = j"
    "T \<in> {t..<t + SPLIT_CAPACITY} \<union> {y..<y + DYNAMIC_SPLIT_CAPACITY} \<Longrightarrow> T \<noteq> r \<and> T \<noteq> p \<and> (i < 4 \<longrightarrow> T \<noteq> ds i)"
    "T \<in> {t..<t + SPLIT_CAPACITY} \<Longrightarrow> T' \<in> {y..<y + DYNAMIC_SPLIT_CAPACITY} \<Longrightarrow> T \<noteq> T'"
proof -
  define A where "A = ds ` {..<4}"
  define B where "B = {t..<t + SPLIT_CAPACITY}"
  define C where "C = {y..<y + DYNAMIC_SPLIT_CAPACITY}"
  have A: "set (map ds [0..<4]) = A" by (simp only: set_map set_upt A_def atLeast0LessThan)
  have inj: "distinct (map ds [0..<4])" and rp: "r \<noteq> p" "r \<notin> A" "r \<notin> B" "r \<notin> C" "p \<notin> A" "p \<notin> B" "p \<notin> C"
    and ABC: "A \<inter> (B \<union> C) = {}" "B \<inter> C = {}"
    using assms unfolding disjoint_tables_def table_pages_def distinct_append set_append set_upt A B_def [symmetric] C_def [symmetric] by auto
  have b: "r < 2 ^ 40" "p < 2 ^ 40" "\<And>x. x \<in> A \<union> B \<union> C \<Longrightarrow> x < 2 ^ 40"
    using assms unfolding disjoint_tables_def table_pages_def set_append set_upt A B_def [symmetric] C_def [symmetric] by auto
  have ds: "i < 4 \<Longrightarrow> ds i \<in> A" for i by (simp add: A_def)
  show "r < 2 ^ 40" "p < 2 ^ 40" "r \<noteq> p" by (rule b(1) b(2) rp(1))+
  show "i < 4 \<Longrightarrow> ds i < 2 ^ 40" by (intro b(3)) (simp add: ds)
  show "i < 4 \<Longrightarrow> ds i \<noteq> r \<and> ds i \<noteq> p" using rp ds by metis
  show "i < 4 \<Longrightarrow> j < 4 \<Longrightarrow> ds i = ds j \<longleftrightarrow> i = j" using inj by (auto simp: distinct_map inj_on_def simp del: upt_rec_numeral)
  show "T \<in> {t..<t + SPLIT_CAPACITY} \<union> {y..<y + DYNAMIC_SPLIT_CAPACITY} \<Longrightarrow> T < 2 ^ 40"
    unfolding B_def [symmetric] C_def [symmetric] by (intro b(3)) blast
  show "T \<in> {t..<t + SPLIT_CAPACITY} \<union> {y..<y + DYNAMIC_SPLIT_CAPACITY} \<Longrightarrow> T \<noteq> r \<and> T \<noteq> p \<and> (i < 4 \<longrightarrow> T \<noteq> ds i)"
    unfolding B_def [symmetric] C_def [symmetric] using rp ABC(1) ds [of i] by blast
  show "T \<in> {t..<t + SPLIT_CAPACITY} \<Longrightarrow> T' \<in> {y..<y + DYNAMIC_SPLIT_CAPACITY} \<Longrightarrow> T \<noteq> T'"
    unfolding B_def [symmetric] C_def [symmetric] using ABC(2) by blast
qed

lemma table_entry:
  assumes "T < 2 ^ 40"
  shows "(page T OR PRESENT OR WRITE) AND ADDRESS = page T" "(page T OR PRESENT OR WRITE) AND LARGE = 0"
proof -
  have f: "(PRESENT OR WRITE) AND ADDRESS = 0" "(PRESENT OR WRITE) AND LARGE = 0" unfolding flag_defs ADDRESS_def by code_simp+
  show "(page T OR PRESENT OR WRITE) AND ADDRESS = page T" "(page T OR PRESENT OR WRITE) AND LARGE = 0"
    using page_or(1,2) [OF assms f(1)] f(2) by (simp_all add: or.assoc)
qed

lemma leaf_region:
  assumes "disjoint_tables r p ds t y" "linked r p ds mem" "owns t u y v own" "n < 2 ^ 20" "region_ok ds own F mem (n div 512)"
  shows "leaf (page r) mem n = (page n, F n)"
proof -
  define k where "k = n div 512"
  define i where "i = n mod 512"
  have n: "n = 512 * k + i" "i < 512" "k < 2048" using assms(4) by (simp_all add: k_def i_def div_less_iff_less_mult)
  have small: "n < 2 ^ 40" "512 * k < 2 ^ 40" using assms(4) n by simp_all
  have k4: "k div 512 < 4" using n(3) by (rule slot_directory)
  have dir: "mem (cell (mem (page r) AND ADDRESS) (k div 512)) AND ADDRESS = page (ds (k div 512))"
    using assms(2) k4 by (simp add: linked_def)
  have leaf: "leaf (page r) mem n = (let e = mem (slot ds k) in if e AND LARGE \<noteq> 0 then ((e AND ADDRESS) + page i, e AND rights)
      else let t = mem (cell (e AND ADDRESS) i) in (t AND ADDRESS, t AND rights))"
    unfolding leaf_def Let_def k_def [symmetric] i_def [symmetric] dir slot_def rights_def ..
  show ?thesis
  proof (cases "own k")
    case None
    then obtain f where f: "f AND ADDRESS = 0" "f AND LARGE \<noteq> 0" "mem (slot ds k) = page (512 * k) OR f" "\<forall>i<512. F (512 * k + i) = f AND rights"
      using assms(5) by (auto simp: region_ok_def k_def [symmetric])
    have "leaf (page r) mem n = (page (512 * k) + page i, F (512 * k + i))"
      unfolding leaf Let_def f(3) page_or [OF small(2) f(1)] using f(2,4) n(2) by simp
    then show ?thesis unfolding page_add n(1) [symmetric] .
  next
    case (Some T)
    have "T \<in> {t..<t + SPLIT_CAPACITY} \<union> {y..<y + DYNAMIC_SPLIT_CAPACITY}" using assms(3) Some by (rule owns_pool)
    then have T: "T < 2 ^ 40" by (rule page_numbers(4) [OF assms(1)])
    obtain f where f: "f AND ADDRESS = 0" "mem (cell (page T) i) = page (512 * k + i) OR f" "F (512 * k + i) = f AND rights"
      using assms(5) Some n(2) by (auto simp: region_ok_def k_def [symmetric])
    have e: "mem (slot ds k) = page T OR PRESENT OR WRITE" using assms(5) Some by (simp add: region_ok_def k_def [symmetric])
    have "leaf (page r) mem n = (page (512 * k + i), F (512 * k + i))"
      unfolding leaf Let_def e table_entry [OF T] f(2) page_or [OF small(1) [unfolded n(1)] f(1)] f(3) by simp
    then show ?thesis unfolding n(1) [symmetric] .
  qed
qed

text \<open>Writes to other cells keep a region as it is.\<close>

lemma region_ok_frame:
  assumes "region_ok ds own F mem k" "own' k = own k" "mem' (slot ds k) = mem (slot ds k)"
    and "\<And>T i. own k = Some T \<Longrightarrow> i < 512 \<Longrightarrow> mem' (cell (page T) i) = mem (cell (page T) i)" and "\<And>i. i < 512 \<Longrightarrow> F' (512 * k + i) = F (512 * k + i)"
  shows "region_ok ds own' F' mem' k"
  using assms by (cases "own k") (auto simp: region_ok_def)

lemma slot_inject:
  assumes "disjoint_tables r p ds t y" "k < 2048" "k' < 2048"
  shows "slot ds k = slot ds k' \<longleftrightarrow> k = k'"
proof -
  note pn = page_numbers [OF assms(1)]
  have "slot ds k = slot ds k' \<longleftrightarrow> ds (k div 512) = ds (k' div 512) \<and> k mod 512 = k' mod 512"
    unfolding slot_def using pn(3) slot_directory assms(2,3) by (intro cell_inject) simp_all
  also have "\<dots> \<longleftrightarrow> k = k'" using pn(7) slot_directory [OF assms(2)] slot_directory [OF assms(3)] by (metis div_mult_mod_eq)
  finally show ?thesis .
qed

lemma slot_table:
  assumes "disjoint_tables r p ds t y" "k < 2048" "T \<in> {t..<t + SPLIT_CAPACITY} \<union> {y..<y + DYNAMIC_SPLIT_CAPACITY}" "i < 512"
  shows "slot ds k \<noteq> cell (page T) i"
  unfolding slot_def using page_numbers(3,4,8) [OF assms(1)] assms slot_directory [OF assms(2)] by (subst cell_inject) auto

lemma linked_frame:
  assumes "disjoint_tables r p ds t y" "linked r p ds mem" "mem' (page r) = mem (page r)" "\<And>i. i < 4 \<Longrightarrow> mem' (cell (page p) i) = mem (cell (page p) i)"
  shows "linked r p ds mem'"
  using assms(2-4) by (simp add: linked_def)

section \<open>Initialisation\<close>

lemma nx_cases: "nx_page_flag b = 0 \<or> nx_page_flag b = NX"
  by (simp add: nx_page_flag_def NX_def)

lemma plain_flags:
  assumes "nx = 0 \<or> nx = NX" "f \<in> {0, PRESENT, PRESENT OR nx, PRESENT OR WRITE OR nx}"
  shows "f AND ADDRESS = 0" "f AND rights = f"
proof -
  have "f \<in> {0, 1, 1 OR push_bit 63 1, 1 OR 2, 1 OR 2 OR push_bit 63 1}" using assms by (auto simp: flag_defs)
  then have "f AND ADDRESS = 0 \<and> f AND rights = f" unfolding flag_defs ADDRESS_def by (elim insertE emptyE) (simp_all only:, code_simp+)
  then show "f AND ADDRESS = 0" "f AND rights = f" by simp_all
qed

lemma large_flags:
  assumes "nx = 0 \<or> nx = NX"
  defines "f \<equiv> PRESENT OR WRITE OR LARGE OR nx"
  shows "f AND ADDRESS = 0" "f AND LARGE \<noteq> 0" "f AND rights = PRESENT OR WRITE OR nx"
proof -
  have "f AND ADDRESS = 0 \<and> f AND LARGE \<noteq> 0 \<and> f AND rights = PRESENT OR WRITE OR nx"
    using assms(1) unfolding f_def flag_defs ADDRESS_def by (elim disjE) (simp_all only:, code_simp+)
  then show "f AND ADDRESS = 0" "f AND LARGE \<noteq> 0" "f AND rights = PRESENT OR WRITE OR nx" by simp_all
qed

lemma layout_flags_cases: "layout_flags l a nx \<in> {0, PRESENT, PRESENT OR nx, PRESENT OR WRITE OR nx}"
  by (simp add: layout_flags_def)

lemma unsplit_nonzero: "\<not> layout_split l (page (512 * k)) \<Longrightarrow> k \<noteq> 0"
proof
  assume "\<not> layout_split l (page (512 * k))" "k = 0"
  then show False by (simp add: layout_split_def page_def)
qed

lemma unsplit_flags:
  assumes "\<not> layout_split l (page (512 * k))" "k < 2048" "i < 512"
  shows "layout_flags l (page (512 * k + i)) nx = PRESENT OR WRITE OR nx"
proof -
  let ?a = "page (512 * k + i)"
  have H: "page (512 * k) + HUGE = page (512 * k + 512)" by (simp only: page_add [symmetric] page_offset(2) [of 1, simplified])
  have b: "512 * k < 2 ^ 40" "512 * k + i < 2 ^ 40" "512 * k + 512 < 2 ^ 40" using assms(2,3) by simp_all
  have k: "k \<noteq> 0" using assms(1) by (rule unsplit_nonzero)
  have "unat ?a \<noteq> 0" using k unfolding unat_page [OF b(2)] by simp
  then have "?a \<noteq> 0" by (metis unat_0)
  moreover have "page (512 * k) \<le> ?a" "?a < page (512 * k + 512)" using assms(3) by (simp_all add: word_le_nat_alt word_less_nat_alt unat_page [OF b(1)] unat_page [OF b(2)] unat_page [OF b(3)])
  ultimately show ?thesis using assms(1) unfolding layout_split_def H layout_flags_def by (auto simp: not_less dest: order_trans order_less_le_trans)
qed

text \<open>A region that receives a fresh table, and a write into the table of a region.\<close>

lemma split_region:
  assumes D: "disjoint_tables r p ds t y" and k: "k < 2048" and T: "T \<in> {t..<t + SPLIT_CAPACITY} \<union> {y..<y + DYNAMIC_SPLIT_CAPACITY}"
    and h: "\<And>i. f i = page (512 * k + i) OR h i" "\<And>i. h i AND ADDRESS = 0" "\<forall>i<512. F (512 * k + i) = h i AND rights"
    and mem': "mem' = (fill_table (page T) f mem)(slot ds k := page T OR PRESENT OR WRITE)"
  shows "linked r p ds mem \<Longrightarrow> linked r p ds mem'" "region_ok ds (own(k \<mapsto> T)) F mem' k"
    "j < 2048 \<Longrightarrow> j \<noteq> k \<Longrightarrow> owns t u y v own \<Longrightarrow> T \<notin> ran own \<Longrightarrow> region_ok ds own F mem j \<Longrightarrow> region_ok ds (own(k \<mapsto> T)) F mem' j"
proof -
  note pn = page_numbers [OF D]
  note k4 = slot_directory [OF k]
  have T40: "T < 2 ^ 40" using T by (rule pn(4))
  have keep: "mem' (cell (page n) i) = mem (cell (page n) i)" if "n < 2 ^ 40" "n \<noteq> T" "n \<noteq> ds (k div 512)" "i < 512" for n i
    using that unfolding mem' slot_def by (simp add: fill_table_other [OF T40] cell_inject [OF that(1) pn(3) [OF k4]])
  have ne: "r \<noteq> T" "p \<noteq> T" "r \<noteq> ds (k div 512)" "p \<noteq> ds (k div 512)" using pn(6) [OF k4] pn(8) [OF T] by metis+
  have r: "mem' (page r) = mem (page r)" using keep [OF pn(1) ne(1,3), of 0] by simp
  have p: "mem' (cell (page p) i) = mem (cell (page p) i)" if "i < 4" for i using keep [OF pn(2) ne(2,4), of i] that by simp
  show "linked r p ds mem \<Longrightarrow> linked r p ds mem'" using linked_frame [OF D _ r p] .
  have e: "mem' (slot ds k) = page T OR PRESENT OR WRITE" by (simp add: mem')
  have "mem' (cell (page T) i) = f i" if "i < 512" for i
    using slot_table [OF D k T that] that unfolding mem' by (simp add: fill_table_at [OF T40])
  with h e show "region_ok ds (own(k \<mapsto> T)) F mem' k" by (auto simp: region_ok_def)
  assume j: "j < 2048" "j \<noteq> k" and own: "owns t u y v own" "T \<notin> ran own" and R: "region_ok ds own F mem j"
  show "region_ok ds (own(k \<mapsto> T)) F mem' j"
  proof (rule region_ok_frame [OF R])
    have "slot ds j \<noteq> cell (page T) i" if "i < 512" for i using slot_table [OF D j(1) T that] .
    then show "mem' (slot ds j) = mem (slot ds j)" using slot_inject [OF D j(1) k] j(2) unfolding mem' by (simp add: fill_table_at(2) [OF T40])
    show "mem' (cell (page T') i) = mem (cell (page T') i)" if "own j = Some T'" "i < 512" for T' i
    proof (rule keep)
      have T': "T' \<in> {t..<t + SPLIT_CAPACITY} \<union> {y..<y + DYNAMIC_SPLIT_CAPACITY}" using own(1) that(1) by (rule owns_pool)
      then show "T' < 2 ^ 40" by (rule pn(4))
      show "T' \<noteq> ds (k div 512)" using pn(8) [OF T'] k4 by blast
      show "T' \<noteq> T" using own(2) that(1) by (auto intro: ranI)
    qed (rule that(2))
  qed (use j in simp_all)
qed

lemma store_region:
  assumes D: "disjoint_tables r p ds t y" and own: "owns t u y v own" and k: "own k = Some T" "i < 512" and f: "f AND ADDRESS = 0"
    and mem': "mem' = mem(cell (page T) i := page (512 * k + i) OR f)"
  shows "linked r p ds mem \<Longrightarrow> linked r p ds mem'"
    "j < 2048 \<Longrightarrow> region_ok ds own F mem j \<Longrightarrow> region_ok ds own (F(512 * k + i := f AND rights)) mem' j"
proof -
  note pn = page_numbers [OF D]
  have pool: "T' \<in> {t..<t + SPLIT_CAPACITY} \<union> {y..<y + DYNAMIC_SPLIT_CAPACITY}" if "own j = Some T'" for j T'
    using own that by (rule owns_pool)
  note T = pool [OF k(1)]
  have keep: "mem' (cell (page n) i') = mem (cell (page n) i')" if "n < 2 ^ 40" "n \<noteq> T \<or> i' \<noteq> i" "i' < 512" for n i'
    using that unfolding mem' by (auto simp: cell_inject [OF that(1) pn(4) [OF T] that(3) k(2)])
  have ne: "r \<noteq> T" "p \<noteq> T" using pn(8) [OF T] by metis+
  have r: "mem' (page r) = mem (page r)" using keep [OF pn(1), of 0] ne by simp
  have p: "mem' (cell (page p) i) = mem (cell (page p) i)" if "i < 4" for i using keep [OF pn(2), of i] ne that by simp
  show "linked r p ds mem \<Longrightarrow> linked r p ds mem'" using linked_frame [OF D _ r p] .
  assume j: "j < 2048" and R: "region_ok ds own F mem j"
  have s: "mem' (slot ds j) = mem (slot ds j)" using slot_table [OF D j T k(2)] by (simp add: mem')
  show "region_ok ds own (F(512 * k + i := f AND rights)) mem' j"
  proof (cases "j = k")
    case False
    then have "512 * j + i' \<noteq> 512 * k + i" if "i' < 512" for i'
      using arg_cong [of "512 * j + i'" "512 * k + i" "\<lambda>n. n div 512"] k(2) that by auto
    moreover have "mem' (cell (page T') i') = mem (cell (page T') i')" if "own j = Some T'" "i' < 512" for T' i'
      using keep [OF pn(4) [OF pool [OF that(1)]] _ that(2)] own False k(1) that(1) by (auto simp: owns_def)
    ultimately show ?thesis using R s by (intro region_ok_frame [OF R]) simp_all
  next
    case True
    have "\<exists>g. g AND ADDRESS = 0 \<and> mem' (cell (page T) i') = page (512 * k + i') OR g \<and> (F(512 * k + i := f AND rights)) (512 * k + i') = g AND rights"
      if "i' < 512" for i'
    proof (cases "i' = i")
      case True
      then show ?thesis using f by (auto simp: mem')
    next
      case False
      then show ?thesis using R True k(1) keep [OF pn(4) [OF T], of i'] that by (simp add: region_ok_def)
    qed
    then have "\<forall>i'<512. \<exists>g. g AND ADDRESS = 0 \<and> mem' (cell (page T) i') = page (512 * k + i') OR g \<and> (F(512 * k + i := f AND rights)) (512 * k + i') = g AND rights"
      by blast
    moreover have "mem' (slot ds k) = page T OR PRESENT OR WRITE" using R s k(1) unfolding region_ok_def \<open>j = k\<close> by simp
    ultimately show ?thesis unfolding region_ok_def \<open>j = k\<close> k(1) option.case by (rule conjI [rotated])
  qed
qed

text \<open>The state of the map while the first \<open>K\<close> regions are in place: \<open>u\<close> tables of the static and \<open>v\<close> of the dynamic
  pool are in use, each by one region, and page \<open>n\<close> has the rights \<open>F n\<close>. The lowest region always has a table.\<close>

definition mapped :: "nat \<Rightarrow> nat \<Rightarrow> (nat \<Rightarrow> nat) \<Rightarrow> nat \<Rightarrow> nat \<Rightarrow> nat \<Rightarrow> nat \<Rightarrow> nat \<Rightarrow> (nat \<Rightarrow> u64) \<Rightarrow> memory \<Rightarrow> bool" where
  "mapped r p ds t y K u v F mem \<longleftrightarrow> linked r p ds mem \<and> (\<exists>own. owns t u y v own \<and> (\<forall>k\<ge>K. own k = None) \<and> (0 < K \<longrightarrow> own 0 \<noteq> None)
     \<and> (\<forall>k<K. region_ok ds own F mem k))"

lemma mapped_leaf: "disjoint_tables r p ds t y \<Longrightarrow> mapped r p ds t y 2048 u v F mem \<Longrightarrow> n < 2 ^ 20 \<Longrightarrow> leaf (page r) mem n = (page n, F n)"
proof -
  assume D: "disjoint_tables r p ds t y" and m: "mapped r p ds t y 2048 u v F mem" and n: "n < 2 ^ 20"
  have "n div 512 < 2048" using n by (simp add: div_less_iff_less_mult)
  with m show ?thesis unfolding mapped_def using leaf_region [OF D _ _ n] by blast
qed

lemma owns_new:
  assumes "owns t u y v own" "T \<notin> ran own" "T \<in> {t..<t + u'} \<union> {y..<y + v'}" "u \<le> u'" "v \<le> v'" "u' \<le> SPLIT_CAPACITY" "v' \<le> DYNAMIC_SPLIT_CAPACITY"
  shows "owns t u' y v' (own(k \<mapsto> T))"
proof -
  have "T \<noteq> T'" if "own j = Some T'" for j T' using assms(2) that by (auto intro: ranI)
  moreover have "ran (own(k \<mapsto> T)) \<subseteq> insert T (ran own)" by (auto simp: ran_def split: if_splits)
  moreover have "{t..<t + u} \<union> {y..<y + v} \<subseteq> {t..<t + u'} \<union> {y..<y + v'}" using assms(4,5) by auto
  ultimately show ?thesis using assms unfolding owns_def by (auto simp del: Un_iff atLeastLessThan_iff split: if_splits)
qed

lemma map_region_eq:
  assumes "linked r p ds mem" "k < 2048"
  shows "map_region l nx (page p) (page t) k (u, mem) =
    (if layout_split l (page (512 * k)) then
       if u \<ge> SPLIT_CAPACITY then None
       else Some (u + 1, (fill_table (page (t + u)) (\<lambda>i. page (512 * k + i) OR layout_flags l (page (512 * k + i)) nx) mem)
         (slot ds k := page (t + u) OR PRESENT OR WRITE))
     else Some (u, mem(slot ds k := page (512 * k) OR PRESENT OR WRITE OR LARGE OR nx)))"
  using assms slot_directory [OF assms(2)] by (simp add: map_region_def linked_def page_offset page_add slot_def Let_def)

lemma map_region_step:
  assumes D: "disjoint_tables r p ds t y" and m: "mapped r p ds t y k u 0 (\<lambda>n. layout_flags l (page n) nx) mem" and k: "k < 2048" and nx: "nx = 0 \<or> nx = NX"
    and e: "map_region l nx (page p) (page t) k (u, mem) = Some (u', mem')"
  shows "mapped r p ds t y (Suc k) u' 0 (\<lambda>n. layout_flags l (page n) nx) mem'"
proof -
  let ?F = "\<lambda>n. layout_flags l (page n) nx"
  obtain own where L: "linked r p ds mem" and own: "owns t u y 0 own" "\<forall>j\<ge>k. own j = None" "0 < k \<longrightarrow> own 0 \<noteq> None" "\<forall>j<k. region_ok ds own ?F mem j"
    using m by (auto simp: mapped_def)
  note e = e [unfolded map_region_eq [OF L k]]
  note fl = plain_flags [OF nx layout_flags_cases [of l _ nx]]
  show ?thesis
  proof (cases "layout_split l (page (512 * k))")
    case True
    have u: "u < SPLIT_CAPACITY" "u' = u + 1" and mem': "mem' = (fill_table (page (t + u)) (\<lambda>i. page (512 * k + i) OR ?F (512 * k + i)) mem)(slot ds k := page (t + u) OR PRESENT OR WRITE)"
      using e True by (auto split: if_splits)
    have T: "t + u \<in> {t..<t + SPLIT_CAPACITY} \<union> {y..<y + DYNAMIC_SPLIT_CAPACITY}" using u by simp
    have new: "t + u \<notin> ran own" using own(1) by (auto simp: owns_def)
    have "\<forall>i<512. ?F (512 * k + i) = ?F (512 * k + i) AND rights" using fl(2) by simp
    note split = split_region [OF D k T refl fl(1) this mem']
    have "region_ok ds (own(k \<mapsto> t + u)) ?F mem' j" if "j < Suc k" for j
      using split(2) split(3) [OF _ _ own(1) new] own(4) that k by (cases "j = k") simp_all
    moreover have "owns t u' y 0 (own(k \<mapsto> t + u))" using owns_new [OF own(1) new, of "u + 1" 0 k] u by simp
    ultimately show ?thesis unfolding mapped_def using split(1) [OF L] own(2,3) by (intro conjI exI [of _ "own(k \<mapsto> t + u)"]) auto
  next
    case False
    define f where "f = PRESENT OR WRITE OR LARGE OR nx"
    have u: "u' = u" and mem': "mem' = mem(slot ds k := page (512 * k) OR f)" using e False by (auto simp: f_def or.assoc)
    note lf = large_flags [OF nx, folded f_def]
    have k0: "k \<noteq> 0" using False by (rule unsplit_nonzero)
    have R: "region_ok ds own ?F mem' j" if "j < Suc k" for j
    proof (cases "j = k")
      case True
      then show ?thesis using own(2) lf unsplit_flags [OF False k] unfolding region_ok_def by (auto simp: mem')
    next
      case False
      then have j: "j < k" "j < 2048" using that k by simp_all
      have "mem' (cell (page T) i) = mem (cell (page T) i)" if "own j = Some T" "i < 512" for T i
        using slot_table [OF D k owns_pool [OF own(1) that(1)] that(2), THEN not_sym] by (simp add: mem')
      moreover have "mem' (slot ds j) = mem (slot ds j)" using slot_inject [OF D j(2) k] False by (simp add: mem')
      moreover have "region_ok ds own ?F mem j" using own(4) j(1) by blast
      ultimately show ?thesis by (intro region_ok_frame [of ds own ?F mem j own mem' ?F]) simp_all
    qed
    have d: "slot ds k \<noteq> cell (page n) i" if "n < 2 ^ 40" "n \<noteq> ds (k div 512)" "i < 512" for n i
      unfolding slot_def using cell_inject [OF page_numbers(3) [OF D slot_directory [OF k]] that(1) _ that(3), of "k mod 512"] that(2) by simp
    have "r \<noteq> ds (k div 512)" "p \<noteq> ds (k div 512)" using page_numbers(6) [OF D slot_directory [OF k]] by simp_all
    then have ne: "slot ds k \<noteq> page r" "\<And>i. i < 4 \<Longrightarrow> slot ds k \<noteq> cell (page p) i"
      using d [OF page_numbers(1) [OF D], of 0] d [OF page_numbers(2) [OF D]] by simp_all
    have "mem' (page r) = mem (page r)" "\<And>i. i < 4 \<Longrightarrow> mem' (cell (page p) i) = mem (cell (page p) i)"
      unfolding mem' using ne(1) ne(2) [THEN not_sym] by simp_all
    then have "linked r p ds mem'" by (rule linked_frame [OF D L])
    then show ?thesis unfolding mapped_def using own R u k0 by (intro conjI exI [of _ own]) auto
  qed
qed

text \<open>How many regions from \<open>k\<close> on need a table, and the outcome of the loop.\<close>

definition split_regions :: "kernel_layout \<Rightarrow> nat \<Rightarrow> nat \<Rightarrow> nat" where
  "split_regions l k K = length (filter (\<lambda>j. layout_split l (page (512 * j))) [k..<K])"

lemma map_regions_outcome:
  assumes D: "disjoint_tables r p ds t y" and nx: "nx = 0 \<or> nx = NX" and "K \<le> 2048"
  shows "k \<le> K \<Longrightarrow> mapped r p ds t y k u 0 (\<lambda>n. layout_flags l (page n) nx) mem \<Longrightarrow>
    case map_regions l nx (page p) (page t) [k..<K] (u, mem) of
      None \<Rightarrow> SPLIT_CAPACITY < u + split_regions l k K
    | Some (u', mem') \<Rightarrow> u' = u + split_regions l k K \<and> u' \<le> SPLIT_CAPACITY \<and> mapped r p ds t y K u' 0 (\<lambda>n. layout_flags l (page n) nx) mem'"
proof (induction "K - k" arbitrary: k u mem)
  case 0
  then have "u \<le> SPLIT_CAPACITY" by (auto simp: mapped_def owns_def)
  then show ?case using 0 by (simp add: split_regions_def)
next
  case (Suc d)
  have k: "k < K" "k < 2048" using Suc(2) assms(3) by simp_all
  have L: "linked r p ds mem" and u: "u \<le> SPLIT_CAPACITY" using Suc.prems(2) by (auto simp: mapped_def owns_def)
  have c: "split_regions l k K = (if layout_split l (page (512 * k)) then 1 else 0) + split_regions l (Suc k) K"
    unfolding split_regions_def by (subst upt_conv_Cons [OF k(1)]) simp
  have m: "map_regions l nx (page p) (page t) [k..<K] (u, mem) =
      (case map_region l nx (page p) (page t) k (u, mem) of None \<Rightarrow> None | Some s \<Rightarrow> map_regions l nx (page p) (page t) [Suc k..<K] s)"
    by (subst upt_conv_Cons [OF k(1)]) (simp only: map_regions.simps)
  show ?case
  proof (cases "map_region l nx (page p) (page t) k (u, mem)")
    case None
    then have "layout_split l (page (512 * k))" "u \<ge> SPLIT_CAPACITY" unfolding map_region_eq [OF L k(2)] by (simp_all split: if_splits)
    then show ?thesis unfolding m None c by simp
  next
    case (Some s)
    obtain u1 mem1 where s: "s = (u1, mem1)" by (cases s)
    note M = map_region_step [OF D Suc.prems(2) k(2) nx Some [unfolded s]]
    have u1: "u1 + split_regions l (Suc k) K = u + split_regions l k K"
      using Some unfolding s c map_region_eq [OF L k(2)] by (auto split: if_splits)
    have "d = K - Suc k" "Suc k \<le> K" using Suc(2) by simp_all
    from Suc(1) [OF this M] show ?thesis unfolding m Some s option.case u1 .
  qed
qed

lemma mapped_start: "linked r p ds mem \<Longrightarrow> mapped r p ds t y 0 0 0 F mem"
  by (auto simp: mapped_def owns_def intro!: exI [of _ Map.empty])

lemma initialize_outcome:
  assumes "disjoint_tables r p ds t y" "linked r p ds mem"
  shows "case paging_initialize l nx_active (page r) (page t) mem of
      None \<Rightarrow> \<not> (layout_ok l \<and> split_regions l 0 2048 \<le> SPLIT_CAPACITY)
    | Some (u, mem') \<Rightarrow> layout_ok l \<and> split_regions l 0 2048 \<le> SPLIT_CAPACITY \<and> mapped r p ds t y 2048 u 0 (\<lambda>n. layout_flags l (page n) (nx_page_flag nx_active)) mem'"
proof -
  have "mem (page r) AND ADDRESS = page p" using assms(2) by (simp add: linked_def)
  then show ?thesis using map_regions_outcome [OF assms(1) nx_cases order_refl le0 mapped_start [OF assms(2)], of l nx_active]
    unfolding paging_initialize_def by (auto split: option.splits simp del: upt_rec_numeral)
qed

section \<open>Changing one page\<close>

lemma page_index:
  assumes "n < 2 ^ 20"
  shows "unat (page n div (512 * HUGE)) = n div 512 div 512" "unat ((page n div HUGE) mod 512) = n div 512 mod 512"
    "unat ((page n div PAGE) mod 512) = n mod 512" "page n mod PAGE = 0" "page n < push_bit 32 1" "page n = 0 \<longleftrightarrow> n = 0"
proof -
  have n: "unat (page n) = 4096 * n" using assms by (intro unat_page) simp
  have c: "unat HUGE = 2097152" "unat (512 * HUGE) = 1073741824" "unat PAGE = 4096" "unat (push_bit 32 1 :: u64) = 4294967296" unfolding HUGE_def PAGE_def by simp_all
  show "unat (page n div (512 * HUGE)) = n div 512 div 512" "unat ((page n div HUGE) mod 512) = n div 512 mod 512"
    "unat ((page n div PAGE) mod 512) = n mod 512" unfolding unat_div_distrib unat_mod_distrib n c by (simp_all add: div_mult2_eq [symmetric])
  have "unat (page n mod PAGE) = 0" unfolding unat_mod_distrib n c by simp
  then show "page n mod PAGE = 0" by (metis unat_eq_zero)
  show "page n < push_bit 32 1" unfolding word_less_nat_alt n c using assms by simp
  have "page n = 0 \<longleftrightarrow> unat (page n) = 0" by (metis unat_eq_zero)
  then show "page n = 0 \<longleftrightarrow> n = 0" unfolding n by simp
qed

lemma page_of_address:
  assumes "physical < push_bit 32 1" "physical mod PAGE = 0"
  obtains n where "n < 2 ^ 20" "physical = page n"
proof
  have c: "unat PAGE = 4096" "unat (push_bit 32 1 :: u64) = 4294967296" unfolding PAGE_def by simp_all
  have "unat (physical mod PAGE) = 0" unfolding assms(2) by simp
  then have m: "unat physical mod 4096 = 0" unfolding unat_mod_distrib c .
  show b: "unat physical div 4096 < 2 ^ 20" using assms(1) unfolding word_less_nat_alt c by simp
  have "unat (page (unat physical div 4096)) = unat physical" using m b by (subst unat_page) auto
  then show "physical = page (unat physical div 4096)" by (metis word_unat_eq_iff)
qed

lemma set_identity_frame_eq:
  assumes "linked r p ds mem" "n < 2 ^ 20" "n \<noteq> 0"
  shows "set_identity_frame (page r) (page y) (page n) flags (v, mem) =
    (let e = mem (slot ds (n div 512)) in
     if e AND LARGE \<noteq> 0 then
       if v \<ge> DYNAMIC_SPLIT_CAPACITY then (False, v, mem)
       else (True, v + 1, ((fill_table (page (y + v)) (\<lambda>i. ((e AND ADDRESS) + page i) OR (e AND rights)) mem)
         (slot ds (n div 512) := page (y + v) OR PRESENT OR WRITE))(cell (page (y + v)) (n mod 512) := page n OR flags))
     else (True, v, mem(cell (e AND ADDRESS) (n mod 512) := page n OR flags)))"
proof -
  have "n div 512 div 512 < 4" using assms(2) by (simp add: div_less_iff_less_mult)
  then have d: "mem (cell (page p) (n div 512 div 512)) AND ADDRESS = page (ds (n div 512 div 512))" "mem (cell (page p) (n div 512 div 512)) AND PRESENT \<noteq> 0"
    "mem (page r) AND ADDRESS = page p" using assms(1) by (simp_all add: linked_def)
  have c: "(page n = 0 \<or> page n \<ge> push_bit 32 1 \<or> page n mod PAGE \<noteq> 0) = False"
    using assms(3) page_index(4-6) [OF assms(2)] by (metis not_less)
  show ?thesis unfolding set_identity_frame_def case_prod_conv c if_False page_index(1-3) [OF assms(2)] Let_def d page_offset page_add slot_def rights_def using d(2) by simp
qed

lemma split_dynamic:
  assumes D: "disjoint_tables r p ds t y" and own: "owns t u y v own" and k: "k < 2048" and v: "v < DYNAMIC_SPLIT_CAPACITY"
    and g: "g AND ADDRESS = 0" "\<forall>i<512. F (512 * k + i) = g AND rights"
    and mem': "mem' = (fill_table (page (y + v)) (\<lambda>i. (page (512 * k) + page i) OR (g AND rights)) mem)(slot ds k := page (y + v) OR PRESENT OR WRITE)"
  shows "owns t u y (v + 1) (own(k \<mapsto> y + v))" "linked r p ds mem \<Longrightarrow> linked r p ds mem'"
    "j < 2048 \<Longrightarrow> region_ok ds own F mem j \<Longrightarrow> region_ok ds (own(k \<mapsto> y + v)) F mem' j"
proof -
  have T: "y + v \<in> {t..<t + SPLIT_CAPACITY} \<union> {y..<y + DYNAMIC_SPLIT_CAPACITY}" using v by simp
  have u: "u \<le> SPLIT_CAPACITY" using own by (simp add: owns_def)
  then have "y + v \<notin> {t..<t + u}" using page_numbers(9) [OF D, of "y + v" "y + v"] v by auto
  then have new: "y + v \<notin> ran own" using own by (auto simp: owns_def)
  show "owns t u y (v + 1) (own(k \<mapsto> y + v))" using owns_new [OF own new, of u "v + 1" k] u v by simp
  have g': "(g AND rights) AND ADDRESS = 0" "(g AND rights) AND rights = g AND rights" using g(1) by (simp_all add: and.assoc and.commute [of rights])
  have sp: "(page (512 * k) + page i) OR (g AND rights) = page (512 * k + i) OR (g AND rights)" "\<forall>i<512. F (512 * k + i) = (g AND rights) AND rights" for i
    unfolding g'(2) using g(2) by (simp_all only: page_add)
  note split = split_region [where f = "\<lambda>i. (page (512 * k) + page i) OR (g AND rights)" and h = "\<lambda>_. g AND rights" and F = F, OF D k T sp(1) g'(1) sp(2) mem']
  show "linked r p ds mem \<Longrightarrow> linked r p ds mem'" by (rule split(1))
  show "j < 2048 \<Longrightarrow> region_ok ds own F mem j \<Longrightarrow> region_ok ds (own(k \<mapsto> y + v)) F mem' j"
    using split(2) split(3) [OF _ _ own new] by (cases "j = k") simp_all
qed

lemma set_identity_mapped:
  assumes D: "disjoint_tables r p ds t y" and m: "mapped r p ds t y 2048 u v F mem" and f: "flags AND ADDRESS = 0" "flags AND rights = flags" and n: "n < 2 ^ 20" "n \<noteq> 0"
  shows "\<exists>ok v' mem'. set_identity_frame (page r) (page y) (page n) flags (v, mem) = (ok, v', mem')
    \<and> (if ok then mapped r p ds t y 2048 u v' (F(n := flags)) mem' else v' = v \<and> mem' = mem \<and> v = DYNAMIC_SPLIT_CAPACITY)"
proof -
  define k i where "k = n div 512" and "i = n mod 512"
  have ki: "n = 512 * k + i" "i < 512" "k < 2048" using n(1) by (simp_all add: k_def i_def div_less_iff_less_mult)
  obtain own where L: "linked r p ds mem" and own: "owns t u y v own" "\<forall>k\<ge>2048. own k = None" "own 0 \<noteq> None" and R: "\<And>k. k < 2048 \<Longrightarrow> region_ok ds own F mem k"
    using m by (auto simp: mapped_def)
  note eq = set_identity_frame_eq [OF L n, folded k_def i_def]
  have k40: "512 * k < 2 ^ 40" using ki by simp
  show ?thesis
  proof (cases "own k")
    case (Some T)
    have T: "T < 2 ^ 40" using owns_pool [OF own(1) Some] by (rule page_numbers(4) [OF D])
    have e: "mem (slot ds k) = page T OR PRESENT OR WRITE" using R [OF ki(3)] Some by (simp add: region_ok_def)
    note st = store_region [OF D own(1) Some ki(2) f(1) refl, folded ki(1), unfolded f(2)]
    show ?thesis unfolding eq e table_entry [OF T] Let_def using st(1) [OF L] st(2) [OF _ R] own by (auto simp: mapped_def)
  next
    case None
    obtain g where g: "g AND ADDRESS = 0" "g AND LARGE \<noteq> 0" "mem (slot ds k) = page (512 * k) OR g" "\<forall>i<512. F (512 * k + i) = g AND rights"
      using R [OF ki(3)] None by (auto simp: region_ok_def)
    note e = page_or [OF k40 g(1)]
    show ?thesis
    proof (cases "v \<ge> DYNAMIC_SPLIT_CAPACITY")
      case True
      then show ?thesis using own(1) g(2) unfolding eq g(3) e Let_def by (auto simp: owns_def)
    next
      case False
      define own1 where "own1 = own(k \<mapsto> y + v)"
      define mem1 where "mem1 = (fill_table (page (y + v)) (\<lambda>i. (page (512 * k) + page i) OR (g AND rights)) mem)(slot ds k := page (y + v) OR PRESENT OR WRITE)"
      have "v < DYNAMIC_SPLIT_CAPACITY" using False by simp
      note new = split_dynamic [where F = F, OF D own(1) ki(3) this g(1,4) mem1_def, folded own1_def]
      note own1 = new(1)
      note st = store_region [OF D own1, of k "y + v", OF _ ki(2) f(1) refl, folded ki(1), unfolded f(2)]
      have k1: "own1 k = Some (y + v)" "own1 0 \<noteq> None" "\<forall>k\<ge>2048. own1 k = None" using own ki(3) by (auto simp: own1_def)
      have "mapped r p ds t y 2048 u (v + 1) (F(n := flags)) (mem1(cell (page (y + v)) i := page n OR flags))"
        unfolding mapped_def using st [OF k1(1), where mem = mem1] new(2) [OF L] new(3) [OF _ R] own1 k1 by (intro conjI exI [of _ own1]) simp_all
      then show ?thesis using False g(2) unfolding eq g(3) e Let_def mem1_def by auto
    qed
  qed
qed

lemma seal_ap_mapped:
  assumes D: "disjoint_tables r p ds t y" and m: "mapped r p ds t y 2048 u v F mem"
  shows "mapped r p ds t y 2048 u v (F(8 := PRESENT)) (seal_ap_trampoline (page r) mem)"
proof -
  obtain own T where L: "linked r p ds mem" and own: "owns t u y v own" "\<forall>k\<ge>2048. own k = None" "own 0 = Some T" and R: "\<And>k. k < 2048 \<Longrightarrow> region_ok ds own F mem k"
    using m by (auto simp: mapped_def)
  have T: "T < 2 ^ 40" using owns_pool [OF own(1,3)] by (rule page_numbers(4) [OF D])
  have "mem (slot ds 0) = page T OR PRESENT OR WRITE" using R [of 0] own(3) by (simp add: region_ok_def)
  then have pd: "mem (page (ds 0)) AND ADDRESS = page T" by (simp add: slot_def table_entry [OF T])
  have "mem (page r) AND ADDRESS = page p" "mem (page p) AND ADDRESS = page (ds 0)" using L [unfolded linked_def] by (auto dest: spec [of _ 0])
  moreover have "0x8000 = page 8" by (simp add: page_of_nat)
  ultimately have e: "seal_ap_trampoline (page r) mem = mem(cell (page T) 8 := page 8 OR PRESENT)" by (simp add: seal_ap_trampoline_def Let_def pd)
  note f = plain_flags [of 0 PRESENT, simplified]
  note st = store_region [OF D own(1,3) _ f(1) refl, of 8, unfolded f(2) mult_0_right add_0]
  show ?thesis unfolding e mapped_def using st(1) [OF _ L] st(2) [OF _ _ R] own by (intro conjI exI [of _ own]) auto
qed

section \<open>Properties\<close>

text \<open>The states of the map after the kernel has set it up: the processor trampoline is sealed, and the frames of Forms are sealed and
  unsealed in any order, with any address.\<close>

inductive paging_reaches :: "kernel_layout \<Rightarrow> bool \<Rightarrow> u64 \<Rightarrow> u64 \<Rightarrow> u64 \<Rightarrow> memory \<Rightarrow> nat \<times> memory \<Rightarrow> bool"
  for l nx_active root tables dynamic boot where
  initialized: "paging_initialize l nx_active root tables boot = Some (used, mem) \<Longrightarrow> paging_reaches l nx_active root tables dynamic boot (0, mem)"
| trampoline: "paging_reaches l nx_active root tables dynamic boot (v, mem) \<Longrightarrow>
    paging_reaches l nx_active root tables dynamic boot (v, seal_ap_trampoline root mem)"
| sealed: "paging_reaches l nx_active root tables dynamic boot s \<Longrightarrow> seal_form_code_frame nx_active root dynamic physical s = (ok, s') \<Longrightarrow>
    paging_reaches l nx_active root tables dynamic boot s'"
| unsealed: "paging_reaches l nx_active root tables dynamic boot s \<Longrightarrow> unseal_form_frame nx_active root dynamic physical s = (ok, s') \<Longrightarrow>
    paging_reaches l nx_active root tables dynamic boot s'"

definition plain :: "u64 \<Rightarrow> u64 set" where
  "plain nx = {0, PRESENT, PRESENT OR nx, PRESENT OR WRITE OR nx}"

lemma set_identity_plain:
  assumes D: "disjoint_tables r p ds t y" and nx: "nx = 0 \<or> nx = NX" and m: "mapped r p ds t y 2048 u v F mem" and F: "\<forall>n. F n \<in> plain nx"
    and f: "flags \<in> plain nx" and e: "set_identity_frame (page r) (page y) physical flags (v, mem) = (ok, v', mem')"
  shows "\<exists>F'. mapped r p ds t y 2048 u v' F' mem' \<and> (\<forall>n. F' n \<in> plain nx)"
proof (cases "physical = 0 \<or> physical \<ge> push_bit 32 1 \<or> physical mod PAGE \<noteq> 0")
  case True
  then have "v' = v" "mem' = mem" using e unfolding set_identity_frame_def case_prod_conv if_P [OF True] by simp_all
  then show ?thesis using m F by blast
next
  case False
  then obtain n where n: "n < 2 ^ 20" "physical = page n" using page_of_address [of physical] by (metis not_le)
  then have "n \<noteq> 0" using False page_index(6) by blast
  note pf = plain_flags [OF nx f [unfolded plain_def]]
  have "if ok then mapped r p ds t y 2048 u v' (F(n := flags)) mem' else v' = v \<and> mem' = mem"
    using set_identity_mapped [OF D m pf n(1) \<open>n \<noteq> 0\<close>] e unfolding n(2) by (auto split: if_splits)
  moreover have "\<forall>j. (F(n := flags)) j \<in> plain nx" using F f by simp
  ultimately show ?thesis using m F by (cases ok) (simp_all only: if_True if_False, blast+)
qed

lemma set_identity_step:
  assumes D: "disjoint_tables r p ds t y" and nx: "nx = 0 \<or> nx = NX" and m: "\<exists>u F. mapped r p ds t y 2048 u (fst s) F (snd s) \<and> (\<forall>n. F n \<in> plain nx)"
    and f: "flags \<in> plain nx" and e: "set_identity_frame (page r) (page y) physical flags s = (ok, s')"
  shows "\<exists>u F. mapped r p ds t y 2048 u (fst s') F (snd s') \<and> (\<forall>n. F n \<in> plain nx)"
proof -
  obtain v mem v' mem' where s: "s = (v, mem)" "s' = (v', mem')" by (cases s; cases s')
  obtain u F where F: "mapped r p ds t y 2048 u v F mem" "\<forall>n. F n \<in> plain nx" using m unfolding s fst_conv snd_conv by blast
  show ?thesis using set_identity_plain [OF D nx F f e [unfolded s]] unfolding s fst_conv snd_conv by blast
qed

lemma paging_reaches_mapped:
  assumes D: "disjoint_tables r p ds t y" and L: "linked r p ds boot" and "paging_reaches l nx_active (page r) (page t) (page y) boot s"
  shows "\<exists>u F. mapped r p ds t y 2048 u (fst s) F (snd s) \<and> (\<forall>n. F n \<in> plain (nx_page_flag nx_active))"
  using assms(3)
proof induction
  case (initialized used mem)
  then show ?case using initialize_outcome [OF D L, of l nx_active] layout_flags_cases by (fastforce simp: plain_def)
next
  case (trampoline v mem)
  then obtain u F where "mapped r p ds t y 2048 u v F mem" "\<forall>n. F n \<in> plain (nx_page_flag nx_active)" by auto
  moreover from this(2) have "\<forall>n. (F(8 := PRESENT)) n \<in> plain (nx_page_flag nx_active)" by (simp add: plain_def)
  ultimately show ?case unfolding fst_conv snd_conv using seal_ap_mapped [OF D] by blast
next
  case (sealed s physical ok s')
  show ?case by (rule set_identity_step [OF D nx_cases sealed(3) _ sealed(2) [unfolded seal_form_code_frame_def]]) (simp add: plain_def)
next
  case (unsealed s physical ok s')
  show ?case by (rule set_identity_step [OF D nx_cases unsealed(3) _ unsealed(2) [unfolded unseal_form_frame_def]]) (simp add: plain_def)
qed

text \<open>A kernel of 64 KiB of code at 1 MiB followed by 64 KiB of constants, and the tables its bootstrap code leaves.\<close>

definition demo_layout :: kernel_layout where
  "demo_layout = \<lparr>text_start = page 256, text_end = page 272, rodata_start = page 272, rodata_end = page 288\<rparr>"

definition demo_boot :: memory where
  "demo_boot = (\<lambda>_. 0)(page 1 := page 2 OR PRESENT, cell (page 2) 0 := page 3 OR PRESENT, cell (page 2) 1 := page 4 OR PRESENT,
     cell (page 2) 2 := page 5 OR PRESENT, cell (page 2) 3 := page 6 OR PRESENT)"

lemma demo_tables: "disjoint_tables 1 2 (\<lambda>i. 3 + i) 512 600"
proof -
  have "set (map (\<lambda>i. 3 + i) [0..<4]) = {3, 4, 5, 6 :: nat}" "distinct (map (\<lambda>i. 3 + i) [0..<4::nat])" by (simp_all add: upt_rec)
  then show ?thesis unfolding disjoint_tables_def table_pages_def distinct_append set_append set_upt SPLIT_CAPACITY_def DYNAMIC_SPLIT_CAPACITY_def by auto
qed

lemma demo_linked: "linked 1 2 (\<lambda>i. 3 + i) demo_boot"
proof -
  have "PRESENT AND ADDRESS = 0" "PRESENT AND PRESENT \<noteq> 0" unfolding PRESENT_def ADDRESS_def by code_simp+
  then have e: "(page n OR PRESENT) AND ADDRESS = page n" "(page n OR PRESENT) AND PRESENT \<noteq> 0" if "n < 2 ^ 40" for n
    using page_or(1) [OF that] by (simp_all add: bit.conj_disj_distrib2 page_flags(1) [OF that])
  have "demo_boot (page 1) = page 2 OR PRESENT" by (simp add: demo_boot_def cell_def page_of_nat)
  moreover have "demo_boot (cell (page 2) i) = page (3 + i) OR PRESENT" if "i < 4" for i
  proof -
    have "i = 0 \<or> i = 1 \<or> i = 2 \<or> i = 3" using that by auto
    then show ?thesis by (auto simp: demo_boot_def cell_def page_of_nat)
  qed
  moreover have "PRESENT \<noteq> 0" by (simp add: PRESENT_def)
  ultimately show ?thesis unfolding linked_def by (auto simp: e)
qed

lemma demo_split: "layout_ok demo_layout" "split_regions demo_layout 0 2048 \<le> SPLIT_CAPACITY"
proof -
  show "layout_ok demo_layout" unfolding layout_ok_def demo_layout_def PAGE_def by (simp add: page_of_nat)
  have "\<not> layout_split demo_layout (page (512 * k))" if "k \<in> set [1..<2048]" for k
  proof -
    have k: "512 * k < 2 ^ 40" "0 < k" "k < 2048" using that by simp_all
    then have "unat (page (512 * k)) = 4096 * (512 * k)" using unat_page by blast
    moreover have "unat (page 272) = 4096 * 272" "unat (page 288) = 4096 * 288" by (rule unat_page, simp)+
    ultimately have "\<not> page (512 * k) < page 272" "\<not> page (512 * k) < page 288" "page (512 * k) \<noteq> 0"
      using k unfolding word_less_nat_alt by (auto simp: unat_eq_zero [symmetric] simp del: unat_eq_zero)
    then show ?thesis by (simp add: layout_split_def demo_layout_def)
  qed
  then have "filter (\<lambda>j. layout_split demo_layout (page (512 * j))) [1..<2048] = []" by (auto simp only: filter_empty_conv)
  moreover have "[0..<2048] = 0 # [1..<2048 :: nat]" by (subst upt_conv_Cons) simp_all
  ultimately show "split_regions demo_layout 0 2048 \<le> SPLIT_CAPACITY" by (simp add: split_regions_def SPLIT_CAPACITY_def del: upt_rec_numeral)
qed

lemma demo_initialized: "\<exists>u mem. paging_initialize demo_layout True (page 1) (page 512) demo_boot = Some (u, mem)"
  using initialize_outcome [OF demo_tables demo_linked, of demo_layout True] demo_split by (auto split: option.splits)

text \<open>
  C11: the identity map after initialisation is the one the kernel layout asks for. It succeeds exactly when the sections are
  page-aligned and in order and the regions they touch fit the pool of tables; then every page below 4 GiB is mapped to itself, the null
  page is absent, code is read-only and executable, constants are read-only and not executable, and the rest is writable and not executable.
\<close>

theorem initialize_exact:
  assumes "disjoint_tables r p ds t y" and "linked r p ds boot"
  shows "case paging_initialize l nx_active (page r) (page t) boot of
      None \<Rightarrow> \<not> (layout_ok l \<and> split_regions l 0 2048 \<le> SPLIT_CAPACITY)
    | Some (used, mem) \<Rightarrow> layout_ok l \<and> split_regions l 0 2048 \<le> SPLIT_CAPACITY
        \<and> (\<forall>n<2 ^ 20. leaf (page r) mem n = (page n, layout_flags l (page n) (nx_page_flag nx_active)))"
  using initialize_outcome [OF assms, of l nx_active] mapped_leaf [OF assms(1)] by (auto split: option.splits)

theorem initialize_exact_witness:
  "\<exists>u mem. paging_initialize demo_layout True (page 1) (page 512) demo_boot = Some (u, mem) \<and> leaf (page 1) mem 256 = (page 256, PRESENT)
     \<and> leaf (page 1) mem 280 = (page 280, PRESENT OR NX) \<and> leaf (page 1) mem 1000000 = (page 1000000, PRESENT OR WRITE OR NX)"
proof -
  obtain u mem where i: "paging_initialize demo_layout True (page 1) (page 512) demo_boot = Some (u, mem)" using demo_initialized by blast
  have "layout_flags demo_layout (page 256) NX = PRESENT" "layout_flags demo_layout (page 280) NX = PRESENT OR NX"
    "layout_flags demo_layout (page 1000000) NX = PRESENT OR WRITE OR NX" by (simp_all add: layout_flags_def demo_layout_def page_of_nat)
  moreover have "leaf (page 1) mem n = (page n, layout_flags demo_layout (page n) NX)" if "n < 2 ^ 20" for n
    using initialize_exact [OF demo_tables demo_linked, of demo_layout True] that unfolding i by (simp add: nx_page_flag_def NX_def)
  from this [of 256] this [of 280] this [of 1000000] have "leaf (page 1) mem 256 = (page 256, layout_flags demo_layout (page 256) NX)"
    "leaf (page 1) mem 280 = (page 280, layout_flags demo_layout (page 280) NX)" "leaf (page 1) mem 1000000 = (page 1000000, layout_flags demo_layout (page 1000000) NX)" by simp_all
  ultimately show ?thesis using i by metis
qed

text \<open>
  C10: where no-execute protection is active, the supervisor map never has a page that is both writable and executable. In every state the kernel reaches by
  initialising the map, sealing the processor trampoline and sealing and unsealing frames at any addresses in any order, each page below
  4 GiB is mapped to itself, and where no-execute protection is active a writable page is not executable.
\<close>

theorem kernel_w_xor_x:
  assumes "disjoint_tables r p ds t y" and "linked r p ds boot"
    and "paging_reaches l nx_active (page r) (page t) (page y) boot (v, mem)" and "n < 2 ^ 20"
  shows "fst (leaf (page r) mem n) = page n
    \<and> (nx_active \<and> snd (leaf (page r) mem n) AND WRITE \<noteq> 0 \<longrightarrow> snd (leaf (page r) mem n) AND NX \<noteq> 0)"
proof -
  obtain u F where m: "mapped r p ds t y 2048 u v F mem" "F n \<in> plain (nx_page_flag nx_active)"
    using paging_reaches_mapped [OF assms(1-3)] unfolding fst_conv snd_conv by blast
  note l = mapped_leaf [OF assms(1) m(1) assms(4)]
  have "F n AND NX \<noteq> 0" if "nx_active" "F n AND WRITE \<noteq> 0"
  proof -
    have "F n \<in> {0, 1, 1 OR push_bit 63 1, 1 OR 2 OR push_bit 63 1}" using m(2) that(1) by (simp add: plain_def nx_page_flag_def flag_defs)
    then show ?thesis using that(2) unfolding flag_defs by auto
  qed
  then show ?thesis unfolding l by simp
qed

theorem kernel_w_xor_x_witness:
  "\<exists>v mem mem0. paging_reaches demo_layout True (page 1) (page 512) (page 600) demo_boot (v, mem)
     \<and> snd (unseal_form_frame True (page 1) (page 600) (page 256) (0, seal_ap_trampoline (page 1) mem0)) = (v, mem)
     \<and> fst (leaf (page 1) mem 256) = page 256 \<and> (snd (leaf (page 1) mem 256) AND WRITE = 0 \<or> snd (leaf (page 1) mem 256) AND NX > 0)"
proof -
  obtain u mem0 where i: "paging_initialize demo_layout True (page 1) (page 512) demo_boot = Some (u, mem0)" using demo_initialized by blast
  obtain ok v mem where s: "unseal_form_frame True (page 1) (page 600) (page 256) (0, seal_ap_trampoline (page 1) mem0) = (ok, v, mem)"
    by (metis prod.exhaust)
  have r: "paging_reaches demo_layout True (page 1) (page 512) (page 600) demo_boot (v, mem)"
    using paging_reaches.unsealed [OF paging_reaches.trampoline [OF paging_reaches.initialized [OF i]] s] .
  show ?thesis using kernel_w_xor_x [OF demo_tables demo_linked r, of 256] r s
    by (intro exI [of _ v] exI [of _ mem] exI [of _ mem0]) (auto simp: word_gt_0)
qed

text \<open>
  C12: sealing or unsealing a frame changes that page and no other. In every state the kernel reaches, a call that succeeds leaves
  the named page mapped to itself with exactly the rights asked for, and the mapping of every other page below 4 GiB as it was, also when it
  breaks a 2 MiB mapping into a table; a call on a page below 4 GiB that fails changes nothing, and fails only for the null page or when the dynamic pool is full.
\<close>

theorem seal_exact:
  assumes "disjoint_tables r p ds t y" and "linked r p ds boot"
    and "paging_reaches l nx_active (page r) (page t) (page y) boot (v, mem)" and "n < 2 ^ 20" and "j < 2 ^ 20"
    and "(if sealing then seal_form_code_frame else unseal_form_frame) nx_active (page r) (page y) (page n) (v, mem) = (ok, v', mem')"
  shows "if ok then leaf (page r) mem' j = (if j = n then (page n, if sealing then PRESENT OR nx_page_flag nx_active else PRESENT OR WRITE OR nx_page_flag nx_active)
      else leaf (page r) mem j)
    else v' = v \<and> mem' = mem \<and> (n = 0 \<or> v = DYNAMIC_SPLIT_CAPACITY)"
proof -
  let ?f = "if sealing then PRESENT OR nx_page_flag nx_active else PRESENT OR WRITE OR nx_page_flag nx_active"
  have e: "set_identity_frame (page r) (page y) (page n) ?f (v, mem) = (ok, v', mem')"
    using assms(6) by (simp add: seal_form_code_frame_def unseal_form_frame_def split: if_splits)
  obtain u F where m: "mapped r p ds t y 2048 u v F mem" using paging_reaches_mapped [OF assms(1-3)] unfolding fst_conv snd_conv by blast
  have pf: "?f AND ADDRESS = 0" "?f AND rights = ?f" using plain_flags [OF nx_cases [of nx_active], of ?f] by auto
  show ?thesis
  proof (cases "n = 0")
    case True
    then have "page n = 0" by (simp add: page_def)
    then show ?thesis using e True by (simp add: set_identity_frame_def)
  next
    case False
    have st: "if ok then mapped r p ds t y 2048 u v' (F(n := ?f)) mem' else v' = v \<and> mem' = mem \<and> v = DYNAMIC_SPLIT_CAPACITY"
      using set_identity_mapped [OF assms(1) m pf assms(4) False] unfolding e by blast
    then show ?thesis using mapped_leaf [OF assms(1) m assms(5)] mapped_leaf [OF assms(1) _ assms(5), of u v' "F(n := ?f)" mem']
      by (cases ok) (simp_all only: if_True if_False, simp_all)
  qed
qed

theorem seal_exact_witness:
  "\<exists>u mem v' mem'. paging_initialize demo_layout True (page 1) (page 512) demo_boot = Some (u, mem)
     \<and> seal_form_code_frame True (page 1) (page 600) (page 5000) (0, mem) = (True, v', mem')
     \<and> leaf (page 1) mem' 5000 = (page 5000, PRESENT OR nx_page_flag True) \<and> leaf (page 1) mem' 5001 = leaf (page 1) mem 5001"
proof -
  obtain u mem where i: "paging_initialize demo_layout True (page 1) (page 512) demo_boot = Some (u, mem)" using demo_initialized by blast
  obtain ok v' mem' where s: "seal_form_code_frame True (page 1) (page 600) (page 5000) (0, mem) = (ok, v', mem')" by (metis prod.exhaust)
  have s': "(if True then seal_form_code_frame else unseal_form_frame) True (page 1) (page 600) (page 5000) (0, mem) = (ok, v', mem')" using s by simp
  note e = seal_exact [OF demo_tables demo_linked paging_reaches.initialized [OF i] _ _ s']
  have "ok" using e [of 5000] by (simp add: DYNAMIC_SPLIT_CAPACITY_def split: if_splits)
  then show ?thesis using e [of 5000] e [of 5001] i s by auto
qed

end
