(* ===== verification/Spec2Isabelle.thy ===== *)
theory Spec2Isabelle
  imports Capability Budget Scope Policy Form_Registry Relationships Recovery Exp_Fs Scheduler Abi Native_Image Protection Http
    Frames Known_Answers Durability Display Pacing Controls Paging
begin

text \<open>
  ExpOS: the architecture core and the parts of the kernel that keep its promises.

  \<^bold>\<open>The program.\<close> ExpOS runs \<^emph>\<open>Forms\<close> (programs and documents) on behalf of a \<^emph>\<open>CFC\<close>, the owner of Forms and of the
  \<^emph>\<open>Dimensions\<close> in which they are visible. Identities are 128-bit numbers (FIN). The right to act on a Form is a \<^emph>\<open>Handle\<close> of the
  capability broker; a request of a running Form passes the call gate, which asks the broker. Execution contexts are scheduled in slices and
  charged to budgets. State lives in ExpFS: a versioned record database, a chunked content store, and two slots on disk that commits
  write in turn. The kernel beneath leases physical frames, keeps the supervisor map free of pages that are writable and executable
  (where the processor has no-execute protection), paces the display, and serves events and limits to the operator.

  \<^bold>\<open>Theories and sources.\<close> Paths are relative to \<^verbatim>\<open>src/crates/expos-core/src\<close> and \<^verbatim>\<open>src/kernel/src\<close>. A definition has the
  name of the function it models, with a prefix where two types share a method name.
  \<^item> \<open>Prelude\<close>, \<open>Slots\<close>, \<open>Ring\<close>, \<open>Bytes\<close>: results, checked and saturating arithmetic, the slot arrays, ring buffers and byte buffers the
    sources share. The interfaces are here: \<open>bounded_table\<close> and \<open>keyed_table\<close> (publishing into a slot array), \<open>fifo_queue\<close> and
    \<open>bounded_queue\<close> (rings), \<open>invariant_system\<close> (a step relation with an invariant); \<open>versioned_log\<close> is in \<open>Exp_Fs\<close>.
  \<^item> \<open>Identity\<close> (\<^verbatim>\<open>fin.rs\<close>, \<^verbatim>\<open>text.rs\<close>), \<open>Cfc\<close> (\<^verbatim>\<open>cfc.rs\<close>): identities, names, ownership and the catalog.
  \<^item> \<open>Capability\<close> (\<^verbatim>\<open>capability.rs\<close>): the broker with delegation, seals and revocation. \<open>Abi\<close> (\<^verbatim>\<open>abi.rs\<close>): the call gate, with the service
    behind it as an argument. \<open>Scope\<close> (\<^verbatim>\<open>scope.rs\<close>), \<open>Policy\<close> (\<^verbatim>\<open>pimp.rs\<close>, \<^verbatim>\<open>diese.rs\<close>), \<open>Protection\<close> (\<^verbatim>\<open>protection.rs\<close>), \<open>Budget\<close>
    (\<^verbatim>\<open>budget.rs\<close>): further limits on what a Form may do.
  \<^item> \<open>Form_Registry\<close> (\<^verbatim>\<open>form.rs\<close>), \<open>Relationships\<close> (\<^verbatim>\<open>relationship.rs\<close>): the catalogue of Forms, Dimensions and edges.
  \<^item> \<open>Exec_Context\<close>, \<open>Scheduler\<close> (\<^verbatim>\<open>execution.rs\<close>): contexts, their queues and heap, and every operation of the scheduler.
  \<^item> \<open>Native_Image\<close> (\<^verbatim>\<open>native_image.rs\<close>, \<^verbatim>\<open>native_compiler.rs\<close>), \<open>Http\<close> (\<^verbatim>\<open>http.rs\<close>): executable images and response decoding.
  \<^item> \<open>Blob\<close> (\<^verbatim>\<open>blob.rs\<close>), \<open>Exp_Fs\<close> (\<^verbatim>\<open>expfs.rs\<close>), \<open>Recovery\<close> (\<^verbatim>\<open>recovery.rs\<close>): contents, records and checkpoints in memory.
  \<^item> \<open>Store_Codec\<close>, \<open>Store\<close>, \<open>Durability\<close> (\<^verbatim>\<open>expfs_store.rs\<close>, with \<^verbatim>\<open>storage.rs\<close> and \<^verbatim>\<open>genesis.rs\<close> where it calls them): the disk
    format, the operations of the store, and a commit interrupted at any sector. The disk is a map of sectors with a script that says
    which sector transfers and cache flushes fail, before or after the sector reached the disk; the
    authenticated cipher is an argument with its documented law (opening inverts sealing) as a hypothesis.
  \<^item> \<open>Crypto\<close>, \<open>Known_Answers\<close> (\<^verbatim>\<open>crypto.rs\<close>): SHA-256, HMAC, PBKDF2 and the helpers around them.
  \<^item> \<open>Frames\<close> (\<^verbatim>\<open>memory.rs\<close>), \<open>Paging\<close> (\<^verbatim>\<open>paging.rs\<close> and the no-execute flag of \<^verbatim>\<open>security.rs\<close>): physical frames and the
    supervisor map, with the walk of the processor as the specification.
  \<^item> \<open>Display\<close> (\<^verbatim>\<open>display.rs\<close>), \<open>Pacing\<close> (\<^verbatim>\<open>display_timing.rs\<close>), \<open>Controls\<close> (\<^verbatim>\<open>kernel_controls.rs\<close>): surfaces, frame deadlines, and
    tunables, events and limits.

  \<^bold>\<open>How code is read.\<close> A struct is a record, an enum a datatype, an array of options a list of fixed length, \<^verbatim>\<open>u8\<close> to \<^verbatim>\<open>u64\<close> are words with
  the wrapping, checked or saturating operation the source uses; \<^verbatim>\<open>usize\<close> is a natural number. A method that changes its object
  returns the new one; \<^verbatim>\<open>Result\<close> is a sum, and a panic or failed assertion is \<open>None\<close>, so theorems about results also say that no panic occurs.
  Console output, locks, volatile access and the wiping of buffers have no counterpart.

  \<^bold>\<open>What is shown.\<close> \<^emph>\<open>Authority\<close>: delegation never amplifies, a seal is a ceiling for everything but restored Handles,
  revocation is exact and ends, the gate mediates every call, and a revoked Handle closes it (below, over broker and gate together). \<^emph>\<open>Ownership\<close>: catalogs never share an identity; display requests of
  one Form do not touch another, but for a pointer-motion sample that a full queue gives up. \<^emph>\<open>Storage\<close>: a valid snapshot with whole contents
  and no zero Dimension in a relationship is read back as written, a commit interrupted before the header sector keeps the old one, a database commit
  publishes exactly what was staged and stays within its quota, the checkpoint ring is the list of the last eight. \<^emph>\<open>Resources\<close>: budgets
  balance, frames are leased to one holder, watches match their account, queues refine lists, timers lose no expiration.
  \<^emph>\<open>Scheduling and timing\<close>: one context runs, a ready one runs within eight dispatches, frames are released on the exact
  grid of the rate. \<^emph>\<open>Memory protection\<close>: with no-execute protection active no page is writable and executable,
  and sealing a frame changes that page only.
  \<^emph>\<open>Behaviour worth knowing\<close>: some theorems state what the code does where it differs from its intent, such as a blob
  write that loses the tail, a restart that duplicates an identity, a damage box cut to 16 bits.

  \<^bold>\<open>Bounds and termination.\<close> The capacities are those of the sources. Loops are folds over the ranges of the source, structural recursion, or
  recursive functions with a proof of termination: the revocation loop (each pass that repeats revokes a live Handle), reading and writing
  chunks, absorbing blocks, drawing random words, the chunk and header loops of HTTP, and the greatest common divisor. The
  search for a free identifier counts its attempts, as the source does. Nothing needs fuel beyond what the code itself counts.

  \<^bold>\<open>Not modelled.\<close> Device drivers, interrupts, buses, start-up, the locks and the heap, which are register, port and assembly code; the
  Form runtime and the user-mode services, which need the semantics of the processor; the network stack below HTTP, which exchanges packets
  with device rings and uses a third-party TLS library; the desktop, applications, shell, installer dialogues, session and settings
  screens, which are interactive loops over console and pixels; the browser core, an interpreter of its own size that nothing modelled depends
  on; Argon2 and XChaCha20-Poly1305, which are third-party crates; the vendored interpreters, the host tools, the boot loaders and the retired
  32-bit kernel. Of modelled files, accessors that only return a field, visitors and message strings are left out.
\<close>

section \<open>Revocation at the call gate\<close>

text \<open>
  C5: revoking a Handle closes the call gate to it and to everything derived from it, and to nothing
  else. A request that names a Handle derived from the revoked one is refused without running the service; a
  request that names any other Handle of the table is answered as before.
\<close>

theorem gate_after_revoke:
  assumes "reachable broker_init broker_step b" and "revoke i b = Ok b'"
    and "find_handle b (rq_handle_id q) = Some h"
  shows "if \<exists>a. h_id a = i \<and> derives (handles_of b) a h
    then \<exists>st. st \<noteq> StatusOk \<and> gate_dispatch (gate_new b' cfc target dimension) q tick service s = (response_status st, s)
    else gate_dispatch (gate_new b' cfc target dimension) q tick service s =
      gate_dispatch (gate_new b cfc target dimension) q tick service s"
proof -
  let ?D = "\<lambda>h. \<exists>a. h_id a = i \<and> derives (handles_of b) a h"
  have inv: "broker_inv b" using assms(1) by (rule broker_system.reachable_inv)
  have find: "find_handle b' (rq_handle_id q) = Some (mark ?D h)"
    using revoke_find [OF inv assms(2), of "rq_handle_id q"] assms(3) by simp
  have cfc: "b_cfc b' = b_cfc b" using revoke_marks [OF inv assms(2)] by simp
  show ?thesis
  proof (cases "?D h")
    case True
    have "\<not> gate_admits (gate_new b' cfc target dimension) q tick c h'" for c h'
      using True find by (auto simp: gate_admits_def gate_new_def covers_def mark_def)
    then have "\<exists>st. st \<noteq> StatusOk \<and> gate_dispatch (gate_new b' cfc target dimension) q tick service s = (response_status st, s)"
      by (metis gate_dispatch_cases)
    then show ?thesis using True by simp
  next
    case False
    then have "mark ?D h = h" by (rule mark_same)
    then have same: "find_handle b' (rq_handle_id q) = Some h" using find by simp
    have "authorize b' (rq_handle_id q) target dimension operation tick = authorize b (rq_handle_id q) target dimension operation tick"
      for operation by (simp add: authorize_def same assms(3))
    then have "gate_dispatch (gate_new b' cfc target dimension) q tick service s =
        gate_dispatch (gate_new b cfc target dimension) q tick service s"
      by (cases "request_validate q")
        (simp_all add: gate_dispatch_def gate_new_def authorize_in_def authorize_requester_def cfc same assms(3) split: sum.split)
    then show ?thesis unfolding if_not_P [OF False] .
  qed
qed

definition demo_request :: abi_request where
  "demo_request = \<lparr>rq_version = FORM_ABI_VERSION, rq_call = call_raw Log, rq_caller = from_u128 9, rq_handle_id = 3,
     rq_arguments = []\<rparr>"

theorem gate_after_revoke_witness:
  "\<exists>b' st. revoke 1 demo_b3 = Ok b' \<and> st \<noteq> StatusOk \<and>
     gate_dispatch (gate_new b' (cfc_from_u128 1) (from_u128 6) (from_u128 7)) demo_request 40 (\<lambda>c args n. (response_status StatusOk, Suc n)) 0 =
       (response_status st, 0)"
proof -
  have "list_ex (\<lambda>h. h_id h = 1) (flatten (b_handles demo_b3))" by code_simp
  then obtain b' where rev: "revoke 1 demo_b3 = Ok b'" by (simp add: revoke_def)
  let ?h = "the (find_handle demo_b3 3)"
  have find: "find_handle demo_b3 (rq_handle_id demo_request) = Some ?h" using demo_handles(9) by (simp add: demo_request_def)
  have derived: "\<exists>a. h_id a = 1 \<and> derives (handles_of demo_b3) a ?h" using demo_derives demo_handles(2) by metis
  obtain st where "st \<noteq> StatusOk"
    "gate_dispatch (gate_new b' (cfc_from_u128 1) (from_u128 6) (from_u128 7)) demo_request 40
      (\<lambda>c args n. (response_status StatusOk, Suc n)) 0 = (response_status st, 0)"
    using gate_after_revoke [OF demo_reachable rev find, of "cfc_from_u128 1" "from_u128 6" "from_u128 7" 40
        "\<lambda>c args n. (response_status StatusOk, Suc n)" 0, unfolded if_P [OF derived]] by blast
  then show ?thesis using rev by blast
qed

end
